(* ===== verification/Ledis_Prelude.thy ===== *)
theory Ledis_Prelude
  imports Main "HOL-Library.Word" "HOL-Library.List_Lexorder"
begin

text \<open>
  Shared vocabulary of the development: bytes and Go slices, the error values of the
  packages, the parts of Go's standard library the sources use (\<open>encoding/binary\<close>,
  \<open>strconv\<close>, \<open>bytes.Compare\<close>), and the generic list and order lemmas the component
  theories rely on.

  A Go \<open>[]byte\<close> is a \<open>bytes\<close>; where the code tells \<open>nil\<close> from an empty slice it is a
  \<open>bytes option\<close>. Go's \<open>int64\<close>, \<open>uint64\<close>, \<open>int32\<close> and \<open>uint32\<close> are words of their
  width, read by \<open>sint\<close> where the Go type is signed.
\<close>

type_synonym byte = "8 word"
type_synonym bytes = "8 word list"
type_synonym i64 = "64 word"
type_synonym u64 = "64 word"
type_synonym i32 = "32 word"
type_synonym u32 = "32 word"

named_theorems codec_simps "unfolding and length facts of the byte codecs"
named_theorems codec_inj "injectivity and order facts of the byte codecs"

section \<open>Error values\<close>

text \<open>
  One constructor per error value of the sources; \<open>GoPanic\<close> is a run-time panic
  (an index or slice bound out of range) and \<open>ErrOther\<close> an error built by
  \<open>fmt.Errorf\<close>, with the text that tells it from the others.
\<close>

datatype err =
    ErrKeySize | ErrValueSize | ErrHashFieldSize | ErrSetMemberSize | ErrZSetMemberSize
  | ErrExpireValue | ErrListIndex | ErrIntNumber | ErrKVKey | ErrLMetaKey | ErrListKey
  | ErrListSeq | ErrHashKey | ErrHSizeKey | ErrSetKey | ErrSSizeKey | ErrZSizeKey
  | ErrZSetKey | ErrZScoreKey | ErrScoreOverflow | ErrInvalidAggregate
  | ErrInvalidWeightNum | ErrInvalidSrcKeyNum | ErrScoreMiss | ErrExpMetaKey
  | ErrExpTimeKey | ErrDataType | ErrWriteInROnly | ErrSyntaxInt | ErrRangeInt
  | ErrKeyTooSmall | ErrDBIndex | ErrLogNotFound | ErrStoreLogID | ErrNoBehindLog
  | ErrCommitIDBehind | ErrRplNotSupport | ErrRplInRDWR | ErrLogMissed | ErrTableNeedFlush
  | ErrNilHandler | ErrInvalidEvent | ErrBatchCorrupted string | ErrSnappy
  | ErrEOF | ErrUnexpectedEOF | ErrBackend
  | ErrOther string | GoPanic

type_synonym 'a res = "err + 'a"

section \<open>Lists and orders\<close>

lemma append_less_append_iff [simp]:
  "(p @ xs < p @ ys) = (xs < (ys :: 'a :: linorder list))"
  by (induction p) auto

lemma append_le_append_iff [simp]:
  "(p @ xs \<le> p @ ys) = (xs \<le> (ys :: 'a :: linorder list))"
  by (induction p) auto

lemma same_length_append_less_iff:
  fixes xs ys :: "'a :: linorder list"
  assumes "length xs = length ys"
  shows "xs @ us < ys @ vs \<longleftrightarrow> xs < ys \<or> xs = ys \<and> us < vs"
  using assms by (induction xs ys rule: list_induct2) auto

lemma same_length_append_le_iff:
  fixes xs ys :: "'a :: linorder list"
  assumes "length xs = length ys"
  shows "xs @ us \<le> ys @ vs \<longleftrightarrow> xs < ys \<or> xs = ys \<and> us \<le> vs"
  using assms by (induction xs ys rule: list_induct2) auto

lemma list_le_append [simp]: "xs \<le> xs @ (ys :: 'a :: linorder list)"
  by (induction xs) auto

lemma sorted_wrt_less_filter:
  "sorted_wrt (<) (map f xs) \<Longrightarrow> sorted_wrt (<) (map f (filter P xs))"
  by (induction xs) auto

lemma take_bit8_of_nat [simp]: "unat (word_of_nat n :: 8 word) = n mod 256"
  by (simp add: unat_of_nat)

section \<open>Signed 32-bit arithmetic\<close>

lemma sint32_bounds: "- (2 ^ 31) \<le> sint (w :: i32)" "sint (w :: i32) < 2 ^ 31"
  using sint_ge [of w] sint_lt [of w] by simp_all

lemma sint32_of_int: "- (2 ^ 31) \<le> x \<Longrightarrow> x < 2 ^ 31 \<Longrightarrow> sint (word_of_int x :: i32) = x"
  by (simp add: sint_sbintrunc' signed_take_bit_int_eq_self)

lemma sint32_add:
  fixes a b :: i32
  assumes "- (2 ^ 31) \<le> sint a + sint b" "sint a + sint b < 2 ^ 31"
  shows "sint (a + b) = sint a + sint b"
proof -
  have "a + b = word_of_int (sint a + sint b)"
    by simp
  then show ?thesis
    by (metis assms sint32_of_int)
qed

lemma sint32_Suc: "sint (w :: i32) < 2 ^ 31 - 1 \<Longrightarrow> sint (w + 1) = sint w + 1"
  using sint32_add [of w 1] sint32_bounds(1) [of w] by simp

section \<open>Signed 64-bit arithmetic\<close>

lemma sint64_bounds: "- (2 ^ 63) \<le> sint (w :: i64)" "sint (w :: i64) < 2 ^ 63"
  using sint_ge [of w] sint_lt [of w] by simp_all

lemma sint64_of_int: "- (2 ^ 63) \<le> x \<Longrightarrow> x < 2 ^ 63 \<Longrightarrow> sint (word_of_int x :: i64) = x"
  by (simp add: sint_sbintrunc' signed_take_bit_int_eq_self)

lemma sint64_add:
  fixes a b :: i64
  assumes "- (2 ^ 63) \<le> sint a + sint b" "sint a + sint b < 2 ^ 63"
  shows "sint (a + b) = sint a + sint b"
proof -
  have "a + b = word_of_int (sint a + sint b)"
    by simp
  then show ?thesis
    by (metis assms sint64_of_int)
qed

section \<open>Big- and little-endian integers (\<open>encoding/binary\<close>)\<close>

text \<open>
  \<open>be_bytes n v\<close> is what \<open>binary.BigEndian.PutUint<8n>\<close> writes, \<open>be_nat\<close> what
  \<open>binary.BigEndian.Uint<8n>\<close> reads; little endian is the reverse.
\<close>

fun be_bytes :: "nat \<Rightarrow> nat \<Rightarrow> bytes" where
  "be_bytes 0 v = []"
| "be_bytes (Suc n) v = be_bytes n (v div 256) @ [word_of_nat v]"

definition be_nat :: "bytes \<Rightarrow> nat" where
  "be_nat bs = foldl (\<lambda>a b. a * 256 + unat b) 0 bs"

definition put_be16 :: "16 word \<Rightarrow> bytes" where
  "put_be16 w = be_bytes 2 (unat w)"

definition put_be32 :: "u32 \<Rightarrow> bytes" where
  "put_be32 w = be_bytes 4 (unat w)"

definition put_be64 :: "u64 \<Rightarrow> bytes" where
  "put_be64 w = be_bytes 8 (unat w)"

definition put_le32 :: "u32 \<Rightarrow> bytes" where
  "put_le32 w = rev (be_bytes 4 (unat w))"

definition put_le64 :: "u64 \<Rightarrow> bytes" where
  "put_le64 w = rev (be_bytes 8 (unat w))"

definition get_be16 :: "bytes \<Rightarrow> nat" where
  "get_be16 bs = be_nat (take 2 bs)"

definition get_be32 :: "bytes \<Rightarrow> u32" where
  "get_be32 bs = word_of_nat (be_nat (take 4 bs))"

definition get_be64 :: "bytes \<Rightarrow> u64" where
  "get_be64 bs = word_of_nat (be_nat (take 8 bs))"

definition get_le32 :: "bytes \<Rightarrow> u32" where
  "get_le32 bs = word_of_nat (be_nat (rev (take 4 bs)))"

definition get_le64 :: "bytes \<Rightarrow> u64" where
  "get_le64 bs = word_of_nat (be_nat (rev (take 8 bs)))"

lemma be_nat_snoc [simp]: "be_nat (bs @ [b]) = be_nat bs * 256 + unat b"
  by (simp add: be_nat_def)

lemma be_nat_Nil [simp]: "be_nat [] = 0"
  by (simp add: be_nat_def)

lemma length_be_bytes [simp, codec_simps]: "length (be_bytes n v) = n"
  by (induction n arbitrary: v) auto

lemma be_nat_be_bytes: "be_nat (be_bytes n v) = v mod 256 ^ n"
proof (induction n arbitrary: v)
  case 0
  then show ?case by simp
next
  case (Suc n)
  have "v mod 256 ^ Suc n = 256 * (v div 256 mod 256 ^ n) + v mod 256"
    by (simp add: mod_mult2_eq)
  with Suc show ?case by simp
qed

lemma be_nat_bound: "be_nat bs < 256 ^ length bs"
proof (induction bs rule: rev_induct)
  case Nil
  then show ?case by simp
next
  case (snoc b bs)
  have "unat b < 256"
    using unsigned_less [of b, where ?'a = nat] by simp
  with snoc show ?case by simp
qed

lemma be_bytes_be_nat: "be_bytes (length bs) (be_nat bs) = bs"
proof (induction bs rule: rev_induct)
  case Nil
  then show ?case by simp
next
  case (snoc b bs)
  have b: "unat b < 256"
    using unsigned_less [of b, where ?'a = nat] by simp
  then have "(be_nat bs * 256 + unat b) div 256 = be_nat bs"
    by simp
  moreover have "(word_of_nat (be_nat bs * 256 + unat b) :: byte) = b"
  proof -
    have "(word_of_nat (be_nat bs * 256) :: byte) = 0"
      by (rule word_unat_eq_iff [THEN iffD2]) (simp del: of_nat_mult)
    then show ?thesis
      by (simp only: of_nat_add) simp
  qed
  ultimately show ?case
    using snoc by simp
qed

lemma div_mod_less_iff:
  "(a div 256 < b div 256 \<or> a div 256 = b div 256 \<and> a mod 256 < b mod 256) \<longleftrightarrow> a < (b :: nat)"
proof -
  have "a = a div 256 * 256 + a mod 256" and "b = b div 256 * 256 + b mod 256"
    by simp_all
  moreover have "a mod 256 < 256" and "b mod 256 < 256"
    by simp_all
  ultimately show ?thesis
    by linarith
qed

text \<open>Big-endian strings of one width compare as the numbers they encode.\<close>

lemma be_bytes_less_iff:
  assumes "a < 256 ^ n" and "b < 256 ^ n"
  shows "be_bytes n a < be_bytes n b \<longleftrightarrow> a < b"
  using assms
proof (induction n arbitrary: a b)
  case 0
  then show ?case by simp
next
  case (Suc n)
  let ?la = "word_of_nat a :: byte" and ?lb = "word_of_nat b :: byte"
  from Suc.prems have d: "a div 256 < 256 ^ n" "b div 256 < 256 ^ n"
    by (auto simp: less_mult_imp_div_less mult.commute)
  have eq: "be_bytes n (a div 256) = be_bytes n (b div 256) \<longleftrightarrow> a div 256 = b div 256"
    using d by (metis be_nat_be_bytes mod_less)
  have lo: "?la < ?lb \<longleftrightarrow> a mod 256 < b mod 256"
    by (simp add: word_less_nat_alt)
  have "be_bytes (Suc n) a < be_bytes (Suc n) b \<longleftrightarrow>
      a div 256 < b div 256 \<or> a div 256 = b div 256 \<and> a mod 256 < b mod 256"
    by (simp add: same_length_append_less_iff Suc.IH [OF d] eq lo)
  also have "\<dots> \<longleftrightarrow> a < b"
    by (rule div_mod_less_iff)
  finally show ?case .
qed

lemma be_bytes_eq_iff:
  assumes "a < 256 ^ n" and "b < 256 ^ n"
  shows "be_bytes n a = be_bytes n b \<longleftrightarrow> a = b"
  using assms by (metis be_nat_be_bytes mod_less)

lemma length_put [simp, codec_simps]:
  "length (put_be16 a) = 2" "length (put_be32 b) = 4" "length (put_be64 c) = 8"
  "length (put_le32 b) = 4" "length (put_le64 c) = 8"
  by (simp_all add: put_be16_def put_be32_def put_be64_def put_le32_def put_le64_def)

lemma put_not_Nil [simp]:
  "put_be64 w \<noteq> []" "put_be32 v \<noteq> []" "put_le64 w \<noteq> []" "put_le32 v \<noteq> []"
  by (simp_all flip: length_greater_0_conv)

lemma unat64_bound: "unat (w :: 64 word) < 256 ^ 8"
  using unsigned_less [of w, where ?'a = nat] by simp

lemma unat32_bound: "unat (w :: 32 word) < 256 ^ 4"
  using unsigned_less [of w, where ?'a = nat] by simp

lemma unat16_bound: "unat (w :: 16 word) < 256 ^ 2"
  using unsigned_less [of w, where ?'a = nat] by simp

lemma get_put_be64 [simp, codec_simps]: "get_be64 (put_be64 w @ rest) = w"
  by (simp add: get_be64_def put_be64_def be_nat_be_bytes unat64_bound [simplified])

lemma get_put_be32 [simp, codec_simps]: "get_be32 (put_be32 w @ rest) = w"
  by (simp add: get_be32_def put_be32_def be_nat_be_bytes unat32_bound [simplified])

lemma get_put_be16 [simp, codec_simps]: "get_be16 (put_be16 w @ rest) = unat w"
  using unat16_bound [of w]
  by (simp add: get_be16_def put_be16_def be_nat_be_bytes)

lemma get_put_le64 [simp, codec_simps]: "get_le64 (put_le64 w @ rest) = w"
  by (simp add: get_le64_def put_le64_def be_nat_be_bytes unat64_bound [simplified])

lemma get_put_le32 [simp, codec_simps]: "get_le32 (put_le32 w @ rest) = w"
  by (simp add: get_le32_def put_le32_def be_nat_be_bytes unat32_bound [simplified])

lemmas get_put_Nil [simp] =
  get_put_be64 [where rest = "[]", simplified] get_put_be32 [where rest = "[]", simplified]
  get_put_be16 [where rest = "[]", simplified] get_put_le64 [where rest = "[]", simplified]
  get_put_le32 [where rest = "[]", simplified]

lemma put_be64_less_iff [codec_inj]: "put_be64 a < put_be64 b \<longleftrightarrow> a < b"
  by (simp only: put_be64_def be_bytes_less_iff unat64_bound word_less_nat_alt)

lemma put_be32_less_iff [codec_inj]: "put_be32 a < put_be32 b \<longleftrightarrow> a < b"
  by (simp only: put_be32_def be_bytes_less_iff unat32_bound word_less_nat_alt)

lemma put_be64_eq_iff [simp, codec_inj]: "put_be64 a = put_be64 b \<longleftrightarrow> a = b"
  by (simp only: put_be64_def be_bytes_eq_iff unat64_bound word_unat_eq_iff)

lemma put_be32_eq_iff [simp, codec_inj]: "put_be32 a = put_be32 b \<longleftrightarrow> a = b"
  by (simp only: put_be32_def be_bytes_eq_iff unat32_bound word_unat_eq_iff)

lemma put_be16_eq_iff [simp, codec_inj]: "put_be16 a = put_be16 b \<longleftrightarrow> a = b"
  by (simp only: put_be16_def be_bytes_eq_iff unat16_bound word_unat_eq_iff)

lemma put_le64_eq_iff [simp, codec_inj]: "put_le64 a = put_le64 b \<longleftrightarrow> a = b"
  by (metis get_put_Nil(4))

section \<open>Varints (\<open>binary.PutUvarint\<close>, \<open>binary.Uvarint\<close>)\<close>

fun put_uvarint :: "nat \<Rightarrow> bytes" where
  "put_uvarint x =
     (if 128 \<le> x then word_of_nat (x mod 128 + 128) # put_uvarint (x div 128)
      else [word_of_nat x])"

declare put_uvarint.simps [simp del]

text \<open>
  \<open>Uvarint\<close> returns the value and the number of bytes read, \<open>0\<close> bytes when the buffer
  is too small and a negative number when the value has more than 64 bits. The loop
  variables are the byte index \<open>i\<close> and the value \<open>x\<close> so far (the shift is \<open>7 * i\<close>).
\<close>

fun uvarint_loop :: "nat \<Rightarrow> nat \<Rightarrow> bytes \<Rightarrow> nat \<times> int" where
  "uvarint_loop i x [] = (0, 0)"
| "uvarint_loop i x (b # bs) =
     (if unat b < 128
      then if 9 < i \<or> i = 9 \<and> 1 < unat b then (0, - (int i + 1))
           else (x + unat b * 2 ^ (7 * i), int i + 1)
      else uvarint_loop (Suc i) (x + (unat b - 128) * 2 ^ (7 * i)) bs)"

definition uvarint :: "bytes \<Rightarrow> nat \<times> int" where
  "uvarint buf = uvarint_loop 0 0 buf"

lemma put_uvarint_not_Nil [simp]: "put_uvarint x \<noteq> []"
  by (subst put_uvarint.simps) simp

lemma uvarint_loop_put:
  assumes "x < 2 ^ (64 - 7 * i)" and "i \<le> 9"
  shows "uvarint_loop i a (put_uvarint x @ rest) =
    (a + x * 2 ^ (7 * i), int (i + length (put_uvarint x)))"
  using assms
proof (induction x arbitrary: i a rule: put_uvarint.induct)
  case (1 x)
  show ?case
  proof (cases "128 \<le> x")
    case True
    from 1 True have i: "i \<le> 8"
    proof -
      have "x < 2" if "i = 9"
        using that 1(2) by simp
      with 1 True show ?thesis by (cases "i = 9") auto
    qed
    let ?b = "word_of_nat (x mod 128 + 128) :: byte"
    have b: "unat ?b = x mod 128 + 128"
    proof -
      have "x mod 128 + 128 < 256"
        using mod_less_divisor [of 128 x] by linarith
      then show ?thesis
        by (metis mod_less take_bit8_of_nat)
    qed
    have "64 - 7 * i = (64 - 7 * Suc i) + 7"
      using i by simp
    then have "(2::nat) ^ (64 - 7 * i) = 2 ^ (64 - 7 * Suc i) * 128"
      by (simp only: power_add) simp
    then have lt: "x div 128 < 2 ^ (64 - 7 * Suc i)"
      using 1(2) by (simp add: less_mult_imp_div_less)
    have IH: "uvarint_loop (Suc i) a' (put_uvarint (x div 128) @ rest) =
        (a' + x div 128 * 2 ^ (7 * Suc i), int (Suc i + length (put_uvarint (x div 128))))" for a'
      using 1(1) [OF True lt] i by auto
    have split: "x mod 128 * 2 ^ (7 * i) + x div 128 * 2 ^ (7 * Suc i) = x * 2 ^ (7 * i)"
    proof -
      have "x mod 128 * 2 ^ (7 * i) + x div 128 * 2 ^ (7 * Suc i)
          = (x mod 128 + 128 * (x div 128)) * 2 ^ (7 * i)"
        by (simp only: distrib_right power_add mult_Suc_right add.commute [of 7]) simp
      then show ?thesis by simp
    qed
    show ?thesis
      using True b IH split by (subst put_uvarint.simps, subst (2) put_uvarint.simps) simp
  next
    case False
    then have u: "unat (word_of_nat x :: byte) = x" by simp
    have "\<not> (9 < i \<or> i = 9 \<and> 1 < x)"
      using 1(2,3) by auto
    then show ?thesis
      using False u by (subst put_uvarint.simps, subst (2) put_uvarint.simps) simp
  qed
qed

lemma uvarint_put:
  "x < 2 ^ 64 \<Longrightarrow> uvarint (put_uvarint x @ rest) = (x, int (length (put_uvarint x)))"
  using uvarint_loop_put [of x 0 0 rest] by (simp add: uvarint_def)

text \<open>No varint is a proper prefix of another, so a varint in front separates key spaces.\<close>

lemma put_uvarint_append_eq:
  assumes "put_uvarint x @ us = put_uvarint y @ vs" and "x < 2 ^ 64" and "y < 2 ^ 64"
  shows "x = y \<and> us = vs"
proof -
  have "fst (uvarint (put_uvarint x @ us)) = fst (uvarint (put_uvarint y @ vs))"
    using assms(1) by simp
  then have "x = y"
    unfolding uvarint_put [OF assms(2)] uvarint_put [OF assms(3)] by simp
  with assms(1) show ?thesis by simp
qed

section \<open>Decimal integers (\<open>strconv.ParseInt\<close>, \<open>strconv.AppendInt\<close>)\<close>

definition is_digit :: "byte \<Rightarrow> bool" where
  "is_digit c \<longleftrightarrow> 48 \<le> c \<and> c \<le> 57"

fun parse_uint_loop :: "nat \<Rightarrow> nat \<Rightarrow> bytes \<Rightarrow> nat res" where
  "parse_uint_loop bits acc [] = Inr acc"
| "parse_uint_loop bits acc (c # cs) =
     (if \<not> is_digit c then Inl ErrSyntaxInt
      else let n = acc * 10 + unat (c - 48) in
        if 2 ^ bits \<le> n then Inl ErrRangeInt else parse_uint_loop bits n cs)"

definition parse_uint :: "nat \<Rightarrow> bytes \<Rightarrow> nat res" where
  "parse_uint bits s = (if s = [] then Inl ErrSyntaxInt else parse_uint_loop bits 0 s)"

definition parse_int :: "nat \<Rightarrow> bytes \<Rightarrow> int res" where
  "parse_int bits s =
     (case s of [] \<Rightarrow> Inl ErrSyntaxInt
      | c # cs \<Rightarrow>
        let neg = (c = 45); rest = (if c = 43 \<or> c = 45 then cs else s) in
        (case parse_uint bits rest of
           Inl e \<Rightarrow> Inl e
         | Inr un \<Rightarrow>
             if \<not> neg \<and> 2 ^ (bits - 1) \<le> un then Inl ErrRangeInt
             else if neg \<and> 2 ^ (bits - 1) < un then Inl ErrRangeInt
             else Inr (if neg then - int un else int un)))"

fun format_nat :: "nat \<Rightarrow> bytes" where
  "format_nat n =
     (if n < 10 then [48 + word_of_nat n] else format_nat (n div 10) @ [48 + word_of_nat (n mod 10)])"

declare format_nat.simps [simp del]

definition FormatInt64ToSlice :: "i64 \<Rightarrow> bytes" where
  "FormatInt64ToSlice v =
     (if sint v < 0 then 45 # format_nat (nat (- sint v)) else format_nat (nat (sint v)))"

lemma parse_uint_loop_append:
  "parse_uint_loop bits acc (xs @ ys) =
     (case parse_uint_loop bits acc xs of Inl e \<Rightarrow> Inl e | Inr m \<Rightarrow> parse_uint_loop bits m ys)"
  by (induction bits acc xs rule: parse_uint_loop.induct) (auto simp: Let_def)

lemma digit_char: "d < 10 \<Longrightarrow> is_digit (48 + word_of_nat d) \<and> unat (48 + word_of_nat d - 48 :: byte) = d"
  by (auto simp: is_digit_def word_le_nat_alt unat_word_ariths)

lemma format_nat_not_Nil [simp]: "format_nat n \<noteq> []"
  by (subst format_nat.simps) simp

lemma parse_format_nat:
  "n < 2 ^ bits \<Longrightarrow> parse_uint_loop bits 0 (format_nat n) = Inr n"
proof (induction n rule: format_nat.induct)
  case (1 n)
  show ?case
  proof (cases "n < 10")
    case True
    with 1(2) digit_char [OF True] show ?thesis
      by (subst format_nat.simps) (simp add: Let_def)
  next
    case False
    then have "n div 10 < 2 ^ bits"
      using 1(2) by (meson div_le_dividend le_less_trans)
    then have IH: "parse_uint_loop bits 0 (format_nat (n div 10)) = Inr (n div 10)"
      using 1(1) False by blast
    have d: "n mod 10 < 10" by simp
    show ?thesis
      using False IH digit_char [OF d] 1(2)
      by (subst format_nat.simps) (simp add: parse_uint_loop_append Let_def)
  qed
qed

lemma hd_format_nat: "is_digit (hd (format_nat n))"
proof (induction n rule: format_nat.induct)
  case (1 n)
  then show ?case
    using digit_char [of n] by (subst format_nat.simps) auto
qed

lemma parse_int_format [simp]: "parse_int 64 (FormatInt64ToSlice v) = Inr (sint v)"
proof -
  have b: "- (2 ^ 63) \<le> sint v" "sint v < 2 ^ 63"
    using sint_ge [of v] sint_lt [of v] by simp_all
  show ?thesis
  proof (cases "sint v < 0")
    case True
    have lt: "nat (- sint v) < 2 ^ 64" and le: "\<not> 2 ^ 63 < nat (- sint v)"
      using b by (auto simp: nat_less_iff)
    show ?thesis
      using True le
      by (simp add: FormatInt64ToSlice_def parse_int_def Let_def parse_uint_def
          parse_format_nat [OF lt])
  next
    case False
    have lt: "nat (sint v) < 2 ^ 64" and le: "\<not> 2 ^ 63 \<le> nat (sint v)"
      using b False by (auto simp: nat_less_iff le_nat_iff)
    obtain c cs where c: "format_nat (nat (sint v)) = c # cs"
      by (meson format_nat_not_Nil list.exhaust)
    then have d: "is_digit c"
      using hd_format_nat [of "nat (sint v)"] by simp
    have "c \<noteq> 43" and "c \<noteq> 45"
      using d by (auto simp: is_digit_def)
    then show ?thesis
      using False le c parse_format_nat [OF lt]
      by (simp add: FormatInt64ToSlice_def parse_int_def Let_def parse_uint_def)
  qed
qed

end
