(* ===== verification/Ledis_Store.thy ===== *)
theory Ledis_Store
  imports Ledis_Prelude
begin

text \<open>
  The storage layer, \<open>src/store\<close>: the ordered key-value database seen through the driver
  interface (\<open>store/driver/driver.go\<close>, \<open>store/goleveldb\<close>), write batches and their replay
  (\<open>store/writebatch.go\<close>), and the iterators with ranges and limits (\<open>store/iterator.go\<close>).

  The state of a database is the list of its entries in strictly increasing key order
  (\<open>kv_ok\<close>): what an iterator that runs from \<open>First\<close> to the end sees. The statistics
  counters of \<open>store/stat.go\<close> are left out.
\<close>

unbundle bit_operations_syntax

type_synonym kvstore = "(bytes \<times> bytes) list"

section \<open>The ordered key-value database\<close>

definition kv_ok :: "kvstore \<Rightarrow> bool" where
  "kv_ok s \<longleftrightarrow> sorted_wrt (<) (map fst s)"

definition kv_get :: "kvstore \<Rightarrow> bytes \<Rightarrow> bytes option" where
  "kv_get s k = map_of s k"

definition kv_put :: "bytes \<Rightarrow> bytes \<Rightarrow> kvstore \<Rightarrow> kvstore" where
  "kv_put k v s = filter (\<lambda>p. fst p < k) s @ (k, v) # filter (\<lambda>p. k < fst p) s"

definition kv_delete :: "bytes \<Rightarrow> kvstore \<Rightarrow> kvstore" where
  "kv_delete k s = filter (\<lambda>p. fst p \<noteq> k) s"

section \<open>Write batches\<close>

datatype wop = WPut bytes bytes | WDel bytes

text \<open>
  \<open>Replay\<close> feeds the records of a batch, in order, to an object with the two methods of
  \<open>BatchDataReplay\<close>.
\<close>

fun Replay :: "(bytes \<Rightarrow> bytes \<Rightarrow> 's \<Rightarrow> 's) \<Rightarrow> (bytes \<Rightarrow> 's \<Rightarrow> 's) \<Rightarrow> wop list \<Rightarrow> 's \<Rightarrow> 's" where
  "Replay put del [] s = s"
| "Replay put del (WPut k v # ops) s = Replay put del ops (put k v s)"
| "Replay put del (WDel k # ops) s = Replay put del ops (del k s)"

definition wb_Put :: "bytes \<Rightarrow> bytes \<Rightarrow> wop list \<Rightarrow> wop list" where
  "wb_Put k v t = t @ [WPut k v]"

definition wb_Delete :: "bytes \<Rightarrow> wop list \<Rightarrow> wop list" where
  "wb_Delete k t = t @ [WDel k]"

text \<open>\<open>wb_write\<close> is the effect of a committed batch on the database.\<close>

definition wb_write :: "wop list \<Rightarrow> kvstore \<Rightarrow> kvstore" where
  "wb_write t s = Replay kv_put kv_delete t s"

text \<open>\<open>BatchItem\<close>s, a deletion being an item with a nil value.\<close>

type_synonym BatchItem = "bytes \<times> bytes option"

definition batchItems_Put :: "bytes \<Rightarrow> bytes \<Rightarrow> BatchItem list \<Rightarrow> BatchItem list" where
  "batchItems_Put k v bs = bs @ [(k, Some v)]"

definition batchItems_Delete :: "bytes \<Rightarrow> BatchItem list \<Rightarrow> BatchItem list" where
  "batchItems_Delete k bs = bs @ [(k, None)]"

definition Items :: "wop list \<Rightarrow> BatchItem list" where
  "Items t = Replay batchItems_Put batchItems_Delete t []"

section \<open>Iterators\<close>

text \<open>
  An iterator works on the state of the database when it was made; its position is before
  the first entry, after the last, or at an entry.
\<close>

datatype cursor = SOI | EOI | At nat

record Iterator =
  it_data :: kvstore
  it_pos :: cursor

definition NewIterator :: "kvstore \<Rightarrow> Iterator" where
  "NewIterator s = \<lparr>it_data = s, it_pos = SOI\<rparr>"

definition it_Valid :: "Iterator \<Rightarrow> bool" where
  "it_Valid it = (case it_pos it of At i \<Rightarrow> i < length (it_data it) | _ \<Rightarrow> False)"

definition SeekToFirst :: "Iterator \<Rightarrow> Iterator" where
  "SeekToFirst it = it\<lparr>it_pos := if it_data it = [] then EOI else At 0\<rparr>"

definition SeekToLast :: "Iterator \<Rightarrow> Iterator" where
  "SeekToLast it = it\<lparr>it_pos := if it_data it = [] then SOI else At (length (it_data it) - 1)\<rparr>"

definition Seek :: "bytes \<Rightarrow> Iterator \<Rightarrow> Iterator" where
  "Seek k it =
     (let i = length (takeWhile (\<lambda>p. fst p < k) (it_data it))
      in it\<lparr>it_pos := if i < length (it_data it) then At i else EOI\<rparr>)"

definition it_Next :: "Iterator \<Rightarrow> Iterator" where
  "it_Next it =
     (case it_pos it of
        EOI \<Rightarrow> it
      | SOI \<Rightarrow> SeekToFirst it
      | At i \<Rightarrow> it\<lparr>it_pos := if Suc i < length (it_data it) then At (Suc i) else EOI\<rparr>)"

definition it_Prev :: "Iterator \<Rightarrow> Iterator" where
  "it_Prev it =
     (case it_pos it of
        SOI \<Rightarrow> it
      | EOI \<Rightarrow> SeekToLast it
      | At 0 \<Rightarrow> it\<lparr>it_pos := SOI\<rparr>
      | At (Suc i) \<Rightarrow> it\<lparr>it_pos := At i\<rparr>)"

definition RawKey :: "Iterator \<Rightarrow> bytes option" where
  "RawKey it = (case it_pos it of
     At i \<Rightarrow> if i < length (it_data it) then Some (fst (it_data it ! i)) else None | _ \<Rightarrow> None)"

definition RawValue :: "Iterator \<Rightarrow> bytes option" where
  "RawValue it = (case it_pos it of
     At i \<Rightarrow> if i < length (it_data it) then Some (snd (it_data it ! i)) else None | _ \<Rightarrow> None)"

definition it_Find :: "bytes \<Rightarrow> Iterator \<Rightarrow> bytes option \<times> Iterator" where
  "it_Find key it0 =
     (let it = Seek key it0 in
      if it_Valid it
      then case RawKey it of
             None \<Rightarrow> (None, it)
           | Some k \<Rightarrow> if k = key then (RawValue it, it) else (None, it)
      else (None, it))"

section \<open>Ranges and limits\<close>

definition RangeClose :: "8 word" where "RangeClose = 0x00"
definition RangeLOpen :: "8 word" where "RangeLOpen = 0x01"
definition RangeROpen :: "8 word" where "RangeROpen = 0x10"
definition RangeOpen :: "8 word" where "RangeOpen = 0x11"

lemmas range_types = RangeClose_def RangeLOpen_def RangeROpen_def RangeOpen_def

record Range =
  rMin :: "bytes option"
  rMax :: "bytes option"
  rType :: "8 word"

record Limit =
  Offset :: int
  Count :: int

datatype direction = IteratorForward | IteratorBackward

record RangeLimitIterator =
  rl_it :: Iterator
  rl_r :: Range
  rl_l :: Limit
  rl_step :: int
  rl_direction :: direction

definition rli_Valid :: "RangeLimitIterator \<Rightarrow> bool" where
  "rli_Valid it =
     (if Offset (rl_l it) < 0 then False
      else if \<not> it_Valid (rl_it it) then False
      else if 0 \<le> Count (rl_l it) \<and> Count (rl_l it) \<le> rl_step it then False
      else case rl_direction it of
        IteratorForward \<Rightarrow>
          (case (rMax (rl_r it), RawKey (rl_it it)) of
             (Some mx, Some k) \<Rightarrow>
               if 0 < rType (rl_r it) AND RangeROpen then \<not> mx \<le> k else \<not> mx < k
           | _ \<Rightarrow> True)
      | IteratorBackward \<Rightarrow>
          (case (rMin (rl_r it), RawKey (rl_it it)) of
             (Some mn, Some k) \<Rightarrow>
               if 0 < rType (rl_r it) AND RangeLOpen then \<not> k \<le> mn else \<not> k < mn
           | _ \<Rightarrow> True))"

definition it_move :: "direction \<Rightarrow> Iterator \<Rightarrow> Iterator" where
  "it_move d it = (case d of IteratorForward \<Rightarrow> it_Next it | IteratorBackward \<Rightarrow> it_Prev it)"

definition rli_Next :: "RangeLimitIterator \<Rightarrow> RangeLimitIterator" where
  "rli_Next it = it\<lparr>rl_step := rl_step it + 1, rl_it := it_move (rl_direction it) (rl_it it)\<rparr>"

definition rangeStart :: "Iterator \<Rightarrow> Range \<Rightarrow> direction \<Rightarrow> Iterator" where
  "rangeStart i r d =
     (case d of
        IteratorForward \<Rightarrow>
          (case rMin r of
             None \<Rightarrow> SeekToFirst i
           | Some mn \<Rightarrow>
               let it = Seek mn i in
               if 0 < rType r AND RangeLOpen \<and> it_Valid it \<and> RawKey it = Some mn
               then it_Next it else it)
      | IteratorBackward \<Rightarrow>
          (case rMax r of
             None \<Rightarrow> SeekToLast i
           | Some mx \<Rightarrow>
               let it = Seek mx i;
                   it1 = (if \<not> it_Valid it then SeekToLast it
                          else if RawKey it \<noteq> Some mx then it_Prev it else it)
               in if 0 < rType r AND RangeROpen \<and> it_Valid it1 \<and> RawKey it1 = Some mx
                  then it_Prev it1 else it1))"

definition offsetStep :: "direction \<Rightarrow> Iterator \<Rightarrow> Iterator" where
  "offsetStep d it = (if it_Valid it then it_move d it else it)"

definition rangeLimitIterator ::
  "Iterator \<Rightarrow> Range \<Rightarrow> Limit \<Rightarrow> direction \<Rightarrow> RangeLimitIterator" where
  "rangeLimitIterator i r l d =
     (let mk = \<lambda>it. \<lparr>rl_it = it, rl_r = r, rl_l = l, rl_step = 0, rl_direction = d\<rparr>
      in if Offset l < 0 then mk i
         else mk ((offsetStep d ^^ nat (Offset l)) (rangeStart i r d)))"

definition NewRangeLimitIterator :: "Iterator \<Rightarrow> Range \<Rightarrow> Limit \<Rightarrow> RangeLimitIterator" where
  "NewRangeLimitIterator i r l = rangeLimitIterator i r l IteratorForward"

definition NewRevRangeLimitIterator :: "Iterator \<Rightarrow> Range \<Rightarrow> Limit \<Rightarrow> RangeLimitIterator" where
  "NewRevRangeLimitIterator i r l = rangeLimitIterator i r l IteratorBackward"

definition NewRangeIterator :: "Iterator \<Rightarrow> Range \<Rightarrow> RangeLimitIterator" where
  "NewRangeIterator i r = rangeLimitIterator i r \<lparr>Offset = 0, Count = -1\<rparr> IteratorForward"

definition NewRevRangeIterator :: "Iterator \<Rightarrow> Range \<Rightarrow> RangeLimitIterator" where
  "NewRevRangeIterator i r = rangeLimitIterator i r \<lparr>Offset = 0, Count = -1\<rparr> IteratorBackward"

text \<open>
  \<open>rli_run\<close> is the entries the loop \<open>for ; it.Valid(); it.Next()\<close> visits.
\<close>

definition rli_entry :: "RangeLimitIterator \<Rightarrow> bytes \<times> bytes" where
  "rli_entry it = (the (RawKey (rl_it it)), the (RawValue (rl_it it)))"

definition it_remaining :: "direction \<Rightarrow> Iterator \<Rightarrow> nat" where
  "it_remaining d it =
     (case it_pos it of
        At i \<Rightarrow> (case d of IteratorForward \<Rightarrow> length (it_data it) - i | IteratorBackward \<Rightarrow> Suc i)
      | _ \<Rightarrow> 0)"

lemma it_remaining_move:
  "it_Valid it \<Longrightarrow> it_remaining d (it_move d it) < it_remaining d it"
  by (auto simp: it_Valid_def it_move_def it_remaining_def it_Next_def it_Prev_def
      split: cursor.splits direction.splits nat.splits)

lemma rli_Valid_it: "rli_Valid it \<Longrightarrow> it_Valid (rl_it it)"
  by (simp add: rli_Valid_def split: if_splits)

function rli_run :: "RangeLimitIterator \<Rightarrow> (bytes \<times> bytes) list" where
  "rli_run it = (if rli_Valid it then rli_entry it # rli_run (rli_Next it) else [])"
  by pat_completeness auto
termination
  by (relation "measure (\<lambda>it. it_remaining (rl_direction it) (rl_it it))")
     (auto simp: rli_Next_def it_remaining_move rli_Valid_it)

declare rli_run.simps [simp del]

section \<open>The laws of the database\<close>

lemma kv_ok_Nil [simp]: "kv_ok []"
  by (simp add: kv_ok_def)

lemma kv_ok_filter [intro]: "kv_ok s \<Longrightarrow> kv_ok (filter P s)"
  by (simp add: kv_ok_def sorted_wrt_less_filter)

lemma kv_ok_distinct: "kv_ok s \<Longrightarrow> distinct (map fst s)"
  by (simp add: kv_ok_def strict_sorted_iff)

lemma kv_ok_delete: "kv_ok s \<Longrightarrow> kv_ok (kv_delete k s)"
  by (auto simp: kv_delete_def)

lemma kv_ok_put: "kv_ok s \<Longrightarrow> kv_ok (kv_put k v s)"
  by (auto simp: kv_ok_def kv_put_def sorted_wrt_append sorted_wrt_less_filter
      intro: order.strict_trans)

lemma map_of_filter_key:
  "map_of (filter (\<lambda>p. P (fst p)) s) k = (if P k then map_of s k else None)"
  by (induction s) auto

lemmas map_of_filter_keys =
  map_of_filter_key [where P = "\<lambda>x. x < y" for y]
  map_of_filter_key [where P = "\<lambda>x. y < x" for y]
  map_of_filter_key [where P = "\<lambda>x. x \<noteq> y" for y]

lemma kv_get_put: "kv_get (kv_put k v s) = (kv_get s)(k \<mapsto> v)"
  by (rule ext) (auto simp: kv_get_def kv_put_def map_add_def map_of_filter_keys
      split: option.splits)

lemma kv_get_delete: "kv_get (kv_delete k s) = (kv_get s)(k := None)"
  by (rule ext) (simp add: kv_get_def kv_delete_def map_of_filter_keys)

lemma kv_get_iff_mem: "kv_ok s \<Longrightarrow> kv_get s k = Some v \<longleftrightarrow> (k, v) \<in> set s"
  by (simp add: kv_get_def kv_ok_distinct map_of_eq_Some_iff)

text \<open>A database is determined by its lookups.\<close>

lemma kv_ok_ext:
  assumes "kv_ok s" and "kv_ok s'" and "kv_get s = kv_get s'"
  shows "s = s'"
proof (rule map_sorted_distinct_set_unique [where f = fst])
  have eq: "set s = set s'"
    using assms by (metis kv_get_iff_mem set_eqI surj_pair)
  then show "set s = set s'" .
  show "inj_on fst (set s \<union> set s')"
    using kv_ok_distinct [OF assms(1)] eq by (simp add: distinct_map)
  show "sorted (map fst s)" "sorted (map fst s')"
    using assms by (auto simp: kv_ok_def strict_sorted_iff)
  show "distinct (map fst s)" "distinct (map fst s')"
    using assms by (auto simp: kv_ok_distinct)
qed

text \<open>
  What a client of the driver interface relies on: \<open>Replay\<close> into any receiver composes,
  and a database that obeys the lookup laws ends up, after a committed batch, with the
  lookups of the batch's records applied in order.
\<close>

primrec wop_effect :: "wop \<Rightarrow> (bytes \<rightharpoonup> bytes) \<Rightarrow> (bytes \<rightharpoonup> bytes)" where
  "wop_effect (WPut k v) m = m(k \<mapsto> v)"
| "wop_effect (WDel k) m = m(k := None)"

primrec wb_effect :: "wop list \<Rightarrow> (bytes \<rightharpoonup> bytes) \<Rightarrow> (bytes \<rightharpoonup> bytes)" where
  "wb_effect [] m = m"
| "wb_effect (w # t) m = wb_effect t (wop_effect w m)"

primrec wop_key :: "wop \<Rightarrow> bytes" where
  "wop_key (WPut k v) = k"
| "wop_key (WDel k) = k"

lemma wb_effect_append [simp]: "wb_effect (t @ u) m = wb_effect u (wb_effect t m)"
  by (induction t arbitrary: m) auto

lemma wop_effect_other: "k \<noteq> wop_key w \<Longrightarrow> wop_effect w m k = m k"
  by (cases w) auto

lemma wb_effect_other:
  "k \<notin> wop_key ` set t \<Longrightarrow> wb_effect t m k = m k"
  by (induction t arbitrary: m) (auto simp: wop_effect_other)

lemma wb_effect_deletes:
  "wb_effect (map WDel ks) m = (\<lambda>k. if k \<in> set ks then None else m k)"
  by (induction ks arbitrary: m) (auto simp: fun_eq_iff)

locale batch_replay =
  fixes put :: "bytes \<Rightarrow> bytes \<Rightarrow> 's \<Rightarrow> 's"
    and del :: "bytes \<Rightarrow> 's \<Rightarrow> 's"
begin

lemma replay_append: "Replay put del (t @ u) s = Replay put del u (Replay put del t s)"
  by (induction put del t s rule: Replay.induct) auto

lemma replay_invariant:
  assumes "P s" and "\<And>k v s. P s \<Longrightarrow> P (put k v s)" and "\<And>k s. P s \<Longrightarrow> P (del k s)"
  shows "P (Replay put del t s)"
  using assms by (induction put del t s rule: Replay.induct) auto

end

locale kv_driver = batch_replay put del
  for put :: "bytes \<Rightarrow> bytes \<Rightarrow> 's \<Rightarrow> 's" and del :: "bytes \<Rightarrow> 's \<Rightarrow> 's" +
  fixes get :: "'s \<Rightarrow> bytes \<Rightarrow> bytes option"
    and inv :: "'s \<Rightarrow> bool"
  assumes get_put: "get (put k v s) = (get s)(k \<mapsto> v)"
    and get_del: "get (del k s) = (get s)(k := None)"
    and inv_put: "inv s \<Longrightarrow> inv (put k v s)"
    and inv_del: "inv s \<Longrightarrow> inv (del k s)"
begin

lemma get_replay: "get (Replay put del t s) = wb_effect t (get s)"
proof (induction t arbitrary: s)
  case (Cons w t)
  then show ?case by (cases w) (simp_all add: get_put get_del fun_upd_def)
qed simp

lemma inv_replay: "inv s \<Longrightarrow> inv (Replay put del t s)"
  by (rule replay_invariant) (auto intro: inv_put inv_del)

lemma get_replay_other: "k \<notin> wop_key ` set t \<Longrightarrow> get (Replay put del t s) k = get s k"
  by (simp add: get_replay wb_effect_other)

end

interpretation kv: kv_driver kv_put kv_delete kv_get kv_ok
  by unfold_locales (auto simp: kv_get_put kv_get_delete kv_ok_put kv_ok_delete)

interpretation items: batch_replay batchItems_Put batchItems_Delete .

interpretation wbatch: batch_replay wb_Put wb_Delete .

lemma kv_get_write: "kv_get (wb_write t s) = wb_effect t (kv_get s)"
  by (simp add: wb_write_def kv.get_replay)

lemma kv_ok_write [intro, simp]: "kv_ok s \<Longrightarrow> kv_ok (wb_write t s)"
  by (simp add: wb_write_def kv.inv_replay)

lemma wb_write_Nil [simp]: "wb_write [] s = s"
  by (simp add: wb_write_def)

lemma wb_write_append [simp]: "wb_write (t @ u) s = wb_write u (wb_write t s)"
  by (simp add: wb_write_def kv.replay_append)

text \<open>Replaying a batch into an empty batch rebuilds it, as \<open>handleReplication\<close> does.\<close>

lemma Replay_wb: "Replay wb_Put wb_Delete t u = u @ t"
proof (induction t arbitrary: u)
  case (Cons w t)
  then show ?case by (cases w) (simp_all add: wb_Put_def wb_Delete_def)
qed simp

lemma Items_eq:
  "Items t = map (\<lambda>w. case w of WPut k v \<Rightarrow> (k, Some v) | WDel k \<Rightarrow> (k, None)) t"
proof -
  have "Replay batchItems_Put batchItems_Delete t bs =
      bs @ map (\<lambda>w. case w of WPut k v \<Rightarrow> (k, Some v) | WDel k \<Rightarrow> (k, None)) t" for bs
  proof (induction t arbitrary: bs)
    case (Cons w t)
    then show ?case by (cases w) (simp_all add: batchItems_Put_def batchItems_Delete_def)
  qed simp
  then show ?thesis
    by (simp add: Items_def)
qed

section \<open>Iteration visits exactly the range\<close>

text \<open>
  The reference meaning of a range and a limit: the entries of the database whose keys lie
  in the range, in the direction of the iterator, from the offset on and at most \<open>Count\<close> of
  them (all of them if \<open>Count\<close> is negative).
\<close>

definition above_min :: "Range \<Rightarrow> bytes \<Rightarrow> bool" where
  "above_min r k = (case rMin r of None \<Rightarrow> True
     | Some mn \<Rightarrow> if 0 < rType r AND RangeLOpen then mn < k else mn \<le> k)"

definition below_max :: "Range \<Rightarrow> bytes \<Rightarrow> bool" where
  "below_max r k = (case rMax r of None \<Rightarrow> True
     | Some mx \<Rightarrow> if 0 < rType r AND RangeROpen then k < mx else k \<le> mx)"

definition limited :: "int \<Rightarrow> 'a list \<Rightarrow> 'a list" where
  "limited n xs = (if n < 0 then xs else take (nat n) xs)"

definition range_entries :: "Range \<Rightarrow> kvstore \<Rightarrow> kvstore" where
  "range_entries r s = filter (\<lambda>p. above_min r (fst p) \<and> below_max r (fst p)) s"

definition limit_entries :: "Limit \<Rightarrow> 'a list \<Rightarrow> 'a list" where
  "limit_entries l xs =
     (if Offset l < 0 then [] else limited (Count l) (drop (nat (Offset l)) xs))"

text \<open>On sorted entries a downward closed condition is a prefix, an upward closed one a suffix.\<close>

lemma takeWhile_sorted:
  assumes "kv_ok s" and "\<And>x y. x < y \<Longrightarrow> P y \<Longrightarrow> P x"
  shows "takeWhile (\<lambda>p. P (fst p)) s = filter (\<lambda>p. P (fst p)) s"
  using assms(1)
proof (induction s)
  case (Cons p s)
  then have "P (fst p)" if "q \<in> set s" "P (fst q)" for q
    using that assms(2) by (force simp: kv_ok_def)
  with Cons show ?case
    by (auto simp: kv_ok_def filter_empty_conv [symmetric] intro!: filter_False [symmetric])
qed simp

lemma dropWhile_sorted:
  assumes "kv_ok s" and "\<And>x y. x < y \<Longrightarrow> P y \<Longrightarrow> P x"
  shows "dropWhile (\<lambda>p. P (fst p)) s = filter (\<lambda>p. \<not> P (fst p)) s"
  using assms(1)
proof (induction s)
  case (Cons p s)
  have "\<not> P (fst q)" if "q \<in> set s" "\<not> P (fst p)" for q
    using that Cons.prems assms(2) by (force simp: kv_ok_def)
  with Cons show ?case
    by (auto simp: kv_ok_def)
qed simp

lemma takeWhile_drop:
  assumes "sorted_wrt (\<lambda>x y. P y \<longrightarrow> P x) xs"
  shows "takeWhile P (drop n xs) = drop n (filter P xs)"
  using assms
proof (induction xs arbitrary: n)
  case (Cons x xs)
  then have "\<not> P x \<Longrightarrow> filter P xs = []"
    by (auto simp: filter_empty_conv)
  moreover have "takeWhile P xs = filter P xs"
    using Cons.IH [of 0] Cons.prems by simp
  ultimately show ?case
    using Cons by (cases n) auto
qed simp

definition ahead :: "direction \<Rightarrow> Iterator \<Rightarrow> kvstore" where
  "ahead d it =
     (case it_pos it of
        At i \<Rightarrow> (case d of IteratorForward \<Rightarrow> drop i (it_data it)
                 | IteratorBackward \<Rightarrow> rev (take (Suc i) (it_data it)))
      | _ \<Rightarrow> [])"

definition in_bounds :: "Iterator \<Rightarrow> bool" where
  "in_bounds it = (case it_pos it of At i \<Rightarrow> i < length (it_data it) | _ \<Rightarrow> True)"

lemma it_Valid_ahead: "in_bounds it \<Longrightarrow> it_Valid it \<longleftrightarrow> ahead d it \<noteq> []"
  by (auto simp: it_Valid_def in_bounds_def ahead_def split: cursor.splits direction.splits)

lemma it_move_bounds: "it_Valid it \<Longrightarrow> in_bounds (it_move d it)"
  by (auto simp: it_Valid_def in_bounds_def it_move_def it_Next_def it_Prev_def
      split: cursor.splits direction.splits nat.splits)

lemma it_move_ahead: "it_Valid it \<Longrightarrow> ahead d (it_move d it) = tl (ahead d it)"
  by (auto simp: it_Valid_def in_bounds_def it_move_def it_Next_def it_Prev_def ahead_def
      drop_Suc [symmetric] tl_drop take_Suc_conv_app_nth
      split: cursor.splits direction.splits nat.splits)

lemma it_move_data [simp]: "it_data (it_move d it) = it_data it"
  by (auto simp: it_move_def it_Next_def it_Prev_def SeekToFirst_def SeekToLast_def
      split: cursor.splits direction.splits nat.splits)

lemma ahead_RawKey: "it_Valid it \<Longrightarrow> RawKey it = Some (fst (hd (ahead d it)))"
  by (auto simp: it_Valid_def ahead_def RawKey_def hd_drop_conv_nth
      take_Suc_conv_app_nth split: cursor.splits direction.splits)

lemma ahead_RawValue: "it_Valid it \<Longrightarrow> RawValue it = Some (snd (hd (ahead d it)))"
  by (auto simp: it_Valid_def ahead_def RawValue_def hd_drop_conv_nth
      take_Suc_conv_app_nth split: cursor.splits direction.splits)

definition within :: "direction \<Rightarrow> Range \<Rightarrow> bytes \<Rightarrow> bool" where
  "within d r k = (case d of IteratorForward \<Rightarrow> below_max r k | IteratorBackward \<Rightarrow> above_min r k)"

lemma rli_Valid_ahead:
  assumes "in_bounds (rl_it it)"
  shows "rli_Valid it \<longleftrightarrow>
    0 \<le> Offset (rl_l it) \<and> ahead (rl_direction it) (rl_it it) \<noteq> [] \<and>
    (Count (rl_l it) < 0 \<or> rl_step it < Count (rl_l it)) \<and>
    within (rl_direction it) (rl_r it) (fst (hd (ahead (rl_direction it) (rl_it it))))"
proof (cases "it_Valid (rl_it it)")
  case True
  show ?thesis
    using ahead_RawKey [OF True, of "rl_direction it"] True it_Valid_ahead [OF assms, of "rl_direction it"]
    by (cases "rl_direction it")
       (auto simp: rli_Valid_def within_def below_max_def above_min_def not_le not_less
         split: option.splits)
next
  case False
  then show ?thesis
    using it_Valid_ahead [OF assms, of "rl_direction it"] by (simp add: rli_Valid_def)
qed

lemma rli_run_ahead:
  assumes "in_bounds (rl_it it)" and "0 \<le> Offset (rl_l it)" and "0 \<le> rl_step it"
  shows "rli_run it =
    limited (if Count (rl_l it) < 0 then -1 else max 0 (Count (rl_l it) - rl_step it))
      (takeWhile (\<lambda>p. within (rl_direction it) (rl_r it) (fst p))
         (ahead (rl_direction it) (rl_it it)))"
  using assms
proof (induction it rule: rli_run.induct)
  case (1 it)
  let ?d = "rl_direction it" and ?a = "ahead (rl_direction it) (rl_it it)"
  show ?case
  proof (cases "rli_Valid it")
    case True
    then have v: "it_Valid (rl_it it)" by (rule rli_Valid_it)
    have a: "?a \<noteq> []" "within ?d (rl_r it) (fst (hd ?a))"
      "Count (rl_l it) < 0 \<or> rl_step it < Count (rl_l it)"
      using True 1(2) by (simp_all add: rli_Valid_ahead)
    then obtain p ps where ps: "?a = p # ps" by (cases ?a) auto
    have e: "rli_entry it = p"
      using ahead_RawKey [OF v, of ?d] ahead_RawValue [OF v, of ?d] ps
      by (simp add: rli_entry_def)
    have n: "ahead ?d (it_move ?d (rl_it it)) = ps"
      using it_move_ahead [OF v, of ?d] ps by simp
    have "rli_run (rli_Next it) =
        limited (if Count (rl_l it) < 0 then -1 else max 0 (Count (rl_l it) - (rl_step it + 1)))
          (takeWhile (\<lambda>p. within ?d (rl_r it) (fst p)) ps)"
      using 1(1) [OF True] 1(3,4) it_move_bounds [OF v] n by (simp add: rli_Next_def)
    moreover have "nat (Count (rl_l it) - (rl_step it + 1)) = nat (Count (rl_l it) - rl_step it) - 1"
      by linarith
    ultimately show ?thesis
      using True a e ps
      by (subst rli_run.simps) (auto simp: limited_def take_Cons' max_def)
  next
    case False
    then show ?thesis
      using 1(2,3)
      by (cases ?a; subst rli_run.simps)
         (auto simp: rli_Valid_ahead limited_def not_less max_def)
  qed
qed

text \<open>Where the constructor puts the iterator.\<close>

lemma Seek_data [simp]: "it_data (Seek k it) = it_data it"
  by (simp add: Seek_def Let_def)

lemma in_bounds_Seek [simp]:
  "in_bounds (Seek k it)" "in_bounds (SeekToFirst it)" "in_bounds (SeekToLast it)"
  by (auto simp: in_bounds_def Seek_def SeekToFirst_def SeekToLast_def Let_def)

lemma ahead_Seek: "ahead IteratorForward (Seek k it) = dropWhile (\<lambda>p. fst p < k) (it_data it)"
  by (auto simp: ahead_def Seek_def Let_def dropWhile_eq_drop not_less)

lemma ahead_SeekTo [simp]:
  "ahead IteratorForward (SeekToFirst it) = it_data it"
  "ahead IteratorBackward (SeekToLast it) = rev (it_data it)"
  by (auto simp: ahead_def SeekToFirst_def SeekToLast_def)

lemma skip_equal_min:
  assumes "kv_ok s" and "xs = filter (\<lambda>p. mn \<le> fst p) s"
  shows "(if xs \<noteq> [] \<and> fst (hd xs) = mn then tl xs else xs) = filter (\<lambda>p. mn < fst p) s"
  using assms
proof (induction s arbitrary: xs)
  case (Cons p s)
  then have le: "fst p < fst q" if "q \<in> set s" for q
    using that by (simp add: kv_ok_def)
  have ok: "kv_ok s"
    using Cons.prems(1) by (simp add: kv_ok_def)
  show ?case
  proof (cases "mn \<le> fst p")
    case True
    then have "mn < fst q" if "q \<in> set s" for q
      using le [OF that] by order
    then have "filter (\<lambda>p. mn \<le> fst p) s = s" "filter (\<lambda>p. mn < fst p) s = s"
      by (auto simp: filter_id_conv less_imp_le)
    with True Cons.prems(2) show ?thesis by auto
  next
    case False
    with Cons.IH [OF ok refl] Cons.prems(2) show ?thesis by (auto simp: not_le)
  qed
qed simp

lemma skip_equal_max:
  assumes "kv_ok s" and "xs = rev (filter (\<lambda>p. fst p \<le> mx) s)"
  shows "(if xs \<noteq> [] \<and> fst (hd xs) = mx then tl xs else xs) = rev (filter (\<lambda>p. fst p < mx) s)"
  using assms
proof (induction s arbitrary: xs rule: rev_induct)
  case (snoc p s)
  then have le: "fst q < fst p" if "q \<in> set s" for q
    using that by (simp add: kv_ok_def sorted_wrt_append)
  have ok: "kv_ok s"
    using snoc.prems(1) by (simp add: kv_ok_def sorted_wrt_append)
  show ?case
  proof (cases "fst p \<le> mx")
    case True
    then have "fst q < mx" if "q \<in> set s" for q
      using le [OF that] by order
    then have "filter (\<lambda>p. fst p \<le> mx) s = s" "filter (\<lambda>p. fst p < mx) s = s"
      by (auto simp: filter_id_conv less_imp_le)
    with True snoc.prems(2) show ?thesis by auto
  next
    case False
    with snoc.IH [OF ok refl] snoc.prems(2) show ?thesis by (auto simp: not_le)
  qed
qed simp

lemma ahead_start_forward:
  assumes "kv_ok (it_data i)" and "rMin r = Some mn"
    and "it = Seek mn i"
    and "it' = (if 0 < rType r AND RangeLOpen \<and> it_Valid it \<and> RawKey it = Some mn
                then it_Next it else it)"
  shows "in_bounds it' \<and> ahead IteratorForward it' = filter (\<lambda>p. above_min r (fst p)) (it_data i)"
proof -
  let ?F = IteratorForward
  have a: "ahead ?F it = filter (\<lambda>p. mn \<le> fst p) (it_data i)"
    using dropWhile_sorted [where P = "\<lambda>x. x < mn", OF assms(1)]
    by (auto simp: assms(3) ahead_Seek not_less)
  have b: "in_bounds it" by (simp add: assms(3))
  have n: "it_Next it = it_move ?F it" by (simp add: it_move_def)
  have "(if it_Valid it \<and> RawKey it = Some mn then tl (ahead ?F it) else ahead ?F it)
      = filter (\<lambda>p. mn < fst p) (it_data i)"
    using skip_equal_min [OF assms(1) a] it_Valid_ahead [OF b, of ?F] ahead_RawKey [of it ?F]
    by auto
  then show ?thesis
    using a b it_move_ahead [of it ?F] it_move_bounds [of it ?F]
    by (cases "0 < rType r AND RangeLOpen") (auto simp: assms(2,4) above_min_def n split: if_splits)
qed

lemma ahead_Seek_backward:
  assumes "kv_ok (it_data i)" and "it = Seek mx i"
    and "it1 = (if \<not> it_Valid it then SeekToLast it
                else if RawKey it \<noteq> Some mx then it_Prev it else it)"
  shows "in_bounds it1 \<and> ahead IteratorBackward it1 = rev (filter (\<lambda>p. fst p \<le> mx) (it_data i))"
proof -
  let ?s = "it_data i" and ?B = IteratorBackward
  let ?A = "takeWhile (\<lambda>p. fst p < mx) ?s"
  have A: "?A = filter (\<lambda>p. fst p < mx) ?s"
    using takeWhile_sorted [where P = "\<lambda>x. x < mx", OF assms(1)] by auto
  have le: "takeWhile (\<lambda>p. fst p \<le> mx) ?s = filter (\<lambda>p. fst p \<le> mx) ?s"
    using takeWhile_sorted [where P = "\<lambda>x. x \<le> mx", OF assms(1)] by auto
  have F: "ahead IteratorForward it = filter (\<lambda>p. mx \<le> fst p) ?s"
    using dropWhile_sorted [where P = "\<lambda>x. x < mx", OF assms(1)]
    by (auto simp: assms(2) ahead_Seek not_less)
  show ?thesis
  proof (cases "it_Valid it")
    case False
    then have "\<not> length ?A < length ?s"
      by (auto simp: it_Valid_def assms(2) Seek_def Let_def split: if_splits cursor.splits)
    then have "length ?A = length ?s"
      using length_takeWhile_le [of "\<lambda>p. fst p < mx" ?s] by linarith
    then have "?A = ?s"
      by (metis takeWhile_eq_take take_all_iff le_refl)
    then have "filter (\<lambda>p. fst p \<le> mx) ?s = ?s"
      using A by (metis (no_types, lifting) filter_id_conv order.strict_implies_order)
    with False show ?thesis
      by (simp add: assms(2,3))
  next
    case True
    let ?i = "length ?A"
    have i: "it_pos it = At ?i" "?i < length ?s"
      using True by (auto simp: it_Valid_def assms(2) Seek_def Let_def split: if_splits)
    have take_i: "take ?i ?s = ?A"
      by (metis takeWhile_eq_take)
    have k: "RawKey it = Some (fst (?s ! ?i))"
      using i by (simp add: RawKey_def assms(2))
    have ge: "\<not> fst (?s ! ?i) < mx"
      using nth_length_takeWhile [of "\<lambda>p. fst p < mx" ?s] i by blast
    have gt: "mx < fst q" if "q \<in> set (drop (Suc ?i) ?s)" for q
    proof -
      have "fst (?s ! ?i) < fst q"
        using assms(1) that i unfolding kv_ok_def
        by (auto simp: in_set_conv_nth sorted_wrt_iff_nth_less)
      with ge show ?thesis by (auto simp: not_less)
    qed
    have split_s: "?s = ?A @ ?s ! ?i # drop (Suc ?i) ?s"
      using take_i id_take_nth_drop [OF i(2)] by simp
    have dropped: "filter (\<lambda>p. fst p \<le> mx) (drop (Suc ?i) ?s) = []"
      using gt by (fastforce simp: filter_empty_conv)
    have As: "filter (\<lambda>p. fst p \<le> mx) ?A = ?A"
      unfolding A by (auto simp: filter_filter intro: filter_cong)
    show ?thesis
    proof (cases "fst (?s ! ?i) = mx")
      case eq: True
      have "filter (\<lambda>p. fst p \<le> mx) ?s = ?A @ [?s ! ?i]"
        by (subst split_s) (use As dropped eq in simp)
      moreover have "take (Suc ?i) ?s = ?A @ [?s ! ?i]"
        using take_i i(2) by (simp add: take_Suc_conv_app_nth)
      ultimately show ?thesis
        using True k eq i by (simp add: assms(2,3) in_bounds_def ahead_def)
    next
      case neq: False
      have f: "filter (\<lambda>p. fst p \<le> mx) ?s = ?A"
        by (subst split_s) (use As dropped neq ge in auto)
      have "it1 = it_move ?B it"
        using True k neq by (simp add: assms(3) it_move_def)
      moreover have "ahead ?B it = rev (take (Suc ?i) ?s)"
        using i by (simp add: ahead_def assms(2))
      moreover have "tl (rev (take (Suc ?i) ?s)) = rev ?A"
        using take_i i(2) by (simp add: take_Suc_conv_app_nth)
      ultimately show ?thesis
        using it_move_ahead [OF True, of ?B] it_move_bounds [OF True, of ?B] f by simp
    qed
  qed
qed

lemma ahead_start_backward:
  assumes "kv_ok (it_data i)" and "rMax r = Some mx" and "it = Seek mx i"
    and "it1 = (if \<not> it_Valid it then SeekToLast it
                else if RawKey it \<noteq> Some mx then it_Prev it else it)"
    and "it' = (if 0 < rType r AND RangeROpen \<and> it_Valid it1 \<and> RawKey it1 = Some mx
                then it_Prev it1 else it1)"
  shows "in_bounds it' \<and>
    ahead IteratorBackward it' = rev (filter (\<lambda>p. below_max r (fst p)) (it_data i))"
proof -
  let ?B = IteratorBackward and ?s = "it_data i"
  have b: "in_bounds it1" and a: "ahead ?B it1 = rev (filter (\<lambda>p. fst p \<le> mx) ?s)"
    using ahead_Seek_backward [OF assms(1,3,4)] by auto
  have p: "it_Prev it1 = it_move ?B it1" by (simp add: it_move_def)
  have "(if it_Valid it1 \<and> RawKey it1 = Some mx then tl (ahead ?B it1) else ahead ?B it1)
      = rev (filter (\<lambda>p. fst p < mx) ?s)"
    using skip_equal_max [OF assms(1) a] it_Valid_ahead [OF b, of ?B] ahead_RawKey [of it1 ?B]
    by auto
  then show ?thesis
    using a b it_move_ahead [of it1 ?B] it_move_bounds [of it1 ?B]
    by (cases "0 < rType r AND RangeROpen") (auto simp: assms(2,5) below_max_def p split: if_splits)
qed

lemma offset_loop:
  assumes "in_bounds it"
  shows "in_bounds ((offsetStep d ^^ n) it) \<and> ahead d ((offsetStep d ^^ n) it) = drop n (ahead d it)"
proof (induction n)
  case (Suc n)
  let ?i = "(offsetStep d ^^ n) it"
  have "it_Valid ?i \<longleftrightarrow> drop n (ahead d it) \<noteq> []"
    using it_Valid_ahead [of ?i d] Suc by simp
  moreover have "drop (Suc n) (ahead d it) = tl (drop n (ahead d it))"
    by (simp add: drop_Suc tl_drop)
  ultimately show ?case
    using it_move_ahead [of ?i d] it_move_bounds [of ?i d] Suc by (auto simp: offsetStep_def [of d ?i])
qed (simp add: assms)

lemma kv_ok_closed:
  assumes "kv_ok s"
  shows "sorted_wrt (\<lambda>p q. below_max r (fst q) \<longrightarrow> below_max r (fst p)) s"
    and "sorted_wrt (\<lambda>p q. above_min r (fst p) \<longrightarrow> above_min r (fst q)) s"
proof -
  have s: "sorted_wrt (\<lambda>p q. fst p < fst q) s"
    using assms by (simp add: kv_ok_def sorted_wrt_map)
  show "sorted_wrt (\<lambda>p q. below_max r (fst q) \<longrightarrow> below_max r (fst p)) s"
    by (rule sorted_wrt_mono_rel [OF _ s]) (auto simp: below_max_def split: option.splits)
  show "sorted_wrt (\<lambda>p q. above_min r (fst p) \<longrightarrow> above_min r (fst q)) s"
    by (rule sorted_wrt_mono_rel [OF _ s]) (auto simp: above_min_def split: option.splits)
qed

definition opposite :: "direction \<Rightarrow> direction" where
  "opposite d = (case d of IteratorForward \<Rightarrow> IteratorBackward | IteratorBackward \<Rightarrow> IteratorForward)"

definition directed :: "direction \<Rightarrow> 'a list \<Rightarrow> 'a list" where
  "directed d xs = (case d of IteratorForward \<Rightarrow> xs | IteratorBackward \<Rightarrow> rev xs)"

lemma limited_cut: "limited (if c < 0 then -1 else max 0 (c - 0)) xs = limited c xs"
  by (simp add: limited_def)

lemma rangeStart_ahead:
  assumes ok: "kv_ok (it_data i)"
  shows "in_bounds (rangeStart i r d) \<and>
    ahead d (rangeStart i r d) = directed d (filter (\<lambda>p. within (opposite d) r (fst p)) (it_data i))"
proof (cases d)
  case IteratorForward
  show ?thesis
  proof (cases "rMin r")
    case None
    with IteratorForward show ?thesis
      by (simp add: rangeStart_def directed_def within_def opposite_def above_min_def)
  next
    case (Some mn)
    with IteratorForward ahead_start_forward [OF ok Some refl refl] show ?thesis
      by (simp add: rangeStart_def directed_def within_def opposite_def Let_def)
  qed
next
  case IteratorBackward
  show ?thesis
  proof (cases "rMax r")
    case None
    with IteratorBackward show ?thesis
      by (simp add: rangeStart_def directed_def within_def opposite_def below_max_def)
  next
    case (Some mx)
    with IteratorBackward ahead_start_backward [OF ok Some refl refl refl] show ?thesis
      by (simp add: rangeStart_def directed_def within_def opposite_def Let_def)
  qed
qed

lemma within_directed:
  assumes ok: "kv_ok s"
  shows "takeWhile (\<lambda>p. within d r (fst p))
      (drop n (directed d (filter (\<lambda>p. within (opposite d) r (fst p)) s))) =
    drop n (directed d (range_entries r s))"
proof -
  have f: "kv_ok (filter P s)" for P
    using ok by (rule kv_ok_filter)
  show ?thesis
  proof (cases d)
    case IteratorForward
    then show ?thesis
      using takeWhile_drop [OF kv_ok_closed(1) [OF f]]
      by (simp add: within_def opposite_def directed_def range_entries_def filter_filter conj_commute)
  next
    case IteratorBackward
    have "sorted_wrt (\<lambda>p q. above_min r (fst q) \<longrightarrow> above_min r (fst p)) (rev (filter P s))" for P
      using kv_ok_closed(2) [OF f] by (simp add: sorted_wrt_rev)
    from takeWhile_drop [OF this] show ?thesis
      using IteratorBackward
      by (simp add: within_def opposite_def directed_def range_entries_def rev_filter [symmetric]
           filter_filter conj_commute)
  qed
qed

lemma rli_run_range:
  assumes ok: "kv_ok (it_data i)"
  shows "rli_run (rangeLimitIterator i r l d) =
    limit_entries l (directed d (range_entries r (it_data i)))"
proof (cases "Offset l < 0")
  case True
  then show ?thesis
    by (subst rli_run.simps)
       (simp add: rangeLimitIterator_def rli_Valid_def limit_entries_def)
next
  case False
  let ?it = "(offsetStep d ^^ nat (Offset l)) (rangeStart i r d)"
  have b: "in_bounds ?it" and a: "takeWhile (\<lambda>p. within d r (fst p)) (ahead d ?it) =
      drop (nat (Offset l)) (directed d (range_entries r (it_data i)))"
    using rangeStart_ahead [OF ok, of r d] offset_loop [of "rangeStart i r d"]
      within_directed [OF ok, of d r]
    by simp_all
  have "rli_run (rangeLimitIterator i r l d) = limited
      (if Count l < 0 then -1 else max 0 (Count l - 0))
      (takeWhile (\<lambda>p. within d r (fst p)) (ahead d ?it))"
    using False b by (subst rli_run_ahead) (simp_all add: rangeLimitIterator_def)
  then show ?thesis
    unfolding a limited_cut using False by (simp add: limit_entries_def)
qed

section \<open>Properties\<close>

text \<open>
  C13: iterating over a range of a database with \<open>RangeLimitIterator\<close> (\<open>RevRangeLimitIterator\<close>)
  from construction until \<open>Valid\<close> fails visits exactly the entries whose keys lie between the
  bounds, each bound open or closed as the range says, in increasing (decreasing) key order,
  skipping the first \<open>Offset\<close> of them and stopping after \<open>Count\<close>; a negative \<open>Count\<close> means
  all, a negative \<open>Offset\<close> means none.
\<close>

theorem range_iteration:
  assumes "kv_ok (it_data i)"
  shows "rli_run (NewRangeLimitIterator i r l) = limit_entries l (range_entries r (it_data i)) \<and>
    rli_run (NewRevRangeLimitIterator i r l) = limit_entries l (rev (range_entries r (it_data i)))"
  using rli_run_range [OF assms]
  by (simp add: NewRangeLimitIterator_def NewRevRangeLimitIterator_def directed_def)

theorem range_iteration_witness:
  "rli_run (NewRangeLimitIterator (NewIterator [([1], [10]), ([2], [20]), ([3], [30]), ([5], [50])])
      \<lparr>rMin = Some [1], rMax = Some [5], rType = RangeOpen\<rparr> \<lparr>Offset = 1, Count = 7\<rparr>) = [([3], [30])] \<and>
   rli_run (NewRevRangeLimitIterator (NewIterator [([1], [10]), ([2], [20]), ([3], [30]), ([5], [50])])
      \<lparr>rMin = Some [1], rMax = Some [4], rType = RangeROpen\<rparr> \<lparr>Offset = 0, Count = 2\<rparr>) =
     [([3], [30]), ([2], [20])]"
proof -
  let ?i = "NewIterator [([1], [10]), ([2], [20]), ([3], [30]), ([5], [50])] :: Iterator"
  have "kv_ok (it_data ?i)"
    by (simp add: NewIterator_def kv_ok_def)
  from range_iteration [OF this, of "\<lparr>rMin = Some [1], rMax = Some [5], rType = RangeOpen\<rparr>"
      "\<lparr>Offset = 1, Count = 7\<rparr>"]
    range_iteration [OF this, of "\<lparr>rMin = Some [1], rMax = Some [4], rType = RangeROpen\<rparr>"
      "\<lparr>Offset = 0, Count = 2\<rparr>"]
  show ?thesis
    by (simp add: NewIterator_def limit_entries_def limited_def range_entries_def above_min_def
        below_max_def range_types)
qed

end
