(* ===== verification/Ledis_Codec.thy ===== *)
theory Ledis_Codec
  imports Ledis_Store
begin

text \<open>
  How the data of the databases is laid out in the one ordered key space of the backend
  (\<open>ledis/const.go\<close>, \<open>ledis/util.go\<close> and the encoders and decoders of \<open>ledis_db.go\<close>,
  \<open>t_kv.go\<close>, \<open>t_list.go\<close>, \<open>t_hash.go\<close>, \<open>t_set.go\<close>, \<open>t_zset.go\<close>, \<open>t_ttl.go\<close>).

  Every key starts with the varint of the database index (\<open>db.indexVarBuf\<close>, the argument \<open>p\<close>
  below, the only field of the database the encoders read) and a type byte. A buffer that the
  source allocates and fills by \<open>copy\<close> is the concatenation of its parts. Indexing and
  slicing outside a buffer is \<open>GoPanic\<close>.
\<close>

section \<open>Constants\<close>

definition NoneType :: byte where "NoneType = 0"
definition KVType :: byte where "KVType = 1"
definition HashType :: byte where "HashType = 2"
definition HSizeType :: byte where "HSizeType = 3"
definition ListType :: byte where "ListType = 4"
definition LMetaType :: byte where "LMetaType = 5"
definition ZSetType :: byte where "ZSetType = 6"
definition ZSizeType :: byte where "ZSizeType = 7"
definition ZScoreType :: byte where "ZScoreType = 8"
definition SetType :: byte where "SetType = 11"
definition SSizeType :: byte where "SSizeType = 12"
definition maxDataType :: byte where "maxDataType = 100"
definition ObsoleteExpTimeType :: byte where "ObsoleteExpTimeType = 101"
definition ExpMetaType :: byte where "ExpMetaType = 102"
definition ExpTimeType :: byte where "ExpTimeType = 103"
definition MetaType :: byte where "MetaType = 201"

lemmas type_defs = NoneType_def KVType_def HashType_def HSizeType_def ListType_def
  LMetaType_def ZSetType_def ZSizeType_def ZScoreType_def SetType_def SSizeType_def
  maxDataType_def ExpMetaType_def ExpTimeType_def MetaType_def

definition MaxDatabases :: nat where "MaxDatabases = 10240"
definition MaxKeySize :: nat where "MaxKeySize = 1024"
definition MaxHashFieldSize :: nat where "MaxHashFieldSize = 1024"
definition MaxZSetMemberSize :: nat where "MaxZSetMemberSize = 1024"
definition MaxSetMemberSize :: nat where "MaxSetMemberSize = 1024"
definition MaxValueSize :: nat where "MaxValueSize = 1024 * 1024 * 1024"
definition defaultScanCount :: int where "defaultScanCount = 10"

definition hashStartSep :: byte where "hashStartSep = 58"
definition hashStopSep :: byte where "hashStopSep = hashStartSep + 1"
definition setStartSep :: byte where "setStartSep = 58"
definition setStopSep :: byte where "setStopSep = setStartSep + 1"
definition zsetNScoreSep :: byte where "zsetNScoreSep = 60"
definition zsetPScoreSep :: byte where "zsetPScoreSep = zsetNScoreSep + 1"
definition zsetStopScoreSep :: byte where "zsetStopScoreSep = zsetPScoreSep + 1"
definition zsetStartMemSep :: byte where "zsetStartMemSep = 58"
definition zsetStopMemSep :: byte where "zsetStopMemSep = zsetStartMemSep + 1"

lemmas sep_defs = hashStartSep_def hashStopSep_def setStartSep_def setStopSep_def
  zsetNScoreSep_def zsetPScoreSep_def zsetStopScoreSep_def zsetStartMemSep_def
  zsetStopMemSep_def

section \<open>Integers as values (\<open>util.go\<close>)\<close>

definition Int64 :: "bytes option res \<Rightarrow> i64 res" where
  "Int64 r =
     (case r of
        Inl e \<Rightarrow> Inl e
      | Inr None \<Rightarrow> Inr 0
      | Inr (Some v) \<Rightarrow>
          if length v = 0 then Inr 0
          else if length v \<noteq> 8 then Inl ErrIntNumber
          else Inr (get_le64 v))"

definition Uint64 :: "bytes option res \<Rightarrow> u64 res" where
  "Uint64 r =
     (case r of
        Inl e \<Rightarrow> Inl e
      | Inr None \<Rightarrow> Inr 0
      | Inr (Some v) \<Rightarrow>
          if length v = 0 then Inr 0
          else if length v \<noteq> 8 then Inl ErrIntNumber
          else Inr (get_le64 v))"

definition PutInt64 :: "i64 \<Rightarrow> bytes" where
  "PutInt64 v = put_le64 v"

definition StrInt64 :: "bytes option res \<Rightarrow> i64 res" where
  "StrInt64 r =
     (case r of
        Inl e \<Rightarrow> Inl e
      | Inr None \<Rightarrow> Inr 0
      | Inr (Some v) \<Rightarrow> (case parse_int 64 v of Inl e \<Rightarrow> Inl e | Inr i \<Rightarrow> Inr (word_of_int i)))"

definition StrInt32 :: "bytes option res \<Rightarrow> i32 res" where
  "StrInt32 r =
     (case r of
        Inl e \<Rightarrow> Inl e
      | Inr None \<Rightarrow> Inr 0
      | Inr (Some v) \<Rightarrow> (case parse_int 32 v of Inl e \<Rightarrow> Inl e | Inr i \<Rightarrow> Inr (word_of_int i)))"

definition StrInt8 :: "bytes option res \<Rightarrow> byte res" where
  "StrInt8 r =
     (case r of
        Inl e \<Rightarrow> Inl e
      | Inr None \<Rightarrow> Inr 0
      | Inr (Some v) \<Rightarrow> (case parse_int 8 v of Inl e \<Rightarrow> Inl e | Inr i \<Rightarrow> Inr (word_of_int i)))"

definition StrUint64 :: "bytes option res \<Rightarrow> u64 res" where
  "StrUint64 r =
     (case r of
        Inl e \<Rightarrow> Inl e
      | Inr None \<Rightarrow> Inr 0
      | Inr (Some v) \<Rightarrow> (case parse_uint 64 v of Inl e \<Rightarrow> Inl e | Inr i \<Rightarrow> Inr (word_of_nat i)))"

section \<open>The database index (\<open>ledis_db.go\<close>)\<close>

definition setIndex :: "nat \<Rightarrow> bytes" where
  "setIndex idx = put_uvarint idx"

definition decodeDBIndex :: "bytes \<Rightarrow> (nat \<times> nat) res" where
  "decodeDBIndex buf =
     (let (idx, n) = uvarint buf in
      if n = 0 then Inl (ErrOther ''buf is too small to save index'')
      else if n < 0 then Inl (ErrOther ''value larger than 64 bits'')
      else if MaxDatabases < idx then Inl (ErrOther ''value is larger than max databases'')
      else Inr (idx, nat n))"

definition checkKeyIndex :: "bytes \<Rightarrow> bytes \<Rightarrow> nat res" where
  "checkKeyIndex p buf =
     (if length buf < length p then Inl ErrKeyTooSmall
      else if p \<noteq> take (length p) buf then Inl ErrDBIndex
      else Inr (length p))"

section \<open>Size checks\<close>

definition checkKeySize :: "bytes \<Rightarrow> unit res" where
  "checkKeySize key =
     (if MaxKeySize < length key \<or> length key = 0 then Inl ErrKeySize else Inr ())"

definition checkValueSize :: "bytes \<Rightarrow> unit res" where
  "checkValueSize v = (if MaxValueSize < length v then Inl ErrValueSize else Inr ())"

definition checkHashKFSize :: "bytes \<Rightarrow> bytes \<Rightarrow> unit res" where
  "checkHashKFSize key field =
     (if MaxKeySize < length key \<or> length key = 0 then Inl ErrKeySize
      else if MaxHashFieldSize < length field \<or> length field = 0 then Inl ErrHashFieldSize
      else Inr ())"

definition checkSetKMSize :: "bytes \<Rightarrow> bytes \<Rightarrow> unit res" where
  "checkSetKMSize key member =
     (if MaxKeySize < length key \<or> length key = 0 then Inl ErrKeySize
      else if MaxSetMemberSize < length member \<or> length member = 0 then Inl ErrSetMemberSize
      else Inr ())"

definition checkZSetKMSize :: "bytes \<Rightarrow> bytes \<Rightarrow> unit res" where
  "checkZSetKMSize key member =
     (if MaxKeySize < length key \<or> length key = 0 then Inl ErrKeySize
      else if MaxZSetMemberSize < length member \<or> length member = 0 then Inl ErrZSetMemberSize
      else Inr ())"

section \<open>Encoders\<close>

text \<open>The length prefix \<open>uint16(len(key))\<close>.\<close>

definition keyLen16 :: "bytes \<Rightarrow> bytes" where
  "keyLen16 key = put_be16 (word_of_nat (length key))"

definition encodeKVKey :: "bytes \<Rightarrow> bytes \<Rightarrow> bytes" where
  "encodeKVKey p key = p @ KVType # key"

definition encodeKVMinKey :: "bytes \<Rightarrow> bytes" where
  "encodeKVMinKey p = encodeKVKey p []"

definition encodeKVMaxKey :: "bytes \<Rightarrow> bytes" where
  "encodeKVMaxKey p = (let ek = encodeKVKey p [] in ek[length ek - 1 := KVType + 1])"

definition lEncodeMetaKey :: "bytes \<Rightarrow> bytes \<Rightarrow> bytes" where
  "lEncodeMetaKey p key = p @ LMetaType # key"

definition lEncodeListKey :: "bytes \<Rightarrow> bytes \<Rightarrow> i32 \<Rightarrow> bytes" where
  "lEncodeListKey p key s = p @ ListType # keyLen16 key @ key @ put_be32 s"

definition hEncodeSizeKey :: "bytes \<Rightarrow> bytes \<Rightarrow> bytes" where
  "hEncodeSizeKey p key = p @ HSizeType # key"

definition hEncodeHashKey :: "bytes \<Rightarrow> bytes \<Rightarrow> bytes \<Rightarrow> bytes" where
  "hEncodeHashKey p key field = p @ HashType # keyLen16 key @ key @ hashStartSep # field"

definition hEncodeStartKey :: "bytes \<Rightarrow> bytes \<Rightarrow> bytes" where
  "hEncodeStartKey p key = hEncodeHashKey p key []"

definition hEncodeStopKey :: "bytes \<Rightarrow> bytes \<Rightarrow> bytes" where
  "hEncodeStopKey p key = (let k = hEncodeHashKey p key [] in k[length k - 1 := hashStopSep])"

definition sEncodeSizeKey :: "bytes \<Rightarrow> bytes \<Rightarrow> bytes" where
  "sEncodeSizeKey p key = p @ SSizeType # key"

definition sEncodeSetKey :: "bytes \<Rightarrow> bytes \<Rightarrow> bytes \<Rightarrow> bytes" where
  "sEncodeSetKey p key member = p @ SetType # keyLen16 key @ key @ setStartSep # member"

definition sEncodeStartKey :: "bytes \<Rightarrow> bytes \<Rightarrow> bytes" where
  "sEncodeStartKey p key = sEncodeSetKey p key []"

definition sEncodeStopKey :: "bytes \<Rightarrow> bytes \<Rightarrow> bytes" where
  "sEncodeStopKey p key = (let k = sEncodeSetKey p key [] in k[length k - 1 := setStopSep])"

definition zEncodeSizeKey :: "bytes \<Rightarrow> bytes \<Rightarrow> bytes" where
  "zEncodeSizeKey p key = p @ ZSizeType # key"

definition zEncodeSetKey :: "bytes \<Rightarrow> bytes \<Rightarrow> bytes \<Rightarrow> bytes" where
  "zEncodeSetKey p key member = p @ ZSetType # keyLen16 key @ key @ zsetStartMemSep # member"

definition zEncodeStartSetKey :: "bytes \<Rightarrow> bytes \<Rightarrow> bytes" where
  "zEncodeStartSetKey p key = zEncodeSetKey p key []"

definition zEncodeStopSetKey :: "bytes \<Rightarrow> bytes \<Rightarrow> bytes" where
  "zEncodeStopSetKey p key =
     (let k = zEncodeSetKey p key [] in k[length k - 1 := zsetStartMemSep + 1])"

definition zEncodeScoreKey :: "bytes \<Rightarrow> bytes \<Rightarrow> bytes \<Rightarrow> i64 \<Rightarrow> bytes" where
  "zEncodeScoreKey p key member score =
     p @ ZScoreType # keyLen16 key @ key @
     (if sint score < 0 then zsetNScoreSep else zsetPScoreSep) #
     put_be64 score @ zsetStartMemSep # member"

definition zEncodeStartScoreKey :: "bytes \<Rightarrow> bytes \<Rightarrow> i64 \<Rightarrow> bytes" where
  "zEncodeStartScoreKey p key score = zEncodeScoreKey p key [] score"

definition zEncodeStopScoreKey :: "bytes \<Rightarrow> bytes \<Rightarrow> i64 \<Rightarrow> bytes" where
  "zEncodeStopScoreKey p key score =
     (let k = zEncodeScoreKey p key [] score in k[length k - 1 := zsetStopMemSep])"

definition expEncodeTimeKey :: "bytes \<Rightarrow> byte \<Rightarrow> bytes \<Rightarrow> i64 \<Rightarrow> bytes" where
  "expEncodeTimeKey p dataType key when = p @ ExpTimeType # put_be64 when @ dataType # key"

definition expEncodeMetaKey :: "bytes \<Rightarrow> byte \<Rightarrow> bytes \<Rightarrow> bytes" where
  "expEncodeMetaKey p dataType key = p @ ExpMetaType # dataType # key"

lemmas encoder_defs = encodeKVKey_def lEncodeMetaKey_def lEncodeListKey_def hEncodeSizeKey_def
  hEncodeHashKey_def sEncodeSizeKey_def sEncodeSetKey_def zEncodeSizeKey_def zEncodeSetKey_def
  zEncodeScoreKey_def expEncodeTimeKey_def expEncodeMetaKey_def

section \<open>Decoders\<close>

definition decodeKVKey :: "bytes \<Rightarrow> bytes \<Rightarrow> bytes res" where
  "decodeKVKey p ek =
     (case checkKeyIndex p ek of
        Inl e \<Rightarrow> Inl e
      | Inr pos \<Rightarrow>
          if length ek < pos + 1 \<or> ek ! pos \<noteq> KVType then Inl ErrKVKey
          else Inr (drop (pos + 1) ek))"

definition lDecodeMetaKey :: "bytes \<Rightarrow> bytes \<Rightarrow> bytes res" where
  "lDecodeMetaKey p ek =
     (case checkKeyIndex p ek of
        Inl e \<Rightarrow> Inl e
      | Inr pos \<Rightarrow>
          if length ek < pos + 1 \<or> ek ! pos \<noteq> LMetaType then Inl ErrLMetaKey
          else Inr (drop (pos + 1) ek))"

definition lDecodeListKey :: "bytes \<Rightarrow> bytes \<Rightarrow> (bytes \<times> i32) res" where
  "lDecodeListKey p ek =
     (case checkKeyIndex p ek of
        Inl e \<Rightarrow> Inl e
      | Inr pos \<Rightarrow>
          if length ek < pos + 1 \<or> ek ! pos \<noteq> ListType then Inl ErrListKey
          else let pos = pos + 1 in
            if length ek < pos + 2 then Inl ErrListKey
            else let keyLen = get_be16 (drop pos ek); pos = pos + 2 in
              if keyLen + pos + 4 \<noteq> length ek then Inl ErrListKey
              else Inr (take keyLen (drop pos ek), get_be32 (drop (pos + keyLen) ek)))"

definition hDecodeSizeKey :: "bytes \<Rightarrow> bytes \<Rightarrow> bytes res" where
  "hDecodeSizeKey p ek =
     (case checkKeyIndex p ek of
        Inl e \<Rightarrow> Inl e
      | Inr pos \<Rightarrow>
          if length ek < pos + 1 \<or> ek ! pos \<noteq> HSizeType then Inl ErrHSizeKey
          else Inr (drop (pos + 1) ek))"

definition hDecodeHashKey :: "bytes \<Rightarrow> bytes \<Rightarrow> (bytes \<times> bytes) res" where
  "hDecodeHashKey p ek =
     (case checkKeyIndex p ek of
        Inl e \<Rightarrow> Inl e
      | Inr pos \<Rightarrow>
          if length ek < pos + 1 \<or> ek ! pos \<noteq> HashType then Inl ErrHashKey
          else let pos = pos + 1 in
            if length ek < pos + 2 then Inl ErrHashKey
            else let keyLen = get_be16 (drop pos ek); pos = pos + 2 in
              if length ek < keyLen + pos then Inl ErrHashKey
              else let key = take keyLen (drop pos ek); pos = pos + keyLen in
                if length ek \<le> pos then Inl GoPanic
                else if ek ! pos \<noteq> hashStartSep then Inl ErrHashKey
                else Inr (key, drop (pos + 1) ek))"

definition sDecodeSizeKey :: "bytes \<Rightarrow> bytes \<Rightarrow> bytes res" where
  "sDecodeSizeKey p ek =
     (case checkKeyIndex p ek of
        Inl e \<Rightarrow> Inl e
      | Inr pos \<Rightarrow>
          if length ek < pos + 1 \<or> ek ! pos \<noteq> SSizeType then Inl ErrSSizeKey
          else Inr (drop (pos + 1) ek))"

definition sDecodeSetKey :: "bytes \<Rightarrow> bytes \<Rightarrow> (bytes \<times> bytes) res" where
  "sDecodeSetKey p ek =
     (case checkKeyIndex p ek of
        Inl e \<Rightarrow> Inl e
      | Inr pos \<Rightarrow>
          if length ek < pos + 1 \<or> ek ! pos \<noteq> SetType then Inl ErrSetKey
          else let pos = pos + 1 in
            if length ek < pos + 2 then Inl ErrSetKey
            else let keyLen = get_be16 (drop pos ek); pos = pos + 2 in
              if length ek < keyLen + pos then Inl ErrSetKey
              else let key = take keyLen (drop pos ek); pos = pos + keyLen in
                if length ek \<le> pos then Inl GoPanic
                else if ek ! pos \<noteq> hashStartSep then Inl ErrSetKey
                else Inr (key, drop (pos + 1) ek))"

definition zDecodeSizeKey :: "bytes \<Rightarrow> bytes \<Rightarrow> bytes res" where
  "zDecodeSizeKey p ek =
     (case checkKeyIndex p ek of
        Inl e \<Rightarrow> Inl e
      | Inr pos \<Rightarrow>
          if length ek < pos + 1 \<or> ek ! pos \<noteq> ZSizeType then Inl ErrZSizeKey
          else Inr (drop (pos + 1) ek))"

definition zDecodeSetKey :: "bytes \<Rightarrow> bytes \<Rightarrow> (bytes \<times> bytes) res" where
  "zDecodeSetKey p ek =
     (case checkKeyIndex p ek of
        Inl e \<Rightarrow> Inl e
      | Inr pos \<Rightarrow>
          if length ek < pos + 1 \<or> ek ! pos \<noteq> ZSetType then Inl ErrZSetKey
          else let pos = pos + 1 in
            if length ek < pos + 2 then Inl ErrZSetKey
            else let keyLen = get_be16 (drop pos ek) in
              if length ek < keyLen + pos then Inl ErrZSetKey
              else let pos = pos + 2 in
                if length ek \<le> pos + keyLen then Inl GoPanic
                else if ek ! (pos + keyLen) \<noteq> zsetStartMemSep then Inl ErrZSetKey
                else Inr (take keyLen (drop pos ek), drop (pos + 1 + keyLen) ek))"

definition zDecodeScoreKey :: "bytes \<Rightarrow> bytes \<Rightarrow> (bytes \<times> bytes \<times> i64) res" where
  "zDecodeScoreKey p ek =
     (case checkKeyIndex p ek of
        Inl e \<Rightarrow> Inl e
      | Inr pos \<Rightarrow>
          if length ek < pos + 1 \<or> ek ! pos \<noteq> ZScoreType then Inl ErrZScoreKey
          else let pos = pos + 1 in
            if length ek < pos + 2 then Inl ErrZScoreKey
            else let keyLen = get_be16 (drop pos ek); pos = pos + 2 in
              if length ek < keyLen + pos then Inl ErrZScoreKey
              else let key = take keyLen (drop pos ek); pos = pos + keyLen in
                if length ek < pos + 10 then Inl ErrZScoreKey
                else if ek ! pos \<noteq> zsetNScoreSep \<and> ek ! pos \<noteq> zsetPScoreSep
                then Inl ErrZScoreKey
                else let score = get_be64 (drop (pos + 1) ek); pos = pos + 9 in
                  if ek ! pos \<noteq> zsetStartMemSep then Inl ErrZScoreKey
                  else Inr (key, drop (pos + 1) ek, score))"

definition expDecodeMetaKey :: "bytes \<Rightarrow> bytes \<Rightarrow> (byte \<times> bytes) res" where
  "expDecodeMetaKey p mk =
     (case checkKeyIndex p mk of
        Inl e \<Rightarrow> Inl e
      | Inr pos \<Rightarrow>
          if length mk < pos + 2 \<or> mk ! pos \<noteq> ExpMetaType then Inl ErrExpMetaKey
          else Inr (mk ! (pos + 1), drop (pos + 2) mk))"

definition expDecodeTimeKey :: "bytes \<Rightarrow> bytes \<Rightarrow> (byte \<times> bytes \<times> i64) res" where
  "expDecodeTimeKey p tk =
     (case checkKeyIndex p tk of
        Inl e \<Rightarrow> Inl e
      | Inr pos \<Rightarrow>
          if length tk < pos + 10 \<or> tk ! pos \<noteq> ExpTimeType then Inl ErrExpTimeKey
          else Inr (tk ! (pos + 9), drop (pos + 10) tk, get_be64 (drop (pos + 1) tk)))"

end
