(* ===== verification/Ledis_Codec_Laws.thy ===== *)
theory Ledis_Codec_Laws
  imports Ledis_Codec
begin

text \<open>
  The laws of the key layout: what is encoded is decoded again, different data never shares a
  key, and the order of the keys is the order in which the iterators have to deliver the data.
\<close>

section \<open>Round trips\<close>

definition key16 :: "bytes \<Rightarrow> bool" where
  "key16 key \<longleftrightarrow> length key < 2 ^ 16"

lemma length_keyLen16 [simp]: "length (keyLen16 key) = 2"
  by (simp add: keyLen16_def)

lemma get_keyLen16 [simp]: "key16 key \<Longrightarrow> get_be16 (keyLen16 key @ rest) = length key"
  by (simp add: keyLen16_def key16_def unsigned_of_nat take_bit_nat_eq_self)

lemma keyLen16_eq: "key16 k \<Longrightarrow> key16 k' \<Longrightarrow> keyLen16 k = keyLen16 k' \<longleftrightarrow> length k = length k'"
  by (metis get_keyLen16 keyLen16_def)

lemma keyLen16_append_eq:
  "key16 k \<Longrightarrow> key16 k' \<Longrightarrow>
     keyLen16 k @ k @ xs = keyLen16 k' @ k' @ ys \<longleftrightarrow> k = k' \<and> xs = ys"
  by (auto simp: keyLen16_eq)

lemma checkKeyIndex_append [simp]: "checkKeyIndex p (p @ xs) = Inr (length p)"
  by (simp add: checkKeyIndex_def)

lemma decodeKVKey_encode [simp]: "decodeKVKey p (encodeKVKey p key) = Inr key"
  by (simp add: decodeKVKey_def encodeKVKey_def)

lemma lDecodeMetaKey_encode [simp]: "lDecodeMetaKey p (lEncodeMetaKey p key) = Inr key"
  by (simp add: lDecodeMetaKey_def lEncodeMetaKey_def)

lemma hDecodeSizeKey_encode [simp]: "hDecodeSizeKey p (hEncodeSizeKey p key) = Inr key"
  by (simp add: hDecodeSizeKey_def hEncodeSizeKey_def)

lemma sDecodeSizeKey_encode [simp]: "sDecodeSizeKey p (sEncodeSizeKey p key) = Inr key"
  by (simp add: sDecodeSizeKey_def sEncodeSizeKey_def)

lemma zDecodeSizeKey_encode [simp]: "zDecodeSizeKey p (zEncodeSizeKey p key) = Inr key"
  by (simp add: zDecodeSizeKey_def zEncodeSizeKey_def)

lemma lDecodeListKey_encode [simp]:
  "key16 key \<Longrightarrow> lDecodeListKey p (lEncodeListKey p key s) = Inr (key, s)"
  by (simp add: lDecodeListKey_def lEncodeListKey_def drop_Cons')

lemma hDecodeHashKey_encode [simp]:
  "key16 key \<Longrightarrow> hDecodeHashKey p (hEncodeHashKey p key field) = Inr (key, field)"
  by (simp add: hDecodeHashKey_def hEncodeHashKey_def nth_append drop_Cons')

lemma sDecodeSetKey_encode [simp]:
  "key16 key \<Longrightarrow> sDecodeSetKey p (sEncodeSetKey p key member) = Inr (key, member)"
  by (simp add: sDecodeSetKey_def sEncodeSetKey_def nth_append sep_defs drop_Cons')

lemma zDecodeSetKey_encode [simp]:
  "key16 key \<Longrightarrow> zDecodeSetKey p (zEncodeSetKey p key member) = Inr (key, member)"
  by (simp add: zDecodeSetKey_def zEncodeSetKey_def nth_append drop_Cons')

lemma zDecodeScoreKey_encode [simp]:
  "key16 key \<Longrightarrow> zDecodeScoreKey p (zEncodeScoreKey p key member score) = Inr (key, member, score)"
  by (simp add: zDecodeScoreKey_def zEncodeScoreKey_def nth_append drop_Cons' Let_def)

lemma expDecodeMetaKey_encode [simp]:
  "expDecodeMetaKey p (expEncodeMetaKey p dt key) = Inr (dt, key)"
  by (simp add: expDecodeMetaKey_def expEncodeMetaKey_def nth_append)

lemma expDecodeTimeKey_encode [simp]:
  "expDecodeTimeKey p (expEncodeTimeKey p dt key when) = Inr (dt, key, when)"
  by (simp add: expDecodeTimeKey_def expEncodeTimeKey_def nth_append)

lemma decodeDBIndex_setIndex:
  "idx \<le> MaxDatabases \<Longrightarrow> decodeDBIndex (setIndex idx @ rest) = Inr (idx, length (setIndex idx))"
  by (simp add: decodeDBIndex_def setIndex_def uvarint_put MaxDatabases_def)

lemma Int64_PutInt64 [simp]: "Int64 (Inr (Some (PutInt64 v))) = Inr v"
  by (simp add: Int64_def PutInt64_def)

lemma Int64_None [simp]: "Int64 (Inr None) = Inr 0"
  by (simp add: Int64_def)

lemma StrInt64_format [simp]: "StrInt64 (Inr (Some (FormatInt64ToSlice v))) = Inr v"
  by (simp add: StrInt64_def)

lemma length_PutInt64 [simp]: "length (PutInt64 v) = 8"
  by (simp add: PutInt64_def)

section \<open>No two data share a key\<close>

text \<open>\<open>lkey\<close> names everything a database stores under; \<open>lkey_encode\<close> is its key.\<close>

datatype lkey =
    KVKey bytes
  | LMetaKey bytes | ListKey bytes i32
  | HSizeKey bytes | HashKey bytes bytes
  | SSizeKey bytes | SetKey bytes bytes
  | ZSizeKey bytes | ZSetKey bytes bytes | ZScoreKey bytes bytes i64
  | ExpMetaKey byte bytes | ExpTimeKey byte bytes i64

fun lkey_encode :: "bytes \<Rightarrow> lkey \<Rightarrow> bytes" where
  "lkey_encode p (KVKey k) = encodeKVKey p k"
| "lkey_encode p (LMetaKey k) = lEncodeMetaKey p k"
| "lkey_encode p (ListKey k s) = lEncodeListKey p k s"
| "lkey_encode p (HSizeKey k) = hEncodeSizeKey p k"
| "lkey_encode p (HashKey k f) = hEncodeHashKey p k f"
| "lkey_encode p (SSizeKey k) = sEncodeSizeKey p k"
| "lkey_encode p (SetKey k m) = sEncodeSetKey p k m"
| "lkey_encode p (ZSizeKey k) = zEncodeSizeKey p k"
| "lkey_encode p (ZSetKey k m) = zEncodeSetKey p k m"
| "lkey_encode p (ZScoreKey k m s) = zEncodeScoreKey p k m s"
| "lkey_encode p (ExpMetaKey dt k) = expEncodeMetaKey p dt k"
| "lkey_encode p (ExpTimeKey dt k w) = expEncodeTimeKey p dt k w"

fun lkey_ok :: "lkey \<Rightarrow> bool" where
  "lkey_ok (ListKey k s) = key16 k"
| "lkey_ok (HashKey k f) = key16 k"
| "lkey_ok (SetKey k m) = key16 k"
| "lkey_ok (ZSetKey k m) = key16 k"
| "lkey_ok (ZScoreKey k m s) = key16 k"
| "lkey_ok _ = True"

text \<open>The type byte after the database index decides which decoder applies.\<close>

definition res_as :: "('a \<Rightarrow> 'b) \<Rightarrow> 'a res \<Rightarrow> 'b option" where
  "res_as f r = (case r of Inl _ \<Rightarrow> None | Inr x \<Rightarrow> Some (f x))"

definition lkey_decode :: "bytes \<Rightarrow> bytes \<Rightarrow> lkey option" where
  "lkey_decode p ek =
     (let c = ek ! length p in
      if length ek \<le> length p then None
      else if c = KVType then res_as KVKey (decodeKVKey p ek)
      else if c = LMetaType then res_as LMetaKey (lDecodeMetaKey p ek)
      else if c = ListType then res_as (case_prod ListKey) (lDecodeListKey p ek)
      else if c = HSizeType then res_as HSizeKey (hDecodeSizeKey p ek)
      else if c = HashType then res_as (case_prod HashKey) (hDecodeHashKey p ek)
      else if c = SSizeType then res_as SSizeKey (sDecodeSizeKey p ek)
      else if c = SetType then res_as (case_prod SetKey) (sDecodeSetKey p ek)
      else if c = ZSizeType then res_as ZSizeKey (zDecodeSizeKey p ek)
      else if c = ZSetType then res_as (case_prod ZSetKey) (zDecodeSetKey p ek)
      else if c = ZScoreType
      then res_as (\<lambda>(k, m, s). ZScoreKey k m s) (zDecodeScoreKey p ek)
      else if c = ExpMetaType then res_as (case_prod ExpMetaKey) (expDecodeMetaKey p ek)
      else if c = ExpTimeType
      then res_as (\<lambda>(t, k, w). ExpTimeKey t k w) (expDecodeTimeKey p ek)
      else None)"

fun lkey_type :: "lkey \<Rightarrow> byte" where
  "lkey_type (KVKey k) = KVType"
| "lkey_type (LMetaKey k) = LMetaType"
| "lkey_type (ListKey k s) = ListType"
| "lkey_type (HSizeKey k) = HSizeType"
| "lkey_type (HashKey k f) = HashType"
| "lkey_type (SSizeKey k) = SSizeType"
| "lkey_type (SetKey k m) = SetType"
| "lkey_type (ZSizeKey k) = ZSizeType"
| "lkey_type (ZSetKey k m) = ZSetType"
| "lkey_type (ZScoreKey k m s) = ZScoreType"
| "lkey_type (ExpMetaKey dt k) = ExpMetaType"
| "lkey_type (ExpTimeKey dt k w) = ExpTimeType"

lemma lkey_encode_type: "\<exists>xs. lkey_encode p k = p @ lkey_type k # xs"
  by (cases k) (auto simp: encoder_defs)

lemma lkey_encode_nth: "lkey_encode p k ! length p = lkey_type k"
  and lkey_encode_length: "\<not> length (lkey_encode p k) \<le> length p"
  using lkey_encode_type [of p k] by auto

lemma lkey_decode_encode:
  assumes "lkey_ok k"
  shows "lkey_decode p (lkey_encode p k) = Some k"
  using assms lkey_encode_nth [of p k] lkey_encode_length [of p k]
  by (cases k) (simp_all add: lkey_decode_def res_as_def type_defs)

lemma lkey_encode_inj:
  assumes "lkey_ok k" "lkey_ok k'"
  shows "lkey_encode p k = lkey_encode p k' \<longleftrightarrow> k = k'"
  by (metis assms lkey_decode_encode option.inject)

lemma setIndex_append_eq:
  "i < 2 ^ 64 \<Longrightarrow> j < 2 ^ 64 \<Longrightarrow> setIndex i @ xs = setIndex j @ ys \<Longrightarrow> i = j \<and> xs = ys"
  unfolding setIndex_def by (rule put_uvarint_append_eq)

lemma lkey_encode_index_inj:
  assumes "lkey_ok k" "lkey_ok k'" "i < 2 ^ 64" "j < 2 ^ 64"
  shows "lkey_encode (setIndex i) k = lkey_encode (setIndex j) k' \<longleftrightarrow> i = j \<and> k = k'"
proof
  assume eq: "lkey_encode (setIndex i) k = lkey_encode (setIndex j) k'"
  obtain c xs where "lkey_encode (setIndex i) k = setIndex i @ c # xs"
    using lkey_encode_type by blast
  moreover obtain d ys where "lkey_encode (setIndex j) k' = setIndex j @ d # ys"
    using lkey_encode_type by blast
  ultimately have "i = j"
    using setIndex_append_eq assms(3,4) eq by metis
  with eq assms show "i = j \<and> k = k'"
    by (simp add: lkey_encode_inj)
qed simp

section \<open>The order of the keys\<close>

lemma less_plus_one: "x < c + 1 \<Longrightarrow> x \<le> (c :: 'a :: len word)"
  by (metis add.commute less_Suc_eq_le unatSuc word_le_nat_alt word_less_nat_alt
      word_not_simps(1))

text \<open>
  The bytes from \<open>q @ [c]\<close> up to \<open>q @ [c + 1]\<close> are those that start with \<open>q @ [c]\<close>: a range
  query between a start and a stop key sees one collection and nothing else.
\<close>

lemma prefix_range:
  assumes "c < c + (1 :: byte)"
  shows "q @ [c] \<le> k \<and> k < q @ [c + 1] \<longleftrightarrow> (\<exists>rest. k = q @ c # rest)"
proof (induction q arbitrary: k)
  case Nil
  show ?case
    using assms less_plus_one [of _ c] by (cases k) (auto dest: leD)
next
  case (Cons x q)
  then show ?case by (cases k) auto
qed

lemma update_last [simp]: "(xs @ [a])[length xs := b] = xs @ [b]"
  by (simp add: list_update_append)

lemma stop_keys:
  "encodeKVMaxKey p = p @ [KVType + 1]"
  "hEncodeStopKey p key = (p @ HashType # keyLen16 key @ key) @ [hashStartSep + 1]"
  "sEncodeStopKey p key = (p @ SetType # keyLen16 key @ key) @ [setStartSep + 1]"
  "zEncodeStopSetKey p key = (p @ ZSetType # keyLen16 key @ key) @ [zsetStartMemSep + 1]"
  by (simp_all add: encodeKVMaxKey_def hEncodeStopKey_def sEncodeStopKey_def
      zEncodeStopSetKey_def encoder_defs hashStopSep_def setStopSep_def list_update_append)

lemma start_keys:
  "encodeKVMinKey p = p @ [KVType]"
  "hEncodeStartKey p key = (p @ HashType # keyLen16 key @ key) @ [hashStartSep]"
  "sEncodeStartKey p key = (p @ SetType # keyLen16 key @ key) @ [setStartSep]"
  "zEncodeStartSetKey p key = (p @ ZSetType # keyLen16 key @ key) @ [zsetStartMemSep]"
  by (simp_all add: encodeKVMinKey_def hEncodeStartKey_def sEncodeStartKey_def
      zEncodeStartSetKey_def encoder_defs)

lemma kv_range:
  "encodeKVMinKey p \<le> k \<and> k < encodeKVMaxKey p \<longleftrightarrow> (\<exists>key. k = encodeKVKey p key)"
  unfolding start_keys stop_keys encodeKVKey_def
  by (subst prefix_range) (auto simp: KVType_def)

lemma hash_range:
  "hEncodeStartKey p key \<le> k \<and> k < hEncodeStopKey p key \<longleftrightarrow> (\<exists>f. k = hEncodeHashKey p key f)"
  unfolding start_keys stop_keys hEncodeHashKey_def
  by (subst prefix_range) (auto simp: sep_defs)

lemma set_range:
  "sEncodeStartKey p key \<le> k \<and> k < sEncodeStopKey p key \<longleftrightarrow> (\<exists>m. k = sEncodeSetKey p key m)"
  unfolding start_keys stop_keys sEncodeSetKey_def
  by (subst prefix_range) (auto simp: sep_defs)

lemma zset_range:
  "zEncodeStartSetKey p key \<le> k \<and> k < zEncodeStopSetKey p key \<longleftrightarrow>
     (\<exists>m. k = zEncodeSetKey p key m)"
  unfolding start_keys stop_keys zEncodeSetKey_def
  by (subst prefix_range) (auto simp: sep_defs)

lemma item_key_less [codec_inj]:
  "encodeKVKey p k < encodeKVKey p k' \<longleftrightarrow> k < k'"
  "hEncodeHashKey p key f < hEncodeHashKey p key f' \<longleftrightarrow> f < f'"
  "sEncodeSetKey p key f < sEncodeSetKey p key f' \<longleftrightarrow> f < f'"
  "zEncodeSetKey p key f < zEncodeSetKey p key f' \<longleftrightarrow> f < f'"
  by (simp_all add: encoder_defs)

lemma list_key_less [codec_inj]:
  "lEncodeListKey p key s < lEncodeListKey p key s' \<longleftrightarrow> s < s'"
  "lEncodeListKey p key s \<le> lEncodeListKey p key s' \<longleftrightarrow> s \<le> s'"
  by (simp_all add: lEncodeListKey_def put_be32_less_iff le_less)

text \<open>
  The sign byte in front of the score makes the byte order of the score keys the order of
  the signed scores, and of the members for equal scores.
\<close>

lemma uint_by_sign: "uint (s :: i64) = (if sint s < 0 then sint s + 2 ^ 64 else sint s)"
proof -
  have b: "- (2 ^ 63) \<le> sint s" "sint s < 2 ^ 63"
    using sint_ge [of s] sint_lt [of s] by simp_all
  have "uint s = sint s mod 2 ^ 64"
    by (simp add: uint_sint take_bit_eq_mod)
  moreover have "sint s mod 2 ^ 64 = sint s + 2 ^ 64" if "sint s < 0"
    using b that mod_pos_pos_trivial [of "sint s + 2 ^ 64" "2 ^ 64"] by simp
  ultimately show ?thesis
    using b by (auto simp: mod_pos_pos_trivial)
qed

lemma signed_less_same_sign:
  fixes s s' :: i64
  assumes "sint s < 0 \<longleftrightarrow> sint s' < 0"
  shows "s < s' \<longleftrightarrow> sint s < sint s'"
  using assms by (simp add: word_less_def uint_by_sign)

lemma score_key_less [codec_inj]:
  "zEncodeScoreKey p key m s < zEncodeScoreKey p key m' s' \<longleftrightarrow>
     sint s < sint s' \<or> s = s' \<and> m < m'"
proof (cases "sint s < 0 \<longleftrightarrow> sint s' < 0")
  case True
  then show ?thesis
    by (simp add: zEncodeScoreKey_def same_length_append_less_iff put_be64_less_iff
        signed_less_same_sign)
next
  case False
  then show ?thesis
    by (auto simp: zEncodeScoreKey_def sep_defs)
qed

lemma score_range:
  "zEncodeStartScoreKey p key a \<le> zEncodeScoreKey p key m s \<longleftrightarrow> sint a \<le> sint s"
  "zEncodeScoreKey p key m s \<le> zEncodeStopScoreKey p key b \<longleftrightarrow> sint s \<le> sint b"
  "zEncodeScoreKey p key m s < zEncodeStopScoreKey p key b \<longleftrightarrow> sint s \<le> sint b"
proof -
  have st: "zEncodeStopScoreKey p key b = p @ ZScoreType # keyLen16 key @ key @
      (if sint b < 0 then zsetNScoreSep else zsetPScoreSep) # put_be64 b @ [zsetStopMemSep]"
    by (simp add: zEncodeStopScoreKey_def zEncodeScoreKey_def list_update_append)
  show "zEncodeStartScoreKey p key a \<le> zEncodeScoreKey p key m s \<longleftrightarrow> sint a \<le> sint s"
    unfolding zEncodeStartScoreKey_def le_less score_key_less
    by (cases m) (auto simp: zEncodeScoreKey_def signed_word_eqI less_le)
  show lt: "zEncodeScoreKey p key m s < zEncodeStopScoreKey p key b \<longleftrightarrow> sint s \<le> sint b"
  proof (cases "sint s < 0 \<longleftrightarrow> sint b < 0")
    case True
    then show ?thesis
      unfolding st by (auto simp: zEncodeScoreKey_def same_length_append_less_iff put_be64_less_iff
          signed_less_same_sign sep_defs le_less signed_word_eqI)
  next
    case False
    then show ?thesis
      unfolding st by (auto simp: zEncodeScoreKey_def sep_defs)
  qed
  have "zEncodeScoreKey p key m s \<noteq> zEncodeStopScoreKey p key b"
    unfolding st by (auto simp: zEncodeScoreKey_def sep_defs)
  with lt show "zEncodeScoreKey p key m s \<le> zEncodeStopScoreKey p key b \<longleftrightarrow> sint s \<le> sint b"
    by (simp add: le_less)
qed

section \<open>Properties\<close>

text \<open>
  C15: the layout of the key space. Two data never share a key: the keys of two data, of any
  types and of any two databases, are equal only if the databases and the data are, and the
  decoders give the datum back. (Keys with a 16-bit length prefix are shorter than \<open>2 ^ 16\<close>
  bytes; the size checks allow at most 1024.)
\<close>

theorem key_layout_injective:
  assumes "lkey_ok k" "lkey_ok k'" "i < 2 ^ 64" "j < 2 ^ 64"
  shows "(lkey_encode (setIndex i) k = lkey_encode (setIndex j) k' \<longleftrightarrow> i = j \<and> k = k') \<and>
    lkey_decode (setIndex i) (lkey_encode (setIndex i) k) = Some k"
  using lkey_encode_index_inj [OF assms] lkey_decode_encode [OF assms(1)] by simp

theorem key_layout_injective_witness:
  "lkey_encode (setIndex 3) (HashKey [1, 2] [3]) \<noteq> lkey_encode (setIndex 200) (ZScoreKey [1] [2] 7) \<and>
   lkey_decode (setIndex 3) (lkey_encode (setIndex 3) (HashKey [1, 2] [3])) = Some (HashKey [1, 2] [3])"
proof -
  have "lkey_ok (HashKey [1, 2] [3])" "lkey_ok (ZScoreKey [1] [2] 7)"
    by (simp_all add: key16_def)
  from key_layout_injective [OF this, of 3 200] show ?thesis by simp
qed

text \<open>
  The score keys of a sorted set are ordered by the signed 64-bit score and then by the
  member, and the range between the start key of a score and the stop key of another one holds
  exactly the members whose scores lie between them.
\<close>

theorem score_key_order:
  "(zEncodeScoreKey p key m s < zEncodeScoreKey p key m' s' \<longleftrightarrow>
      sint s < sint s' \<or> s = s' \<and> m < m') \<and>
   (zEncodeStartScoreKey p key a \<le> zEncodeScoreKey p key m s \<and>
    zEncodeScoreKey p key m s \<le> zEncodeStopScoreKey p key b \<longleftrightarrow>
      sint a \<le> sint s \<and> sint s \<le> sint b)"
  by (simp add: score_key_less score_range)

text \<open>
  C16: the range between the start and the stop key of a hash, a set, a sorted set or of the
  key-value type holds the keys of that collection's items and no other byte string at all,
  and within it the keys are ordered as the fields, members or names are.
\<close>

theorem collection_ranges:
  "(hEncodeStartKey p key \<le> k \<and> k < hEncodeStopKey p key \<longleftrightarrow> (\<exists>f. k = hEncodeHashKey p key f)) \<and>
   (sEncodeStartKey p key \<le> k \<and> k < sEncodeStopKey p key \<longleftrightarrow> (\<exists>m. k = sEncodeSetKey p key m)) \<and>
   (zEncodeStartSetKey p key \<le> k \<and> k < zEncodeStopSetKey p key \<longleftrightarrow>
      (\<exists>m. k = zEncodeSetKey p key m)) \<and>
   (encodeKVMinKey p \<le> k \<and> k < encodeKVMaxKey p \<longleftrightarrow> (\<exists>key. k = encodeKVKey p key)) \<and>
   (hEncodeHashKey p key f < hEncodeHashKey p key f' \<longleftrightarrow> f < f') \<and>
   (sEncodeSetKey p key f < sEncodeSetKey p key f' \<longleftrightarrow> f < f') \<and>
   (zEncodeSetKey p key f < zEncodeSetKey p key f' \<longleftrightarrow> f < f') \<and>
   (encodeKVKey p f < encodeKVKey p f' \<longleftrightarrow> f < f')"
  by (intro conjI hash_range set_range zset_range kv_range item_key_less)

end
