(* ===== verification/Store_BatchData.thy ===== *)
theory Store_BatchData
  imports Ledis_Store
begin

text \<open>
  The serialised form of a write batch (\<open>BatchData\<close> of \<open>store/writebatch.go\<close>, the format of
  \<open>leveldb.Batch\<close>): a header with a sequence number and the number of records, then the
  records. This is what the replication log carries from a master to its slaves.

  The sequence number, which the backend sets on a write and which no reader of the data
  looks at, is written as \<open>0\<close>. \<open>decodeRec\<close> follows the loop of the source with its absolute
  offset and the conversion \<open>int(x)\<close> of a 64-bit length; it returns the records it has handed
  out and the error it stopped at, since a replay that fails has already applied the records
  before the bad one.
\<close>

definition batchHdrLen :: nat where
  "batchHdrLen = 8 + 4"

definition keyTypeDel :: byte where "keyTypeDel = 0"
definition keyTypeVal :: byte where "keyTypeVal = 1"

definition appendRec :: "wop \<Rightarrow> bytes" where
  "appendRec w =
     (case w of
        WPut k v \<Rightarrow> keyTypeVal # put_uvarint (length k) @ k @ put_uvarint (length v) @ v
      | WDel k \<Rightarrow> keyTypeDel # put_uvarint (length k) @ k)"

definition Dump :: "wop list \<Rightarrow> bytes" where
  "Dump t = put_le64 0 @ put_le32 (word_of_nat (length t)) @ concat (map appendRec t)"

text \<open>A batch loaded from bytes: the number of records of the header, and the bytes.\<close>

record BatchData =
  rLen :: nat
  bdata :: bytes

definition NewBatchData :: "bytes \<Rightarrow> BatchData res" where
  "NewBatchData data =
     (if length data < batchHdrLen then Inl (ErrBatchCorrupted ''too short'')
      else Inr \<lparr>rLen = unat (get_le32 (drop 8 data)), bdata = data\<rparr>)"

definition BatchData_Data :: "BatchData \<Rightarrow> bytes" where
  "BatchData_Data b = take 8 (bdata b) @ put_le32 (word_of_nat (rLen b)) @ drop batchHdrLen (bdata b)"

text \<open>
  One length-prefixed field at an offset: the bytes and the offset after them. The end of the
  field is computed in 64-bit signed arithmetic; a field that ends before it starts panics.
\<close>

definition decodeField :: "string \<Rightarrow> bytes \<Rightarrow> nat \<Rightarrow> (bytes \<times> nat) res" where
  "decodeField what data off =
     (let (x, n) = uvarint (drop off data) in
      if n \<le> 0 then Inl (ErrBatchCorrupted what)
      else let off' = off + nat n;
               e = sint (word_of_nat (off' + x) :: i64)
           in if int (length data) < e then Inl (ErrBatchCorrupted what)
              else if e < int off' then Inl GoPanic
              else Inr (take (nat e - off') (drop off' data), nat e))"

definition decodeOne :: "bytes \<Rightarrow> nat \<Rightarrow> (wop \<times> nat) res" where
  "decodeOne data off =
     (if length data \<le> off then Inl (ErrBatchCorrupted ''invalid records length'')
      else let kt = data ! off in
        if keyTypeVal < kt then Inl GoPanic
        else case decodeField ''bad record: invalid key length'' data (Suc off) of
          Inl e \<Rightarrow> Inl e
        | Inr (key, off1) \<Rightarrow>
            if kt = keyTypeVal
            then (case decodeField ''bad record: invalid value length'' data off1 of
                    Inl e \<Rightarrow> Inl e
                  | Inr (v, off2) \<Rightarrow> Inr (WPut key v, off2))
            else Inr (WDel key, off1))"

fun decodeRec :: "nat \<Rightarrow> bytes \<Rightarrow> nat \<Rightarrow> wop list \<times> err option" where
  "decodeRec 0 data off = ([], None)"
| "decodeRec (Suc n) data off =
     (case decodeOne data off of
        Inl e \<Rightarrow> ([], Some e)
      | Inr (w, off') \<Rightarrow> (let (ws, e) = decodeRec n data off' in (w # ws, e)))"

definition BatchData_Replay ::
  "(bytes \<Rightarrow> bytes \<Rightarrow> 's \<Rightarrow> 's) \<Rightarrow> (bytes \<Rightarrow> 's \<Rightarrow> 's) \<Rightarrow> BatchData \<Rightarrow> 's \<Rightarrow> 's \<times> err option" where
  "BatchData_Replay put del d s =
     (let (ws, e) = decodeRec (rLen d) (bdata d) batchHdrLen in (Replay put del ws s, e))"

definition BatchData_Items :: "BatchData \<Rightarrow> BatchItem list res" where
  "BatchData_Items d =
     (case BatchData_Replay batchItems_Put batchItems_Delete d [] of
        (is, None) \<Rightarrow> Inr is
      | (is, Some e) \<Rightarrow> Inl e)"

section \<open>What is dumped is what is replayed\<close>

lemma sint_small: "n < 2 ^ 63 \<Longrightarrow> sint (word_of_nat n :: i64) = int n"
  by (simp add: signed_of_nat signed_take_bit_int_eq_self)

lemma decodeField_put:
  assumes "data = pre @ put_uvarint (length k) @ k @ rest" and "length data < 2 ^ 63"
  shows "decodeField what data (length pre) =
    Inr (k, length pre + length (put_uvarint (length k)) + length k)"
proof -
  have "uvarint (drop (length pre) data) = (length k, int (length (put_uvarint (length k))))"
    using assms by (simp add: uvarint_put)
  moreover have "sint (word_of_nat (length pre + length (put_uvarint (length k)) + length k) :: i64)
      = int (length pre + length (put_uvarint (length k)) + length k)"
    using assms by (intro sint_small) simp
  ultimately show ?thesis
    using assms(1) by (auto simp: decodeField_def Let_def)
qed

lemma decodeOne_appendRec:
  assumes data: "data = pre @ appendRec w @ rest" and "length data < 2 ^ 63"
  shows "decodeOne data (length pre) = Inr (w, length pre + length (appendRec w))"
proof (cases w)
  case (WPut k v)
  let ?p1 = "pre @ [keyTypeVal]" and ?p2 = "pre @ keyTypeVal # put_uvarint (length k) @ k"
  have "decodeField what data (length ?p1) =
      Inr (k, length ?p1 + length (put_uvarint (length k)) + length k)" for what
    using assms WPut by (intro decodeField_put) (auto simp: appendRec_def)
  moreover have "decodeField what data (length ?p2) =
      Inr (v, length ?p2 + length (put_uvarint (length v)) + length v)" for what
    using assms WPut by (intro decodeField_put) (auto simp: appendRec_def)
  ultimately show ?thesis
    using data WPut by (simp add: decodeOne_def appendRec_def nth_append keyTypeVal_def add.assoc)
next
  case (WDel k)
  let ?p1 = "pre @ [keyTypeDel]"
  have "decodeField what data (length ?p1) =
      Inr (k, length ?p1 + length (put_uvarint (length k)) + length k)" for what
    using assms WDel by (intro decodeField_put) (auto simp: appendRec_def)
  then show ?thesis
    using data WDel
    by (simp add: decodeOne_def appendRec_def nth_append keyTypeVal_def keyTypeDel_def)
qed

lemma decodeRec_appendRec:
  assumes "length (pre @ concat (map appendRec t) @ rest) < 2 ^ 63"
  shows "decodeRec (length t) (pre @ concat (map appendRec t) @ rest) (length pre) = (t, None)"
  using assms
proof (induction t arbitrary: pre)
  case (Cons w t)
  let ?data = "pre @ appendRec w @ concat (map appendRec t) @ rest"
  have "decodeOne ?data (length pre) = Inr (w, length (pre @ appendRec w))"
    using Cons.prems by (subst decodeOne_appendRec) auto
  moreover have "decodeRec (length t) ?data (length (pre @ appendRec w)) = (t, None)"
    using Cons.IH [of "pre @ appendRec w"] Cons.prems by simp
  ultimately show ?case by simp
qed simp

definition dumpable :: "wop list \<Rightarrow> bool" where
  "dumpable t \<longleftrightarrow> length t < 2 ^ 32 \<and> length (Dump t) < 2 ^ 63"

lemma NewBatchData_Dump:
  assumes "dumpable t"
  shows "NewBatchData (Dump t) = Inr \<lparr>rLen = length t, bdata = Dump t\<rparr>"
proof -
  have "drop 8 (Dump t) = put_le32 (word_of_nat (length t)) @ concat (map appendRec t)"
    by (simp add: Dump_def)
  moreover have "unat (word_of_nat (length t) :: u32) = length t"
    using assms by (simp add: dumpable_def unsigned_of_nat take_bit_nat_eq_self)
  ultimately show ?thesis
    by (simp add: NewBatchData_def batchHdrLen_def Dump_def)
qed

lemma decodeRec_Dump:
  assumes "dumpable t"
  shows "decodeRec (length t) (Dump t) batchHdrLen = (t, None)"
  using decodeRec_appendRec [of "put_le64 0 @ put_le32 (word_of_nat (length t))" t "[]"] assms
  by (simp add: Dump_def dumpable_def batchHdrLen_def)

lemma BatchData_Replay_Dump:
  "dumpable t \<Longrightarrow>
     BatchData_Replay put del \<lparr>rLen = length t, bdata = Dump t\<rparr> s = (Replay put del t s, None)"
  by (simp add: BatchData_Replay_def decodeRec_Dump)

lemma BatchData_Data_Dump: "dumpable t \<Longrightarrow>
    BatchData_Data \<lparr>rLen = length t, bdata = Dump t\<rparr> = Dump t"
  by (simp add: BatchData_Data_def Dump_def batchHdrLen_def)

section \<open>Properties\<close>

text \<open>
  C14: loading the serialised form of a batch gives back the batch: replaying the loaded data
  into a database has the effect of committing the batch itself, its items are the operations
  of the batch in order, and serialising it again gives the same bytes. (The batch has fewer
  than \<open>2 ^ 32\<close> records and fewer than \<open>2 ^ 63\<close> bytes.)
\<close>

theorem batch_data_replay:
  assumes "dumpable t"
  shows "\<exists>d. NewBatchData (Dump t) = Inr d \<and> BatchData_Replay kv_put kv_delete d s = (wb_write t s, None) \<and>
    BatchData_Items d = Inr (Items t) \<and> BatchData_Data d = Dump t"
  using assms
  by (simp add: NewBatchData_Dump BatchData_Replay_Dump BatchData_Data_Dump wb_write_def
      BatchData_Items_def Items_def)

theorem batch_data_replay_witness:
  "\<exists>d. NewBatchData (Dump [WPut [1] [2, 3], WDel [4]]) = Inr d \<and>
     BatchData_Replay kv_put kv_delete d [([4], [9])] = ([([1], [2, 3])], None) \<and>
     BatchData_Items d = Inr [([1], Some [2, 3]), ([4], None)]"
proof -
  have "dumpable [WPut [1] [2, 3], WDel [4]]"
    by (simp add: dumpable_def Dump_def appendRec_def put_uvarint.simps)
  from batch_data_replay [OF this, of "[([4], [9])]"] show ?thesis
    by (auto simp: wb_write_def kv_put_def kv_delete_def Items_eq)
qed

end
