(* ===== verification/Rpl_Log.thy ===== *)
theory Rpl_Log
  imports Store_BatchData
begin

text \<open>
  The replication log record and its byte format (\<open>rpl/log.go\<close>), and the contract of a log
  store (\<open>LogStore\<close> of \<open>rpl/store.go\<close>) with what follows from it.

  A reader is the list of bytes still to be read. A decoding that fails returns only the
  error: no caller looks at the log object after one.
\<close>

record Log =
  ID :: u64
  CreateTime :: u32
  Compression :: byte
  Data :: bytes

definition LogHeadSize :: nat where "LogHeadSize = 17"

definition InvalidLogID :: u64 where "InvalidLogID = 0"

definition Log_Size :: "Log \<Rightarrow> nat" where
  "Log_Size l = LogHeadSize + length (Data l)"

definition Encode :: "Log \<Rightarrow> bytes" where
  "Encode l = put_be64 (ID l) @ put_be32 (CreateTime l) @ [Compression l] @
     put_be32 (word_of_nat (length (Data l))) @ Data l"

definition Marshal :: "Log \<Rightarrow> bytes res" where
  "Marshal l = Inr (Encode l)"

text \<open>\<open>io.ReadFull\<close> for a buffer of \<open>n\<close> bytes.\<close>

definition ReadFull :: "nat \<Rightarrow> bytes \<Rightarrow> (bytes \<times> bytes) res" where
  "ReadFull n r =
     (if n \<le> length r then Inr (take n r, drop n r)
      else if r = [] then Inl ErrEOF else Inl ErrUnexpectedEOF)"

definition decodeHeadBuf :: "bytes \<Rightarrow> Log \<times> u32" where
  "decodeHeadBuf buf =
     (\<lparr>ID = get_be64 buf, CreateTime = get_be32 (drop 8 buf), Compression = buf ! 12, Data = []\<rparr>,
      get_be32 (drop 13 buf))"

definition DecodeHead :: "bytes \<Rightarrow> (Log \<times> u32 \<times> bytes) res" where
  "DecodeHead r =
     (case ReadFull LogHeadSize r of
        Inl e \<Rightarrow> Inl e
      | Inr (buf, r') \<Rightarrow> let (l, n) = decodeHeadBuf buf in Inr (l, n, r'))"

definition Decode :: "bytes \<Rightarrow> (Log \<times> bytes) res" where
  "Decode r =
     (case DecodeHead r of
        Inl e \<Rightarrow> Inl e
      | Inr (l, n, r') \<Rightarrow>
          (case ReadFull (unat n) r' of
             Inl e \<Rightarrow> Inl e
           | Inr (d, r'') \<Rightarrow> Inr (l\<lparr>Data := d\<rparr>, r'')))"

definition Unmarshal :: "bytes \<Rightarrow> Log res" where
  "Unmarshal b = (case Decode b of Inl e \<Rightarrow> Inl e | Inr (l, r) \<Rightarrow> Inr l)"

text \<open>
  Reading at a position: an \<open>io.ReaderAt\<close> maps a buffer size and an offset to the bytes read
  and the error, if any. A short read of the head leaves bytes of an earlier use in the
  pooled buffer, but it is answered by an error whatever they decode to.
\<close>

type_synonym ReaderAt = "nat \<Rightarrow> int \<Rightarrow> bytes \<times> err option"

definition DecodeHeadAt :: "ReaderAt \<Rightarrow> int \<Rightarrow> (Log \<times> u32) res" where
  "DecodeHeadAt ra pos =
     (case ra LogHeadSize pos of
        (buf, e) \<Rightarrow>
          if e \<noteq> None \<and> e \<noteq> Some ErrEOF then Inl (the e)
          else let (l, n) = decodeHeadBuf buf in
            if e = Some ErrEOF \<and> (length buf \<noteq> LogHeadSize \<or> n \<noteq> 0) then Inl ErrEOF
            else Inr (l, n))"

definition DecodeAt :: "ReaderAt \<Rightarrow> int \<Rightarrow> Log res" where
  "DecodeAt ra pos =
     (case DecodeHeadAt ra pos of
        Inl e \<Rightarrow> Inl e
      | Inr (l, n) \<Rightarrow>
          (case ra (unat n) (pos + int LogHeadSize) of
             (d, e) \<Rightarrow>
               if e = Some ErrEOF \<and> length d = unat n \<or> e = None then Inr (l\<lparr>Data := d\<rparr>)
               else Inl (the e)))"

section \<open>Round trips\<close>

definition Log_ok :: "Log \<Rightarrow> bool" where
  "Log_ok l \<longleftrightarrow> length (Data l) < 2 ^ 32"

lemma length_Encode [simp, codec_simps]: "length (Encode l) = Log_Size l"
  by (simp add: Encode_def Log_Size_def LogHeadSize_def)

lemma Encode_not_Nil [simp]: "Encode l \<noteq> []"
  by (simp add: Encode_def)

lemma unat_length32: "n < 2 ^ 32 \<Longrightarrow> unat (word_of_nat n :: u32) = n"
  by (simp add: unsigned_of_nat take_bit_nat_eq_self)

lemma ReadFull_append [simp]: "ReadFull (length xs) (xs @ ys) = Inr (xs, ys)"
  by (simp add: ReadFull_def)

lemma decodeHeadBuf_Encode:
  "decodeHeadBuf (take LogHeadSize (Encode l @ rest)) =
     (l\<lparr>Data := []\<rparr>, word_of_nat (length (Data l)))"
proof -
  have "take LogHeadSize (Encode l @ rest) =
      put_be64 (ID l) @ put_be32 (CreateTime l) @ [Compression l] @
      put_be32 (word_of_nat (length (Data l)))"
    by (simp add: Encode_def LogHeadSize_def)
  moreover have "drop 8 (put_be64 (ID l) @ ys) = ys" for ys
    by simp
  moreover have "drop 13 (put_be64 (ID l) @ put_be32 (CreateTime l) @ [Compression l] @ ys) = ys"
    for ys by simp
  moreover have "(put_be64 (ID l) @ put_be32 (CreateTime l) @ [Compression l] @ ys) ! 12 =
      Compression l" for ys
    by (simp add: nth_append)
  ultimately show ?thesis
    by (simp add: decodeHeadBuf_def)
qed

lemma DecodeHead_Encode:
  "DecodeHead (Encode l @ rest) =
     Inr (l\<lparr>Data := []\<rparr>, word_of_nat (length (Data l)), Data l @ rest)"
proof -
  have "ReadFull LogHeadSize (Encode l @ rest) =
      Inr (take LogHeadSize (Encode l @ rest), Data l @ rest)"
    by (simp add: ReadFull_def Log_Size_def Encode_def LogHeadSize_def)
  then show ?thesis
    by (simp add: DecodeHead_def decodeHeadBuf_Encode del: take_append)
qed

lemma Decode_Encode: "Log_ok l \<Longrightarrow> Decode (Encode l @ rest) = Inr (l, rest)"
  by (simp add: Decode_def DecodeHead_Encode Log_ok_def unat_length32)

lemma Unmarshal_Encode [simp]: "Log_ok l \<Longrightarrow> Unmarshal (Encode l) = Inr l"
  using Decode_Encode [of l "[]"] by (simp add: Unmarshal_def)

text \<open>A truncated log never decodes: the error says whether anything was there.\<close>

lemma Decode_prefix:
  assumes "Log_ok l" and "n < Log_Size l"
  shows "Decode (take n (Encode l)) =
    Inl (if n = 0 \<or> n = LogHeadSize then ErrEOF else ErrUnexpectedEOF)"
proof (cases "n < LogHeadSize")
  case True
  with assms show ?thesis
    by (auto simp: Decode_def DecodeHead_def ReadFull_def LogHeadSize_def)
next
  case False
  have e: "Encode l = take LogHeadSize (Encode l) @ Data l"
    by (simp add: Encode_def LogHeadSize_def)
  from False have "take n (Encode l) = take LogHeadSize (Encode l) @ take (n - LogHeadSize) (Data l)"
    by (subst e) (simp add: Log_Size_def)
  moreover have "length (take LogHeadSize (Encode l)) = LogHeadSize"
    by (simp add: Log_Size_def)
  ultimately have "ReadFull LogHeadSize (take n (Encode l)) =
      Inr (take LogHeadSize (Encode l), take (n - LogHeadSize) (Data l))"
    by (metis ReadFull_append)
  then have "DecodeHead (take n (Encode l)) =
      Inr (l\<lparr>Data := []\<rparr>, word_of_nat (length (Data l)), take (n - LogHeadSize) (Data l))"
    using decodeHeadBuf_Encode [of l "[]"] by (simp add: DecodeHead_def)
  with False assms show ?thesis
    by (auto simp: Decode_def Log_ok_def unat_length32 ReadFull_def Log_Size_def)
qed

section \<open>The log store contract\<close>

text \<open>
  The logs of a store carry consecutive ids; id \<open>0\<close> is the invalid one, so the ids never wrap.
\<close>

fun consecutive :: "Log list \<Rightarrow> bool" where
  "consecutive [] = True"
| "consecutive [l] = (ID l \<noteq> InvalidLogID)"
| "consecutive (l # m # ls) = (ID l \<noteq> InvalidLogID \<and> ID m = ID l + 1 \<and> consecutive (m # ls))"

definition lastLogID :: "Log list \<Rightarrow> u64" where
  "lastLogID ls = (if ls = [] then InvalidLogID else ID (last ls))"

definition firstLogID :: "Log list \<Rightarrow> u64" where
  "firstLogID ls = (if ls = [] then InvalidLogID else ID (hd ls))"

definition findLog :: "u64 \<Rightarrow> Log list \<Rightarrow> Log option" where
  "findLog i ls = find (\<lambda>l. ID l = i) ls"

lemma consecutive_snoc:
  "consecutive (ls @ [l]) \<longleftrightarrow>
     consecutive ls \<and> ID l \<noteq> InvalidLogID \<and> (ls \<noteq> [] \<longrightarrow> ID l = lastLogID ls + 1)"
  by (induction ls rule: consecutive.induct) (auto simp: lastLogID_def)

lemma consecutive_tl: "consecutive (l # ls) \<Longrightarrow> consecutive ls"
  by (cases ls) auto

lemma consecutive_append1: "consecutive (ls @ ms) \<Longrightarrow> consecutive ls"
  by (induction ms rule: rev_induct) (auto simp: consecutive_snoc simp flip: append_assoc)

lemma consecutive_append2: "consecutive (ds @ ls) \<Longrightarrow> consecutive ls"
  by (induction ds) (auto dest: consecutive_tl)

lemma word_add_1_cases: "(w :: 'a :: len word) + 1 = 0 \<or> w < w + 1"
  by (metis add.commute unatSuc word_less_nat_alt lessI)

lemma consecutive_sorted: "consecutive ls \<Longrightarrow> sorted_wrt (<) (map ID ls)"
proof (induction ls rule: consecutive.induct)
  case (3 l m ls)
  have "ID m \<noteq> 0"
    using 3(2) by (cases ls) (auto simp: InvalidLogID_def)
  then have "ID l < ID m"
    using 3(2) word_add_1_cases [of "ID l"] by auto
  with 3 show ?case by (auto dest: order.strict_trans)
qed simp_all

lemma consecutive_nonzero: "consecutive ls \<Longrightarrow> l \<in> set ls \<Longrightarrow> ID l \<noteq> InvalidLogID"
  by (induction ls rule: consecutive.induct) auto

lemma consecutive_last_max:
  assumes "consecutive ls" and "l \<in> set ls"
  shows "ID l \<le> lastLogID ls"
  using assms
proof (induction ls rule: rev_induct)
  case (snoc m ls)
  then have "sorted_wrt (<) (map ID (ls @ [m]))"
    by (intro consecutive_sorted)
  with snoc(3) show ?case
    by (auto simp: lastLogID_def sorted_wrt_append)
qed simp

lemma findLog_mem: "consecutive ls \<Longrightarrow> l \<in> set ls \<Longrightarrow> findLog (ID l) ls = Some l"
proof (induction ls)
  case (Cons m ls)
  then have "distinct (map ID (m # ls))"
    using consecutive_sorted strict_sorted_iff by blast
  with Cons show ?case
    by (auto simp: findLog_def dest: consecutive_tl)
qed simp

lemma findLog_snoc:
  "findLog i (ls @ [l]) =
     (case findLog i ls of Some m \<Rightarrow> Some m | None \<Rightarrow> if ID l = i then Some l else None)"
  by (induction ls) (auto simp: findLog_def)

text \<open>
  What a store promises: the two ends of its range of ids, that a log with the next id is
  accepted and appended, and that every log it has, and no other, is found by its id.
  \<open>may_store\<close> are the ids it accepts: the next one, and for some stores any id if there are
  no logs yet.
\<close>

locale log_store =
  fixes inv :: "'s \<Rightarrow> bool"
    and logs :: "'s \<Rightarrow> Log list"
    and healthy :: "'s \<Rightarrow> bool"
    and may_store :: "'s \<Rightarrow> u64 \<Rightarrow> bool"
    and FirstID :: "'s \<Rightarrow> u64 res \<times> 's"
    and LastID :: "'s \<Rightarrow> u64 res \<times> 's"
    and GetLog :: "u64 \<Rightarrow> 's \<Rightarrow> Log res"
    and StoreLog :: "Log \<Rightarrow> 's \<Rightarrow> unit res \<times> 's"
  assumes inv_consecutive: "inv s \<Longrightarrow> consecutive (logs s)"
    and FirstID_ok: "inv s \<Longrightarrow> \<exists>s'. FirstID s = (Inr (firstLogID (logs s)), s') \<and>
          inv s' \<and> logs s' = logs s \<and> (healthy s' \<longleftrightarrow> healthy s) \<and> may_store s' = may_store s"
    and LastID_ok: "inv s \<Longrightarrow> \<exists>s'. LastID s = (Inr (lastLogID (logs s)), s') \<and>
          inv s' \<and> logs s' = logs s \<and> (healthy s' \<longleftrightarrow> healthy s) \<and> may_store s' = may_store s"
    and GetLog_ok: "inv s \<Longrightarrow> i \<noteq> InvalidLogID \<Longrightarrow>
          GetLog i s = (case findLog i (logs s) of None \<Rightarrow> Inl ErrLogNotFound | Some l \<Rightarrow> Inr l)"
    and may_store_next: "inv s \<Longrightarrow> may_store s (lastLogID (logs s) + 1)"
    and may_store_gap: "inv s \<Longrightarrow> may_store s i \<Longrightarrow> logs s \<noteq> [] \<Longrightarrow> i = lastLogID (logs s) + 1"
    and StoreLog_ok: "inv s \<Longrightarrow> healthy s \<Longrightarrow> Log_ok l \<Longrightarrow> may_store s (ID l) \<Longrightarrow>
          ID l \<noteq> InvalidLogID \<Longrightarrow> \<exists>s'. StoreLog l s = (Inr (), s') \<and>
          inv s' \<and> logs s' = logs s @ [l] \<and> healthy s'"
    and StoreLog_accepts: "inv s \<Longrightarrow> healthy s \<Longrightarrow> may_store s (ID l) \<Longrightarrow>
          ID l \<noteq> InvalidLogID \<Longrightarrow> \<exists>s'. StoreLog l s = (Inr (), s')"
begin

text \<open>The store seen through \<open>GetLog\<close> after a log has been accepted.\<close>

lemma GetLog_StoreLog:
  assumes "inv s" "healthy s" "Log_ok l" "may_store s (ID l)" "ID l \<noteq> InvalidLogID"
  shows "\<exists>s'. StoreLog l s = (Inr (), s') \<and> GetLog (ID l) s' = Inr l \<and>
    (\<forall>i. i \<noteq> InvalidLogID \<longrightarrow> i \<noteq> ID l \<longrightarrow> GetLog i s' = GetLog i s)"
proof -
  obtain s' where s': "StoreLog l s = (Inr (), s')" "inv s'" "logs s' = logs s @ [l]"
    using StoreLog_ok [OF assms] by blast
  have "findLog (ID l) (logs s') = Some l"
    using findLog_mem [OF inv_consecutive [OF s'(2)], of l] s'(3) by simp
  moreover have "i \<noteq> ID l \<Longrightarrow> findLog i (logs s') = findLog i (logs s)" for i
    by (simp add: s'(3) findLog_snoc split: option.splits)
  ultimately show ?thesis
    using s'(1,2) assms(1,5) by (auto simp: GetLog_ok)
qed

end

section \<open>Properties\<close>

text \<open>
  C17: a log record that is encoded onto a stream is decoded from it again, and the decoder stops
  right behind it; a stream that ends inside the record is refused, with \<open>io.EOF\<close> only at its
  beginning or between head and data.
\<close>

theorem log_round_trip:
  assumes "Log_ok l"
  shows "Decode (Encode l @ rest) = Inr (l, rest) \<and>
    (n < Log_Size l \<longrightarrow> Decode (take n (Encode l)) =
       Inl (if n = 0 \<or> n = LogHeadSize then ErrEOF else ErrUnexpectedEOF))"
  using Decode_Encode [OF assms] Decode_prefix [OF assms] by blast

theorem log_round_trip_witness:
  "let l = \<lparr>ID = 7, CreateTime = 9, Compression = 0, Data = [1, 2, 3]\<rparr> in
     Decode (Encode l @ [5]) = Inr (l, [5]) \<and> Decode (take 18 (Encode l)) = Inl ErrUnexpectedEOF"
proof -
  let ?l = "\<lparr>ID = 7, CreateTime = 9, Compression = 0, Data = [1, 2, 3]\<rparr> :: Log"
  have "Log_ok ?l"
    by (simp add: Log_ok_def)
  from log_round_trip [OF this, of "[5]" 18] show ?thesis
    by (simp add: Log_Size_def LogHeadSize_def)
qed

end
