(* ===== verification/Rpl_GoLevelDBStore.thy ===== *)
theory Rpl_GoLevelDBStore
  imports Rpl_Log
begin

text \<open>
  The log store on a goleveldb database (\<open>rpl/goleveldb_store.go\<close>): logs are the values of
  their big endian ids, so the first and the last entry of the database are the two ends of
  the range of ids. \<open>gs_first\<close> and \<open>gs_last\<close> cache these ends (\<open>0\<close> when unknown).

  \<open>gs_err\<close> is the error the backend answers a write with, \<open>None\<close> for a backend that
  accepts writes. Locks, the reused encoding buffer and the files are left out; \<open>Clear\<close>
  removes the files and opens an empty database.
\<close>

record GoLevelDBStore =
  gs_db :: kvstore
  gs_err :: "err option"
  gs_first :: u64
  gs_last :: u64

definition BytesToUint64 :: "bytes \<Rightarrow> u64 res" where
  "BytesToUint64 b = (if length b < 8 then Inl GoPanic else Inr (get_be64 b))"

definition gs_firstID :: "GoLevelDBStore \<Rightarrow> u64 res \<times> GoLevelDBStore" where
  "gs_firstID s =
     (if gs_first s \<noteq> InvalidLogID then (Inr (gs_first s), s)
      else let it = SeekToFirst (NewIterator (gs_db s)) in
        if it_Valid it
        then (case BytesToUint64 (the (RawKey it)) of
                Inl e \<Rightarrow> (Inl e, s)
              | Inr i \<Rightarrow> (Inr i, s\<lparr>gs_first := i\<rparr>))
        else (Inr (gs_first s), s))"

definition gs_lastID :: "GoLevelDBStore \<Rightarrow> u64 res \<times> GoLevelDBStore" where
  "gs_lastID s =
     (if gs_last s \<noteq> InvalidLogID then (Inr (gs_last s), s)
      else let it = SeekToLast (NewIterator (gs_db s)) in
        if it_Valid it
        then (case BytesToUint64 (the (RawKey it)) of
                Inl e \<Rightarrow> (Inl e, s)
              | Inr i \<Rightarrow> (Inr i, s\<lparr>gs_last := i\<rparr>))
        else (Inr (gs_last s), s))"

definition gs_GetLog :: "u64 \<Rightarrow> GoLevelDBStore \<Rightarrow> Log res" where
  "gs_GetLog i s =
     (case kv_get (gs_db s) (put_be64 i) of
        None \<Rightarrow> Inl ErrLogNotFound
      | Some v \<Rightarrow> (case Decode v of Inl e \<Rightarrow> Inl e | Inr (l, r) \<Rightarrow> Inr l))"

definition gs_StoreLog :: "Log \<Rightarrow> GoLevelDBStore \<Rightarrow> unit res \<times> GoLevelDBStore" where
  "gs_StoreLog l s0 =
     (case gs_lastID s0 of
        (Inl e, s) \<Rightarrow> (Inl e, s)
      | (Inr lst, s) \<Rightarrow>
          let s = s\<lparr>gs_last := InvalidLogID\<rparr> in
          if ID l \<noteq> lst + 1 then (Inl ErrStoreLogID, s)
          else case gs_err s of
            Some e \<Rightarrow> (Inl e, s)
          | None \<Rightarrow> (Inr (), s\<lparr>gs_db := kv_put (put_be64 (ID l)) (Encode l) (gs_db s),
                             gs_last := ID l\<rparr>))"

definition gs_reset :: "GoLevelDBStore \<Rightarrow> GoLevelDBStore" where
  "gs_reset s = s\<lparr>gs_first := InvalidLogID, gs_last := InvalidLogID\<rparr>"

text \<open>The loop of \<open>PurgeExpired\<close> over the entries from the first one on.\<close>

fun gs_purgeLoop :: "u32 \<Rightarrow> kvstore \<Rightarrow> wop list res" where
  "gs_purgeLoop t [] = Inr []"
| "gs_purgeLoop t ((k, v) # es) =
     (case Unmarshal v of
        Inl e \<Rightarrow> Inl e
      | Inr l \<Rightarrow>
          if t < CreateTime l then Inr []
          else (case gs_purgeLoop t es of Inl e \<Rightarrow> Inl e | Inr w \<Rightarrow> Inr (WDel k # w)))"

definition gs_PurgeExpired :: "i64 \<Rightarrow> i64 \<Rightarrow> GoLevelDBStore \<Rightarrow> unit res \<times> GoLevelDBStore" where
  "gs_PurgeExpired now n s0 =
     (if sint n \<le> 0 then (Inl (ErrOther ''invalid expired time''), s0)
      else let t = ucast (now - n) :: u32;
               s = gs_reset s0
           in case gs_purgeLoop t (gs_db s) of
                Inl e \<Rightarrow> (Inl e, s)
              | Inr w \<Rightarrow>
                  (case gs_err s of
                     Some e \<Rightarrow> (Inl e, s)
                   | None \<Rightarrow> (Inr (), s\<lparr>gs_db := wb_write w (gs_db s)\<rparr>)))"

definition gs_Clear :: "GoLevelDBStore \<Rightarrow> unit res \<times> GoLevelDBStore" where
  "gs_Clear s = (Inr (), (gs_reset s)\<lparr>gs_db := []\<rparr>)"

section \<open>The store keeps the contract\<close>

definition log_entry :: "Log \<Rightarrow> bytes \<times> bytes" where
  "log_entry l = (put_be64 (ID l), Encode l)"

definition gs_logs :: "GoLevelDBStore \<Rightarrow> Log list" where
  "gs_logs s = map (\<lambda>(k, v). case Unmarshal v of Inr l \<Rightarrow> l) (gs_db s)"

definition gs_inv :: "GoLevelDBStore \<Rightarrow> bool" where
  "gs_inv s \<longleftrightarrow>
     gs_db s = map log_entry (gs_logs s) \<and> list_all Log_ok (gs_logs s) \<and>
     consecutive (gs_logs s) \<and>
     (gs_first s = InvalidLogID \<or> gs_first s = firstLogID (gs_logs s)) \<and>
     (gs_last s = InvalidLogID \<or> gs_last s = lastLogID (gs_logs s))"

definition gs_healthy :: "GoLevelDBStore \<Rightarrow> bool" where
  "gs_healthy s \<longleftrightarrow> gs_err s = None"

lemma gs_logs_entries:
  "list_all Log_ok ls \<Longrightarrow> gs_db s = map log_entry ls \<Longrightarrow> gs_logs s = ls"
  by (simp add: gs_logs_def list_all_iff log_entry_def map_idI)

lemma gs_logs_upd [simp]:
  "gs_logs (s\<lparr>gs_first := f\<rparr>) = gs_logs s" "gs_logs (s\<lparr>gs_last := f\<rparr>) = gs_logs s"
  by (simp_all add: gs_logs_def)

lemma BytesToUint64_put [simp]: "BytesToUint64 (put_be64 i) = Inr i"
  by (simp add: BytesToUint64_def)

lemma firstID_spec:
  assumes "gs_inv s"
  shows "\<exists>f. gs_firstID s = (Inr (firstLogID (gs_logs s)), s\<lparr>gs_first := f\<rparr>) \<and>
    (f = InvalidLogID \<or> f = firstLogID (gs_logs s))"
proof (cases "gs_first s \<noteq> InvalidLogID")
  case True
  with assms show ?thesis
    by (intro exI [of _ "gs_first s"]) (auto simp: gs_firstID_def gs_inv_def)
next
  case False
  have "gs_db s = map log_entry (gs_logs s)"
    using assms by (simp add: gs_inv_def)
  with False show ?thesis
    by (cases "gs_logs s")
       (auto simp: gs_firstID_def NewIterator_def SeekToFirst_def it_Valid_def RawKey_def
          firstLogID_def log_entry_def intro: exI [of _ "InvalidLogID"])
qed

lemma lastID_spec:
  assumes "gs_inv s"
  shows "\<exists>f. gs_lastID s = (Inr (lastLogID (gs_logs s)), s\<lparr>gs_last := f\<rparr>) \<and>
    (f = InvalidLogID \<or> f = lastLogID (gs_logs s))"
proof (cases "gs_last s \<noteq> InvalidLogID")
  case True
  with assms show ?thesis
    by (intro exI [of _ "gs_last s"]) (auto simp: gs_lastID_def gs_inv_def)
next
  case False
  have "gs_db s = map log_entry (gs_logs s)"
    using assms by (simp add: gs_inv_def)
  with False show ?thesis
    by (cases "gs_logs s" rule: rev_cases)
       (auto simp: gs_lastID_def NewIterator_def SeekToLast_def it_Valid_def RawKey_def
          lastLogID_def log_entry_def nth_append intro: exI [of _ "InvalidLogID"])
qed

lemma kv_ok_entries: "consecutive ls \<Longrightarrow> kv_ok (map log_entry ls)"
  using consecutive_sorted [of ls]
  by (simp add: kv_ok_def log_entry_def sorted_wrt_map put_be64_less_iff o_def)

lemma kv_put_entries:
  assumes "consecutive (ls @ [l])"
  shows "kv_put (put_be64 (ID l)) (Encode l) (map log_entry ls) = map log_entry (ls @ [l])"
proof -
  have "ID m < ID l" if "m \<in> set ls" for m
    using consecutive_sorted [OF assms] that by (auto simp: sorted_wrt_append)
  then have "filter (\<lambda>p. fst p < put_be64 (ID l)) (map log_entry ls) = map log_entry ls"
    "filter (\<lambda>p. put_be64 (ID l) < fst p) (map log_entry ls) = []"
    by (auto simp: filter_id_conv filter_empty_conv log_entry_def put_be64_less_iff
        dest: less_asym)
  then show ?thesis
    by (simp add: kv_put_def log_entry_def)
qed

lemma kv_get_entries:
  "kv_get (map log_entry ls) (put_be64 i) = map_option Encode (findLog i ls)"
  by (induction ls) (auto simp: kv_get_def log_entry_def findLog_def)

lemma findLog_Some: "findLog i ls = Some l \<Longrightarrow> l \<in> set ls \<and> ID l = i"
  by (induction ls) (auto simp: findLog_def split: if_splits)

lemma gs_GetLog_spec:
  assumes "gs_inv s"
  shows "gs_GetLog i s =
    (case findLog i (gs_logs s) of None \<Rightarrow> Inl ErrLogNotFound | Some l \<Rightarrow> Inr l)"
proof -
  have db: "gs_db s = map log_entry (gs_logs s)" and ok: "list_all Log_ok (gs_logs s)"
    using assms by (simp_all add: gs_inv_def)
  have "Decode (Encode l) = Inr (l, [])" if "findLog i (gs_logs s) = Some l" for l
    using ok findLog_Some [OF that] Decode_Encode [of l "[]"] by (simp add: list_all_iff)
  then show ?thesis
    by (subst gs_GetLog_def, subst db) (auto simp: kv_get_entries split: option.splits)
qed

lemma gs_StoreLog_spec:
  assumes inv: "gs_inv s" and "gs_healthy s" "Log_ok l" "ID l = lastLogID (gs_logs s) + 1"
    "ID l \<noteq> InvalidLogID"
  shows "\<exists>s'. gs_StoreLog l s = (Inr (), s') \<and> gs_inv s' \<and>
    gs_logs s' = gs_logs s @ [l] \<and> gs_healthy s'"
proof -
  let ?ls = "gs_logs s"
  obtain f where f: "gs_lastID s = (Inr (lastLogID ?ls), s\<lparr>gs_last := f\<rparr>)"
    using lastID_spec [OF inv] by blast
  have i: "gs_db s = map log_entry ?ls" "list_all Log_ok ?ls" "consecutive ?ls"
    using inv by (simp_all add: gs_inv_def)
  have c: "consecutive (?ls @ [l])"
    using i(3) assms(4,5) by (simp add: consecutive_snoc)
  let ?s = "s\<lparr>gs_last := ID l, gs_db := map log_entry (?ls @ [l])\<rparr>"
  have s: "gs_StoreLog l s = (Inr (), ?s)"
    using assms(2,4) kv_put_entries [OF c] i(1) by (simp add: gs_StoreLog_def f gs_healthy_def)
  have l: "gs_logs ?s = ?ls @ [l]"
    using i(2) assms(3) by (intro gs_logs_entries) simp_all
  have "gs_inv ?s"
    unfolding gs_inv_def l using i(2) inv c assms(3)
    by (auto simp: gs_inv_def firstLogID_def lastLogID_def InvalidLogID_def)
  with s l assms(2) show ?thesis
    by (auto simp: gs_healthy_def)
qed

lemma gs_StoreLog_accepts:
  assumes "gs_inv s" "gs_healthy s" "ID l = lastLogID (gs_logs s) + 1"
  shows "\<exists>s'. gs_StoreLog l s = (Inr (), s')"
  using lastID_spec [OF assms(1)] assms(2,3) by (auto simp: gs_StoreLog_def gs_healthy_def)

lemma gs_StoreLog_reject:
  assumes inv: "gs_inv s" and "ID l \<noteq> lastLogID (gs_logs s) + 1"
  shows "\<exists>s'. gs_StoreLog l s = (Inl ErrStoreLogID, s') \<and> gs_inv s' \<and> gs_logs s' = gs_logs s"
proof -
  obtain f where f: "gs_lastID s = (Inr (lastLogID (gs_logs s)), s\<lparr>gs_last := f\<rparr>)"
    using lastID_spec [OF inv] by blast
  then show ?thesis
    using assms by (auto simp: gs_StoreLog_def gs_inv_def)
qed

interpretation gs: log_store gs_inv gs_logs gs_healthy "\<lambda>s i. i = lastLogID (gs_logs s) + 1"
  gs_firstID gs_lastID gs_GetLog gs_StoreLog
proof
  fix s :: GoLevelDBStore
  assume inv: "gs_inv s"
  show "consecutive (gs_logs s)"
    using inv by (simp add: gs_inv_def)
  show "\<exists>s'. gs_firstID s = (Inr (firstLogID (gs_logs s)), s') \<and>
      gs_inv s' \<and> gs_logs s' = gs_logs s \<and> (gs_healthy s' \<longleftrightarrow> gs_healthy s) \<and>
      (\<lambda>i. i = lastLogID (gs_logs s') + 1) = (\<lambda>i. i = lastLogID (gs_logs s) + 1)"
    using firstID_spec [OF inv] inv by (auto simp: gs_inv_def gs_healthy_def)
  show "\<exists>s'. gs_lastID s = (Inr (lastLogID (gs_logs s)), s') \<and>
      gs_inv s' \<and> gs_logs s' = gs_logs s \<and> (gs_healthy s' \<longleftrightarrow> gs_healthy s) \<and>
      (\<lambda>i. i = lastLogID (gs_logs s') + 1) = (\<lambda>i. i = lastLogID (gs_logs s) + 1)"
    using lastID_spec [OF inv] inv by (auto simp: gs_inv_def gs_healthy_def)
qed (use gs_GetLog_spec gs_StoreLog_spec gs_StoreLog_accepts gs_StoreLog_reject in auto)

section \<open>Purging\<close>

text \<open>
  \<open>PurgeExpired\<close> drops the logs up to the first one younger than the limit, and keeps the
  contract.
\<close>

lemma gs_purgeLoop_entries:
  "list_all Log_ok ls \<Longrightarrow> gs_purgeLoop t (map log_entry ls) =
     Inr (map (\<lambda>l. WDel (put_be64 (ID l))) (takeWhile (\<lambda>l. CreateTime l \<le> t) ls))"
  by (induction ls) (auto simp: log_entry_def not_less)

lemma wb_write_dels:
  "wb_write (map (\<lambda>l. WDel (put_be64 (ID l))) ds) s =
     filter (\<lambda>p. fst p \<notin> (\<lambda>l. put_be64 (ID l)) ` set ds) s"
  by (induction ds arbitrary: s) (simp_all add: wb_write_def kv_delete_def filter_filter conj_commute)

lemma drop_deleted:
  assumes "consecutive (ds @ ls)"
  shows "wb_write (map (\<lambda>l. WDel (put_be64 (ID l))) ds) (map log_entry (ds @ ls)) = map log_entry ls"
proof -
  have "distinct (map ID (ds @ ls))"
    using consecutive_sorted [OF assms] strict_sorted_iff by blast
  then show ?thesis
    by (force simp: wb_write_dels log_entry_def filter_empty_conv filter_id_conv)
qed

lemma gs_PurgeExpired_spec:
  assumes inv: "gs_inv s" and "gs_healthy s" and "0 < sint n"
  shows "\<exists>s'. gs_PurgeExpired now n s = (Inr (), s') \<and> gs_inv s' \<and>
    gs_logs s' = dropWhile (\<lambda>l. CreateTime l \<le> ucast (now - n)) (gs_logs s)"
proof -
  let ?P = "\<lambda>l. CreateTime l \<le> ucast (now - n)"
  let ?ds = "takeWhile ?P (gs_logs s)" and ?ls = "dropWhile ?P (gs_logs s)"
  let ?s = "(gs_reset s)\<lparr>gs_db := map log_entry ?ls\<rparr>"
  have i: "gs_db s = map log_entry (gs_logs s)" "list_all Log_ok (gs_logs s)"
    "consecutive (?ds @ ?ls)"
    using inv by (simp_all add: gs_inv_def)
  have "wb_write (map (\<lambda>l. WDel (put_be64 (ID l))) ?ds) (gs_db s) = map log_entry ?ls"
    using drop_deleted [OF i(3)] by (simp add: i(1))
  then have r: "gs_PurgeExpired now n s = (Inr (), ?s)"
    using assms(2,3) gs_purgeLoop_entries [OF i(2)] i(1)
    by (simp add: gs_PurgeExpired_def gs_reset_def gs_healthy_def)
  have ok: "list_all Log_ok ?ls"
    using i(2) by (auto simp: list_all_iff dest: set_dropWhileD)
  then have l: "gs_logs ?s = ?ls"
    by (intro gs_logs_entries) simp_all
  have "gs_inv ?s"
    unfolding gs_inv_def l using ok consecutive_append2 [OF i(3)]
    by (simp add: gs_reset_def)
  with r l show ?thesis by blast
qed

section \<open>Properties\<close>

text \<open>
  The goleveldb log store. A log with the next id is accepted, can be read back by its id,
  leaves every other log as it was, and becomes the last one; a log with another id is refused
  and changes nothing.
\<close>

theorem log_store_append:
  assumes "gs_inv s" "gs_healthy s" "Log_ok l" "ID l \<noteq> InvalidLogID"
  shows "if ID l = lastLogID (gs_logs s) + 1
    then \<exists>s'. gs_StoreLog l s = (Inr (), s') \<and> gs_inv s' \<and> gs_logs s' = gs_logs s @ [l] \<and>
           fst (gs_lastID s') = Inr (ID l) \<and> gs_GetLog (ID l) s' = Inr l \<and>
           (\<forall>i. i \<noteq> ID l \<longrightarrow> i \<noteq> InvalidLogID \<longrightarrow> gs_GetLog i s' = gs_GetLog i s)
    else \<exists>s'. gs_StoreLog l s = (Inl ErrStoreLogID, s') \<and> gs_inv s' \<and> gs_logs s' = gs_logs s"
proof (cases "ID l = lastLogID (gs_logs s) + 1")
  case True
  obtain s' where s': "gs_StoreLog l s = (Inr (), s')" "gs_inv s'" "gs_logs s' = gs_logs s @ [l]"
    using gs.StoreLog_ok [OF assms(1-3) True assms(4)] by blast
  have "fst (gs_lastID s') = Inr (ID l)"
    using lastID_spec [OF s'(2)] s'(3) by (auto simp: lastLogID_def)
  then show ?thesis
    using gs.GetLog_StoreLog [OF assms(1-3) True assms(4)] s' True by auto
next
  case False
  then show ?thesis
    using gs_StoreLog_reject [OF assms(1) False] by simp
qed

definition log1 :: Log where
  "log1 = \<lparr>ID = 1, CreateTime = 9, Compression = 0, Data = [1]\<rparr>"

definition empty_log_store :: GoLevelDBStore where
  "empty_log_store = \<lparr>gs_db = [], gs_err = None, gs_first = 0, gs_last = 0\<rparr>"

lemma empty_log_store_inv [simp]: "gs_inv empty_log_store" "gs_healthy empty_log_store"
  "gs_logs empty_log_store = []"
  by (simp_all add: empty_log_store_def gs_inv_def gs_healthy_def gs_logs_def InvalidLogID_def)

theorem log_store_append_witness:
  "\<exists>s'. gs_StoreLog log1 empty_log_store = (Inr (), s') \<and> gs_GetLog 1 s' = Inr log1"
proof -
  have "Log_ok log1" "ID log1 \<noteq> InvalidLogID" "ID log1 = lastLogID (gs_logs empty_log_store) + 1"
    by (simp_all add: log1_def Log_ok_def InvalidLogID_def lastLogID_def)
  with log_store_append [of empty_log_store log1] show ?thesis
    by (auto simp: log1_def)
qed

text \<open>
  Once the background purge has removed the last log (every log is older than the
  limit), the goleveldb log store refuses every log but the one with id \<open>1\<close>, whatever has
  been logged before: it takes the last id from the entries, and there are none.
\<close>

theorem log_store_purged_refuses:
  assumes "gs_inv s" "gs_healthy s" "0 < sint n"
    and "\<forall>l\<in>set (gs_logs s). CreateTime l \<le> ucast (now - n)"
    and "ID l = lastLogID (gs_logs s) + 1" "ID l \<noteq> 1"
  shows "\<exists>s'. gs_PurgeExpired now n s = (Inr (), s') \<and> fst (gs_StoreLog l s') = Inl ErrStoreLogID"
proof -
  obtain s' where s': "gs_PurgeExpired now n s = (Inr (), s')" "gs_inv s'"
      "gs_logs s' = dropWhile (\<lambda>l. CreateTime l \<le> ucast (now - n)) (gs_logs s)"
    using gs_PurgeExpired_spec [OF assms(1-3)] by blast
  then have "gs_logs s' = []"
    using assms(4) by (simp add: dropWhile_eq_Nil_conv)
  with gs_StoreLog_reject [OF s'(2), of l] s'(1) assms(6) show ?thesis
    by (auto simp: lastLogID_def InvalidLogID_def)
qed

theorem log_store_purged_refuses_witness:
  "\<exists>s s' s''. gs_StoreLog log1 empty_log_store = (Inr (), s) \<and> gs_PurgeExpired 100 10 s = (Inr (), s') \<and>
     gs_StoreLog (log1\<lparr>ID := 2\<rparr>) s' = (Inl ErrStoreLogID, s'')"
proof -
  have "Log_ok log1" "ID log1 \<noteq> InvalidLogID" "ID log1 = lastLogID (gs_logs empty_log_store) + 1"
    by (simp_all add: log1_def Log_ok_def InvalidLogID_def lastLogID_def)
  then obtain s where s: "gs_StoreLog log1 empty_log_store = (Inr (), s)" "gs_inv s"
      "gs_logs s = [log1]" "gs_healthy s"
    using gs_StoreLog_spec [of empty_log_store log1] by auto
  have "0 < sint (10 :: i64)" "\<forall>l\<in>set (gs_logs s). CreateTime l \<le> ucast (100 - 10 :: i64)"
    "ID (log1\<lparr>ID := 2\<rparr>) = lastLogID (gs_logs s) + 1" "ID (log1\<lparr>ID := 2\<rparr>) \<noteq> 1"
    using s(3) by (simp_all add: lastLogID_def log1_def)
  from log_store_purged_refuses [OF s(2,4) this] s(1) show ?thesis
    by (metis prod.collapse)
qed

end
