(* ===== verification/Rpl_FileIO.thy ===== *)
theory Rpl_FileIO
  imports Rpl_Log
begin

text \<open>
  Files of the log store (\<open>rpl/file_io.go\<close>). The directory of the store is a list of file
  names and contents; a name is the kind of the file and the index of its table
  (\<open>fmtTableDataName\<close>, \<open>fmtTableMetaName\<close> of \<open>rpl/file_table.go\<close>; the directory \<open>base\<close> they
  are joined to is the same for all files of a store). \<open>fs_err\<close> is the error the system
  answers writes with, \<open>None\<close> for a disk that accepts them.

  A writer is either raw or memory mapped. The memory of a mapping is the content of the file:
  what is written through one is read through the other, and \<open>Sync\<close> writes it back. A reader
  has no state but the name, so the readers are functions of the directory.
\<close>

datatype fname = DataName nat | MetaName nat

record filesys =
  fs_dir :: "(fname \<times> bytes) list"
  fs_err :: "err option"

definition fs_files :: "filesys \<Rightarrow> fname \<Rightarrow> bytes option" where
  "fs_files fs = map_of (fs_dir fs)"

section \<open>Files of the operating system\<close>

text \<open>
  \<open>os.File\<close>: a read that hits the end of the file answers \<open>io.EOF\<close> with the bytes it got; a
  write or truncation beyond the end fills up with zeros.
\<close>

definition os_ReadAt :: "bytes \<Rightarrow> ReaderAt" where
  "os_ReadAt f n off =
     (if off < 0 then ([], Some (ErrOther ''negative offset''))
      else let b = take n (drop (nat off) f)
           in (b, if length b < n then Some ErrEOF else None))"

definition os_Truncate :: "bytes \<Rightarrow> nat \<Rightarrow> bytes" where
  "os_Truncate f n = take n f @ replicate (n - length f) 0"

definition os_WriteAt :: "bytes \<Rightarrow> bytes \<Rightarrow> nat \<Rightarrow> bytes" where
  "os_WriteAt f b off = os_Truncate f off @ b @ drop (off + length b) f"

definition the_file :: "filesys \<Rightarrow> fname \<Rightarrow> bytes" where
  "the_file fs n = (case fs_files fs n of None \<Rightarrow> [] | Some c \<Rightarrow> c)"

definition set_file :: "fname \<Rightarrow> bytes \<Rightarrow> filesys \<Rightarrow> filesys" where
  "set_file n c fs = fs\<lparr>fs_dir := (n, c) # filter (\<lambda>p. fst p \<noteq> n) (fs_dir fs)\<rparr>"

definition os_Remove :: "fname \<Rightarrow> filesys \<Rightarrow> filesys" where
  "os_Remove n fs =
     (if fs_err fs = None then fs\<lparr>fs_dir := filter (\<lambda>p. fst p \<noteq> n) (fs_dir fs)\<rparr> else fs)"

section \<open>Writers\<close>

record writeFile =
  wf_mmap :: bool
  wf_name :: fname
  wf_size :: nat
  wf_offset :: nat

definition newRawWriteFile :: "fname \<Rightarrow> filesys \<Rightarrow> writeFile res \<times> filesys" where
  "newRawWriteFile name fs =
     (case fs_err fs of
        Some e \<Rightarrow> (Inl e, fs)
      | None \<Rightarrow>
          (Inr \<lparr>wf_mmap = False, wf_name = name, wf_size = 0, wf_offset = 0\<rparr>,
           set_file name (the_file fs name) fs))"

text \<open>A mapping of no bytes is refused by the system.\<close>

definition newMmapWriteFile :: "fname \<Rightarrow> nat \<Rightarrow> filesys \<Rightarrow> writeFile res \<times> filesys" where
  "newMmapWriteFile name sz fs =
     (case fs_err fs of
        Some e \<Rightarrow> (Inl e, fs)
      | None \<Rightarrow>
          let f = the_file fs name;
              sz = (if sz = 0 then length f else sz);
              fs = set_file name (os_Truncate f sz) fs
          in if sz = 0 then (Inl (ErrOther ''invalid argument''), fs)
             else (Inr \<lparr>wf_mmap = True, wf_name = name, wf_size = sz, wf_offset = 0\<rparr>, fs))"

definition newWriteFile :: "bool \<Rightarrow> fname \<Rightarrow> nat \<Rightarrow> filesys \<Rightarrow> writeFile res \<times> filesys" where
  "newWriteFile useMmap name sz fs =
     (if useMmap then newMmapWriteFile name sz fs else newRawWriteFile name fs)"

definition rawWriteFile_Write :: "bytes \<Rightarrow> writeFile \<Rightarrow> filesys \<Rightarrow> unit res \<times> writeFile \<times> filesys" where
  "rawWriteFile_Write b m fs =
     (case fs_err fs of
        Some e \<Rightarrow> (Inl e, m, fs)
      | None \<Rightarrow>
          (Inr (), m\<lparr>wf_offset := wf_offset m + length b\<rparr>,
           set_file (wf_name m) (os_WriteAt (the_file fs (wf_name m)) b (wf_offset m)) fs))"

definition mmapWriteFile_Truncate :: "nat \<Rightarrow> writeFile \<Rightarrow> filesys \<Rightarrow> unit res \<times> writeFile \<times> filesys" where
  "mmapWriteFile_Truncate sz m fs =
     (case fs_err fs of
        Some e \<Rightarrow> (Inl e, m, fs)
      | None \<Rightarrow>
          let fs = set_file (wf_name m) (os_Truncate (the_file fs (wf_name m)) sz) fs in
          if sz = 0 then (Inl (ErrOther ''invalid argument''), m, fs)
          else (Inr (), m\<lparr>wf_size := sz, wf_offset := min (wf_offset m) sz\<rparr>, fs))"

definition mmapWriteFile_Write :: "bytes \<Rightarrow> writeFile \<Rightarrow> filesys \<Rightarrow> unit res \<times> writeFile \<times> filesys" where
  "mmapWriteFile_Write b m fs =
     (let extra = int (length b) - (int (wf_size m) - int (wf_offset m)) in
      case (if 0 < extra
            then mmapWriteFile_Truncate (wf_size m + nat extra + wf_size m div 10) m fs
            else (Inr (), m, fs)) of
        (Inl e, m, fs) \<Rightarrow> (Inl e, m, fs)
      | (Inr u, m, fs) \<Rightarrow>
          (Inr (), m\<lparr>wf_offset := wf_offset m + length b\<rparr>,
           set_file (wf_name m) (os_WriteAt (the_file fs (wf_name m)) b (wf_offset m)) fs))"

definition wf_Write :: "bytes \<Rightarrow> writeFile \<Rightarrow> filesys \<Rightarrow> unit res \<times> writeFile \<times> filesys" where
  "wf_Write b m fs = (if wf_mmap m then mmapWriteFile_Write b m fs else rawWriteFile_Write b m fs)"

text \<open>Both close by cutting the file off at the offset.\<close>

definition wf_Close :: "writeFile \<Rightarrow> filesys \<Rightarrow> unit res \<times> filesys" where
  "wf_Close m fs =
     (case fs_err fs of
        Some e \<Rightarrow> (Inl e, fs)
      | None \<Rightarrow> (Inr (), set_file (wf_name m) (os_Truncate (the_file fs (wf_name m)) (wf_offset m)) fs))"

definition mmapWriteFile_ReadAt :: "writeFile \<Rightarrow> filesys \<Rightarrow> ReaderAt" where
  "mmapWriteFile_ReadAt m fs n off =
     (if int (wf_offset m) < off then ([], Some (ErrOther ''invalid offset''))
      else if off < 0 then ([], Some GoPanic)
      else let b = take n (drop (nat off) (take (wf_offset m) (the_file fs (wf_name m))))
           in (b, if length b \<noteq> n then Some ErrUnexpectedEOF else None))"

definition wf_ReadAt :: "writeFile \<Rightarrow> filesys \<Rightarrow> ReaderAt" where
  "wf_ReadAt m fs =
     (if wf_mmap m then mmapWriteFile_ReadAt m fs else os_ReadAt (the_file fs (wf_name m)))"

definition wf_Size :: "writeFile \<Rightarrow> filesys \<Rightarrow> nat" where
  "wf_Size m fs = (if wf_mmap m then wf_size m else length (the_file fs (wf_name m)))"

definition wf_SetOffset :: "nat \<Rightarrow> writeFile \<Rightarrow> writeFile" where
  "wf_SetOffset o' m = m\<lparr>wf_offset := o'\<rparr>"

section \<open>Readers\<close>

definition mmapReadFile_ReadAt :: "bytes \<Rightarrow> ReaderAt" where
  "mmapReadFile_ReadAt f n off =
     (if int (length f) < off then ([], Some (ErrOther ''invalid offset''))
      else if off < 0 then ([], Some GoPanic)
      else let b = take n (drop (nat off) f)
           in (b, if length b \<noteq> n then Some ErrUnexpectedEOF else None))"

text \<open>A reader is its \<open>Size\<close> and its \<open>ReadAt\<close>.\<close>

definition newReadFile :: "bool \<Rightarrow> fname \<Rightarrow> filesys \<Rightarrow> (nat \<times> ReaderAt) res" where
  "newReadFile useMmap name fs =
     (case fs_files fs name of
        None \<Rightarrow> Inl (ErrOther ''no such file or directory'')
      | Some f \<Rightarrow>
          if useMmap
          then (if f = [] then Inl (ErrOther ''invalid argument'')
                else Inr (length f, mmapReadFile_ReadAt f))
          else Inr (length f, os_ReadAt f))"

section \<open>Laws\<close>

text \<open>
  \<open>reads_at ra c\<close>: a read of bytes that \<open>c\<close> has returns them. \<open>wf_file fs m n c r\<close>: the writer
  has written \<open>c\<close> to the file \<open>n\<close>, which holds \<open>r\<close> behind it; \<open>wf_holds\<close>: there is nothing
  behind it but the zeros of a mapping.
\<close>

definition reads_at :: "ReaderAt \<Rightarrow> bytes \<Rightarrow> bool" where
  "reads_at ra c \<longleftrightarrow>
     (\<forall>n off. off + n \<le> length c \<longrightarrow> ra n (int off) = (take n (drop off c), None))"

lemma reads_atD: "reads_at ra c \<Longrightarrow> off + n \<le> length c \<Longrightarrow>
    ra n (int off) = (take n (drop off c), None)"
  by (simp add: reads_at_def)

lemma reads_at_prefix: "reads_at ra (c @ r) \<Longrightarrow> reads_at ra c"
  by (simp add: reads_at_def)

lemma reads_at_os [simp]: "reads_at (os_ReadAt c) c"
  by (simp add: reads_at_def os_ReadAt_def Let_def)

lemma reads_at_mmap [simp]: "reads_at (mmapReadFile_ReadAt c) c"
  by (auto simp: reads_at_def mmapReadFile_ReadAt_def Let_def)

lemma newReadFile_reads:
  assumes "fs_files fs n = Some c" and "c \<noteq> []"
  shows "\<exists>ra. newReadFile mm n fs = Inr (length c, ra) \<and> reads_at ra c"
  using assms by (cases mm) (simp_all add: newReadFile_def)

definition wf_file :: "filesys \<Rightarrow> writeFile \<Rightarrow> fname \<Rightarrow> bytes \<Rightarrow> bytes \<Rightarrow> bool" where
  "wf_file fs m n c r \<longleftrightarrow> wf_name m = n \<and> wf_offset m = length c \<and> fs_files fs n = Some (c @ r) \<and>
     (wf_mmap m \<longrightarrow> wf_size m = length (c @ r) \<and> 0 < wf_size m)"

definition wf_holds :: "filesys \<Rightarrow> writeFile \<Rightarrow> fname \<Rightarrow> bytes \<Rightarrow> bool" where
  "wf_holds fs m n c \<longleftrightarrow>
     (\<exists>k. wf_file fs m n c (replicate k 0) \<and> (wf_mmap m \<or> k = 0))"

lemma map_of_filter_neq: "map_of (filter (\<lambda>p. fst p \<noteq> n) xs) m = (if m = n then None else map_of xs m)"
  by (induction xs) auto

lemma fs_files_Remove [simp]:
  "fs_err fs = None \<Longrightarrow> fs_files (os_Remove n fs) m = (if m = n then None else fs_files fs m)"
  "fs_err (os_Remove n fs) = fs_err fs"
  by (simp_all add: os_Remove_def fs_files_def map_of_filter_neq)

lemma the_file_set [simp]:
  "the_file (set_file n c fs) n = c" "m \<noteq> n \<Longrightarrow> the_file (set_file n c fs) m = the_file fs m"
  "fs_files (set_file n c fs) n = Some c" "m \<noteq> n \<Longrightarrow> fs_files (set_file n c fs) m = fs_files fs m"
  "fs_err (set_file n c fs) = fs_err fs"
  by (auto simp: the_file_def set_file_def fs_files_def map_of_filter_neq)

lemma os_WriteAt_append: "os_WriteAt (c @ r) b (length c) = (c @ b) @ drop (length b) r"
  by (simp add: os_WriteAt_def os_Truncate_def)

lemma os_Truncate_append: "os_Truncate (c @ r) (length c) = c"
  by (simp add: os_Truncate_def)

lemma os_Truncate_grow: "length f \<le> n \<Longrightarrow> os_Truncate f n = f @ replicate (n - length f) 0"
  by (simp add: os_Truncate_def)

lemma os_WriteAt_grow:
  assumes "length (c @ r) \<le> n" and "length c + length b \<le> n" and "length r \<le> length b"
  shows "os_WriteAt (os_Truncate (c @ r) n) b (length c) = (c @ b) @ replicate (n - length c - length b) 0"
proof -
  have "os_Truncate (c @ r) n = c @ r @ replicate (n - length (c @ r)) 0"
    using assms(1) by (simp add: os_Truncate_grow)
  with assms show ?thesis
    by (simp add: os_WriteAt_append)
qed

lemma wf_file_write:
  assumes "wf_file fs m n c r" and "fs_err fs = None"
  shows "\<exists>m' fs' k. wf_Write b m fs = (Inr (), m', fs') \<and>
    wf_file fs' m' n (c @ b) (drop (length b) r @ replicate k 0) \<and>
    wf_mmap m' = wf_mmap m \<and> (wf_mmap m \<or> k = 0) \<and>
    fs_err fs' = None \<and> (\<forall>k. k \<noteq> n \<longrightarrow> fs_files fs' k = fs_files fs k)"
proof -
  have r: "fs_files fs n = Some (c @ r)" "wf_name m = n" "wf_offset m = length c"
      "wf_mmap m \<longrightarrow> wf_size m = length (c @ r) \<and> 0 < wf_size m"
    using assms(1) unfolding wf_file_def by blast+
  have f: "the_file fs n = c @ r"
    using r(1) by (simp add: the_file_def)
  show ?thesis
  proof (cases "wf_mmap m \<and> length r < length b")
    case False
    then show ?thesis
      using r f assms(2)
      by (intro exI [of _ "m\<lparr>wf_offset := length c + length b\<rparr>"]
            exI [of _ "set_file n ((c @ b) @ drop (length b) r) fs"] exI [of _ 0])
         (auto simp: wf_Write_def rawWriteFile_Write_def mmapWriteFile_Write_def wf_file_def
            os_WriteAt_append)
  next
    case True
    let ?k = "(length c + length r) div 10" and ?N = "length c + length b + (length c + length r) div 10"
    have q: "os_WriteAt (os_Truncate (c @ r) ?N) b (length c) = (c @ b) @ replicate ?k 0"
      using os_WriteAt_grow [of c r ?N b] True by simp
    show ?thesis
      using True r f assms(2) q
      by (intro exI [of _ "m\<lparr>wf_size := ?N, wf_offset := length c + length b\<rparr>"]
            exI [of _ "set_file n ((c @ b) @ replicate ?k 0) (set_file n (os_Truncate (c @ r) ?N) fs)"]
            exI [of _ ?k])
         (auto simp: wf_Write_def mmapWriteFile_Write_def mmapWriteFile_Truncate_def wf_file_def
            nat_diff_distrib Let_def min_def)
  qed
qed

lemma wf_holds_write:
  assumes "wf_holds fs m n c" and "fs_err fs = None"
  shows "\<exists>m' fs'. wf_Write b m fs = (Inr (), m', fs') \<and> wf_holds fs' m' n (c @ b) \<and>
    fs_err fs' = None \<and> (\<forall>k. k \<noteq> n \<longrightarrow> fs_files fs' k = fs_files fs k)"
proof -
  obtain k where k: "wf_file fs m n c (replicate k 0)" "wf_mmap m \<or> k = 0"
    using assms(1) by (auto simp: wf_holds_def)
  obtain m' fs' j where "wf_Write b m fs = (Inr (), m', fs')"
      "wf_file fs' m' n (c @ b) (drop (length b) (replicate k 0) @ replicate j 0)"
      "wf_mmap m' = wf_mmap m" "wf_mmap m \<or> j = 0" "fs_err fs' = None"
      "\<forall>k. k \<noteq> n \<longrightarrow> fs_files fs' k = fs_files fs k"
    using wf_file_write [OF k(1) assms(2)] by blast
  with k(2) show ?thesis
    by (auto simp: wf_holds_def replicate_add [symmetric] intro!: exI [of _ "k - length b + j"])
qed

lemma wf_holds_reads:
  assumes "wf_holds fs m n c"
  shows "reads_at (wf_ReadAt m fs) c"
proof -
  obtain r where "the_file fs (wf_name m) = c @ r" "wf_offset m = length c"
    using assms by (auto simp: wf_holds_def wf_file_def the_file_def)
  then show ?thesis
    using reads_at_prefix [OF reads_at_os, of c r]
    by (cases "wf_mmap m") (auto simp: wf_ReadAt_def mmapWriteFile_ReadAt_def reads_at_def Let_def)
qed

lemma wf_file_close:
  assumes "wf_file fs m n c r" and "fs_err fs = None"
  shows "wf_Close m fs = (Inr (), set_file n c fs)"
  using assms by (auto simp: wf_file_def wf_Close_def the_file_def os_Truncate_append)

lemma wf_holds_close:
  assumes "wf_holds fs m n c" and "fs_err fs = None"
  shows "wf_Close m fs = (Inr (), set_file n c fs)"
  using assms wf_file_close by (auto simp: wf_holds_def)

lemma newWriteFile_holds:
  assumes "fs_err fs = None" and "0 < sz" and "fs_files fs n = None"
  shows "\<exists>m fs'. newWriteFile mm n sz fs = (Inr m, fs') \<and> wf_holds fs' m n [] \<and>
    fs_err fs' = None \<and> (\<forall>k. k \<noteq> n \<longrightarrow> fs_files fs' k = fs_files fs k)"
  using assms
  by (cases mm)
     (auto simp: newWriteFile_def newMmapWriteFile_def newRawWriteFile_def wf_holds_def wf_file_def
       Let_def os_Truncate_def the_file_def)

lemma wf_holds_other:
  "wf_holds fs m n c \<Longrightarrow> fs_files fs' n = fs_files fs n \<Longrightarrow> wf_holds fs' m n c"
  by (simp add: wf_holds_def wf_file_def)

end
