(* ===== verification/Rpl_FileTable.thy ===== *)
theory Rpl_FileTable
  imports Rpl_FileIO
begin

text \<open>
  Tables of the log store on files (\<open>rpl/file_table.go\<close>): a data file with the encoded logs
  and a meta file with the position of each of them. A table is written by the
  \<open>tableWriter\<close>, which ends it with a magic string when it is flushed, and read by a
  \<open>tableReader\<close> afterwards. A table without the magic string was not closed properly and is
  repaired when it is opened.

  A reader keeps its files open for a while (\<open>openTable\<close>, \<open>Keepalived\<close>); the files of a table
  that is flushed do not change, so reading is modelled on the directory. Table indices count
  the tables of a store and are natural numbers.
\<close>

definition magic :: bytes where
  "magic = [0x1c, 0x1d, 0xb8, 0x88, 0xff, 0x9e, 0x45, 0x55, 0x40, 0xf0,
            0x4c, 0xda, 0xe0, 0xce, 0x47, 0xde, 0x65, 0x48, 0x71, 0x17]"

definition defaultLogNumInFile :: nat where
  "defaultLogNumInFile = 1024 * 1024"

section \<open>The reader\<close>

record tableReader =
  tr_index :: nat
  tr_first :: u64
  tr_last :: u64
  tr_lastTime :: u32
  tr_useMmap :: bool

definition getLogPos :: "ReaderAt \<Rightarrow> int \<Rightarrow> u32 res" where
  "getLogPos meta i =
     (case meta 4 (i * 4) of
        (buf, Some e) \<Rightarrow> Inl e
      | (buf, None) \<Rightarrow> Inr (get_be32 buf))"

definition checkData :: "tableReader \<Rightarrow> filesys \<Rightarrow> (nat \<times> ReaderAt) res" where
  "checkData t fs =
     (case newReadFile False (DataName (tr_index t)) fs of
        Inl e \<Rightarrow> Inl e
      | Inr (sz, ra) \<Rightarrow>
          if sz < length magic then Inl (ErrOther ''data file too short'')
          else case ra (length magic) (int (sz - length magic)) of
            (buf, Some e) \<Rightarrow> Inl e
          | (buf, None) \<Rightarrow> if buf \<noteq> magic then Inl (ErrOther ''invalid magic data'') else Inr (sz, ra))"

definition checkMeta :: "tableReader \<Rightarrow> filesys \<Rightarrow> (nat \<times> ReaderAt) res" where
  "checkMeta t fs =
     (case newReadFile False (MetaName (tr_index t)) fs of
        Inl e \<Rightarrow> Inl e
      | Inr (sz, ra) \<Rightarrow>
          if sz mod 4 \<noteq> 0 \<or> sz = 0 then Inl (ErrOther ''invalid offset len'') else Inr (sz, ra))"

definition decodeLogHead :: "ReaderAt \<Rightarrow> nat \<Rightarrow> (Log \<times> nat) res" where
  "decodeLogHead ra pos =
     (case DecodeHeadAt ra (int pos) of
        Inl e \<Rightarrow> Inl e
      | Inr (l, dataLen) \<Rightarrow> Inr (l, pos + LogHeadSize + unat dataLen))"

text \<open>\<open>getLogPos\<close> answers position \<open>0\<close> next to an error, which is not looked at.\<close>

definition tr_check :: "tableReader \<Rightarrow> filesys \<Rightarrow> unit res \<times> tableReader" where
  "tr_check t fs =
     (case checkMeta t fs of
        Inl e \<Rightarrow> (Inl e, t)
      | Inr (metaSize, meta) \<Rightarrow>
     (case checkData t fs of
        Inl e \<Rightarrow> (Inl e, t)
      | Inr (dataSize, data) \<Rightarrow>
          let firstLogPos = (case getLogPos meta 0 of Inl e \<Rightarrow> 0 | Inr p \<Rightarrow> p);
              lastLogPos = (case getLogPos meta (int (metaSize div 4) - 1) of Inl e \<Rightarrow> 0 | Inr p \<Rightarrow> p) in
          if firstLogPos \<noteq> 0 then (Inl (ErrOther ''invalid first log pos''), t)
          else case decodeLogHead data (unat firstLogPos) of
            Inl e \<Rightarrow> (Inl (ErrOther ''decode first log err''), t)
          | Inr (l, n) \<Rightarrow>
              let t = t\<lparr>tr_first := ID l\<rparr> in
              case decodeLogHead data (unat lastLogPos) of
                Inl e \<Rightarrow> (Inl (ErrOther ''decode last log err''), t)
              | Inr (l, n) \<Rightarrow>
                  if n + length magic \<noteq> dataSize then (Inl (ErrOther ''extra log data''), t)
                  else
                    let t = t\<lparr>tr_last := ID l, tr_lastTime := CreateTime l\<rparr> in
                    if tr_last t < tr_first t then (Inl (ErrOther ''invalid log table first > last''), t)
                    else if tr_last t - tr_first t + 1 \<noteq> word_of_nat (metaSize div 4)
                    then (Inl (ErrOther ''invalid log table log num''), t)
                    else (Inr (), t)))"

text \<open>
  The loop of \<open>repair\<close> over the data file \<open>c\<close>, which is not written before the loop ends. Its
  message about an id out of order reads the name of \<open>t.data\<close>, which \<open>repair\<close> has closed and
  set to nil: the program panics there.
\<close>

lemma decodeLogHead_advances:
  "decodeLogHead (os_ReadAt c) pos = Inr (l, p) \<Longrightarrow> pos < p \<and> pos < length c"
  by (auto simp: decodeLogHead_def DecodeHeadAt_def os_ReadAt_def LogHeadSize_def Let_def
      split: if_splits prod.splits sum.splits)

function repair_loop ::
  "bytes \<Rightarrow> nat \<Rightarrow> tableReader \<Rightarrow> writeFile \<Rightarrow> filesys \<Rightarrow> nat res \<times> tableReader \<times> writeFile \<times> filesys" where
  "repair_loop c pos t meta fs =
     (case decodeLogHead (os_ReadAt c) pos of
        Inl e \<Rightarrow> (Inr pos, t, meta, fs)
      | Inr (l, nextPos) \<Rightarrow>
          if ID l = 0 then (Inr pos, t, meta, fs)
          else
            let t = (if tr_first t = 0 then t\<lparr>tr_first := ID l\<rparr> else t) in
            if tr_last t \<noteq> 0 \<and> ID l \<le> tr_last t then (Inl GoPanic, t, meta, fs)
            else
              let t = t\<lparr>tr_last := ID l, tr_lastTime := CreateTime l\<rparr> in
              case wf_Write (put_be32 (word_of_nat pos)) meta fs of
                (_, meta, fs) \<Rightarrow> repair_loop c nextPos t meta fs)"
  by pat_completeness auto
termination
  by (relation "measure (\<lambda>(c, pos, _). length c - pos)") (auto dest: decodeLogHead_advances)

declare repair_loop.simps [simp del]

definition repair :: "tableReader \<Rightarrow> filesys \<Rightarrow> unit res \<times> tableReader \<times> filesys" where
  "repair t fs =
     (case newWriteFile False (DataName (tr_index t)) 0 fs of
        (Inl e, fs) \<Rightarrow> (Inl GoPanic, t, fs)
      | (Inr data, fs) \<Rightarrow>
     (case newWriteFile False (MetaName (tr_index t)) (defaultLogNumInFile * 4) fs of
        (Inl e, fs) \<Rightarrow> (Inl GoPanic, t, fs)
      | (Inr meta, fs) \<Rightarrow>
          (case repair_loop (the_file fs (DataName (tr_index t))) 0
                  (t\<lparr>tr_first := 0, tr_last := 0\<rparr>) meta fs of
             (Inl e, t, meta, fs) \<Rightarrow> (Inl e, t, fs)
           | (Inr pos, t, meta, fs) \<Rightarrow>
               (case wf_Close meta fs of
                  (r, fs) \<Rightarrow>
               (case wf_Write magic (wf_SetOffset pos data) fs of
                  (_, data, fs) \<Rightarrow>
               (case wf_Close data fs of
                  (Inl e, fs) \<Rightarrow> (Inl e, t, fs)
                | (Inr u, fs) \<Rightarrow> (r, t, fs)))))))"

definition newTableReader :: "nat \<Rightarrow> bool \<Rightarrow> filesys \<Rightarrow> tableReader res \<times> filesys" where
  "newTableReader i useMmap fs =
     (if i = 0 then (Inl (ErrOther ''invalid index''), fs)
      else
        let t = \<lparr>tr_index = i, tr_first = 0, tr_last = 0, tr_lastTime = 0, tr_useMmap = useMmap\<rparr> in
        case tr_check t fs of
          (Inr u, t) \<Rightarrow> (Inr t, fs)
        | (Inl e, t) \<Rightarrow>
            (case repair t fs of
               (Inl e, t, fs) \<Rightarrow> (Inl e, fs)
             | (Inr u, t, fs) \<Rightarrow> (Inr t, fs)))"

definition tr_GetLog :: "u64 \<Rightarrow> tableReader \<Rightarrow> filesys \<Rightarrow> Log res" where
  "tr_GetLog i t fs =
     (if i < tr_first t \<or> tr_last t < i then Inl ErrLogNotFound
      else case newReadFile (tr_useMmap t) (DataName (tr_index t)) fs of
        Inl e \<Rightarrow> Inl e
      | Inr (dataSize, data) \<Rightarrow>
     (case newReadFile (tr_useMmap t) (MetaName (tr_index t)) fs of
        Inl e \<Rightarrow> Inl e
      | Inr (metaSize, meta) \<Rightarrow>
     (case getLogPos meta (sint (i - tr_first t)) of
        Inl e \<Rightarrow> Inl e
      | Inr pos \<Rightarrow>
     (case DecodeAt data (int (unat pos)) of
        Inl e \<Rightarrow> Inl e
      | Inr l \<Rightarrow> if ID l \<noteq> i then Inl (ErrOther ''invalid log id'') else Inr l))))"

section \<open>The writer\<close>

record tableWriter =
  tw_data :: "writeFile option"
  tw_meta :: "writeFile option"
  tw_index :: nat
  tw_first :: u64
  tw_last :: u64
  tw_lastTime :: u32
  tw_maxLogSize :: nat
  tw_closed :: bool
  tw_useMmap :: bool

definition newTableWriter :: "nat \<Rightarrow> nat \<Rightarrow> bool \<Rightarrow> tableWriter" where
  "newTableWriter i maxLogSize useMmap =
     \<lparr>tw_data = None, tw_meta = None, tw_index = i, tw_first = 0, tw_last = 0, tw_lastTime = 0,
      tw_maxLogSize = maxLogSize, tw_closed = False, tw_useMmap = useMmap\<rparr>"

text \<open>Errors while closing are only logged.\<close>

definition tw_close :: "tableWriter \<Rightarrow> filesys \<Rightarrow> tableWriter \<times> filesys" where
  "tw_close t fs =
     (let fs = (case tw_meta t of None \<Rightarrow> fs | Some m \<Rightarrow> snd (wf_Close m fs));
          fs = (case tw_data t of
                  None \<Rightarrow> fs
                | Some d \<Rightarrow> (case wf_Write magic d fs of (_, d, fs) \<Rightarrow> snd (wf_Close d fs)))
      in (t\<lparr>tw_meta := None, tw_data := None\<rparr>, fs))"

definition tw_Close :: "tableWriter \<Rightarrow> filesys \<Rightarrow> tableWriter \<times> filesys" where
  "tw_Close t fs = tw_close (t\<lparr>tw_closed := True\<rparr>) fs"

definition tw_Flush :: "tableWriter \<Rightarrow> filesys \<Rightarrow> tableReader res \<times> tableWriter \<times> filesys" where
  "tw_Flush t fs =
     (if tw_data t = None \<or> tw_meta t = None then (Inl ErrNilHandler, t, fs)
      else
        let tr = \<lparr>tr_index = tw_index t, tr_first = tw_first t, tr_last = tw_last t,
                  tr_lastTime = tw_lastTime t, tr_useMmap = tw_useMmap t\<rparr>
        in case tw_close t fs of
             (t, fs) \<Rightarrow> (Inr tr, t\<lparr>tw_first := 0, tw_last := 0, tw_index := tw_index t + 1\<rparr>, fs))"

definition open_one :: "bool \<Rightarrow> fname \<Rightarrow> nat \<Rightarrow> writeFile option \<Rightarrow> filesys \<Rightarrow> writeFile res \<times> filesys" where
  "open_one useMmap name sz f fs =
     (case f of None \<Rightarrow> newWriteFile useMmap name sz fs | Some m \<Rightarrow> (Inr m, fs))"

definition openFile :: "tableWriter \<Rightarrow> filesys \<Rightarrow> (writeFile \<times> writeFile) res \<times> tableWriter \<times> filesys" where
  "openFile t fs =
     (case open_one (tw_useMmap t) (DataName (tw_index t))
             (tw_maxLogSize t + tw_maxLogSize t div 10 + length magic) (tw_data t) fs of
        (Inl e, fs) \<Rightarrow> (Inl e, t, fs)
      | (Inr d, fs) \<Rightarrow>
          let t = t\<lparr>tw_data := Some d\<rparr> in
          case open_one (tw_useMmap t) (MetaName (tw_index t)) (defaultLogNumInFile * 4) (tw_meta t) fs of
            (Inl e, fs) \<Rightarrow> (Inl e, t, fs)
          | (Inr m, fs) \<Rightarrow> (Inr (d, m), t\<lparr>tw_meta := Some m\<rparr>, fs))"

text \<open>\<open>Log.Encode\<close> writes the head and the data separately.\<close>

definition encodeTo :: "Log \<Rightarrow> writeFile \<Rightarrow> filesys \<Rightarrow> unit res \<times> writeFile \<times> filesys" where
  "encodeTo l d fs =
     (case wf_Write (take LogHeadSize (Encode l)) d fs of
        (Inl e, d, fs) \<Rightarrow> (Inl e, d, fs)
      | (Inr u, d, fs) \<Rightarrow> wf_Write (Data l) d fs)"

definition tw_storeLog :: "Log \<Rightarrow> tableWriter \<Rightarrow> filesys \<Rightarrow> unit res \<times> tableWriter \<times> filesys" where
  "tw_storeLog l t fs =
     (if ID l = 0 then (Inl ErrStoreLogID, t, fs)
      else if tw_closed t then (Inl (ErrOther ''table writer is closed''), t, fs)
      else if 0 < tw_last t \<and> ID l \<noteq> tw_last t + 1 then (Inl ErrStoreLogID, t, fs)
      else if (case tw_data t of None \<Rightarrow> False | Some d \<Rightarrow> tw_maxLogSize t < wf_offset d)
      then (Inl ErrTableNeedFlush, t, fs)
      else case openFile t fs of
        (Inl e, t, fs) \<Rightarrow> (Inl e, t, fs)
      | (Inr (d, m), t, fs) \<Rightarrow>
          let offsetPos = wf_offset d in
          (case encodeTo l d fs of
             (Inl e, d, fs) \<Rightarrow> (Inl e, t\<lparr>tw_data := Some d\<rparr>, fs)
           | (Inr u, d, fs) \<Rightarrow>
               let t = t\<lparr>tw_data := Some d\<rparr> in
               case wf_Write (put_be32 (word_of_nat offsetPos)) m fs of
                 (Inl e, m, fs) \<Rightarrow> (Inl e, t\<lparr>tw_meta := Some m\<rparr>, fs)
               | (Inr u, m, fs) \<Rightarrow>
                   (Inr (), t\<lparr>tw_meta := Some m, tw_first := (if tw_first t = 0 then ID l else tw_first t),
                      tw_last := ID l, tw_lastTime := CreateTime l\<rparr>, fs)))"

text \<open>For id \<open>0\<close> the range check of an empty writer passes, and its meta file is nil.\<close>

definition tw_GetLog :: "u64 \<Rightarrow> tableWriter \<Rightarrow> filesys \<Rightarrow> Log res" where
  "tw_GetLog i t fs =
     (if i < tw_first t \<or> tw_last t < i then Inl ErrLogNotFound
      else case (tw_meta t, tw_data t) of
        (Some m, Some d) \<Rightarrow>
          (case wf_ReadAt m fs 4 (sint ((i - tw_first t) * 4)) of
             (buf, Some e) \<Rightarrow> Inl e
           | (buf, None) \<Rightarrow>
               (case DecodeAt (wf_ReadAt d fs) (int (unat (get_be32 buf))) of
                  Inl e \<Rightarrow> Inl e
                | Inr l \<Rightarrow> if ID l \<noteq> i then Inl (ErrOther ''invalid log id'') else Inr l))
      | _ \<Rightarrow> Inl GoPanic)"

end
