(* ===== verification/Rpl_FileTable_Laws.thy ===== *)
theory Rpl_FileTable_Laws
  imports Rpl_FileTable
begin

text \<open>
  What the files of a table hold and that they are read, closed, checked and repaired
  correctly. \<open>log_pos\<close> lists the positions of the logs of a table in its data file.
\<close>

section \<open>Contents of a table\<close>

fun log_pos :: "nat \<Rightarrow> Log list \<Rightarrow> nat list" where
  "log_pos p [] = []"
| "log_pos p (l # ls) = p # log_pos (p + Log_Size l) ls"

definition data_bytes :: "Log list \<Rightarrow> bytes" where
  "data_bytes ls = concat (map Encode ls)"

definition pos_bytes :: "nat list \<Rightarrow> bytes" where
  "pos_bytes ps = concat (map (\<lambda>p. put_be32 (word_of_nat p)) ps)"

definition meta_bytes :: "Log list \<Rightarrow> bytes" where
  "meta_bytes ls = pos_bytes (log_pos 0 ls)"

definition pos_ok :: "Log list \<Rightarrow> bool" where
  "pos_ok ls \<longleftrightarrow> (\<forall>p\<in>set (log_pos 0 ls). p < 2 ^ 32)"

lemma data_bytes_simps [simp]:
  "data_bytes [] = []" "data_bytes (l # ls) = Encode l @ data_bytes ls"
  "data_bytes (ls @ ms) = data_bytes ls @ data_bytes ms"
  by (simp_all add: data_bytes_def)

lemma pos_bytes_simps [simp]:
  "pos_bytes [] = []" "pos_bytes (p # ps) = put_be32 (word_of_nat p) @ pos_bytes ps"
  "pos_bytes (ps @ qs) = pos_bytes ps @ pos_bytes qs"
  by (simp_all add: pos_bytes_def)

lemma length_log_pos [simp]: "length (log_pos p ls) = length ls"
  by (induction ls arbitrary: p) auto

lemma length_pos_bytes [simp]: "length (pos_bytes ps) = 4 * length ps"
  by (induction ps) auto

lemma log_pos_append: "log_pos p (ls @ ms) = log_pos p ls @ log_pos (p + length (data_bytes ls)) ms"
  by (induction ls arbitrary: p) (simp_all add: add.assoc)

lemma length_meta_bytes [simp]: "length (meta_bytes ls) = 4 * length ls"
  by (simp add: meta_bytes_def)

lemma meta_bytes_eq_Nil [simp]: "meta_bytes ls = [] \<longleftrightarrow> ls = []"
  using length_meta_bytes [of ls] by (metis length_0_conv mult_eq_0_iff zero_neq_numeral)

lemma meta_bytes_Nil [simp]: "meta_bytes [] = []"
  by simp

lemma meta_bytes_snoc:
  "meta_bytes (ls @ [l]) = meta_bytes ls @ put_be32 (word_of_nat (length (data_bytes ls)))"
  by (simp add: meta_bytes_def log_pos_append)

lemma pos_ok_snoc [simp]: "pos_ok (ls @ [l]) \<longleftrightarrow> pos_ok ls \<and> length (data_bytes ls) < 2 ^ 32"
  by (auto simp: pos_ok_def log_pos_append)

lemma pos_ok_Nil [simp]: "pos_ok []"
  by (simp add: pos_ok_def)

lemma pos_ok_prefix: "pos_ok (ls @ ms) \<Longrightarrow> pos_ok ls"
  by (simp add: pos_ok_def log_pos_append)

lemma data_bytes_long: "17 * length ls \<le> length (data_bytes ls)"
  by (induction ls) (auto simp: Log_Size_def LogHeadSize_def)

lemma pos_ok_length: "pos_ok ls \<Longrightarrow> length ls < 2 ^ 32"
proof (cases ls rule: rev_cases)
  case (snoc ms m)
  then show "pos_ok ls \<Longrightarrow> length ls < 2 ^ 32"
    using data_bytes_long [of ms] by simp
qed simp

lemma data_split: "k < length ls \<Longrightarrow>
    data_bytes ls = data_bytes (take k ls) @ Encode (ls ! k) @ data_bytes (drop (Suc k) ls)"
  by (metis id_take_nth_drop data_bytes_simps(2,3))

lemma log_pos_nth: "k < length ls \<Longrightarrow> log_pos 0 ls ! k = length (data_bytes (take k ls))"
  using log_pos_append [of 0 "take k ls" "ls ! k # drop (Suc k) ls"]
  by (simp add: nth_append id_take_nth_drop [symmetric])

lemma pos_bytes_nth: "k < length ps \<Longrightarrow> take 4 (drop (k * 4) (pos_bytes ps)) = put_be32 (word_of_nat (ps ! k))"
proof (induction ps arbitrary: k)
  case (Cons p ps)
  then show ?case by (cases k) auto
qed simp

section \<open>Reading\<close>

lemma DecodeHeadAt_reads:
  assumes "reads_at ra (c @ Encode l @ d)"
  shows "DecodeHeadAt ra (int (length c)) = Inr (l\<lparr>Data := []\<rparr>, word_of_nat (length (Data l)))"
proof -
  have "ra LogHeadSize (int (length c)) = (take LogHeadSize (Encode l @ d), None)"
    using reads_atD [OF assms, of "length c" LogHeadSize] by (simp add: Log_Size_def)
  then show ?thesis
    using decodeHeadBuf_Encode [of l d] by (simp add: DecodeHeadAt_def del: take_append)
qed

lemma decodeLogHead_reads:
  assumes "reads_at ra (c @ Encode l @ d)" and "Log_ok l"
  shows "decodeLogHead ra (length c) = Inr (l\<lparr>Data := []\<rparr>, length c + Log_Size l)"
  using assms
  by (simp add: decodeLogHead_def DecodeHeadAt_reads Log_Size_def Log_ok_def unat_length32)

lemma DecodeAt_reads:
  assumes "reads_at ra (c @ Encode l @ d)" and "Log_ok l"
  shows "DecodeAt ra (int (length c)) = Inr l"
proof -
  have "drop LogHeadSize (Encode l) = Data l"
    by (simp add: Encode_def LogHeadSize_def)
  then have "ra (length (Data l)) (int (length c) + int LogHeadSize) = (Data l, None)"
    using reads_atD [OF assms(1), of "length c + LogHeadSize" "length (Data l)"]
    by (simp add: Log_Size_def)
  then show ?thesis
    using assms by (simp add: DecodeAt_def DecodeHeadAt_reads Log_ok_def unat_length32)
qed

lemma meta_reads:
  assumes "reads_at ra (meta_bytes ls)" and "k < length ls"
  shows "ra 4 (int k * 4) = (put_be32 (word_of_nat (length (data_bytes (take k ls)))), None)"
  using reads_atD [OF assms(1), of "k * 4" 4] assms(2) pos_bytes_nth [of k "log_pos 0 ls"]
  by (simp add: meta_bytes_def log_pos_nth mult.commute)

lemma pos_unat:
  assumes "pos_ok ls" and "k < length ls"
  shows "unat (word_of_nat (length (data_bytes (take k ls))) :: u32) = length (data_bytes (take k ls))"
proof -
  have "length (data_bytes (take k ls)) \<in> set (log_pos 0 ls)"
    using assms(2) log_pos_nth [OF assms(2)] by (metis length_log_pos nth_mem)
  with assms(1) show ?thesis
    by (simp add: pos_ok_def unat_length32)
qed

lemma table_reads:
  assumes "reads_at data (data_bytes ls)" and "pos_ok ls" and "list_all Log_ok ls" and "k < length ls"
  shows "DecodeAt data (int (unat (word_of_nat (length (data_bytes (take k ls))) :: u32))) = Inr (ls ! k)"
  using assms data_split [OF assms(4)] DecodeAt_reads [of data "data_bytes (take k ls)" "ls ! k"]
  by (simp add: pos_unat list_all_length)

section \<open>Ids of consecutive logs\<close>

lemma consecutive_Suc:
  "consecutive ls \<Longrightarrow> Suc k < length ls \<Longrightarrow> ID (ls ! Suc k) = ID (ls ! k) + 1"
proof (induction ls arbitrary: k rule: consecutive.induct)
  case (3 l m ls)
  then show ?case by (cases k) auto
qed auto

lemma consecutive_nth:
  "consecutive ls \<Longrightarrow> k < length ls \<Longrightarrow> unat (ID (ls ! k)) = unat (firstLogID ls) + k"
proof (induction k)
  case 0
  then show ?case by (cases ls) (auto simp: firstLogID_def)
next
  case (Suc k)
  have "ID (ls ! Suc k) = ID (ls ! k) + 1"
    using consecutive_Suc [OF Suc.prems] .
  moreover have "ID (ls ! Suc k) \<noteq> 0"
    using Suc.prems consecutive_nonzero [OF Suc.prems(1), of "ls ! Suc k"]
    by (simp add: InvalidLogID_def)
  ultimately have "unat (ID (ls ! Suc k)) = Suc (unat (ID (ls ! k)))"
    by (metis add.commute unatSuc)
  with Suc show ?case by simp
qed

lemma lastLogID_nth: "ls \<noteq> [] \<Longrightarrow> lastLogID ls = ID (ls ! (length ls - 1))"
  by (simp add: lastLogID_def last_conv_nth)

lemma consecutive_last:
  assumes "consecutive ls" and "ls \<noteq> []"
  shows "unat (lastLogID ls) = unat (firstLogID ls) + (length ls - 1)"
  using assms consecutive_nth [of ls "length ls - 1"] by (simp add: lastLogID_nth)

lemma consecutive_index:
  assumes "consecutive ls" and "ls \<noteq> []" and "firstLogID ls \<le> i" and "i \<le> lastLogID ls"
  shows "unat (i - firstLogID ls) < length ls"
proof -
  have "unat i \<le> unat (firstLogID ls) + (length ls - 1)"
    using assms(4) unfolding consecutive_last [OF assms(1,2), symmetric] word_le_nat_alt .
  moreover have "0 < length ls"
    using assms(2) by simp
  ultimately show ?thesis
    unfolding unat_sub [OF assms(3)] by linarith
qed

lemma findLog_in_range:
  assumes "consecutive ls" and "ls \<noteq> []" and "firstLogID ls \<le> i" and "i \<le> lastLogID ls"
  shows "findLog i ls = Some (ls ! unat (i - firstLogID ls))"
proof -
  let ?k = "unat (i - firstLogID ls)"
  have "unat (ID (ls ! ?k)) = unat (firstLogID ls) + ?k"
    by (rule consecutive_nth [OF assms(1) consecutive_index [OF assms]])
  moreover have "unat (firstLogID ls) + ?k = unat i"
    unfolding unat_sub [OF assms(3)] using assms(3) by (simp add: word_le_nat_alt)
  ultimately have "ID (ls ! ?k) = i"
    unfolding word_unat_eq_iff by (rule trans)
  with findLog_mem [OF assms(1), of "ls ! ?k"] consecutive_index [OF assms] show ?thesis
    by simp
qed

lemma findLog_out_of_range:
  assumes "consecutive ls" and "i < firstLogID ls \<or> lastLogID ls < i"
  shows "findLog i ls = None"
proof -
  have "ID m \<noteq> i" if mem: "m \<in> set ls" for m
  proof -
    obtain k where k: "k < length ls" "m = ls ! k"
      using mem by (metis in_set_conv_nth)
    have "firstLogID ls \<le> ID m"
      unfolding k(2) word_le_nat_alt consecutive_nth [OF assms(1) k(1)] by (rule le_add1)
    then show ?thesis
      using assms(2) consecutive_last_max [OF assms(1) mem] by (auto dest: leD)
  qed
  then show ?thesis
    unfolding findLog_def find_None_iff by blast
qed

lemma consecutive_span:
  assumes "consecutive ls" and "ls \<noteq> []"
  shows "firstLogID ls \<le> lastLogID ls \<and> lastLogID ls - firstLogID ls + 1 = word_of_nat (length ls)"
proof -
  note l = consecutive_last [OF assms]
  then have "lastLogID ls = firstLogID ls + word_of_nat (length ls - 1)"
    by (metis of_nat_add of_nat_unat ucast_id)
  moreover have "firstLogID ls \<le> lastLogID ls"
    using l by (simp add: word_le_nat_alt)
  ultimately show ?thesis
    using assms(2) by (simp add: of_nat_diff Suc_le_eq)
qed

section \<open>Tables and their files\<close>

text \<open>
  \<open>tr_holds\<close>: the files of a flushed table hold the logs \<open>ls\<close>. \<open>tw_holds\<close>: the writer has
  written \<open>ls\<close> to the files of its table. Sizes of logs are left to \<open>Log_ok\<close>, which reading
  needs and writing does not.
\<close>

definition tr_holds :: "filesys \<Rightarrow> tableReader \<Rightarrow> Log list \<Rightarrow> bool" where
  "tr_holds fs t ls \<longleftrightarrow> ls \<noteq> [] \<and> consecutive ls \<and> pos_ok ls \<and>
     tr_first t = firstLogID ls \<and> tr_last t = lastLogID ls \<and> tr_lastTime t = CreateTime (last ls) \<and>
     fs_files fs (DataName (tr_index t)) = Some (data_bytes ls @ magic) \<and>
     fs_files fs (MetaName (tr_index t)) = Some (meta_bytes ls)"

definition tw_holds :: "filesys \<Rightarrow> tableWriter \<Rightarrow> Log list \<Rightarrow> bool" where
  "tw_holds fs t ls \<longleftrightarrow> consecutive ls \<and> pos_ok ls \<and> \<not> tw_closed t \<and>
     tw_first t = firstLogID ls \<and> tw_last t = lastLogID ls \<and>
     (if ls = [] then tw_data t = None \<and> tw_meta t = None
      else tw_lastTime t = CreateTime (last ls) \<and>
        (\<exists>d m. tw_data t = Some d \<and> tw_meta t = Some m \<and>
          wf_holds fs d (DataName (tw_index t)) (data_bytes ls) \<and>
          wf_holds fs m (MetaName (tw_index t)) (meta_bytes ls)))"

text \<open>\<open>fresh\<close>: the files of a table do not exist.\<close>

definition fresh :: "filesys \<Rightarrow> nat \<Rightarrow> bool" where
  "fresh fs i \<longleftrightarrow> fs_files fs (DataName i) = None \<and> fs_files fs (MetaName i) = None"

definition get_result :: "Log option \<Rightarrow> Log res" where
  "get_result x = (case x of None \<Rightarrow> Inl ErrLogNotFound | Some l \<Rightarrow> Inr l)"

lemma magic_length [simp]: "length magic = 20" and magic_not_Nil [simp]: "magic \<noteq> []"
  by (simp_all add: magic_def)

lemma sint_small_diff: "unat (w :: u64) < 2 ^ 32 \<Longrightarrow> sint w = int (unat w)"
  "unat w < 2 ^ 32 \<Longrightarrow> sint (w * 4) = int (unat w) * 4"
proof -
  assume w: "unat w < 2 ^ 32"
  have e: "word_of_nat (unat w) = w" "word_of_nat (unat w * 4) = w * 4"
    by simp_all
  have "unat w < 2 ^ 63" "unat w * 4 < 2 ^ 63"
    using w by simp_all
  from this [THEN sint_small] show "sint w = int (unat w)" "sint (w * 4) = int (unat w) * 4"
    unfolding e by simp_all
qed

lemma read_by_id:
  assumes "consecutive ls" and "ls \<noteq> []" and "pos_ok ls"
    and "list_all Log_ok ls" and "reads_at data (data_bytes ls)" and "reads_at meta (meta_bytes ls)"
    and "\<not> (i < firstLogID ls \<or> lastLogID ls < i)"
  shows "\<exists>p l. meta 4 (sint (i - firstLogID ls) * 4) = (put_be32 p, None) \<and>
    sint ((i - firstLogID ls) * 4) = sint (i - firstLogID ls) * 4 \<and>
    DecodeAt data (int (unat p)) = Inr l \<and> ID l = i \<and> findLog i ls = Some l"
proof -
  let ?k = "unat (i - firstLogID ls)"
  have k: "?k < length ls" "findLog i ls = Some (ls ! ?k)"
    using findLog_in_range [OF assms(1,2), of i] consecutive_index [OF assms(1,2), of i] assms(7)
    by (simp_all add: not_less)
  have s: "sint (i - firstLogID ls) = int ?k" "sint ((i - firstLogID ls) * 4) = int ?k * 4"
    using sint_small_diff [of "i - firstLogID ls"] pos_ok_length [OF assms(3)] k(1) by auto
  have "ID (ls ! ?k) = i"
    using k(2) by (auto simp: findLog_def find_Some_iff)
  with meta_reads [OF assms(6) k(1)] table_reads [OF assms(5,3,4) k(1)] k(2) s show ?thesis
    by auto
qed

lemma tr_GetLog_holds:
  assumes "tr_holds fs t ls" and "list_all Log_ok ls"
  shows "tr_GetLog i t fs = get_result (findLog i ls)"
proof (cases "i < firstLogID ls \<or> lastLogID ls < i")
  case True
  with assms findLog_out_of_range [of ls i] show ?thesis
    by (simp add: tr_holds_def tr_GetLog_def get_result_def)
next
  case False
  have h: "consecutive ls" "ls \<noteq> []" "pos_ok ls" "data_bytes ls @ magic \<noteq> []" "meta_bytes ls \<noteq> []"
    and f: "fs_files fs (DataName (tr_index t)) = Some (data_bytes ls @ magic)"
      "fs_files fs (MetaName (tr_index t)) = Some (meta_bytes ls)"
    using assms(1) by (simp_all add: tr_holds_def)
  obtain dra where d: "newReadFile (tr_useMmap t) (DataName (tr_index t)) fs =
      Inr (length (data_bytes ls @ magic), dra)" "reads_at dra (data_bytes ls @ magic)"
    using newReadFile_reads [OF f(1) h(4)] by blast
  obtain mra where m: "newReadFile (tr_useMmap t) (MetaName (tr_index t)) fs =
      Inr (length (meta_bytes ls), mra)" "reads_at mra (meta_bytes ls)"
    using newReadFile_reads [OF f(2) h(5)] by blast
  show ?thesis
    using read_by_id [OF h(1-3) assms(2) reads_at_prefix [OF d(2)] m(2) False] d(1) m(1) False assms(1)
    by (auto simp: tr_GetLog_def getLogPos_def get_result_def tr_holds_def)
qed

lemma tw_GetLog_holds:
  assumes "tw_holds fs t ls" and "list_all Log_ok ls" and "i \<noteq> InvalidLogID"
  shows "tw_GetLog i t fs = get_result (findLog i ls)"
proof (cases "i < firstLogID ls \<or> lastLogID ls < i")
  case True
  with assms(1) findLog_out_of_range [of ls i] show ?thesis
    by (simp add: tw_holds_def tw_GetLog_def get_result_def)
next
  case False
  then have ne: "ls \<noteq> []"
    using assms(3) by (auto simp: lastLogID_def InvalidLogID_def word_gt_0)
  then obtain d m where dm: "tw_data t = Some d" "tw_meta t = Some m"
      "wf_holds fs d (DataName (tw_index t)) (data_bytes ls)"
      "wf_holds fs m (MetaName (tw_index t)) (meta_bytes ls)" "consecutive ls" "pos_ok ls"
    using assms(1) by (auto simp: tw_holds_def)
  show ?thesis
    using read_by_id [OF dm(5) ne dm(6) assms(2) wf_holds_reads [OF dm(3)] wf_holds_reads [OF dm(4)] False]
      dm(1,2) False assms(1)
    by (auto simp: tw_GetLog_def get_result_def tw_holds_def)
qed

section \<open>Writing and flushing\<close>

text \<open>\<open>only_table i\<close>: of the files, only those of table \<open>i\<close> may have changed.\<close>

definition only_table :: "nat \<Rightarrow> filesys \<Rightarrow> filesys \<Rightarrow> bool" where
  "only_table i fs fs' \<longleftrightarrow> fs_err fs' = fs_err fs \<and>
     (\<forall>k. k \<noteq> DataName i \<longrightarrow> k \<noteq> MetaName i \<longrightarrow> fs_files fs' k = fs_files fs k)"

lemma only_table_holds:
  "only_table i fs fs' \<Longrightarrow> tr_index t \<noteq> i \<Longrightarrow> tr_holds fs' t ls = tr_holds fs t ls"
  by (simp add: only_table_def tr_holds_def)

lemma only_table_trans: "only_table i fs fs' \<Longrightarrow> only_table i fs' fs'' \<Longrightarrow> only_table i fs fs''"
  by (simp add: only_table_def)

lemma Encode_split: "take LogHeadSize (Encode l) @ Data l = Encode l"
  by (simp add: Encode_def LogHeadSize_def)

lemma encodeTo_holds:
  assumes "wf_holds fs d n c" and "fs_err fs = None"
  shows "\<exists>d' fs'. encodeTo l d fs = (Inr (), d', fs') \<and> wf_holds fs' d' n (c @ Encode l) \<and>
    fs_err fs' = None \<and> (\<forall>k. k \<noteq> n \<longrightarrow> fs_files fs' k = fs_files fs k)"
proof -
  obtain d1 fs1 where 1: "wf_Write (take LogHeadSize (Encode l)) d fs = (Inr (), d1, fs1)"
      "wf_holds fs1 d1 n (c @ take LogHeadSize (Encode l))" "fs_err fs1 = None"
      "\<forall>k. k \<noteq> n \<longrightarrow> fs_files fs1 k = fs_files fs k"
    using wf_holds_write [OF assms] by blast
  with wf_holds_write [OF 1(2,3), of "Data l"] show ?thesis
    by (auto simp: encodeTo_def Encode_split)
qed

lemma openFile_holds:
  assumes "tw_holds fs t ls" and "fs_err fs = None" and "ls = [] \<Longrightarrow> fresh fs (tw_index t)"
  shows "\<exists>d m fs'. openFile t fs = (Inr (d, m), t\<lparr>tw_data := Some d, tw_meta := Some m\<rparr>, fs') \<and>
    wf_holds fs' d (DataName (tw_index t)) (data_bytes ls) \<and>
    wf_holds fs' m (MetaName (tw_index t)) (meta_bytes ls) \<and> only_table (tw_index t) fs fs'"
proof (cases "ls = []")
  case False
  with assms show ?thesis
    by (auto simp: tw_holds_def openFile_def open_one_def only_table_def)
next
  case True
  let ?D = "DataName (tw_index t)" and ?M = "MetaName (tw_index t)"
  obtain d fs1 where 1: "newWriteFile (tw_useMmap t) ?D
        (tw_maxLogSize t + tw_maxLogSize t div 10 + length magic) fs = (Inr d, fs1)"
      "wf_holds fs1 d ?D []" "fs_err fs1 = None" "\<forall>k. k \<noteq> ?D \<longrightarrow> fs_files fs1 k = fs_files fs k"
    using newWriteFile_holds [OF assms(2), of "tw_maxLogSize t + tw_maxLogSize t div 10 + length magic" ?D
        "tw_useMmap t"]
      assms(3) True by (auto simp: fresh_def)
  obtain m fs2 where 2: "newWriteFile (tw_useMmap t) ?M (defaultLogNumInFile * 4) fs1 = (Inr m, fs2)"
      "wf_holds fs2 m ?M []" "fs_err fs2 = None" "\<forall>k. k \<noteq> ?M \<longrightarrow> fs_files fs2 k = fs_files fs1 k"
    using newWriteFile_holds [OF 1(3), of "defaultLogNumInFile * 4" ?M "tw_useMmap t"] 1(4) assms(3) True
    by (auto simp: defaultLogNumInFile_def fresh_def)
  have "wf_holds fs2 d ?D []"
    using wf_holds_other [OF 1(2)] 2(4) by simp
  with 1 2 True assms show ?thesis
    by (auto simp: tw_holds_def openFile_def open_one_def only_table_def)
qed

lemma firstLogID_append: "firstLogID (ls @ [l]) = (if ls = [] then ID l else firstLogID ls)"
  and lastLogID_append: "lastLogID (ls @ [l]) = ID l"
  by (simp_all add: firstLogID_def lastLogID_def)

lemma firstLogID_zero: "consecutive ls \<Longrightarrow> firstLogID ls = 0 \<longleftrightarrow> ls = []"
  and lastLogID_zero: "consecutive ls \<Longrightarrow> lastLogID ls = 0 \<longleftrightarrow> ls = []"
  using consecutive_nonzero [of ls "hd ls"] consecutive_nonzero [of ls "last ls"]
  by (auto simp: firstLogID_def lastLogID_def InvalidLogID_def)

lemma tw_storeLog_holds:
  assumes h: "tw_holds fs t ls" and e: "fs_err fs = None" and i: "ID l \<noteq> 0"
    and fresh: "ls = [] \<Longrightarrow> fresh fs (tw_index t)"
    and c: "ls \<noteq> [] \<Longrightarrow> ID l = lastLogID ls + 1"
    and z: "length (data_bytes ls) \<le> tw_maxLogSize t" "tw_maxLogSize t < 2 ^ 32"
  shows "\<exists>d m fs'. tw_storeLog l t fs = (Inr (), t\<lparr>tw_data := Some d, tw_meta := Some m,
      tw_first := firstLogID (ls @ [l]), tw_last := ID l, tw_lastTime := CreateTime l\<rparr>, fs') \<and>
    tw_holds fs' (t\<lparr>tw_data := Some d, tw_meta := Some m,
      tw_first := firstLogID (ls @ [l]), tw_last := ID l, tw_lastTime := CreateTime l\<rparr>) (ls @ [l]) \<and>
    only_table (tw_index t) fs fs'"
proof -
  let ?D = "DataName (tw_index t)" and ?M = "MetaName (tw_index t)"
  obtain d m fs1 where 1: "openFile t fs = (Inr (d, m), t\<lparr>tw_data := Some d, tw_meta := Some m\<rparr>, fs1)"
      "wf_holds fs1 d ?D (data_bytes ls)" "wf_holds fs1 m ?M (meta_bytes ls)"
      "only_table (tw_index t) fs fs1"
    using openFile_holds [OF h e fresh] by blast
  have e1: "fs_err fs1 = None"
    using 1(4) e by (simp add: only_table_def)
  obtain d2 fs2 where 2: "encodeTo l d fs1 = (Inr (), d2, fs2)"
      "wf_holds fs2 d2 ?D (data_bytes (ls @ [l]))" "fs_err fs2 = None"
      "\<forall>k. k \<noteq> ?D \<longrightarrow> fs_files fs2 k = fs_files fs1 k"
    using encodeTo_holds [OF 1(2) e1, of l] by auto
  have m2: "wf_holds fs2 m ?M (meta_bytes ls)"
    using wf_holds_other [OF 1(3)] 2(4) by simp
  obtain m3 fs3 where 3: "wf_Write (put_be32 (word_of_nat (length (data_bytes ls)))) m fs2 = (Inr (), m3, fs3)"
      "wf_holds fs3 m3 ?M (meta_bytes (ls @ [l]))" "fs_err fs3 = None"
      "\<forall>k. k \<noteq> ?M \<longrightarrow> fs_files fs3 k = fs_files fs2 k"
    using wf_holds_write [OF m2 2(3), of "put_be32 (word_of_nat (length (data_bytes ls)))"]
    unfolding meta_bytes_snoc by blast
  have d3: "wf_holds fs3 d2 ?D (data_bytes (ls @ [l]))"
    using wf_holds_other [OF 2(2)] 3(4) by simp
  have off: "wf_offset d = length (data_bytes ls)"
    using 1(2) by (auto simp: wf_holds_def wf_file_def)
  have noflush: "\<not> (case tw_data t of None \<Rightarrow> False | Some d \<Rightarrow> tw_maxLogSize t < wf_offset d)"
    using h z(1) by (auto simp: tw_holds_def wf_holds_def wf_file_def split: option.split if_splits)
  have cs: "consecutive ls" "tw_first t = firstLogID ls" "tw_last t = lastLogID ls" "\<not> tw_closed t"
    using h by (simp_all add: tw_holds_def)
  have r: "tw_storeLog l t fs = (Inr (), t\<lparr>tw_data := Some d2, tw_meta := Some m3,
      tw_first := firstLogID (ls @ [l]), tw_last := ID l, tw_lastTime := CreateTime l\<rparr>, fs3)"
    using i c cs noflush off 1(1) 2(1) 3(1) firstLogID_zero [OF cs(1)] lastLogID_zero [OF cs(1)]
    by (auto simp: tw_storeLog_def firstLogID_append)
  have "only_table (tw_index t) fs fs3"
    using 1(4) 2(3,4) 3(3,4) e by (simp add: only_table_def)
  moreover have "tw_holds fs3 (t\<lparr>tw_data := Some d2, tw_meta := Some m3,
      tw_first := firstLogID (ls @ [l]), tw_last := ID l, tw_lastTime := CreateTime l\<rparr>) (ls @ [l])"
    using h i c z d3 3(2)
    by (simp add: tw_holds_def consecutive_snoc lastLogID_append InvalidLogID_def)
  ultimately show ?thesis
    using r by blast
qed

lemma tw_Flush_holds:
  assumes h: "tw_holds fs t ls" and e: "fs_err fs = None" and ne: "ls \<noteq> []"
  shows "\<exists>tr t' fs'. tw_Flush t fs = (Inr tr, t', fs') \<and> tr_holds fs' tr ls \<and> tr_index tr = tw_index t \<and>
    tw_holds fs' t' [] \<and> tw_index t' = Suc (tw_index t) \<and> tw_maxLogSize t' = tw_maxLogSize t \<and>
    only_table (tw_index t) fs fs'"
proof -
  let ?D = "DataName (tw_index t)" and ?M = "MetaName (tw_index t)"
  obtain d m where dm: "tw_data t = Some d" "tw_meta t = Some m"
      "wf_holds fs d ?D (data_bytes ls)" "wf_holds fs m ?M (meta_bytes ls)"
    using h ne by (auto simp: tw_holds_def)
  let ?fs1 = "set_file ?M (meta_bytes ls) fs"
  have d1: "wf_holds ?fs1 d ?D (data_bytes ls)"
    using wf_holds_other [OF dm(3)] by simp
  obtain d2 fs2 where 2: "wf_Write magic d ?fs1 = (Inr (), d2, fs2)"
      "wf_holds fs2 d2 ?D (data_bytes ls @ magic)" "fs_err fs2 = None"
      "\<forall>k. k \<noteq> ?D \<longrightarrow> fs_files fs2 k = fs_files ?fs1 k"
    using wf_holds_write [OF d1, of magic] e by auto
  have "tw_close t fs = (t\<lparr>tw_meta := None, tw_data := None\<rparr>, set_file ?D (data_bytes ls @ magic) fs2)"
    using dm(1,2) 2(1) wf_holds_close [OF dm(4) e] wf_holds_close [OF 2(2,3)]
    by (simp add: tw_close_def)
  then show ?thesis
    using h ne dm(1,2) 2(3,4) e
    by (auto simp: tw_Flush_def tr_holds_def tw_holds_def only_table_def firstLogID_def lastLogID_def
        InvalidLogID_def)
qed

section \<open>Checking and repairing\<close>

definition reader_of :: "nat \<Rightarrow> bool \<Rightarrow> Log list \<Rightarrow> tableReader" where
  "reader_of i mm ls = \<lparr>tr_index = i, tr_first = firstLogID ls, tr_last = lastLogID ls,
     tr_lastTime = CreateTime (last ls), tr_useMmap = mm\<rparr>"

lemma first_data: "ls \<noteq> [] \<Longrightarrow> data_bytes ls = [] @ Encode (hd ls) @ data_bytes (tl ls)"
  by (cases ls) simp_all

lemma last_data: "ls \<noteq> [] \<Longrightarrow> data_bytes ls = data_bytes (butlast ls) @ Encode (last ls) @ []"
  by (metis append_butlast_last_id append_Nil2 data_bytes_simps)

lemma last_pos:
  assumes "reads_at ra (meta_bytes ls)" and "ls \<noteq> []"
  shows "getLogPos ra (int (length ls) - 1) = Inr (word_of_nat (length (data_bytes (butlast ls))))"
proof -
  obtain k where k: "length ls = Suc k"
    using assms(2) by (cases ls) auto
  then have "butlast ls = take k ls"
    by (simp add: butlast_conv_take)
  with meta_reads [OF assms(1), of k] k show ?thesis
    by (simp add: getLogPos_def)
qed

lemma tr_check_closed:
  assumes "ls \<noteq> []" and "consecutive ls" and "pos_ok ls" and "list_all Log_ok ls"
    and "fs_files fs (DataName (tr_index t)) = Some (data_bytes ls @ magic)"
    and "fs_files fs (MetaName (tr_index t)) = Some (meta_bytes ls)"
  shows "tr_check t fs = (Inr (), reader_of (tr_index t) (tr_useMmap t) ls)"
proof -
  let ?d = "os_ReadAt (data_bytes ls @ magic)" and ?m = "os_ReadAt (meta_bytes ls)"
  have md: "checkMeta t fs = Inr (4 * length ls, ?m)" "checkData t fs = Inr (length (data_bytes ls) + 20, ?d)"
    using assms by (simp_all add: checkMeta_def checkData_def newReadFile_def os_ReadAt_def)
  have r: "reads_at ?m (meta_bytes ls)" "reads_at ?d (data_bytes ls @ magic)"
    by simp_all
  have "getLogPos ?m 0 = Inr 0"
    using meta_reads [OF r(1), of 0] assms(1) by (simp add: getLogPos_def)
  moreover have "decodeLogHead ?d 0 = Inr ((hd ls)\<lparr>Data := []\<rparr>, Log_Size (hd ls))"
    using decodeLogHead_reads [of ?d "[]" "hd ls" "data_bytes (tl ls)"] first_data [OF assms(1)]
      reads_at_prefix [OF r(2)] assms(1,4) by (simp add: list_all_iff)
  moreover have "decodeLogHead ?d (length (data_bytes (butlast ls))) =
      Inr ((last ls)\<lparr>Data := []\<rparr>, length (data_bytes ls))"
    using decodeLogHead_reads [of ?d "data_bytes (butlast ls)" "last ls" "[]"] last_data [OF assms(1)]
      reads_at_prefix [OF r(2)] assms(1,4) by (simp add: list_all_iff)
  moreover have "unat (word_of_nat (length (data_bytes (butlast ls))) :: u32) = length (data_bytes (butlast ls))"
    using pos_unat [OF assms(3), of "length ls - 1"] assms(1) by (simp add: butlast_conv_take)
  moreover have "\<not> ID (last ls) < ID (hd ls)" "ID (last ls) - ID (hd ls) + 1 = word_of_nat (length ls)"
    using consecutive_span [OF assms(2,1)] assms(1) by (simp_all add: firstLogID_def lastLogID_def not_less)
  ultimately show ?thesis
    using md last_pos [OF r(1) assms(1)] assms(1)
    by (simp add: tr_check_def reader_of_def firstLogID_def lastLogID_def Let_def)
qed

end
