(* ===== verification/Rpl_FileRepair.thy ===== *)
theory Rpl_FileRepair
  imports Rpl_FileTable_Laws
begin

text \<open>
  Opening the table of a writer that was not closed (\<open>tableReader.check\<close> and
  \<open>tableReader.repair\<close> of \<open>rpl/file_table.go\<close>): the check finds that it was not, and the
  repair brings its files into the state of a closed table with the same logs.
\<close>

text \<open>
  A table that was not closed: the data file ends with the last log or with zeros of the
  mapping, which have the head of a log with id \<open>0\<close>.
\<close>

lemma magic_last: "xs @ replicate k 0 = ys @ magic \<Longrightarrow> k = 0"
proof (rule ccontr)
  assume "xs @ replicate k 0 = ys @ magic" "k \<noteq> 0"
  then have "last (replicate k (0 :: byte)) = last magic"
    by (metis last_appendR magic_not_Nil replicate_empty)
  with \<open>k \<noteq> 0\<close> show False
    by (simp add: magic_def)
qed

lemma os_ReadAt_tail: "n \<le> length f \<Longrightarrow> os_ReadAt f n (int (length f - n)) = (drop (length f - n) f, None)"
  unfolding os_ReadAt_def Let_def by (simp del: of_nat_diff)

lemma checkData_magic:
  assumes "checkData t fs = Inr (n, ra)"
  shows "\<exists>c. fs_files fs (DataName (tr_index t)) = Some (c @ magic) \<and> n = length c + 20 \<and>
    ra = os_ReadAt (c @ magic)"
proof -
  obtain f where f: "fs_files fs (DataName (tr_index t)) = Some f"
    using assms by (cases "fs_files fs (DataName (tr_index t))") (simp_all add: checkData_def newReadFile_def)
  have le: "20 \<le> length f"
    using assms unfolding checkData_def newReadFile_def f by (simp split: if_splits)
  have g: "n = length f \<and> ra = os_ReadAt f \<and> drop (length f - 20) f = magic"
    using assms le unfolding checkData_def newReadFile_def f
    by (simp add: os_ReadAt_tail del: of_nat_diff split: if_splits)
  then have "f = take (length f - 20) f @ magic"
    using append_take_drop_id [of "length f - 20" f] by simp
  with f g show ?thesis
    by (metis length_append magic_length)
qed

lemma tr_check_keeps:
  "tr_check t fs = (x, t') \<Longrightarrow> tr_index t' = tr_index t \<and> tr_useMmap t' = tr_useMmap t"
  by (auto simp: tr_check_def Let_def split: sum.splits prod.splits if_splits)

text \<open>What a check that succeeds has found.\<close>

lemma tr_check_ok:
  assumes "tr_check t fs = (Inr (), t')"
  shows "\<exists>ms mra ds dra l n. checkMeta t fs = Inr (ms, mra) \<and> checkData t fs = Inr (ds, dra) \<and>
    decodeLogHead dra (unat (case getLogPos mra (int (ms div 4) - 1) of Inl e \<Rightarrow> 0 | Inr p \<Rightarrow> p)) = Inr (l, n) \<and>
    n + 20 = ds \<and>
    (\<exists>l0 n0. decodeLogHead dra 0 = Inr (l0, n0) \<and> ID l - ID l0 + 1 = word_of_nat (ms div 4))"
proof -
  obtain ms mra where m: "checkMeta t fs = Inr (ms, mra)"
    using assms by (cases "checkMeta t fs") (auto simp: tr_check_def)
  obtain ds dra where d: "checkData t fs = Inr (ds, dra)"
    using assms m by (cases "checkData t fs") (auto simp: tr_check_def)
  let ?p = "\<lambda>x. case x of Inl e \<Rightarrow> 0 | Inr p \<Rightarrow> p"
  have z: "?p (getLogPos mra 0) = 0"
    using assms m d by (simp add: tr_check_def Let_def split: if_splits)
  obtain l0 n0 where l0: "decodeLogHead dra 0 = Inr (l0, n0)"
    using assms m d z by (cases "decodeLogHead dra 0") (auto simp: tr_check_def Let_def)
  obtain l n where l: "decodeLogHead dra (unat (?p (getLogPos mra (int (ms div 4) - 1)))) = Inr (l, n)"
    using assms m d z l0
    by (cases "decodeLogHead dra (unat (?p (getLogPos mra (int (ms div 4) - 1))))") (auto simp: tr_check_def Let_def)
  have "n + 20 = ds \<and> ID l - ID l0 + 1 = word_of_nat (ms div 4)"
    using assms m d z l0 l by (simp add: tr_check_def Let_def split: if_splits)
  with m d l0 l show ?thesis by blast
qed

lemma checkMeta_ok: "checkMeta t fs = Inr (ms, mra) \<Longrightarrow> fs_files fs (MetaName (tr_index t)) = Some c \<Longrightarrow>
    ms = length c \<and> mra = os_ReadAt c \<and> ms mod 4 = 0"
  by (simp add: checkMeta_def newReadFile_def split: if_splits)

lemma get_be32_zeros: "get_be32 (replicate 4 0) = 0"
  by code_simp

lemma getLogPos_zeros:
  assumes "length c mod 4 = 0" and "j mod 4 = 0" and "0 < j"
  shows "getLogPos (os_ReadAt (c @ replicate j 0)) (int ((length c + j) div 4) - 1) = Inr 0"
proof -
  let ?f = "c @ replicate j (0 :: byte)"
  obtain a b where ab: "length c = 4 * a" "j = 4 * b"
    using assms(1,2) by (auto simp: mod_eq_0_iff_dvd dvd_def)
  then obtain b' where b': "b = Suc b'"
    using assms(3) by (cases b) auto
  have e: "(int ((length c + j) div 4) - 1) * 4 = int (length ?f - 4)"
    by (simp add: ab b')
  have "4 \<le> j"
    using ab b' by simp
  then have "drop (length ?f - 4) ?f = replicate 4 0"
    by (simp add: drop_replicate)
  with os_ReadAt_tail [of 4 ?f] \<open>4 \<le> j\<close> show ?thesis
    unfolding getLogPos_def e by (simp add: get_be32_zeros)
qed

lemma tr_check_unclosed:
  assumes ls: "ls \<noteq> []" "pos_ok ls" "list_all Log_ok ls"
    and d: "fs_files fs (DataName (tr_index t)) = Some (data_bytes ls @ replicate k 0)"
    and m: "fs_files fs (MetaName (tr_index t)) = Some (meta_bytes ls @ replicate j 0)"
      "length (meta_bytes ls @ replicate j (0 :: byte)) < 2 ^ 64"
  shows "\<exists>e t'. tr_check t fs = (Inl e, t') \<and> tr_index t' = tr_index t \<and> tr_useMmap t' = tr_useMmap t"
proof -
  let ?m = "meta_bytes ls @ replicate j (0 :: byte)"
  have no: False if s: "tr_check t fs = (Inr (), t')" for t'
  proof -
    obtain ms mra ds dra l n l0 n0 where c: "checkMeta t fs = Inr (ms, mra)" "checkData t fs = Inr (ds, dra)"
        "decodeLogHead dra (unat (case getLogPos mra (int (ms div 4) - 1) of Inl e \<Rightarrow> 0 | Inr p \<Rightarrow> p)) = Inr (l, n)"
        "n + 20 = ds" "decodeLogHead dra 0 = Inr (l0, n0)" "ID l - ID l0 + 1 = word_of_nat (ms div 4)"
      using tr_check_ok [OF s] by blast
    obtain e where e: "data_bytes ls @ replicate k 0 = e @ magic" "ds = length (e @ magic)" "dra = os_ReadAt (e @ magic)"
      using checkData_magic [OF c(2)] d by auto
    have k: "ds = length (data_bytes ls)" "dra = os_ReadAt (data_bytes ls)"
      using e magic_last [OF e(1)] by (auto simp del: length_append)
    have mm: "ms = length ?m" "mra = os_ReadAt ?m" "ms mod 4 = 0"
      using checkMeta_ok [OF c(1) m(1)] by blast+
    have msz: "ms = 4 * length ls + j"
      by (simp add: mm(1))
    have r: "reads_at (os_ReadAt (data_bytes ls)) (data_bytes ls)"
      by simp
    show False
    proof (cases "j = 0")
      case True
      have "decodeLogHead dra (length (data_bytes (butlast ls))) = Inr ((last ls)\<lparr>Data := []\<rparr>, length (data_bytes ls))"
        using decodeLogHead_reads [of dra "data_bytes (butlast ls)" "last ls" "[]"] last_data [OF ls(1)] r ls
        by (simp add: k list_all_iff)
      moreover have "unat (word_of_nat (length (data_bytes (butlast ls))) :: u32) = length (data_bytes (butlast ls))"
        using pos_unat [OF ls(2), of "length ls - 1"] ls(1) by (simp add: butlast_conv_take)
      moreover have "getLogPos mra (int (ms div 4) - 1) = Inr (word_of_nat (length (data_bytes (butlast ls))))"
        using last_pos [of mra ls] True ls(1) mm(2) msz by simp
      ultimately show False
        using c(3,4) k(1) by simp
    next
      case False
      have j: "j mod 4 = 0"
        using mm(3) unfolding msz by presburger
      have "getLogPos mra (int (ms div 4) - 1) = Inr 0"
        using getLogPos_zeros [of "meta_bytes ls" j] False j mm(2) msz by simp
      with c(3,5,6) have w: "word_of_nat (ms div 4) = (1 :: u64)"
        by simp
      have "ms div 4 < 2 ^ 64"
        using m(2) unfolding mm(1) [symmetric] by linarith
      then have "unat (word_of_nat (ms div 4) :: u64) = ms div 4"
        by (simp add: unsigned_of_nat take_bit_nat_eq_self)
      then have "ms div 4 = 1"
        unfolding w by simp
      moreover have "0 < length ls"
        using ls(1) by simp
      ultimately show False
        using False j unfolding msz by presburger
    qed
  qed
  obtain x t' where x: "tr_check t fs = (x, t')"
    by fastforce
  show ?thesis
  proof (cases x)
    case (Inl e)
    with x tr_check_keeps [OF x] show ?thesis by blast
  next
    case (Inr u)
    with x no show ?thesis by simp
  qed
qed

lemma get_be64_zeros: "17 \<le> k \<Longrightarrow> ID (fst (decodeHeadBuf (replicate 17 0))) = 0"
  unfolding decodeHeadBuf_def by simp code_simp

lemma decodeLogHead_zeros:
  "case decodeLogHead (os_ReadAt (c @ replicate k 0)) (length c) of Inl e \<Rightarrow> True | Inr (l, p) \<Rightarrow> ID l = 0"
proof (cases "17 \<le> k")
  case True
  then have "os_ReadAt (c @ replicate k 0) LogHeadSize (int (length c)) = (replicate 17 0, None)"
    by (simp add: os_ReadAt_def LogHeadSize_def take_replicate)
  with get_be64_zeros [OF True] show ?thesis
    by (auto simp: decodeLogHead_def DecodeHeadAt_def split: prod.splits)
next
  case False
  then show ?thesis
    by (simp add: decodeLogHead_def DecodeHeadAt_def os_ReadAt_def LogHeadSize_def Let_def
        split: prod.splits)
qed

text \<open>\<open>heads_at c p ls\<close>: the heads of the logs \<open>ls\<close> are where they belong in \<open>c\<close>, from \<open>p\<close> on.\<close>

fun heads_at :: "bytes \<Rightarrow> nat \<Rightarrow> Log list \<Rightarrow> bool" where
  "heads_at c p [] = True"
| "heads_at c p (l # ls) \<longleftrightarrow>
     decodeLogHead (os_ReadAt c) p = Inr (l\<lparr>Data := []\<rparr>, p + Log_Size l) \<and> heads_at c (p + Log_Size l) ls"

lemma heads_at_append: "heads_at c p (ls @ ms) \<longleftrightarrow> heads_at c p ls \<and> heads_at c (p + length (data_bytes ls)) ms"
  by (induction ls arbitrary: p) (simp_all add: add.assoc)

lemma heads_at_data: "list_all Log_ok ls \<Longrightarrow> heads_at (b @ data_bytes ls @ r) (length b) ls"
proof (induction ls arbitrary: b)
  case (Cons l ls)
  then show ?case
    using decodeLogHead_reads [of "os_ReadAt (b @ data_bytes (l # ls) @ r)" b l "data_bytes ls @ r"]
      Cons.IH [of "b @ Encode l"] by simp
qed simp

lemma repair_loop_logs:
  assumes "consecutive (done @ ls)" and "list_all Log_ok ls"
    and "heads_at c (length (data_bytes done)) ls"
    and "case decodeLogHead (os_ReadAt c) (length (data_bytes (done @ ls))) of
           Inl e \<Rightarrow> True | Inr (l, p) \<Rightarrow> ID l = 0"
    and "wf_file fs m M (meta_bytes done) q" and "\<not> wf_mmap m" and "fs_err fs = None"
    and "tr_first t = firstLogID done" "tr_last t = lastLogID done"
  shows "\<exists>m' q' fs'. repair_loop c (length (data_bytes done)) t m fs =
      (Inr (length (data_bytes (done @ ls))),
       t\<lparr>tr_first := firstLogID (done @ ls), tr_last := lastLogID (done @ ls),
         tr_lastTime := (if ls = [] then tr_lastTime t else CreateTime (last ls))\<rparr>, m', fs') \<and>
    wf_file fs' m' M (meta_bytes (done @ ls)) q' \<and> fs_err fs' = None \<and>
    (\<forall>k. k \<noteq> M \<longrightarrow> fs_files fs' k = fs_files fs k)"
  using assms
proof (induction ls arbitrary: "done" t m fs q)
  case Nil
  then show ?case
    by (subst repair_loop.simps) (auto split: sum.splits)
next
  case (Cons l ls)
  have cl: "consecutive (done @ [l])"
    using Cons.prems(1) consecutive_append1 [of "done @ [l]" ls] by simp
  then have id: "ID l \<noteq> 0" "done \<noteq> [] \<Longrightarrow> lastLogID done < ID l"
    using word_add_1_cases [of "lastLogID done"] by (auto simp: consecutive_snoc InvalidLogID_def)
  have dec: "decodeLogHead (os_ReadAt c) (length (data_bytes done)) =
      Inr (l\<lparr>Data := []\<rparr>, length (data_bytes (done @ [l])))"
    using Cons.prems(3) by simp
  obtain m1 fs1 q1 where w: "wf_Write (put_be32 (word_of_nat (length (data_bytes done)))) m fs = (Inr (), m1, fs1)"
      "wf_file fs1 m1 M (meta_bytes (done @ [l])) q1" "\<not> wf_mmap m1" "fs_err fs1 = None"
      "\<forall>k. k \<noteq> M \<longrightarrow> fs_files fs1 k = fs_files fs k"
    using wf_file_write [OF Cons.prems(5,7), of "put_be32 (word_of_nat (length (data_bytes done)))"]
      Cons.prems(6) unfolding meta_bytes_snoc by blast
  let ?u = "if tr_first t = 0 then t\<lparr>tr_first := ID l\<rparr> else t"
  let ?t = "?u\<lparr>tr_last := ID l, tr_lastTime := CreateTime l\<rparr>"
  have c0: "consecutive done"
    using consecutive_append1 Cons.prems(1) by blast
  have ft: "tr_first ?t = firstLogID (done @ [l])" "tr_last ?t = lastLogID (done @ [l])"
    using Cons.prems(8) firstLogID_zero [OF c0] by (simp_all add: firstLogID_append lastLogID_append)
  have "\<not> (tr_last t \<noteq> 0 \<and> ID l \<le> tr_last t)"
    using id(2) lastLogID_zero [OF c0] Cons.prems(9) by (metis not_le)
  then have step: "repair_loop c (length (data_bytes done)) t m fs =
      repair_loop c (length (data_bytes (done @ [l]))) ?t m1 fs1"
    using id(1) w(1) dec by (subst repair_loop.simps) (auto simp: Let_def)
  obtain m' q' fs' where "repair_loop c (length (data_bytes (done @ [l]))) ?t m1 fs1 =
      (Inr (length (data_bytes ((done @ [l]) @ ls))),
       ?t\<lparr>tr_first := firstLogID ((done @ [l]) @ ls), tr_last := lastLogID ((done @ [l]) @ ls),
         tr_lastTime := (if ls = [] then tr_lastTime ?t else CreateTime (last ls))\<rparr>, m', fs')"
      "wf_file fs' m' M (meta_bytes ((done @ [l]) @ ls)) q'" "fs_err fs' = None"
      "\<forall>k. k \<noteq> M \<longrightarrow> fs_files fs' k = fs_files fs1 k"
    using Cons.IH [of "done @ [l]", OF _ _ _ _ w(2,3,4) ft] Cons.prems(1-4) by auto
  with step w(5) show ?case
    by (cases "ls = []") (auto intro!: exI)
qed

text \<open>
  \<open>repair\<close> of a table whose data file \<open>c\<close> has the heads of the logs \<open>ls\<close>, followed by what is
  no log: the file is cut off or filled up with zeros to the end of the last log.
\<close>

lemma repair_logs:
  assumes ls: "ls \<noteq> []" "consecutive ls" "list_all Log_ok ls"
    and d: "fs_files fs (DataName (tr_index t)) = Some c" "heads_at c 0 ls"
      "os_Truncate c (length (data_bytes ls)) = data_bytes ls"
    and stop: "case decodeLogHead (os_ReadAt c) (length (data_bytes ls)) of
      Inl e \<Rightarrow> True | Inr (l, p) \<Rightarrow> ID l = 0"
    and e: "fs_err fs = None"
  shows "\<exists>fs'. repair t fs = (Inr (), reader_of (tr_index t) (tr_useMmap t) ls, fs') \<and>
    fs_files fs' (DataName (tr_index t)) = Some (data_bytes ls @ magic) \<and>
    fs_files fs' (MetaName (tr_index t)) = Some (meta_bytes ls) \<and> only_table (tr_index t) fs fs'"
proof -
  let ?D = "DataName (tr_index t)" and ?M = "MetaName (tr_index t)"
  let ?data = "\<lparr>wf_mmap = False, wf_name = ?D, wf_size = 0, wf_offset = 0\<rparr>"
  let ?meta = "\<lparr>wf_mmap = False, wf_name = ?M, wf_size = 0, wf_offset = 0\<rparr>"
  let ?fs1 = "set_file ?D c fs" and ?t = "t\<lparr>tr_first := 0, tr_last := 0\<rparr>"
  let ?fs2 = "set_file ?M (the_file ?fs1 ?M) ?fs1"
  have "wf_file ?fs2 ?meta ?M (meta_bytes []) (the_file ?fs1 ?M)"
    by (simp add: wf_file_def)
  then obtain m3 q3 fs3 where 3: "repair_loop c 0 ?t ?meta ?fs2 =
        (Inr (length (data_bytes ls)), reader_of (tr_index t) (tr_useMmap t) ls, m3, fs3)"
      "wf_file fs3 m3 ?M (meta_bytes ls) q3" "fs_err fs3 = None"
      "\<forall>k. k \<noteq> ?M \<longrightarrow> fs_files fs3 k = fs_files ?fs2 k"
    using repair_loop_logs [of "[]" ls c ?fs2 ?meta ?M "the_file ?fs1 ?M" ?t] ls stop e d(2)
    by (auto simp: reader_of_def firstLogID_def lastLogID_def InvalidLogID_def)
  let ?fs4 = "set_file ?M (meta_bytes ls) fs3"
  let ?n = "length (data_bytes ls)"
  let ?f = "data_bytes ls @ magic @ drop (?n + 20) c"
  let ?data' = "?data\<lparr>wf_offset := ?n + 20\<rparr>"
  have f4: "the_file ?fs4 ?D = c"
    using 3(4) by (simp add: the_file_def)
  have w: "wf_Write magic (wf_SetOffset ?n ?data) ?fs4 = (Inr (), ?data', set_file ?D ?f ?fs4)"
    using f4 3(3) d(3) by (simp add: wf_Write_def rawWriteFile_Write_def wf_SetOffset_def os_WriteAt_def)
  have cl: "wf_Close ?data' (set_file ?D ?f ?fs4) =
      (Inr (), set_file ?D (data_bytes ls @ magic) (set_file ?D ?f ?fs4))"
    using 3(3) os_Truncate_append [of "data_bytes ls @ magic"] by (simp add: wf_Close_def)
  have n: "newWriteFile False ?D 0 fs = (Inr ?data, ?fs1)"
    "newWriteFile False ?M (defaultLogNumInFile * 4) ?fs1 = (Inr ?meta, ?fs2)"
    using d e by (simp_all add: newWriteFile_def newRawWriteFile_def the_file_def)
  have "repair t fs = (Inr (), reader_of (tr_index t) (tr_useMmap t) ls,
      set_file ?D (data_bytes ls @ magic) (set_file ?D ?f ?fs4))"
    using n 3(1) wf_file_close [OF 3(2,3)] w cl by (simp add: repair_def)
  moreover have "only_table (tr_index t) fs (set_file ?D (data_bytes ls @ magic) (set_file ?D ?f ?fs4))"
    using 3(3,4) e by (simp add: only_table_def)
  ultimately show ?thesis
    by simp
qed

lemma newTableReader_closed:
  assumes "0 < i" "ls \<noteq> []" "consecutive ls" "pos_ok ls" "list_all Log_ok ls"
    and "fs_files fs (DataName i) = Some (data_bytes ls @ magic)"
    and "fs_files fs (MetaName i) = Some (meta_bytes ls)"
  shows "newTableReader i mm fs = (Inr (reader_of i mm ls), fs)"
  using assms tr_check_closed [of ls fs "\<lparr>tr_index = i, tr_first = 0, tr_last = 0, tr_lastTime = 0, tr_useMmap = mm\<rparr>"]
  by (simp add: newTableReader_def)

lemma newTableReader_unclosed:
  assumes "0 < i" and ls: "ls \<noteq> []" "consecutive ls" "pos_ok ls" "list_all Log_ok ls"
    and d: "fs_files fs (DataName i) = Some (data_bytes ls @ replicate k 0)"
    and m: "fs_files fs (MetaName i) = Some (meta_bytes ls @ replicate j 0)"
      "length (meta_bytes ls @ replicate j (0 :: byte)) < 2 ^ 64"
    and e: "fs_err fs = None"
  shows "\<exists>fs'. newTableReader i mm fs = (Inr (reader_of i mm ls), fs') \<and>
    tr_holds fs' (reader_of i mm ls) ls \<and> only_table i fs fs'"
proof -
  let ?t = "\<lparr>tr_index = i, tr_first = 0, tr_last = 0, tr_lastTime = 0, tr_useMmap = mm\<rparr>"
  obtain x t' where t': "tr_check ?t fs = (Inl x, t')" "tr_index t' = i" "tr_useMmap t' = mm"
    using tr_check_unclosed [OF ls(1,3,4), of fs ?t k j] d m by auto
  obtain fs' where "repair t' fs = (Inr (), reader_of i mm ls, fs')"
      "fs_files fs' (DataName i) = Some (data_bytes ls @ magic)"
      "fs_files fs' (MetaName i) = Some (meta_bytes ls)" "only_table i fs fs'"
    using repair_logs [OF ls(1,2,4), of fs t' "data_bytes ls @ replicate k 0"] d e t'(2,3)
      decodeLogHead_zeros heads_at_data [OF ls(4), of "[]"] os_Truncate_append [of "data_bytes ls"] by auto
  with assms(1) t'(1) ls show ?thesis
    by (simp add: newTableReader_def tr_holds_def reader_of_def)
qed

section \<open>A record that was not written completely\<close>

text \<open>
  The head of the last record is on the disk and its data only in part: \<open>torn n l\<close> is the log
  the repair makes of the first \<open>n\<close> bytes of \<open>l\<close>.
\<close>

definition torn :: "nat \<Rightarrow> Log \<Rightarrow> Log" where
  "torn n l = l\<lparr>Data := take (n - LogHeadSize) (Data l) @ replicate (Log_Size l - n) 0\<rparr>"

lemma torn_size: "LogHeadSize \<le> n \<Longrightarrow> n < Log_Size l \<Longrightarrow> length (Data (torn n l)) = length (Data l)"
  by (simp add: torn_def Log_Size_def)

lemma torn_Encode:
  assumes "LogHeadSize \<le> n" and "n < Log_Size l"
  shows "Encode (torn n l) = take n (Encode l) @ replicate (Log_Size l - n) 0"
proof -
  have "take n (Encode l) = take LogHeadSize (Encode l) @ take (n - LogHeadSize) (Data l)"
    using assms by (subst Encode_split [symmetric]) (simp add: Log_Size_def del: take_append add: take_append)
  moreover have "take LogHeadSize (Encode (torn n l)) = take LogHeadSize (Encode l)"
    using torn_size [OF assms] by (simp add: Encode_def LogHeadSize_def) (simp add: torn_def)
  ultimately show ?thesis
    by (subst Encode_split [symmetric]) (simp add: torn_def)
qed

lemma tr_check_torn:
  assumes "pos_ok ls" "list_all Log_ok ls" "take n (Encode l) \<noteq> magic"
    and d: "fs_files fs (DataName (tr_index t)) = Some (data_bytes ls @ take n (Encode l))"
    and m: "fs_files fs (MetaName (tr_index t)) = Some (meta_bytes ls)"
    and n: "n < Log_Size l"
  shows "\<exists>e t'. tr_check t fs = (Inl e, t') \<and> tr_index t' = tr_index t \<and> tr_useMmap t' = tr_useMmap t"
proof -
  let ?c = "data_bytes ls @ take n (Encode l)"
  have no: False if s: "tr_check t fs = (Inr (), t')" for t'
  proof -
    obtain ms mra ds dra l' n' where c: "checkMeta t fs = Inr (ms, mra)" "checkData t fs = Inr (ds, dra)"
        "decodeLogHead dra (unat (case getLogPos mra (int (ms div 4) - 1) of Inl e \<Rightarrow> 0 | Inr p \<Rightarrow> p)) = Inr (l', n')"
        "n' + 20 = ds"
      using tr_check_ok [OF s] by blast
    obtain e where e: "?c = e @ magic" "ds = length ?c" "dra = os_ReadAt ?c"
      using checkData_magic [OF c(2)] d by auto
    have mm: "ms = length (meta_bytes ls)" "mra = os_ReadAt (meta_bytes ls)"
      using checkMeta_ok [OF c(1) m] by blast+
    have ne: "ls \<noteq> []"
      using c(1) m by (auto simp: checkMeta_def newReadFile_def)
    have "decodeLogHead dra (length (data_bytes (butlast ls))) = Inr ((last ls)\<lparr>Data := []\<rparr>, length (data_bytes ls))"
      using decodeLogHead_reads [of dra "data_bytes (butlast ls)" "last ls" "[]"] last_data [OF ne] assms(2) ne
        reads_at_prefix [OF reads_at_os, of "data_bytes ls" "take n (Encode l)"]
      by (simp add: e(3) list_all_iff)
    moreover have "unat (word_of_nat (length (data_bytes (butlast ls))) :: u32) = length (data_bytes (butlast ls))"
      using pos_unat [OF assms(1), of "length ls - 1"] ne by (simp add: butlast_conv_take)
    ultimately have "length (data_bytes ls) + 20 = length ?c"
      using c(3,4) last_pos [of mra ls] mm ne e(2) by simp
    then have "take n (Encode l) = magic"
      using e(1) by (simp add: append_eq_append_conv)
    with assms(3) show False ..
  qed
  obtain x t' where x: "tr_check t fs = (x, t')"
    by fastforce
  show ?thesis
  proof (cases x)
    case (Inl e)
    with x tr_check_keeps [OF x] show ?thesis by blast
  next
    case (Inr u)
    with x no show ?thesis by simp
  qed
qed

lemma torn_heads:
  assumes "list_all Log_ok (ls @ [l])" and n: "LogHeadSize \<le> n" "n < Log_Size l"
  shows "heads_at (data_bytes ls @ take n (Encode l)) 0 (ls @ [torn n l])"
proof -
  let ?c = "data_bytes ls @ take n (Encode l)"
  have "take LogHeadSize (take n (Encode l)) = take LogHeadSize (Encode l @ [])"
    using n by (simp add: min_def)
  then have "os_ReadAt ?c LogHeadSize (int (length (data_bytes ls))) = (take LogHeadSize (Encode l @ []), None)"
    using n by (simp add: os_ReadAt_def Log_Size_def)
  then have "DecodeHeadAt (os_ReadAt ?c) (int (length (data_bytes ls))) = Inr (l\<lparr>Data := []\<rparr>, word_of_nat (length (Data l)))"
    using decodeHeadBuf_Encode [of l "[]"] by (simp add: DecodeHeadAt_def)
  then have "decodeLogHead (os_ReadAt ?c) (length (data_bytes ls)) =
      Inr ((torn n l)\<lparr>Data := []\<rparr>, length (data_bytes ls) + Log_Size (torn n l))"
    using assms(1) torn_size [OF n]
    by (simp add: decodeLogHead_def Log_ok_def unat_length32 Log_Size_def) (simp add: torn_def)
  with heads_at_data [of ls "[]" "take n (Encode l)"] assms(1) show ?thesis
    by (simp add: heads_at_append)
qed

lemma newTableReader_torn:
  assumes "0 < i" and ls: "consecutive (ls @ [l])" "pos_ok (ls @ [l])" "list_all Log_ok (ls @ [l])"
    and n: "LogHeadSize \<le> n" "n < Log_Size l" "take n (Encode l) \<noteq> magic"
    and f: "fs_files fs (DataName i) = Some (data_bytes ls @ take n (Encode l))"
      "fs_files fs (MetaName i) = Some (meta_bytes ls)" "fs_err fs = None"
  shows "\<exists>fs'. newTableReader i mm fs = (Inr (reader_of i mm (ls @ [torn n l])), fs') \<and>
    tr_holds fs' (reader_of i mm (ls @ [torn n l])) (ls @ [torn n l])"
proof -
  let ?t = "\<lparr>tr_index = i, tr_first = 0, tr_last = 0, tr_lastTime = 0, tr_useMmap = mm\<rparr>"
  let ?c = "data_bytes ls @ take n (Encode l)" and ?ls = "ls @ [torn n l]"
  have id: "ID (torn n l) = ID l" and ok: "Log_ok (torn n l)" and sz: "Log_Size (torn n l) = Log_Size l"
    using torn_size [OF n(1,2)] ls(3) by (simp_all add: Log_ok_def Log_Size_def) (simp add: torn_def)
  have c: "consecutive ?ls" "list_all Log_ok ?ls" "pos_ok ?ls"
    using ls id ok by (simp_all add: consecutive_snoc)
  obtain x t' where t': "tr_check ?t fs = (Inl x, t')" "tr_index t' = i" "tr_useMmap t' = mm"
    using tr_check_torn [of ls n l fs ?t] ls n f by auto
  have len: "length (data_bytes ?ls) = length ?c + (Log_Size l - n)"
    using n sz by simp
  have "os_Truncate ?c (length (data_bytes ?ls)) = data_bytes ?ls"
    using torn_Encode [OF n(1,2)] n sz by (simp add: os_Truncate_def)
  moreover have "decodeLogHead (os_ReadAt ?c) (length (data_bytes ?ls)) = Inl ErrEOF"
    unfolding len by (simp add: decodeLogHead_def DecodeHeadAt_def os_ReadAt_def LogHeadSize_def
        split: prod.split)
  ultimately obtain fs' where "repair t' fs = (Inr (), reader_of i mm ?ls, fs')"
      "fs_files fs' (DataName i) = Some (data_bytes ?ls @ magic)"
      "fs_files fs' (MetaName i) = Some (meta_bytes ?ls)"
    using repair_logs [of ?ls fs t' ?c] c f t'(2,3) torn_heads [OF ls(3) n(1,2)] by auto
  with assms(1) t'(1) c show ?thesis
    by (simp add: newTableReader_def tr_holds_def reader_of_def)
qed

end
