(* ===== verification/Rpl_FileStore.thy ===== *)
theory Rpl_FileStore
  imports Rpl_FileRepair
begin

text \<open>
  The log store on files (\<open>rpl/file_store.go\<close>), the default one: flushed tables with a reader
  each, ordered by id, and the table being written. Locks, the closing of readers that are not
  used, and the write-through of the writer (\<open>syncType\<close>) have no effect on the logs and are
  left out.
\<close>

definition defaultMaxLogFileSize :: nat where "defaultMaxLogFileSize = 256 * 1024 * 1024"
definition maxLogFileSize :: nat where "maxLogFileSize = 1024 * 1024 * 1024"

record FileStore =
  fst_fs :: filesys
  fst_rs :: "tableReader list"
  fst_w :: tableWriter
  MaxLogFileSize :: nat
  UseMmap :: bool
  MaxLogFileNum :: nat

section \<open>Tables in order of ids\<close>

function Search_loop :: "tableReader list \<Rightarrow> u64 \<Rightarrow> int \<Rightarrow> int \<Rightarrow> tableReader option" where
  "Search_loop ts i lo hi =
     (if lo \<le> hi
      then
        let h = lo + (hi - lo) div 2; t = ts ! nat h in
        if tr_first t \<le> i \<and> i \<le> tr_last t then Some t
        else if tr_last t < i then Search_loop ts i (h + 1) hi
        else Search_loop ts i lo (h - 1)
      else None)"
  by pat_completeness auto
termination
  by (relation "measure (\<lambda>(ts, i, lo, hi). nat (hi - lo + 1))") auto

declare Search_loop.simps [simp del]

definition Search :: "tableReader list \<Rightarrow> u64 \<Rightarrow> tableReader option" where
  "Search ts i = Search_loop ts i 0 (int (length ts) - 1)"

fun check_tables :: "u64 \<Rightarrow> nat \<Rightarrow> tableReader list \<Rightarrow> unit res" where
  "check_tables lst idx [] = Inr ()"
| "check_tables lst idx (t # ts) =
     (if tr_first t \<le> lst then Inl (ErrOther ''invalid first log id'')
      else if tr_index t \<le> idx then Inl (ErrOther ''invalid index'')
      else check_tables (tr_last t) (tr_index t) ts)"

text \<open>
  \<open>sort.Sort\<close> need not keep the order of tables with the same first id, but then one of
  them begins inside the other and the check fails whichever comes first.
\<close>

definition rs_check :: "tableReader list \<Rightarrow> tableReader list res" where
  "rs_check ts =
     (case sort_key tr_first ts of
        [] \<Rightarrow> Inr []
      | t # us \<Rightarrow>
          if tr_first t = 0 \<or> tr_last t < tr_first t then Inl (ErrOther ''invalid log in table'')
          else case check_tables (tr_last t) (tr_index t) us of Inl e \<Rightarrow> Inl e | Inr u \<Rightarrow> Inr (t # us))"

section \<open>Opening\<close>

text \<open>
  The names \<open>ReadDir\<close> lists in order and \<open>Sscanf\<close> accepts as data files: their index has
  eight digits.
\<close>

definition data_indices :: "filesys \<Rightarrow> nat list" where
  "data_indices fs =
     sort (remdups (List.map_filter
       (\<lambda>(n, c). case n of DataName i \<Rightarrow> if i < 10 ^ 8 then Some i else None | MetaName i \<Rightarrow> None) (fs_dir fs)))"

fun load_loop :: "bool \<Rightarrow> nat list \<Rightarrow> filesys \<Rightarrow> tableReader list \<times> filesys" where
  "load_loop mm [] fs = ([], fs)"
| "load_loop mm (i # is) fs =
     (case newTableReader i mm fs of
        (Inl e, fs) \<Rightarrow> load_loop mm is fs
      | (Inr r, fs) \<Rightarrow> (case load_loop mm is fs of (rs, fs) \<Rightarrow> (r # rs, fs)))"

definition load :: "bool \<Rightarrow> filesys \<Rightarrow> tableReader list res \<times> filesys" where
  "load mm fs = (case load_loop mm (data_indices fs) fs of (rs, fs) \<Rightarrow> (rs_check rs, fs))"

definition NewFileStore :: "nat \<Rightarrow> bool \<Rightarrow> nat \<Rightarrow> filesys \<Rightarrow> FileStore res \<times> filesys" where
  "NewFileStore maxSize mm maxNum fs =
     (let maxSize = min (if maxSize = 0 then defaultMaxLogFileSize else maxSize) maxLogFileSize in
      case load mm fs of
        (Inl e, fs) \<Rightarrow> (Inl e, fs)
      | (Inr rs, fs) \<Rightarrow>
          let i = (if rs = [] then 1 else tr_index (last rs) + 1) in
          (Inr \<lparr>fst_fs = fs, fst_rs = rs, fst_w = newTableWriter i maxSize mm,
             MaxLogFileSize = maxSize, UseMmap = mm, MaxLogFileNum = maxNum\<rparr>, fs))"

section \<open>Reading and writing\<close>

definition fst_GetLog :: "u64 \<Rightarrow> FileStore \<Rightarrow> Log res" where
  "fst_GetLog i s =
     (case tw_GetLog i (fst_w s) (fst_fs s) of
        Inr l \<Rightarrow> Inr l
      | Inl e \<Rightarrow>
          if e \<noteq> ErrLogNotFound then Inl e
          else case Search (fst_rs s) i of
            None \<Rightarrow> Inl ErrLogNotFound
          | Some t \<Rightarrow> tr_GetLog i t (fst_fs s))"

definition fst_FirstID :: "FileStore \<Rightarrow> u64 res" where
  "fst_FirstID s =
     (let i = (if fst_rs s \<noteq> [] then tr_first (hd (fst_rs s)) else 0) in
      if 0 < i then Inr i else Inr (tw_first (fst_w s)))"

definition fst_LastID :: "FileStore \<Rightarrow> u64 res" where
  "fst_LastID s =
     (let i = tw_last (fst_w s) in
      if 0 < i then Inr i else Inr (if fst_rs s \<noteq> [] then tr_last (last (fst_rs s)) else i))"

definition fst_storeLog :: "Log \<Rightarrow> FileStore \<Rightarrow> unit res \<times> FileStore" where
  "fst_storeLog l s =
     (case tw_storeLog l (fst_w s) (fst_fs s) of
        (Inr u, w, fs) \<Rightarrow> (Inr (), s\<lparr>fst_w := w, fst_fs := fs\<rparr>)
      | (Inl e, w, fs) \<Rightarrow>
          if e \<noteq> ErrTableNeedFlush then (Inl e, s\<lparr>fst_w := w, fst_fs := fs\<rparr>)
          else
            (case tw_Flush w fs of
               (Inl e, w, fs) \<Rightarrow>
                 (case tw_Close w fs of (w, fs) \<Rightarrow> (Inl e, s\<lparr>fst_w := w, fst_fs := fs\<rparr>))
             | (Inr r, w, fs) \<Rightarrow>
                 (case tw_storeLog l w fs of
                    (x, w, fs) \<Rightarrow>
                      (x, s\<lparr>fst_rs := fst_rs s @ [r], fst_w := w, fst_fs := fs\<rparr>))))"

section \<open>Purging, clearing and closing\<close>

definition purgeTableReaders :: "tableReader list \<Rightarrow> filesys \<Rightarrow> filesys" where
  "purgeTableReaders ts fs =
     fold (\<lambda>r fs. os_Remove (MetaName (tr_index r)) (os_Remove (DataName (tr_index r)) fs)) ts fs"

definition fst_PurgeExpired :: "i64 \<Rightarrow> i64 \<Rightarrow> FileStore \<Rightarrow> unit res \<times> FileStore" where
  "fst_PurgeExpired now n s =
     (let t = ucast (now - n) :: u32; keep = dropWhile (\<lambda>r. \<not> t < tr_lastTime r) (fst_rs s) in
      (Inr (),
       if keep = [] then s
       else s\<lparr>fst_rs := keep,
              fst_fs := purgeTableReaders (takeWhile (\<lambda>r. \<not> t < tr_lastTime r) (fst_rs s)) (fst_fs s)\<rparr>))"

text \<open>One tick of \<open>checkTableReaders\<close>: no more than \<open>MaxLogFileNum\<close> flushed tables are kept.\<close>

definition checkTableReaders :: "FileStore \<Rightarrow> FileStore" where
  "checkTableReaders s =
     (let k = length (fst_rs s) - MaxLogFileNum s in
      s\<lparr>fst_rs := drop k (fst_rs s), fst_fs := purgeTableReaders (take k (fst_rs s)) (fst_fs s)\<rparr>)"

definition fst_Clear :: "FileStore \<Rightarrow> unit res \<times> FileStore" where
  "fst_Clear s =
     (case tw_Close (fst_w s) (fst_fs s) of
        (w, fs) \<Rightarrow>
          let s = s\<lparr>fst_w := w, fst_fs := fs, fst_rs := []\<rparr> in
          case fs_err fs of
            Some e \<Rightarrow> (Inl e, s)
          | None \<Rightarrow>
              (Inr (), s\<lparr>fst_fs := fs\<lparr>fs_dir := []\<rparr>,
                 fst_w := newTableWriter 1 (MaxLogFileSize s) (UseMmap s)\<rparr>))"

definition fst_Close :: "FileStore \<Rightarrow> FileStore" where
  "fst_Close s =
     (case tw_Flush (fst_w s) (fst_fs s) of
        (Inl e, w, fs) \<Rightarrow> s\<lparr>fst_w := w, fst_fs := fs, fst_rs := []\<rparr>
      | (Inr r, w, fs) \<Rightarrow>
          (case tw_Close w fs of (w, fs) \<Rightarrow> s\<lparr>fst_w := w, fst_fs := fs, fst_rs := []\<rparr>))"

end
