(* ===== verification/Rpl_FileStore_Laws.thy ===== *)
theory Rpl_FileStore_Laws
  imports Rpl_FileStore
begin

text \<open>
  The log store on files keeps the contract of a log store, survives closing and reopening
  and recovers from a crash. \<open>fst_rel s lss ls\<close>: the flushed tables hold the logs \<open>lss\<close>, one
  list per table, and the writer holds \<open>ls\<close>.
\<close>

section \<open>Binary search\<close>

definition covers :: "u64 \<Rightarrow> tableReader \<Rightarrow> bool" where
  "covers i t \<longleftrightarrow> tr_first t \<le> i \<and> i \<le> tr_last t"

definition tables_sorted :: "tableReader list \<Rightarrow> bool" where
  "tables_sorted ts \<longleftrightarrow> list_all (\<lambda>t. tr_first t \<le> tr_last t) ts \<and>
     sorted_wrt (\<lambda>t u. tr_last t < tr_first u) ts"

lemma tables_sorted_nth:
  "tables_sorted ts \<Longrightarrow> a < b \<Longrightarrow> b < length ts \<Longrightarrow> tr_last (ts ! a) < tr_first (ts ! b)"
  "tables_sorted ts \<Longrightarrow> a < length ts \<Longrightarrow> tr_first (ts ! a) \<le> tr_last (ts ! a)"
  by (auto simp: tables_sorted_def sorted_wrt_iff_nth_less list_all_length)

lemma not_covered:
  "tables_sorted ts \<Longrightarrow> n < length ts \<Longrightarrow> tr_last (ts ! n) < i \<Longrightarrow> k \<le> n \<Longrightarrow> \<not> covers i (ts ! k)"
  "tables_sorted ts \<Longrightarrow> k < length ts \<Longrightarrow> i < tr_first (ts ! n) \<Longrightarrow> n \<le> k \<Longrightarrow> \<not> covers i (ts ! k)"
  using tables_sorted_nth(1) [of ts k n] tables_sorted_nth(1) [of ts n k]
    tables_sorted_nth(2) [of ts n]
  by (auto simp: covers_def le_less)

lemma Search_loop_correct:
  assumes "tables_sorted ts" "0 \<le> lo" "hi < int (length ts)"
  shows "case Search_loop ts i lo hi of
      Some t \<Rightarrow> t \<in> set ts \<and> covers i t
    | None \<Rightarrow> \<forall>k. lo \<le> int k \<longrightarrow> int k \<le> hi \<longrightarrow> \<not> covers i (ts ! k)"
  using assms
proof (induction ts i lo hi rule: Search_loop.induct)
  case (1 ts i lo hi)
  let ?h = "lo + (hi - lo) div 2"
  let ?t = "ts ! nat ?h"
  show ?case
  proof (cases "lo \<le> hi")
    case False
    then show ?thesis by (subst Search_loop.simps) auto
  next
    case le: True
    have h: "lo \<le> ?h" "?h \<le> hi" "nat ?h < length ts"
      using le 1(4,5) by auto
    have below: "\<not> covers i (ts ! k)" if "tr_last ?t < i" "int k \<le> ?h" for k
      using that(2) by (intro not_covered(1) [OF 1(3) h(3) that(1)]) linarith
    have above: "\<not> covers i (ts ! k)" if "i < tr_first ?t" "?h \<le> int k" "int k \<le> hi" for k
    proof -
      have "k < length ts" "nat ?h \<le> k"
        using that(2,3) 1(5) by linarith+
      with not_covered(2) [OF 1(3) _ that(1)] show ?thesis by blast
    qed
    consider "covers i ?t" | "\<not> covers i ?t" "tr_last ?t < i" | "\<not> covers i ?t" "\<not> tr_last ?t < i" "i < tr_first ?t"
      unfolding covers_def by (metis not_less)
    then show ?thesis
    proof cases
      case 1
      with le h show ?thesis
        by (subst Search_loop.simps) (simp add: covers_def Let_def)
    next
      case 2
      then have "Search_loop ts i lo hi = Search_loop ts i (?h + 1) hi"
        using le by (subst Search_loop.simps) (auto simp: covers_def Let_def)
      moreover have "case Search_loop ts i (?h + 1) hi of
          Some t \<Rightarrow> t \<in> set ts \<and> covers i t
        | None \<Rightarrow> \<forall>k. ?h + 1 \<le> int k \<longrightarrow> int k \<le> hi \<longrightarrow> \<not> covers i (ts ! k)"
        using 2 le h 1(3-5) by (intro "1.IH"(1) [OF le refl refl]) (auto simp: covers_def)
      ultimately show ?thesis
        using below [OF 2(2)] by (auto split: option.splits) (meson not_le zless_imp_add1_zle)
    next
      case 3
      then have "Search_loop ts i lo hi = Search_loop ts i lo (?h - 1)"
        using le by (subst Search_loop.simps) (auto simp: covers_def Let_def)
      moreover have "case Search_loop ts i lo (?h - 1) of
          Some t \<Rightarrow> t \<in> set ts \<and> covers i t
        | None \<Rightarrow> \<forall>k. lo \<le> int k \<longrightarrow> int k \<le> ?h - 1 \<longrightarrow> \<not> covers i (ts ! k)"
        using 3 le h 1(3-5) by (intro "1.IH"(2) [OF le refl refl]) (auto simp: covers_def)
      moreover have "\<not> covers i (ts ! k)" if "\<not> int k \<le> ?h - 1" "int k \<le> hi" for k
        using above [OF 3(3), of k] that by linarith
      ultimately show ?thesis
        by (auto split: option.splits)
    qed
  qed
qed

lemma Search_correct:
  assumes "tables_sorted ts"
  shows "case Search ts i of Some t \<Rightarrow> t \<in> set ts \<and> covers i t | None \<Rightarrow> \<forall>t\<in>set ts. \<not> covers i t"
proof -
  have "\<forall>t\<in>set ts. \<not> covers i t" if "\<forall>k. 0 \<le> int k \<longrightarrow> int k \<le> int (length ts) - 1 \<longrightarrow> \<not> covers i (ts ! k)"
    using that by (force simp: in_set_conv_nth)
  with Search_loop_correct [OF assms, of 0 "int (length ts) - 1" i] show ?thesis
    unfolding Search_def by (auto split: option.splits)
qed

section \<open>The logs of a store\<close>

definition ids :: "u64 \<Rightarrow> u64 \<Rightarrow> u64 list" where
  "ids a b = (if b = InvalidLogID then [] else map word_of_nat [unat a ..< Suc (unat b)])"

definition got :: "Log res \<Rightarrow> Log" where
  "got x = (case x of Inr l \<Rightarrow> l)"

definition tr_logs :: "filesys \<Rightarrow> tableReader \<Rightarrow> Log list" where
  "tr_logs fs t = map (\<lambda>i. got (tr_GetLog i t fs)) (ids (tr_first t) (tr_last t))"

definition tw_logs :: "filesys \<Rightarrow> tableWriter \<Rightarrow> Log list" where
  "tw_logs fs t = map (\<lambda>i. got (tw_GetLog i t fs)) (ids (tw_first t) (tw_last t))"

definition fst_logs :: "FileStore \<Rightarrow> Log list" where
  "fst_logs s = concat (map (tr_logs (fst_fs s)) (fst_rs s)) @ tw_logs (fst_fs s) (fst_w s)"

definition fst_rel :: "FileStore \<Rightarrow> Log list list \<Rightarrow> Log list \<Rightarrow> bool" where
  "fst_rel s lss ls \<longleftrightarrow> list_all2 (tr_holds (fst_fs s)) (fst_rs s) lss \<and> tw_holds (fst_fs s) (fst_w s) ls \<and>
     consecutive (concat lss @ ls) \<and> list_all Log_ok (concat lss @ ls) \<and>
     tw_maxLogSize (fst_w s) \<le> maxLogFileSize \<and> MaxLogFileSize s \<le> maxLogFileSize \<and>
     sorted_wrt (<) (map tr_index (fst_rs s)) \<and>
     list_all (\<lambda>r. 0 < tr_index r \<and> tr_index r < tw_index (fst_w s)) (fst_rs s) \<and>
     0 < tw_index (fst_w s) \<and>
     (\<forall>j. j \<notin> tr_index ` set (fst_rs s) \<longrightarrow> (j = tw_index (fst_w s) \<longrightarrow> ls = []) \<longrightarrow> fresh (fst_fs s) j)"

definition fst_inv :: "FileStore \<Rightarrow> bool" where
  "fst_inv s \<longleftrightarrow> (\<exists>lss ls. fst_rel s lss ls)"

definition fst_healthy :: "FileStore \<Rightarrow> bool" where
  "fst_healthy s \<longleftrightarrow> fs_err (fst_fs s) = None"

definition fst_may_store :: "FileStore \<Rightarrow> u64 \<Rightarrow> bool" where
  "fst_may_store s i \<longleftrightarrow> fst_logs s = [] \<or> i = lastLogID (fst_logs s) + 1"

lemma ids_consecutive:
  assumes "consecutive ls"
  shows "map (\<lambda>i. got (get_result (findLog i ls))) (ids (firstLogID ls) (lastLogID ls)) = ls"
proof (cases "ls = []")
  case True
  then show ?thesis by (simp add: ids_def lastLogID_def)
next
  case ne: False
  have l: "Suc (unat (lastLogID ls)) = unat (firstLogID ls) + length ls"
    using consecutive_last [OF assms ne] ne by (cases ls) auto
  have z: "lastLogID ls \<noteq> InvalidLogID"
    using lastLogID_zero [OF assms] ne by (simp add: InvalidLogID_def)
  show ?thesis
  proof (rule nth_equalityI)
    show "length (map (\<lambda>i. got (get_result (findLog i ls))) (ids (firstLogID ls) (lastLogID ls))) = length ls"
      using z l by (simp add: ids_def del: upt_Suc)
    fix k
    assume "k < length (map (\<lambda>i. got (get_result (findLog i ls))) (ids (firstLogID ls) (lastLogID ls)))"
    then have k: "k < length ls"
      using z l by (simp add: ids_def del: upt_Suc)
    have "ids (firstLogID ls) (lastLogID ls) ! k = ID (ls ! k)"
      using z l k consecutive_nth [OF assms k, symmetric] by (simp add: ids_def del: upt_Suc)
    moreover have "findLog (ID (ls ! k)) ls = Some (ls ! k)"
      using findLog_mem [OF assms, of "ls ! k"] k by simp
    ultimately show "map (\<lambda>i. got (get_result (findLog i ls))) (ids (firstLogID ls) (lastLogID ls)) ! k = ls ! k"
      using z l k by (simp add: ids_def got_def get_result_def del: upt_Suc)
  qed
qed

lemma ids_nonzero:
  assumes "a \<noteq> InvalidLogID" and "i \<in> set (ids a b)"
  shows "i \<noteq> InvalidLogID"
proof -
  obtain x where x: "i = word_of_nat x" "unat a \<le> x" "x \<le> unat b"
    using assms(2) by (auto simp: ids_def less_Suc_eq_le simp del: upt_Suc split: if_splits)
  have "unat i = x"
    using x(1) le_less_trans [OF x(3) unsigned_less] by (simp add: unsigned_of_nat take_bit_nat_eq_self)
  with x(2) assms(1) show ?thesis
    by (auto simp: InvalidLogID_def unat_eq_0)
qed

lemma tr_logs_holds:
  assumes "tr_holds fs t ls" and "list_all Log_ok ls"
  shows "tr_logs fs t = ls"
proof -
  have "consecutive ls" "tr_first t = firstLogID ls" "tr_last t = lastLogID ls"
    using assms(1) by (simp_all add: tr_holds_def)
  with ids_consecutive [of ls] show ?thesis
    by (simp add: tr_logs_def tr_GetLog_holds [OF assms])
qed

lemma tw_logs_holds:
  assumes "tw_holds fs t ls" and "list_all Log_ok ls"
  shows "tw_logs fs t = ls"
proof (cases "ls = []")
  case True
  with assms(1) show ?thesis by (simp add: tw_logs_def tw_holds_def ids_def lastLogID_def)
next
  case False
  then have "firstLogID ls \<noteq> InvalidLogID"
    using assms(1) firstLogID_zero [of ls] by (simp add: tw_holds_def InvalidLogID_def)
  then have "map (\<lambda>i. got (tw_GetLog i t fs)) (ids (firstLogID ls) (lastLogID ls)) =
      map (\<lambda>i. got (get_result (findLog i ls))) (ids (firstLogID ls) (lastLogID ls))"
    using assms by (intro map_cong) (auto simp: tw_GetLog_holds ids_nonzero)
  with ids_consecutive [of ls] assms(1) show ?thesis
    by (simp add: tw_logs_def tw_holds_def)
qed

lemma tr_logs_all:
  "list_all2 (tr_holds fs) rs lss \<Longrightarrow> list_all Log_ok (concat lss) \<Longrightarrow> map (tr_logs fs) rs = lss"
  by (induction rs lss rule: list_all2_induct) (auto simp: tr_logs_holds)

lemma fst_logs_rel: "fst_rel s lss ls \<Longrightarrow> fst_logs s = concat lss @ ls"
  using tr_logs_all [of "fst_fs s" "fst_rs s" lss] tw_logs_holds [of "fst_fs s" "fst_w s" ls]
  unfolding fst_rel_def fst_logs_def by auto

section \<open>Reading\<close>

lemma concat_ids_less:
  "sorted_wrt (<) (map ID (concat lss)) \<Longrightarrow> a < b \<Longrightarrow> b < length lss \<Longrightarrow>
     x \<in> set (lss ! a) \<Longrightarrow> y \<in> set (lss ! b) \<Longrightarrow> ID x < ID y"
proof (induction lss arbitrary: a b)
  case (Cons ls lss)
  then show ?case
    by (cases a; cases b) (auto simp: sorted_wrt_append dest: nth_mem)
qed simp

lemma tables_sorted_holds:
  assumes t: "list_all2 (tr_holds fs) rs lss" and "consecutive (concat lss)"
  shows "tables_sorted rs"
proof -
  have h: "length rs = length lss" "\<And>k. k < length lss \<Longrightarrow> tr_holds fs (rs ! k) (lss ! k)"
    using t by (auto simp: list_all2_conv_all_nth)
  have "tr_first (rs ! k) \<le> tr_last (rs ! k)" if "k < length lss" for k
    using h(2) [OF that] consecutive_span [of "lss ! k"] by (auto simp: tr_holds_def)
  moreover have "tr_last (rs ! a) < tr_first (rs ! b)" if "a < b" "b < length lss" for a b
    using h(2) [of a] h(2) [of b] that
      concat_ids_less [OF consecutive_sorted [OF assms(2)] that, of "last (lss ! a)" "hd (lss ! b)"]
    by (auto simp: tr_holds_def lastLogID_def firstLogID_def)
  ultimately show ?thesis
    using h(1) by (auto simp: tables_sorted_def list_all_length sorted_wrt_iff_nth_less)
qed

lemma fst_rel_sorted: "fst_rel s lss ls \<Longrightarrow> tables_sorted (fst_rs s)"
  using tables_sorted_holds consecutive_append1 unfolding fst_rel_def by blast

lemma findLog_None: "findLog i ls = None \<longleftrightarrow> (\<forall>l\<in>set ls. ID l \<noteq> i)"
  by (auto simp: findLog_def find_None_iff)

lemma findLog_mem_iff: "consecutive ls \<Longrightarrow> findLog i ls = Some l \<longleftrightarrow> l \<in> set ls \<and> ID l = i"
  using findLog_mem by (auto simp: findLog_def find_Some_iff)

lemma fst_GetLog_rel:
  assumes r: "fst_rel s lss ls" and i: "i \<noteq> InvalidLogID"
  shows "fst_GetLog i s = get_result (findLog i (concat lss @ ls))"
proof -
  have c: "consecutive (concat lss @ ls)" and ok: "list_all Log_ok (concat lss @ ls)"
    and w: "tw_holds (fst_fs s) (fst_w s) ls" and t: "list_all2 (tr_holds (fst_fs s)) (fst_rs s) lss"
    using r by (simp_all add: fst_rel_def)
  have tw: "tw_GetLog i (fst_w s) (fst_fs s) = get_result (findLog i ls)"
    using tw_GetLog_holds [OF w _ i] ok by simp
  show ?thesis
  proof (cases "findLog i ls")
    case (Some l)
    then have "findLog i (concat lss @ ls) = Some l"
      using findLog_mem_iff [OF c] findLog_mem_iff [OF consecutive_append2 [OF c]] by simp
    with Some tw show ?thesis by (simp add: fst_GetLog_def get_result_def)
  next
    case None
    then have f: "fst_GetLog i s = (case Search (fst_rs s) i of
        None \<Rightarrow> Inl ErrLogNotFound | Some t \<Rightarrow> tr_GetLog i t (fst_fs s))"
      using tw by (simp add: fst_GetLog_def get_result_def)
    note S = Search_correct [OF fst_rel_sorted [OF r], of i]
    show ?thesis
    proof (cases "Search (fst_rs s) i")
      case (Some t')
      then obtain k where k: "k < length lss" "tr_holds (fst_fs s) t' (lss ! k)" "covers i t'"
        using S t by (auto simp: list_all2_conv_all_nth in_set_conv_nth)
      have ok': "list_all Log_ok (lss ! k)"
        using ok nth_mem [OF k(1)] by (auto simp: list_all_iff)
      have ck: "consecutive (lss ! k)" "lss ! k \<noteq> []"
        using k(2) by (simp_all add: tr_holds_def)
      obtain l where l: "findLog i (lss ! k) = Some l"
        using findLog_in_range [OF ck, of i] k(2,3) by (auto simp: covers_def tr_holds_def)
      then have "l \<in> set (concat lss @ ls)" "ID l = i"
        using findLog_mem_iff [OF ck(1)] k(1) by auto
      then have "findLog i (concat lss @ ls) = Some l"
        using findLog_mem_iff [OF c] by simp
      with l Some f tr_GetLog_holds [OF k(2) ok'] show ?thesis
        by simp
    next
      case no: None
      have "ID l \<noteq> i" if "l \<in> set (lss ! k)" "k < length lss" for l k
      proof -
        have h: "tr_holds (fst_fs s) (fst_rs s ! k) (lss ! k)" "fst_rs s ! k \<in> set (fst_rs s)"
          using t that(2) by (auto simp: list_all2_conv_all_nth)
        with S no have "\<not> covers i (fst_rs s ! k)" by simp
        then have "findLog i (lss ! k) = None"
          using h(1) findLog_out_of_range [of "lss ! k" i] by (auto simp: covers_def tr_holds_def not_le)
        with that(1) show ?thesis by (simp add: findLog_None)
      qed
      then have "findLog i (concat lss @ ls) = None"
        using None by (auto simp: findLog_None) (metis in_set_conv_nth)
      with no f show ?thesis by (simp add: get_result_def)
    qed
  qed
qed

section \<open>Writing\<close>

lemma only_table_all2:
  assumes "only_table i fs fs'" and "list_all (\<lambda>r. tr_index r < i) rs" and "list_all2 (tr_holds fs) rs lss"
  shows "list_all2 (tr_holds fs') rs lss"
  using assms by (auto simp: list_all2_conv_all_nth list_all_length only_table_holds)

lemma only_table_fresh: "only_table i fs fs' \<Longrightarrow> j \<noteq> i \<Longrightarrow> fresh fs' j = fresh fs j"
  by (simp add: only_table_def fresh_def)

lemma maxLogFileSize_small: "maxLogFileSize < 2 ^ 32"
  by (simp add: maxLogFileSize_def)

text \<open>
  Storing into the table that is being written. \<open>ok\<close> is \<open>Log_ok l\<close> where the contents of the
  store matter, and \<open>True\<close> where only success does.
\<close>

lemma fst_store_table:
  assumes r: "fst_rel s lss ls" and h: "fst_healthy s" and i: "ID l \<noteq> InvalidLogID"
    and m: "concat lss @ ls = [] \<or> ID l = lastLogID (concat lss @ ls) + 1"
    and z: "length (data_bytes ls) \<le> tw_maxLogSize (fst_w s)"
  shows "\<exists>w fs. tw_storeLog l (fst_w s) (fst_fs s) = (Inr (), w, fs) \<and> fs_err fs = None \<and>
    (Log_ok l \<longrightarrow> fst_rel (s\<lparr>fst_w := w, fst_fs := fs\<rparr>) lss (ls @ [l]))"
proof -
  have w: "tw_holds (fst_fs s) (fst_w s) ls" and e: "fs_err (fst_fs s) = None"
    and t: "list_all2 (tr_holds (fst_fs s)) (fst_rs s) lss"
    and x: "list_all (\<lambda>r. tr_index r < tw_index (fst_w s)) (fst_rs s)"
    using r h by (auto simp: fst_rel_def fst_healthy_def list_all_iff)
  have f: "fresh (fst_fs s) (tw_index (fst_w s))" if "ls = []"
    using r x that by (force simp: fst_rel_def list_all_iff)
  have i': "ID l \<noteq> 0" and c: "ls \<noteq> [] \<Longrightarrow> ID l = lastLogID ls + 1"
    using i m by (auto simp: InvalidLogID_def lastLogID_def)
  have mx: "tw_maxLogSize (fst_w s) < 2 ^ 32"
    using r maxLogFileSize_small by (simp add: fst_rel_def)
  let ?w = "\<lambda>d m. (fst_w s)\<lparr>tw_data := Some d, tw_meta := Some m, tw_first := firstLogID (ls @ [l]),
    tw_last := ID l, tw_lastTime := CreateTime l\<rparr>"
  obtain d m fs where s: "tw_storeLog l (fst_w s) (fst_fs s) = (Inr (), ?w d m, fs)"
      "tw_holds fs (?w d m) (ls @ [l])" "only_table (tw_index (fst_w s)) (fst_fs s) fs"
    using tw_storeLog_holds [OF w e i' f c z mx] by blast
  have "consecutive (concat lss @ ls @ [l])"
    using r m i consecutive_snoc [of "concat lss @ ls" l] by (auto simp: fst_rel_def)
  then have "Log_ok l \<longrightarrow> fst_rel (s\<lparr>fst_w := ?w d m, fst_fs := fs\<rparr>) lss (ls @ [l])"
    using r s(2) only_table_all2 [OF s(3) x t] only_table_fresh [OF s(3)] by (auto simp: fst_rel_def)
  moreover have "fs_err fs = None"
    using s(3) e by (simp add: only_table_def)
  ultimately show ?thesis
    using s(1) by blast
qed

lemma fst_flush_table:
  assumes r: "fst_rel s lss ls" and h: "fst_healthy s" and ne: "ls \<noteq> []"
  shows "\<exists>tr w fs. tw_Flush (fst_w s) (fst_fs s) = (Inr tr, w, fs) \<and> fs_err fs = None \<and>
    fst_rel (s\<lparr>fst_rs := fst_rs s @ [tr], fst_w := w, fst_fs := fs\<rparr>) (lss @ [ls]) []"
proof -
  have w: "tw_holds (fst_fs s) (fst_w s) ls" and e: "fs_err (fst_fs s) = None"
    and t: "list_all2 (tr_holds (fst_fs s)) (fst_rs s) lss"
    and x: "list_all (\<lambda>r. tr_index r < tw_index (fst_w s)) (fst_rs s)"
    using r h by (auto simp: fst_rel_def fst_healthy_def list_all_iff)
  obtain tr w' fs where f: "tw_Flush (fst_w s) (fst_fs s) = (Inr tr, w', fs)" "tr_holds fs tr ls"
      "tr_index tr = tw_index (fst_w s)" "tw_holds fs w' []" "tw_index w' = Suc (tw_index (fst_w s))"
      "tw_maxLogSize w' = tw_maxLogSize (fst_w s)" "only_table (tw_index (fst_w s)) (fst_fs s) fs"
    using tw_Flush_holds [OF w e ne] by blast
  have "fst_rel (s\<lparr>fst_rs := fst_rs s @ [tr], fst_w := w', fst_fs := fs\<rparr>) (lss @ [ls]) []"
    using r f only_table_all2 [OF f(7) x t] only_table_fresh [OF f(7)] x
    by (auto simp: fst_rel_def list_all2_appendI sorted_wrt_append list_all_iff less_Suc_eq)
  moreover have "fs_err fs = None"
    using f(7) e by (simp add: only_table_def)
  ultimately show ?thesis
    using f(1) by blast
qed

lemma tw_storeLog_full:
  assumes "tw_holds fs t ls" and "ID l \<noteq> 0" and "ls \<noteq> []" and "ID l = lastLogID ls + 1"
    and "tw_maxLogSize t < length (data_bytes ls)"
  shows "tw_storeLog l t fs = (Inl ErrTableNeedFlush, t, fs)"
  using assms by (auto simp: tw_storeLog_def tw_holds_def wf_holds_def wf_file_def)

lemma fst_storeLog_rel:
  assumes r: "fst_rel s lss ls" and h: "fst_healthy s" and i: "ID l \<noteq> InvalidLogID"
    and m: "concat lss @ ls = [] \<or> ID l = lastLogID (concat lss @ ls) + 1"
  shows "\<exists>s'. fst_storeLog l s = (Inr (), s') \<and> fst_healthy s' \<and>
    (Log_ok l \<longrightarrow> (\<exists>lss' ls'. fst_rel s' lss' ls' \<and> concat lss' @ ls' = (concat lss @ ls) @ [l]))"
proof (cases "length (data_bytes ls) \<le> tw_maxLogSize (fst_w s)")
  case True
  with fst_store_table [OF assms True] show ?thesis
    by (fastforce simp: fst_storeLog_def fst_healthy_def)
next
  case False
  then have ne: "ls \<noteq> []" by auto
  have w: "tw_holds (fst_fs s) (fst_w s) ls"
    using r by (simp add: fst_rel_def)
  have full: "tw_storeLog l (fst_w s) (fst_fs s) = (Inl ErrTableNeedFlush, fst_w s, fst_fs s)"
    using tw_storeLog_full [OF w _ ne] False m i ne by (auto simp: InvalidLogID_def lastLogID_def)
  obtain tr w1 fs1 where f: "tw_Flush (fst_w s) (fst_fs s) = (Inr tr, w1, fs1)" "fs_err fs1 = None"
      "fst_rel (s\<lparr>fst_rs := fst_rs s @ [tr], fst_w := w1, fst_fs := fs1\<rparr>) (lss @ [ls]) []"
    using fst_flush_table [OF r h ne] by blast
  let ?s = "s\<lparr>fst_rs := fst_rs s @ [tr], fst_w := w1, fst_fs := fs1\<rparr>"
  obtain w2 fs2 where "tw_storeLog l w1 fs1 = (Inr (), w2, fs2)" "fs_err fs2 = None"
      "Log_ok l \<longrightarrow> fst_rel (?s\<lparr>fst_w := w2, fst_fs := fs2\<rparr>) (lss @ [ls]) ([] @ [l])"
    using fst_store_table [OF f(3), of l] f(2) i m by (auto simp: fst_healthy_def)
  with full f show ?thesis
    by (fastforce simp: fst_storeLog_def fst_healthy_def)
qed

section \<open>The contract\<close>

lemma concat_ids:
  assumes "list_all2 (tr_holds fs) rs lss" and "rs \<noteq> []"
  shows "firstLogID (concat lss @ ls) = tr_first (hd rs)" "lastLogID (concat lss) = tr_last (last rs)"
    "concat lss \<noteq> []"
proof -
  obtain r rs' l lss' where "rs = r # rs'" "lss = l # lss'" "tr_holds fs r l"
    using assms by (cases rs; cases lss) auto
  then show "firstLogID (concat lss @ ls) = tr_first (hd rs)" "concat lss \<noteq> []"
    by (auto simp: tr_holds_def firstLogID_def)
  obtain r rs' l lss' where "rs = rs' @ [r]" "lss = lss' @ [l]" "tr_holds fs r l"
    using assms by (cases rs rule: rev_cases; cases lss rule: rev_cases) (auto simp: list_all2_append2)
  then show "lastLogID (concat lss) = tr_last (last rs)"
    by (auto simp: tr_holds_def lastLogID_def)
qed

lemma fst_FirstID_rel:
  assumes "fst_rel s lss ls"
  shows "fst_FirstID s = Inr (firstLogID (concat lss @ ls))"
proof (cases "fst_rs s = []")
  case True
  with assms show ?thesis
    by (simp add: fst_rel_def fst_FirstID_def tw_holds_def)
next
  case False
  have t: "list_all2 (tr_holds (fst_fs s)) (fst_rs s) lss" and c: "consecutive (concat lss @ ls)"
    using assms by (simp_all add: fst_rel_def)
  have "firstLogID (concat lss @ ls) \<noteq> 0"
    using firstLogID_zero [OF c] concat_ids(3) [OF t False] by simp
  then show ?thesis
    using concat_ids(1) [OF t False] False by (simp add: fst_FirstID_def word_gt_0)
qed

lemma fst_LastID_rel:
  assumes "fst_rel s lss ls"
  shows "fst_LastID s = Inr (lastLogID (concat lss @ ls))"
proof (cases "ls = []")
  case False
  have "lastLogID ls \<noteq> 0" "tw_last (fst_w s) = lastLogID ls"
    using assms lastLogID_zero [of ls] False by (auto simp: fst_rel_def tw_holds_def)
  with False show ?thesis
    by (simp add: fst_LastID_def word_gt_0 lastLogID_def)
next
  case True
  have t: "list_all2 (tr_holds (fst_fs s)) (fst_rs s) lss" and w: "tw_last (fst_w s) = 0"
    using assms True by (simp_all add: fst_rel_def tw_holds_def lastLogID_def InvalidLogID_def)
  show ?thesis
  proof (cases "fst_rs s = []")
    case True
    with t w \<open>ls = []\<close> show ?thesis by (simp add: fst_LastID_def lastLogID_def InvalidLogID_def)
  next
    case False
    with w \<open>ls = []\<close> concat_ids(2) [OF t False] show ?thesis by (simp add: fst_LastID_def)
  qed
qed

interpretation fst_store: log_store fst_inv fst_logs fst_healthy fst_may_store
  "\<lambda>s. (fst_FirstID s, s)" "\<lambda>s. (fst_LastID s, s)" fst_GetLog fst_storeLog
proof (unfold_locales, goal_cases)
  case (1 s)
  then show ?case by (auto simp: fst_inv_def fst_logs_rel fst_rel_def)
next
  case (2 s)
  then show ?case by (auto simp: fst_inv_def fst_logs_rel fst_FirstID_rel)
next
  case (3 s)
  then show ?case by (auto simp: fst_inv_def fst_logs_rel fst_LastID_rel)
next
  case (4 s i)
  then show ?case by (auto simp: fst_inv_def fst_logs_rel fst_GetLog_rel get_result_def)
next
  case (5 s)
  then show ?case by (simp add: fst_may_store_def)
next
  case (6 s i)
  then show ?case by (simp add: fst_may_store_def)
next
  case (7 s l)
  then obtain lss ls where r: "fst_rel s lss ls" by (auto simp: fst_inv_def)
  from fst_storeLog_rel [OF r 7(2) 7(5)] 7(3,4) r show ?case
    unfolding fst_inv_def by (auto simp: fst_logs_rel fst_may_store_def) blast+
next
  case (8 s l)
  then obtain lss ls where r: "fst_rel s lss ls" by (auto simp: fst_inv_def)
  from fst_storeLog_rel [OF r 8(2) 8(4)] 8(3) r show ?case
    by (auto simp: fst_logs_rel fst_may_store_def)
qed

end
