(* ===== verification/Rpl_FileStore_Props.thy ===== *)
theory Rpl_FileStore_Props
  imports Rpl_FileStore_Laws
begin

text \<open>
  Opening, closing, purging and clearing of the log store on files, and its properties.
\<close>

section \<open>Purging\<close>

definition fname_index :: "fname \<Rightarrow> nat" where
  "fname_index n = (case n of DataName i \<Rightarrow> i | MetaName i \<Rightarrow> i)"

lemma purge_files:
  assumes "fs_err fs = None"
  shows "fs_err (purgeTableReaders ts fs) = None \<and> fs_files (purgeTableReaders ts fs) n =
    (if fname_index n \<in> tr_index ` set ts then None else fs_files fs n)"
  using assms
proof (induction ts arbitrary: fs)
  case (Cons t ts)
  let ?fs = "os_Remove (MetaName (tr_index t)) (os_Remove (DataName (tr_index t)) fs)"
  have e: "fs_err ?fs = None" "purgeTableReaders (t # ts) fs = purgeTableReaders ts ?fs"
    using Cons.prems by (simp_all add: purgeTableReaders_def)
  have "fs_files ?fs n = (if fname_index n = tr_index t then None else fs_files fs n)"
    using Cons.prems by (cases n) (auto simp: fname_index_def)
  then show ?case
    unfolding e(2) using Cons.IH [OF e(1)] by auto
qed (simp add: purgeTableReaders_def)

lemma tr_holds_files: "tr_holds fs t ls \<Longrightarrow> fs_files fs' (DataName (tr_index t)) = fs_files fs (DataName (tr_index t)) \<Longrightarrow>
    fs_files fs' (MetaName (tr_index t)) = fs_files fs (MetaName (tr_index t)) \<Longrightarrow> tr_holds fs' t ls"
  by (simp add: tr_holds_def)

lemma tw_holds_files: "tw_holds fs t ls \<Longrightarrow> fs_files fs' (DataName (tw_index t)) = fs_files fs (DataName (tw_index t)) \<Longrightarrow>
    fs_files fs' (MetaName (tw_index t)) = fs_files fs (MetaName (tw_index t)) \<Longrightarrow> tw_holds fs' t ls"
  by (auto simp: tw_holds_def wf_holds_def wf_file_def)

lemma fst_drop_tables:
  assumes r: "fst_rel s lss ls" and h: "fst_healthy s"
  shows "fst_rel (s\<lparr>fst_rs := drop k (fst_rs s), fst_fs := purgeTableReaders (take k (fst_rs s)) (fst_fs s)\<rparr>)
    (drop k lss) ls"
proof -
  let ?fs = "purgeTableReaders (take k (fst_rs s)) (fst_fs s)"
  have x: "sorted_wrt (\<lambda>a b. tr_index a < tr_index b) (take k (fst_rs s) @ drop k (fst_rs s))"
      "list_all (\<lambda>r. 0 < tr_index r \<and> tr_index r < tw_index (fst_w s)) (fst_rs s)"
      "list_all2 (tr_holds (fst_fs s)) (fst_rs s) lss" "tw_holds (fst_fs s) (fst_w s) ls"
      "consecutive (concat (take k lss @ drop k lss) @ ls)" "list_all Log_ok (concat (take k lss @ drop k lss) @ ls)"
    using r by (simp_all add: fst_rel_def sorted_wrt_map)
  have p: "fresh ?fs i" if "i \<in> tr_index ` set (take k (fst_rs s))" for i
    using that purge_files [of "fst_fs s"] h by (simp add: fst_healthy_def fresh_def fname_index_def)
  have q: "fs_files ?fs (DataName i) = fs_files (fst_fs s) (DataName i)"
      "fs_files ?fs (MetaName i) = fs_files (fst_fs s) (MetaName i)"
    if "i \<notin> tr_index ` set (take k (fst_rs s))" for i
    using that purge_files [of "fst_fs s"] h by (simp_all add: fst_healthy_def fname_index_def)
  have o: "sorted_wrt (<) (map tr_index (drop k (fst_rs s)))"
      "\<forall>a\<in>set (take k (fst_rs s)). \<forall>b\<in>set (drop k (fst_rs s)). tr_index a < tr_index b"
    using x(1) unfolding sorted_wrt_map sorted_wrt_append by blast+
  have d: "tr_index t \<notin> tr_index ` set (take k (fst_rs s))" if "t \<in> set (drop k (fst_rs s))" for t
    using o(2) that by (metis imageE less_irrefl)
  have w: "tw_index (fst_w s) \<notin> tr_index ` set (take k (fst_rs s))"
    using x(2) by (auto simp: list_all_iff dest: in_set_takeD)
  have "list_all2 (tr_holds ?fs) (drop k (fst_rs s)) (drop k lss)"
  proof (rule list_all2_all_nthI)
    fix n
    assume n: "n < length (drop k (fst_rs s))"
    from tr_holds_files [OF list_all2_nthD [OF list_all2_dropI [OF x(3)] n]] q [OF d [OF nth_mem [OF n]]]
    show "tr_holds ?fs (drop k (fst_rs s) ! n) (drop k lss ! n)" by blast
  qed (use list_all2_lengthD [OF x(3)] in simp)
  moreover have "tw_holds ?fs (fst_w s) ls"
    using tw_holds_files [OF x(4)] q [OF w] by simp
  moreover have "fresh ?fs j" if "j \<notin> tr_index ` set (drop k (fst_rs s))" "j = tw_index (fst_w s) \<longrightarrow> ls = []" for j
  proof (cases "j \<in> tr_index ` set (take k (fst_rs s))")
    case False
    then have "j \<notin> tr_index ` set (fst_rs s)"
      using that(1) by (metis UnE append_take_drop_id image_Un set_append)
    with r that(2) q [OF False] show ?thesis
      by (auto simp: fst_rel_def fresh_def)
  qed (rule p)
  moreover have "consecutive (concat (drop k lss) @ ls)" "list_all Log_ok (concat (drop k lss) @ ls)"
    using x(5,6) consecutive_append2 [of "concat (take k lss)"] unfolding concat_append append_assoc by simp_all
  ultimately show ?thesis
    using r x(2) o(1) by (auto simp: fst_rel_def list_all_iff dest: in_set_dropD)
qed

section \<open>Opening\<close>

text \<open>
  \<open>openable fs i ls\<close>: the files of table \<open>i\<close> hold the logs \<open>ls\<close>, closed or not.
\<close>

definition openable :: "filesys \<Rightarrow> nat \<Rightarrow> Log list \<Rightarrow> bool" where
  "openable fs i ls \<longleftrightarrow> 0 < i \<and> ls \<noteq> [] \<and> consecutive ls \<and> pos_ok ls \<and> list_all Log_ok ls \<and>
     (fs_files fs (DataName i) = Some (data_bytes ls @ magic) \<and> fs_files fs (MetaName i) = Some (meta_bytes ls) \<or>
      (\<exists>k j. fs_files fs (DataName i) = Some (data_bytes ls @ replicate k 0) \<and>
        fs_files fs (MetaName i) = Some (meta_bytes ls @ replicate j 0) \<and>
        length (meta_bytes ls @ replicate j (0 :: byte)) < 2 ^ 64))"

lemma newTableReader_openable:
  assumes "openable fs i ls" and "fs_err fs = None"
  shows "\<exists>fs'. newTableReader i mm fs = (Inr (reader_of i mm ls), fs') \<and>
    tr_holds fs' (reader_of i mm ls) ls \<and> only_table i fs fs'"
proof -
  have o: "0 < i" "ls \<noteq> []" "consecutive ls" "pos_ok ls" "list_all Log_ok ls"
    using assms(1) by (simp_all add: openable_def)
  consider (closed) "fs_files fs (DataName i) = Some (data_bytes ls @ magic)" "fs_files fs (MetaName i) = Some (meta_bytes ls)"
    | (unclosed) k j where "fs_files fs (DataName i) = Some (data_bytes ls @ replicate k 0)"
        "fs_files fs (MetaName i) = Some (meta_bytes ls @ replicate j 0)"
        "length (meta_bytes ls @ replicate j (0 :: byte)) < 2 ^ 64"
    using assms(1) unfolding openable_def by blast
  then show ?thesis
  proof cases
    case closed
    with newTableReader_closed [OF o closed, of mm] o show ?thesis
      by (simp add: tr_holds_def reader_of_def only_table_def)
  next
    case unclosed
    from newTableReader_unclosed [OF o unclosed assms(2)] show ?thesis by blast
  qed
qed

lemma openable_only:
  "only_table i fs fs' \<Longrightarrow> j \<noteq> i \<Longrightarrow> openable fs' j ls = openable fs j ls"
  by (simp add: openable_def only_table_def)

definition readers_of :: "bool \<Rightarrow> nat list \<Rightarrow> Log list list \<Rightarrow> tableReader list" where
  "readers_of mm is lss = map (\<lambda>(i, ls). reader_of i mm ls) (zip is lss)"

lemma load_loop_openable:
  assumes "list_all2 (openable fs) is lss" and "distinct is" and "fs_err fs = None"
  shows "\<exists>fs'. load_loop mm is fs = (readers_of mm is lss, fs') \<and>
    list_all2 (tr_holds fs') (readers_of mm is lss) lss \<and> fs_err fs' = None \<and>
    (\<forall>n. fname_index n \<notin> set is \<longrightarrow> fs_files fs' n = fs_files fs n)"
  using assms
proof (induction "is" arbitrary: lss fs)
  case Nil
  then show ?case by (simp add: readers_of_def)
next
  case (Cons i "is" lss0)
  then obtain ls lss where l: "lss0 = ls # lss" "openable fs i ls" "list_all2 (openable fs) is lss"
    by (auto simp: list_all2_Cons1)
  obtain fs1 where 1: "newTableReader i mm fs = (Inr (reader_of i mm ls), fs1)"
      "tr_holds fs1 (reader_of i mm ls) ls" "only_table i fs fs1"
    using newTableReader_openable [OF l(2) Cons.prems(3)] by blast
  have "list_all2 (openable fs1) is lss"
    using l(3) Cons.prems(2) openable_only [OF 1(3)]
    by (auto simp: list_all2_conv_all_nth) (metis nth_mem)
  moreover have "fs_err fs1 = None"
    using 1(3) Cons.prems(3) by (simp add: only_table_def)
  ultimately obtain fs' where 2: "load_loop mm is fs1 = (readers_of mm is lss, fs')"
      "list_all2 (tr_holds fs') (readers_of mm is lss) lss" "fs_err fs' = None"
      "\<forall>n. fname_index n \<notin> set is \<longrightarrow> fs_files fs' n = fs_files fs1 n"
    using Cons.IH [of fs1 lss] Cons.prems(2) by auto
  have "tr_holds fs' (reader_of i mm ls) ls"
    using 2(4) Cons.prems(2) by (intro tr_holds_files [OF 1(2)]) (simp_all add: fname_index_def reader_of_def)
  moreover have "fs_files fs' n = fs_files fs n" if "fname_index n \<notin> set (i # is)" for n
    using that 2(4) 1(3) by (cases n) (auto simp: only_table_def fname_index_def)
  ultimately show ?case
    using 1(1) 2(1-3) l(1) by (simp add: readers_of_def)
qed

lemma check_tables_ok:
  "list_all (\<lambda>t. lst < tr_first t) ts \<Longrightarrow> list_all (\<lambda>t. idx < tr_index t) ts \<Longrightarrow> tables_sorted ts \<Longrightarrow>
     sorted_wrt (<) (map tr_index ts) \<Longrightarrow> check_tables lst idx ts = Inr ()"
proof (induction ts arbitrary: lst idx)
  case (Cons t ts)
  then show ?case by (auto simp: tables_sorted_def list_all_iff not_le)
qed simp

lemma rs_check_ok:
  assumes "tables_sorted ts" and "sorted_wrt (<) (map tr_index ts)" and "list_all (\<lambda>t. tr_first t \<noteq> 0) ts"
  shows "rs_check ts = Inr ts"
proof -
  have "sorted (map tr_first ts)"
    using assms(1)
  proof (induction ts)
    case (Cons t ts)
    then show ?case
      by (auto simp: tables_sorted_def intro: less_imp_le dest: le_less_trans)
  qed simp
  then have s: "sort_key tr_first ts = ts"
    by (rule sort_key_id_if_sorted)
  show ?thesis
  proof (cases ts)
    case (Cons t us)
    then have "check_tables (tr_last t) (tr_index t) us = Inr ()"
      using assms by (intro check_tables_ok) (auto simp: tables_sorted_def list_all_iff)
    with Cons s assms show ?thesis
      by (auto simp: rs_check_def tables_sorted_def not_less)
  qed (simp add: rs_check_def s)
qed

lemma mem_map_filter: "i \<in> set (List.map_filter f xs) \<longleftrightarrow> (\<exists>x\<in>set xs. f x = Some i)"
  by (induction xs) (auto simp: List.map_filter_simps split: option.splits)

lemma set_data_indices: "set (data_indices fs) = {i. i < 10 ^ 8 \<and> fs_files fs (DataName i) \<noteq> None}"
proof -
  let ?f = "\<lambda>(n, c :: bytes). case n of DataName i \<Rightarrow> if i < 10 ^ 8 then Some i else None | MetaName i \<Rightarrow> None"
  have "?f x = Some i \<longleftrightarrow> fst x = DataName i \<and> i < 10 ^ 8" for x i
    by (cases x, cases "fst x") auto
  then have "i \<in> set (data_indices fs) \<longleftrightarrow> (\<exists>x\<in>set (fs_dir fs). fst x = DataName i) \<and> i < 10 ^ 8" for i
    unfolding data_indices_def set_sort set_remdups mem_map_filter by auto
  moreover have "fs_files fs n \<noteq> None \<longleftrightarrow> (\<exists>x\<in>set (fs_dir fs). fst x = n)" for n
    unfolding fs_files_def map_of_eq_None_iff by auto
  ultimately show ?thesis
    by blast
qed

lemma data_indices_unique:
  "sorted_wrt (<) is \<Longrightarrow> set is = {i. i < 10 ^ 8 \<and> fs_files fs (DataName i) \<noteq> None} \<Longrightarrow> data_indices fs = is"
  using set_data_indices [of fs] strict_sorted_iff [of "is"]
  by (intro sorted_distinct_set_unique) (auto simp: data_indices_def)

lemma sorted_le_last: "sorted xs \<Longrightarrow> x \<in> set xs \<Longrightarrow> x \<le> last xs"
  by (induction xs) auto

lemma NewFileStore_opens:
  assumes o: "list_all2 (openable fs) is lss" and i: "data_indices fs = is" "sorted_wrt (<) is"
    and c: "consecutive (concat lss)" and e: "fs_err fs = None"
    and f: "\<And>j. j \<notin> set is \<Longrightarrow> fresh fs j"
  shows "\<exists>s fs'. NewFileStore maxSize mm maxNum fs = (Inr s, fs') \<and> fst_rel s lss [] \<and> fst_healthy s"
proof -
  let ?rs = "readers_of mm is lss"
  let ?max = "min (if maxSize = 0 then defaultMaxLogFileSize else maxSize) maxLogFileSize"
  obtain fs' where l: "load_loop mm is fs = (?rs, fs')" "list_all2 (tr_holds fs') ?rs lss"
      "fs_err fs' = None" "\<forall>n. fname_index n \<notin> set is \<longrightarrow> fs_files fs' n = fs_files fs n"
    using load_loop_openable [OF o _ e] i(2) strict_sorted_iff by blast
  have len: "length is = length lss"
    using o by (rule list_all2_lengthD)
  have idx: "map tr_index ?rs = is"
    using len by (induction "is" lss rule: list_induct2) (simp_all add: readers_of_def reader_of_def)
  have si: "set is = tr_index ` set ?rs"
    using arg_cong [OF idx, of set] by simp
  have ts: "tables_sorted ?rs"
    using tables_sorted_holds [OF l(2) c] .
  have "list_all (\<lambda>t. tr_first t \<noteq> 0) ?rs"
    using l(2) firstLogID_zero
    by (auto simp: list_all_length list_all2_conv_all_nth tr_holds_def)
  then have ch: "rs_check ?rs = Inr ?rs"
    using ts i(2) idx by (intro rs_check_ok) simp_all
  let ?i = "if ?rs = [] then 1 else tr_index (last ?rs) + 1"
  let ?s = "\<lparr>fst_fs = fs', fst_rs = ?rs, fst_w = newTableWriter ?i ?max mm,
    MaxLogFileSize = ?max, UseMmap = mm, MaxLogFileNum = maxNum\<rparr>"
  have new: "NewFileStore maxSize mm maxNum fs = (Inr ?s, fs')"
    using l(1) ch i(1) by (simp add: NewFileStore_def load_def Let_def)
  have below: "0 < tr_index r \<and> tr_index r < ?i" if "r \<in> set ?rs" for r
  proof -
    have m: "tr_index r \<in> set is"
      using that si by blast
    have ne: "?rs \<noteq> []"
      using that by auto
    have "tr_index (last ?rs) = last is"
      using last_map [OF ne, of tr_index] idx by simp
    moreover have "tr_index r \<le> last is"
      using i(2) m strict_sorted_iff sorted_le_last by blast
    moreover have "0 < tr_index r"
      using m o by (auto simp: list_all2_conv_all_nth in_set_conv_nth openable_def)
    ultimately show ?thesis using ne by simp
  qed
  have fr: "fresh fs' j" if "j \<notin> tr_index ` set ?rs" for j
  proof -
    have "j \<notin> set is"
      using that si by blast
    with f [of j] l(4) show ?thesis by (simp add: fresh_def fname_index_def)
  qed
  have ok: "list_all Log_ok (concat lss)"
    using o by (induction rule: list_all2_induct) (simp_all add: openable_def)
  have "fst_rel ?s lss []"
    using l(2) c ok i(2) idx below fr
    by (auto simp: fst_rel_def newTableWriter_def tw_holds_def firstLogID_def lastLogID_def InvalidLogID_def
        list_all_iff)
  with new l(3) show ?thesis
    by (simp add: fst_healthy_def)
qed

text \<open>
  The files of a store in use: opening them again, without the writer having been closed,
  finds every log. The indices of data files have at most eight digits and no file is larger
  than the address space.
\<close>

definition small_files :: "FileStore \<Rightarrow> bool" where
  "small_files s \<longleftrightarrow> tw_index (fst_w s) < 10 ^ 8 \<and>
     list_all (\<lambda>(n, c). length c < 2 ^ 64) (fs_dir (fst_fs s))"

lemma small_filesD: "small_files s \<Longrightarrow> fs_files (fst_fs s) n = Some c \<Longrightarrow> length c < 2 ^ 64"
  by (auto simp: small_files_def fs_files_def list_all_iff dest!: map_of_SomeD)

lemma writer_openable:
  assumes "tw_holds fs t ls" and "ls \<noteq> []" and "list_all Log_ok ls" and "0 < tw_index t"
    and "\<And>n c. fs_files fs n = Some c \<Longrightarrow> length c < 2 ^ 64"
  shows "openable fs (tw_index t) ls"
proof -
  obtain d m where "wf_holds fs d (DataName (tw_index t)) (data_bytes ls)"
      "wf_holds fs m (MetaName (tw_index t)) (meta_bytes ls)" "consecutive ls" "pos_ok ls"
    using assms(1,2) by (auto simp: tw_holds_def)
  then obtain k j where "fs_files fs (DataName (tw_index t)) = Some (data_bytes ls @ replicate k 0)"
      "fs_files fs (MetaName (tw_index t)) = Some (meta_bytes ls @ replicate j 0)" "consecutive ls" "pos_ok ls"
    unfolding wf_holds_def wf_file_def by blast
  with assms(2-4) assms(5) [OF this(2)] show ?thesis
    unfolding openable_def by blast
qed

lemma fst_reopen:
  assumes r: "fst_rel s lss ls" and h: "fst_healthy s" and sm: "small_files s"
  shows "\<exists>s' fs'. NewFileStore maxSize mm maxNum (fst_fs s) = (Inr s', fs') \<and> fst_healthy s' \<and>
    fst_inv s' \<and> fst_logs s' = concat lss @ ls"
proof -
  let ?is = "map tr_index (fst_rs s) @ (if ls = [] then [] else [tw_index (fst_w s)])"
  let ?lss = "lss @ (if ls = [] then [] else [ls])"
  have x: "list_all2 (tr_holds (fst_fs s)) (fst_rs s) lss" "tw_holds (fst_fs s) (fst_w s) ls"
      "list_all Log_ok (concat lss @ ls)" "consecutive (concat lss @ ls)"
      "sorted_wrt (<) (map tr_index (fst_rs s))" "0 < tw_index (fst_w s)"
      "\<forall>r\<in>set (fst_rs s). 0 < tr_index r \<and> tr_index r < tw_index (fst_w s)"
    using r by (simp_all add: fst_rel_def list_all_iff)
  have "list_all2 (openable (fst_fs s)) (map tr_index (fst_rs s)) lss"
    using x(1,3,7) by (induction rule: list_all2_induct) (auto simp: openable_def tr_holds_def)
  moreover have "openable (fst_fs s) (tw_index (fst_w s)) ls" if "ls \<noteq> []"
    using writer_openable [OF x(2) that _ x(6) small_filesD [OF sm]] x(3) by simp
  ultimately have o: "list_all2 (openable (fst_fs s)) ?is ?lss"
    by (auto intro: list_all2_appendI)
  have sorted: "sorted_wrt (<) ?is"
    using x(5,7) by (auto simp: sorted_wrt_append)
  have fr: "fresh (fst_fs s) j" if "j \<notin> set ?is" for j
    using r that by (auto simp: fst_rel_def split: if_splits)
  have "i < 10 ^ 8 \<and> fs_files (fst_fs s) (DataName i) \<noteq> None" if m: "i \<in> set ?is" for i
  proof -
    have "i \<le> tw_index (fst_w s)"
      using m x(7) by (auto split: if_splits intro: less_imp_le)
    then have "i < 10 ^ 8"
      using sm by (simp add: small_files_def)
    moreover have "fs_files (fst_fs s) (DataName i) \<noteq> None"
      using m o by (auto simp: list_all2_conv_all_nth in_set_conv_nth openable_def simp del: set_append)
    ultimately show ?thesis ..
  qed
  moreover have "i \<in> set ?is" if "fs_files (fst_fs s) (DataName i) \<noteq> None" for i
    using fr [of i] that unfolding fresh_def by blast
  ultimately have d: "data_indices (fst_fs s) = ?is"
    by (intro data_indices_unique [OF sorted]) blast
  have "consecutive (concat ?lss)" "fs_err (fst_fs s) = None"
    using x(4) h by (auto simp: fst_healthy_def)
  from NewFileStore_opens [OF o d sorted this fr]
  obtain s' fs' where "NewFileStore maxSize mm maxNum (fst_fs s) = (Inr s', fs')" "fst_rel s' ?lss []"
      "fst_healthy s'"
    by blast
  with fst_logs_rel [of s' ?lss "[]"] show ?thesis
    unfolding fst_inv_def by auto
qed

lemma fst_close_reopen:
  assumes r: "fst_rel s lss ls" and h: "fst_healthy s" and sm: "small_files s" "small_files (fst_Close s)"
  shows "\<exists>s' fs'. NewFileStore maxSize mm maxNum (fst_fs (fst_Close s)) = (Inr s', fs') \<and> fst_healthy s' \<and>
    fst_inv s' \<and> fst_logs s' = concat lss @ ls"
proof (cases "ls = []")
  case True
  then have "tw_data (fst_w s) = None"
    using r by (simp add: fst_rel_def tw_holds_def)
  then have "fst_fs (fst_Close s) = fst_fs s"
    by (simp add: fst_Close_def tw_Flush_def)
  with fst_reopen [OF r h sm(1)] show ?thesis by simp
next
  case False
  obtain tr w fs where f: "tw_Flush (fst_w s) (fst_fs s) = (Inr tr, w, fs)" "fs_err fs = None"
      "fst_rel (s\<lparr>fst_rs := fst_rs s @ [tr], fst_w := w, fst_fs := fs\<rparr>) (lss @ [ls]) []"
    using fst_flush_table [OF r h False] by blast
  let ?s = "s\<lparr>fst_rs := fst_rs s @ [tr], fst_w := w, fst_fs := fs\<rparr>"
  have "tw_data w = None" "tw_meta w = None"
    using f(3) by (simp_all add: fst_rel_def tw_holds_def)
  then have c: "fst_fs (fst_Close s) = fs" "tw_index (fst_w (fst_Close s)) = tw_index w"
    using f(1) by (simp_all add: fst_Close_def tw_Close_def tw_close_def)
  then have "small_files ?s"
    using sm(2) by (simp add: small_files_def)
  with fst_reopen [OF f(3)] f(2) c(1) show ?thesis
    by (auto simp: fst_healthy_def)
qed

lemma fst_Clear_inv:
  assumes "fst_inv s" and "fst_healthy s"
  shows "\<exists>s'. fst_Clear s = (Inr (), s') \<and> fst_inv s' \<and> fst_healthy s' \<and> fst_logs s' = []"
proof -
  obtain lss ls where r: "fst_rel s lss ls"
    using assms(1) by (auto simp: fst_inv_def)
  obtain w fs where c: "tw_Close (fst_w s) (fst_fs s) = (w, fs)"
    by fastforce
  have e: "fs_err fs = None"
  proof (cases "ls = []")
    case True
    then show ?thesis
      using r c assms(2) by (simp add: fst_rel_def tw_holds_def tw_Close_def tw_close_def fst_healthy_def)
  next
    case False
    have "snd (tw_Close (fst_w s) (fst_fs s)) = snd (tw_close (fst_w s) (fst_fs s))"
      by (simp add: tw_Close_def tw_close_def Let_def)
    moreover have "fs_err (snd (tw_close (fst_w s) (fst_fs s))) = None"
      using fst_flush_table [OF r assms(2) False]
      by (auto simp: tw_Flush_def split: if_splits prod.splits)
    ultimately show ?thesis using c by simp
  qed
  let ?s = "s\<lparr>fst_w := newTableWriter 1 (MaxLogFileSize s) (UseMmap s), fst_fs := fs\<lparr>fs_dir := []\<rparr>, fst_rs := []\<rparr>"
  have "fst_rel ?s [] []"
    using r by (simp add: fst_rel_def newTableWriter_def tw_holds_def firstLogID_def lastLogID_def
        InvalidLogID_def fresh_def fs_files_def)
  moreover have "fst_Clear s = (Inr (), ?s)"
    using c e by (simp add: fst_Clear_def)
  ultimately show ?thesis
    using fst_logs_rel [of ?s "[]" "[]"] e by (auto simp: fst_inv_def fst_healthy_def)
qed

section \<open>Properties\<close>

text \<open>
  C8: the log store on files. A log with the next id (any id, if there are no logs) is accepted,
  whether or not it begins a new table, and becomes the last one; every log can be read back
  by its id, from the table being written or from a flushed one found by binary search, and no
  other id is found; \<open>FirstID\<close> and \<open>LastID\<close> are the ends of the range.
\<close>

theorem file_store_log:
  assumes "fst_inv s" and "fst_healthy s" and "Log_ok l" and "ID l \<noteq> InvalidLogID"
    and "fst_logs s = [] \<or> ID l = lastLogID (fst_logs s) + 1"
  shows "\<exists>s'. fst_storeLog l s = (Inr (), s') \<and> fst_inv s' \<and> fst_healthy s' \<and>
    fst_logs s' = fst_logs s @ [l] \<and>
    (\<forall>i. i \<noteq> InvalidLogID \<longrightarrow> fst_GetLog i s' =
      (case find (\<lambda>m. ID m = i) (fst_logs s @ [l]) of None \<Rightarrow> Inl ErrLogNotFound | Some m \<Rightarrow> Inr m)) \<and>
    fst_FirstID s' = Inr (ID (hd (fst_logs s @ [l]))) \<and> fst_LastID s' = Inr (ID l)"
proof -
  obtain s' where s': "fst_storeLog l s = (Inr (), s')" "fst_inv s'" "fst_healthy s'"
      "fst_logs s' = fst_logs s @ [l]"
    using fst_store.StoreLog_ok [OF assms(1-3) _ assms(4)] assms(5) by (auto simp: fst_may_store_def)
  with fst_store.GetLog_ok [OF s'(2)] fst_store.FirstID_ok [OF s'(2)] fst_store.LastID_ok [OF s'(2)]
  show ?thesis
    by (auto simp: findLog_def firstLogID_def lastLogID_def)
qed

definition empty_file_store :: FileStore where
  "empty_file_store = \<lparr>fst_fs = \<lparr>fs_dir = [], fs_err = None\<rparr>, fst_rs = [],
     fst_w = newTableWriter 1 10 False, MaxLogFileSize = 10, UseMmap = False, MaxLogFileNum = 5\<rparr>"

lemma empty_file_store_inv [simp]:
  "fst_inv empty_file_store" "fst_healthy empty_file_store" "fst_logs empty_file_store = []"
proof -
  have "fst_rel empty_file_store [] []"
    by (simp add: empty_file_store_def fst_rel_def newTableWriter_def tw_holds_def firstLogID_def
        lastLogID_def InvalidLogID_def fresh_def fs_files_def maxLogFileSize_def)
  then show "fst_inv empty_file_store" "fst_logs empty_file_store = []"
    using fst_logs_rel [of empty_file_store "[]" "[]"] by (auto simp: fst_inv_def)
qed (simp add: empty_file_store_def fst_healthy_def)

definition flog :: "u64 \<Rightarrow> Log" where
  "flog i = \<lparr>ID = i, CreateTime = 9, Compression = 0, Data = [1]\<rparr>"

theorem file_store_log_witness:
  "\<exists>s'. fst_storeLog (flog 7) empty_file_store = (Inr (), s') \<and> fst_GetLog 7 s' = Inr (flog 7) \<and>
     fst_GetLog 8 s' = Inl ErrLogNotFound \<and> fst_LastID s' = Inr 7"
proof -
  have "Log_ok (flog 7)" "ID (flog 7) \<noteq> InvalidLogID"
    by (simp_all add: flog_def Log_ok_def InvalidLogID_def)
  from file_store_log [OF empty_file_store_inv(1,2) this] show ?thesis
    by (auto simp: flog_def InvalidLogID_def)
qed

text \<open>
  C2: the log store on files survives a restart. Opening the files of a store gives a store with
  the same logs, both after \<open>Close\<close> and after a crash at any moment between two operations,
  when the table being written has neither its end mark nor, with memory mapped files, its
  size: the check notices, and the repair recovers every log of it.
\<close>

theorem file_store_recovers:
  assumes "fst_inv s" and "fst_healthy s" and "small_files s" and "small_files (fst_Close s)"
    and "fs = fst_fs s \<or> fs = fst_fs (fst_Close s)"
  shows "\<exists>s' fs'. NewFileStore maxSize mm maxNum fs = (Inr s', fs') \<and> fst_inv s' \<and> fst_healthy s' \<and>
    fst_logs s' = fst_logs s"
proof -
  obtain lss ls where r: "fst_rel s lss ls"
    using assms(1) by (auto simp: fst_inv_def)
  from assms(5) fst_reopen [OF r assms(2,3)] fst_close_reopen [OF r assms(2-4)] fst_logs_rel [OF r]
  show ?thesis by fastforce
qed

definition demo_file_store :: FileStore where
  "demo_file_store = snd (fst_storeLog (flog 8) (snd (fst_storeLog (flog 7) empty_file_store)))"

lemma demo_file_store_inv: "fst_inv demo_file_store \<and> fst_healthy demo_file_store \<and>
    fst_logs demo_file_store = [flog 7, flog 8]"
proof -
  have f: "Log_ok (flog i)" "ID (flog i) = i" for i
    by (simp_all add: flog_def Log_ok_def)
  obtain s where s: "fst_storeLog (flog 7) empty_file_store = (Inr (), s)" "fst_inv s" "fst_healthy s"
      "fst_logs s = [flog 7]"
    using fst_store.StoreLog_ok [of empty_file_store "flog 7"] f
    by (auto simp: fst_may_store_def InvalidLogID_def)
  then show ?thesis
    using fst_store.StoreLog_ok [of s "flog 8"] f
    by (auto simp: demo_file_store_def fst_may_store_def InvalidLogID_def lastLogID_def)
qed

lemmas file_eval = demo_file_store_def empty_file_store_def flog_def fst_storeLog_def tw_storeLog_def
  newTableWriter_def openFile_def open_one_def newWriteFile_def newRawWriteFile_def encodeTo_def
  wf_Write_def rawWriteFile_Write_def set_file_def the_file_def fs_files_def os_WriteAt_def
  os_Truncate_def Log_Size_def LogHeadSize_def tw_Flush_def tw_close_def tw_Close_def wf_Close_def
  fst_Close_def

lemma demo_tables:
  "tw_index (fst_w demo_file_store) = 2" "tw_index (fst_w (fst_Close demo_file_store)) = 3"
  "map (\<lambda>(n, c). length c) (fs_dir (fst_fs demo_file_store)) = [4, 18, 38, 4]"
  "map (\<lambda>(n, c). length c) (fs_dir (fst_fs (fst_Close demo_file_store))) = [38, 4, 38, 4]"
  by (simp_all add: file_eval)

lemma small_filesI:
  assumes "map (\<lambda>(n, c). length c) (fs_dir (fst_fs s)) = ns" and "list_all (\<lambda>n. n < 2 ^ 64) ns"
    and "tw_index (fst_w s) < 10 ^ 8"
  shows "small_files s"
  using assms by (auto simp: small_files_def list_all_iff)

theorem file_store_recovers_witness:
  "\<exists>s' fs'. NewFileStore 0 True 5 (fst_fs demo_file_store) = (Inr s', fs') \<and> fst_logs s' = [flog 7, flog 8]"
proof -
  have "small_files demo_file_store" "small_files (fst_Close demo_file_store)"
    by (rule small_filesI [OF demo_tables(3)] small_filesI [OF demo_tables(4)]; simp add: demo_tables)+
  from file_store_recovers [OF _ _ this disjI1 [OF refl], of 0 True 5] demo_file_store_inv show ?thesis
    by auto
qed

text \<open>
  C36: a crash in the middle of a record. When the head of the last record and a part of its data
  have reached the disk, the repair takes the record for complete: the store then holds a log
  with that id whose missing bytes are zeros. (The first bytes of the record are not those of
  the end mark.)
\<close>

theorem file_store_torn_record:
  assumes "0 < i" and "consecutive (ls @ [l])" and "pos_ok (ls @ [l])" and "list_all Log_ok (ls @ [l])"
    and "LogHeadSize \<le> n" and "n < Log_Size l" and "take n (Encode l) \<noteq> magic"
    and "fs_files fs (DataName i) = Some (concat (map Encode ls) @ take n (Encode l))"
    and "fs_files fs (MetaName i) = Some (meta_bytes ls)" and "fs_err fs = None"
  shows "\<exists>r fs'. newTableReader i mm fs = (Inr r, fs') \<and> tr_last r = ID l \<and>
    tr_GetLog (ID l) r fs' =
      Inr (l\<lparr>Data := take (n - LogHeadSize) (Data l) @ replicate (Log_Size l - n) 0\<rparr>) \<and>
    (\<forall>m\<in>set ls. tr_GetLog (ID m) r fs' = Inr m)"
proof -
  let ?ls = "ls @ [torn n l]"
  obtain fs' where r: "newTableReader i mm fs = (Inr (reader_of i mm ?ls), fs')"
      "tr_holds fs' (reader_of i mm ?ls) ?ls"
    using newTableReader_torn [of i ls l n fs mm] assms unfolding data_bytes_def by auto
  have id: "ID (torn n l) = ID l"
    by (simp add: torn_def)
  have ok: "list_all Log_ok ?ls"
    using assms(4) torn_size [OF assms(5,6)] by (simp add: Log_ok_def)
  have "consecutive ?ls"
    using assms(2) id by (simp add: consecutive_snoc)
  then have "findLog (ID m) ?ls = Some m" if "m \<in> set ?ls" for m
    using findLog_mem that by blast
  then have g: "tr_GetLog (ID m) (reader_of i mm ?ls) fs' = Inr m" if "m \<in> set ?ls" for m
    using tr_GetLog_holds [OF r(2) ok] that by (simp add: get_result_def)
  have "tr_last (reader_of i mm ?ls) = ID l"
    using id by (simp add: reader_of_def lastLogID_def)
  with g [of "torn n l"] g r(1) id show ?thesis
    by (auto simp: torn_def)
qed

theorem file_store_torn_record_witness:
  "\<exists>r fs'. newTableReader 1 False \<lparr>fs_dir = [(DataName 1, take 19 (Encode (\<lparr>ID = 1, CreateTime = 9,
       Compression = 0, Data = [5, 6, 7]\<rparr>))), (MetaName 1, [])], fs_err = None\<rparr> = (Inr r, fs') \<and>
     tr_GetLog 1 r fs' = Inr \<lparr>ID = 1, CreateTime = 9, Compression = 0, Data = [5, 6, 0]\<rparr>"
proof -
  let ?l = "\<lparr>ID = 1, CreateTime = 9, Compression = 0, Data = [5, 6, 7]\<rparr>"
  let ?fs = "\<lparr>fs_dir = [(DataName 1, take 19 (Encode ?l)), (MetaName 1, [])], fs_err = None\<rparr>"
  have "length (take 19 (Encode ?l)) \<noteq> length magic"
    by (simp add: Log_Size_def LogHeadSize_def)
  then have "take 19 (Encode ?l) \<noteq> magic"
    by metis
  then have "\<exists>r fs'. newTableReader 1 False ?fs = (Inr r, fs') \<and> tr_last r = ID ?l \<and>
      tr_GetLog (ID ?l) r fs' = Inr (?l\<lparr>Data := take (19 - LogHeadSize) (Data ?l) @ replicate (Log_Size ?l - 19) 0\<rparr>) \<and>
      (\<forall>m\<in>set []. tr_GetLog (ID m) r fs' = Inr m)"
    by (intro file_store_torn_record)
       (simp_all add: fs_files_def InvalidLogID_def LogHeadSize_def Log_Size_def Log_ok_def pos_ok_def)
  then show ?thesis
    by (auto simp: LogHeadSize_def Log_Size_def)
qed

text \<open>
  A crash between the creation of a table and its first record: the data file is empty, its
  repaired table has no logs and first id \<open>0\<close>, and the store cannot be opened again.
\<close>

lemma newTableReader_empty:
  assumes "0 < i" and "fs_files fs (DataName i) = Some []" and "fs_err fs = None"
  shows "\<exists>r fs'. newTableReader i mm fs = (Inr r, fs') \<and> tr_first r = 0"
proof -
  let ?t = "\<lparr>tr_index = i, tr_first = 0, tr_last = 0, tr_lastTime = 0, tr_useMmap = mm\<rparr>"
  have d: "checkData t fs = Inl (ErrOther ''data file too short'')" if "tr_index t = i" for t
    using assms(2) that by (simp add: checkData_def newReadFile_def)
  obtain e where c: "tr_check ?t fs = (Inl e, ?t)"
    using d [of ?t] by (cases "checkMeta ?t fs") (auto simp: tr_check_def)
  have "repair_loop [] 0 t m g = (Inr 0, t, m, g)" for t m g
    by (subst repair_loop.simps) (simp add: decodeLogHead_def DecodeHeadAt_def os_ReadAt_def LogHeadSize_def
        split: prod.split)
  then have "\<exists>fs'. repair ?t fs = (Inr (), ?t, fs')"
    using assms
    by (simp add: repair_def newWriteFile_def newRawWriteFile_def wf_Close_def wf_Write_def
        rawWriteFile_Write_def wf_SetOffset_def the_file_def)
  with c assms(1) show ?thesis
    by (auto simp: newTableReader_def)
qed

theorem file_store_empty_table:
  assumes "data_indices fs = [i]" and "0 < i" and "fs_files fs (DataName i) = Some []" and "fs_err fs = None"
  shows "\<exists>fs'. NewFileStore maxSize mm maxNum fs = (Inl (ErrOther ''invalid log in table''), fs')"
  using newTableReader_empty [OF assms(2-4), of mm] assms(1)
  by (auto simp: NewFileStore_def load_def rs_check_def Let_def)

end
