(* ===== verification/Rpl_Replication.thy ===== *)
theory Rpl_Replication
  imports Rpl_GoLevelDBStore Rpl_FileStore_Props
begin

text \<open>
  The replication object (\<open>rpl/rpl.go\<close>): a log store and the id of the last log that has
  been committed to the database, kept in memory and in the file \<open>commit.log\<close>.

  \<open>LogStore\<close> is the interface of \<open>rpl/store.go\<close>: a value of it is one of the stores that
  implement it, and its methods dispatch on which one it is. The functions of the snappy
  library are a field of the object. Locks, the channel that wakes the readers of the log, and
  the goroutine \<open>run\<close> as such are left out; the two actions \<open>run\<close> takes on its tickers are
  \<open>run_purge\<close> and \<open>run_sync\<close>.
\<close>

section \<open>Log stores\<close>

datatype LogStore = LS_GoLevelDB GoLevelDBStore | LS_File FileStore

definition ls_FirstID :: "LogStore \<Rightarrow> u64 res \<times> LogStore" where
  "ls_FirstID s = (case s of
     LS_GoLevelDB g \<Rightarrow> map_prod id LS_GoLevelDB (gs_firstID g) | LS_File f \<Rightarrow> (fst_FirstID f, s))"

definition ls_LastID :: "LogStore \<Rightarrow> u64 res \<times> LogStore" where
  "ls_LastID s = (case s of
     LS_GoLevelDB g \<Rightarrow> map_prod id LS_GoLevelDB (gs_lastID g) | LS_File f \<Rightarrow> (fst_LastID f, s))"

definition ls_GetLog :: "u64 \<Rightarrow> LogStore \<Rightarrow> Log res" where
  "ls_GetLog i s = (case s of LS_GoLevelDB g \<Rightarrow> gs_GetLog i g | LS_File f \<Rightarrow> fst_GetLog i f)"

definition ls_StoreLog :: "Log \<Rightarrow> LogStore \<Rightarrow> unit res \<times> LogStore" where
  "ls_StoreLog l s = (case s of
     LS_GoLevelDB g \<Rightarrow> map_prod id LS_GoLevelDB (gs_StoreLog l g)
   | LS_File f \<Rightarrow> map_prod id LS_File (fst_storeLog l f))"

definition ls_PurgeExpired :: "i64 \<Rightarrow> i64 \<Rightarrow> LogStore \<Rightarrow> unit res \<times> LogStore" where
  "ls_PurgeExpired now n s = (case s of
     LS_GoLevelDB g \<Rightarrow> map_prod id LS_GoLevelDB (gs_PurgeExpired now n g)
   | LS_File f \<Rightarrow> map_prod id LS_File (fst_PurgeExpired now n f))"

definition ls_Clear :: "LogStore \<Rightarrow> unit res \<times> LogStore" where
  "ls_Clear s = (case s of
     LS_GoLevelDB g \<Rightarrow> map_prod id LS_GoLevelDB (gs_Clear g)
   | LS_File f \<Rightarrow> map_prod id LS_File (fst_Clear f))"

text \<open>What is left of a store that is closed: the files. A goleveldb database has no more state.\<close>

definition ls_Close :: "LogStore \<Rightarrow> LogStore" where
  "ls_Close s = (case s of LS_GoLevelDB g \<Rightarrow> s | LS_File f \<Rightarrow> LS_File (fst_Close f))"

section \<open>The replication object\<close>

record Replication =
  rs :: LogStore
  commitID :: u64
  commitLog :: bytes
  commitLog_err :: "err option"
  cfgCompression :: bool
  cfgSyncLog :: int
  snappy_Encode :: "bytes \<Rightarrow> bytes res"
  snappy_Decode :: "bytes \<Rightarrow> bytes res"

text \<open>
  Opening: the commit id is read back from \<open>commit.log\<close>, an empty file standing for \<open>0\<close>.
\<close>

definition readCommitLog :: "bytes \<Rightarrow> u64 res" where
  "readCommitLog f =
     (if f = [] then Inr 0
      else case ReadFull 8 f of Inl e \<Rightarrow> Inl e | Inr (b, r) \<Rightarrow> Inr (get_be64 b))"

text \<open>
  \<open>gst\<close> is the goleveldb store, opened by the library; the store on files is opened on the
  directory \<open>fs\<close> with the three settings of the configuration.
\<close>

definition open_store :: "string \<Rightarrow> GoLevelDBStore res \<Rightarrow> nat \<Rightarrow> bool \<Rightarrow> nat \<Rightarrow> filesys \<Rightarrow> LogStore res" where
  "open_store name gst maxSize mm maxNum fs =
     (if name = ''goleveldb'' then map_sum id LS_GoLevelDB gst
      else map_sum id LS_File (fst (NewFileStore maxSize mm maxNum fs)))"

definition NewReplication ::
  "LogStore res \<Rightarrow> bytes res \<Rightarrow> bool \<Rightarrow> int \<Rightarrow> (bytes \<Rightarrow> bytes res) \<Rightarrow> (bytes \<Rightarrow> bytes res) \<Rightarrow>
   Replication res" where
  "NewReplication st file cmpr syncLog enc dec =
     (case st of
        Inl e \<Rightarrow> Inl e
      | Inr s \<Rightarrow>
          (case file of
             Inl e \<Rightarrow> Inl e
           | Inr f \<Rightarrow>
               (case readCommitLog f of
                  Inl e \<Rightarrow> Inl e
                | Inr c \<Rightarrow> Inr \<lparr>rs = s, commitID = c, commitLog = f, commitLog_err = None,
                    cfgCompression = cmpr, cfgSyncLog = syncLog,
                    snappy_Encode = enc, snappy_Decode = dec\<rparr>)))"

definition r_updateCommitID :: "u64 \<Rightarrow> bool \<Rightarrow> Replication \<Rightarrow> unit res \<times> Replication" where
  "r_updateCommitID i force rp =
     (if force
      then (case commitLog_err rp of
              Some e \<Rightarrow> (Inl e, rp)
            | None \<Rightarrow> (Inr (), rp\<lparr>commitLog := put_be64 i @ drop 8 (commitLog rp), commitID := i\<rparr>))
      else (Inr (), rp\<lparr>commitID := i\<rparr>))"

definition r_UpdateCommitID :: "u64 \<Rightarrow> Replication \<Rightarrow> unit res \<times> Replication" where
  "r_UpdateCommitID i rp = r_updateCommitID i (cfgSyncLog rp = 2) rp"

definition r_Close :: "Replication \<Rightarrow> Replication" where
  "r_Close rp =
     (let rp = rp\<lparr>rs := ls_Close (rs rp)\<rparr> in snd (r_updateCommitID (commitID rp) True rp))"

definition r_Log :: "i64 \<Rightarrow> bytes \<Rightarrow> Replication \<Rightarrow> Log res \<times> Replication" where
  "r_Log now dat rp =
     (case (if cfgCompression rp then snappy_Encode rp dat else Inr dat) of
        Inl e \<Rightarrow> (Inl e, rp)
      | Inr d \<Rightarrow>
          (case ls_LastID (rs rp) of
             (Inl e, s) \<Rightarrow> (Inl e, rp\<lparr>rs := s\<rparr>)
           | (Inr lastID, s) \<Rightarrow>
               if commitID rp < lastID then (Inl ErrCommitIDBehind, rp\<lparr>rs := s\<rparr>)
               else
                 let lastID = (if lastID < commitID rp then commitID rp else lastID);
                     l = \<lparr>ID = lastID + 1, CreateTime = ucast now,
                          Compression = (if cfgCompression rp then 1 else 0), Data = d\<rparr>
                 in case ls_StoreLog l s of
                      (Inl e, s) \<Rightarrow> (Inl e, rp\<lparr>rs := s\<rparr>)
                    | (Inr u, s) \<Rightarrow> (Inr l, rp\<lparr>rs := s\<rparr>)))"

definition r_StoreLog :: "Log \<Rightarrow> Replication \<Rightarrow> unit res \<times> Replication" where
  "r_StoreLog l rp = (case ls_StoreLog l (rs rp) of (x, s) \<Rightarrow> (x, rp\<lparr>rs := s\<rparr>))"

definition r_FirstLogID :: "Replication \<Rightarrow> u64 res \<times> Replication" where
  "r_FirstLogID rp = (case ls_FirstID (rs rp) of (x, s) \<Rightarrow> (x, rp\<lparr>rs := s\<rparr>))"

definition r_LastLogID :: "Replication \<Rightarrow> u64 res \<times> Replication" where
  "r_LastLogID rp = (case ls_LastID (rs rp) of (x, s) \<Rightarrow> (x, rp\<lparr>rs := s\<rparr>))"

definition r_LastCommitID :: "Replication \<Rightarrow> u64 res" where
  "r_LastCommitID rp = Inr (commitID rp)"

record rplStat =
  st_FirstID :: u64
  st_LastID :: u64
  st_CommitID :: u64

definition r_Stat :: "Replication \<Rightarrow> rplStat res \<times> Replication" where
  "r_Stat rp =
     (case r_FirstLogID rp of
        (Inl e, rp) \<Rightarrow> (Inl e, rp)
      | (Inr f, rp) \<Rightarrow>
          (case r_LastLogID rp of
             (Inl e, rp) \<Rightarrow> (Inl e, rp)
           | (Inr l, rp) \<Rightarrow>
               (Inr \<lparr>st_FirstID = f, st_LastID = l, st_CommitID = commitID rp\<rparr>, rp)))"

definition r_CommitIDBehind :: "Replication \<Rightarrow> bool res \<times> Replication" where
  "r_CommitIDBehind rp =
     (case r_LastLogID rp of
        (Inl e, rp) \<Rightarrow> (Inl e, rp)
      | (Inr i, rp) \<Rightarrow> (Inr (commitID rp < i), rp))"

definition r_GetLog :: "u64 \<Rightarrow> Replication \<Rightarrow> Log res" where
  "r_GetLog i rp = ls_GetLog i (rs rp)"

definition r_NextNeedCommitLog :: "Replication \<Rightarrow> Log res \<times> Replication" where
  "r_NextNeedCommitLog rp =
     (case r_LastLogID rp of
        (Inl e, rp) \<Rightarrow> (Inl e, rp)
      | (Inr i, rp) \<Rightarrow>
          if i \<le> commitID rp then (Inl ErrNoBehindLog, rp)
          else (r_GetLog (commitID rp + 1) rp, rp))"

definition r_ClearWithCommitID :: "u64 \<Rightarrow> Replication \<Rightarrow> unit res \<times> Replication" where
  "r_ClearWithCommitID i rp =
     (case ls_Clear (rs rp) of
        (Inl e, s) \<Rightarrow> (Inl e, rp\<lparr>rs := s\<rparr>)
      | (Inr u, s) \<Rightarrow> r_updateCommitID i True (rp\<lparr>rs := s\<rparr>))"

definition r_Clear :: "Replication \<Rightarrow> unit res \<times> Replication" where
  "r_Clear rp = r_ClearWithCommitID 0 rp"

definition run_purge :: "i64 \<Rightarrow> i64 \<Rightarrow> Replication \<Rightarrow> Replication" where
  "run_purge now expiredLogDays rp =
     rp\<lparr>rs := snd (ls_PurgeExpired now (expiredLogDays * 24 * 3600) (rs rp))\<rparr>"

definition run_sync :: "Replication \<Rightarrow> Replication" where
  "run_sync rp =
     (if cfgSyncLog rp \<noteq> 2 then snd (r_updateCommitID (commitID rp) True rp) else rp)"

section \<open>The stores keep the contract\<close>

definition ls_inv :: "LogStore \<Rightarrow> bool" where
  "ls_inv s = (case s of LS_GoLevelDB g \<Rightarrow> gs_inv g | LS_File f \<Rightarrow> fst_inv f)"

definition ls_logs :: "LogStore \<Rightarrow> Log list" where
  "ls_logs s = (case s of LS_GoLevelDB g \<Rightarrow> gs_logs g | LS_File f \<Rightarrow> fst_logs f)"

definition ls_healthy :: "LogStore \<Rightarrow> bool" where
  "ls_healthy s = (case s of LS_GoLevelDB g \<Rightarrow> gs_healthy g | LS_File f \<Rightarrow> fst_healthy f)"

definition ls_may_store :: "LogStore \<Rightarrow> u64 \<Rightarrow> bool" where
  "ls_may_store s i =
     (case s of LS_GoLevelDB g \<Rightarrow> i = lastLogID (gs_logs g) + 1 | LS_File f \<Rightarrow> fst_may_store f i)"

lemmas ls_defs = ls_inv_def ls_logs_def ls_healthy_def ls_may_store_def ls_FirstID_def ls_LastID_def
  ls_GetLog_def ls_StoreLog_def

interpretation ls: log_store ls_inv ls_logs ls_healthy ls_may_store ls_FirstID ls_LastID ls_GetLog ls_StoreLog
proof (unfold_locales, goal_cases)
  case (1 s) then show ?case
    by (cases s) (simp_all add: ls_defs gs.inv_consecutive fst_store.inv_consecutive)
next
  case (2 s) then show ?case
  proof (cases s)
    case (LS_GoLevelDB g)
    with 2 gs.FirstID_ok [of g] show ?thesis by (auto simp: ls_defs fun_eq_iff)
  next
    case (LS_File f)
    with 2 fst_store.FirstID_ok [of f] show ?thesis by (simp add: ls_defs)
  qed
next
  case (3 s) then show ?case
  proof (cases s)
    case (LS_GoLevelDB g)
    with 3 gs.LastID_ok [of g] show ?thesis by (auto simp: ls_defs fun_eq_iff)
  next
    case (LS_File f)
    with 3 fst_store.LastID_ok [of f] show ?thesis by (simp add: ls_defs)
  qed
next
  case (4 s i) then show ?case
    by (cases s) (simp_all add: ls_defs gs.GetLog_ok fst_store.GetLog_ok)
next
  case (5 s) then show ?case
    by (cases s) (simp_all add: ls_defs fst_store.may_store_next)
next
  case (6 s i) then show ?case
    by (cases s) (simp_all add: ls_defs fst_store.may_store_gap)
next
  case (7 s l) then show ?case
  proof (cases s)
    case (LS_GoLevelDB g)
    with 7 gs.StoreLog_ok [of g l] show ?thesis by (auto simp: ls_defs)
  next
    case (LS_File f)
    with 7 fst_store.StoreLog_ok [of f l] show ?thesis by (auto simp: ls_defs)
  qed
next
  case (8 s l) then show ?case
  proof (cases s)
    case (LS_GoLevelDB g)
    with 8 gs.StoreLog_accepts [of g l] show ?thesis by (auto simp: ls_defs)
  next
    case (LS_File f)
    with 8 fst_store.StoreLog_accepts [of f l] show ?thesis by (auto simp: ls_defs)
  qed
qed

lemma ls_Clear_ok:
  assumes "ls_inv s" and "ls_healthy s"
  shows "\<exists>s'. ls_Clear s = (Inr (), s') \<and> ls_inv s' \<and> ls_healthy s' \<and> ls_logs s' = []"
proof (cases s)
  case (LS_GoLevelDB g)
  then show ?thesis
    using assms by (simp add: ls_defs ls_Clear_def gs_Clear_def gs_inv_def gs_logs_def gs_reset_def gs_healthy_def)
next
  case (LS_File f)
  with assms fst_Clear_inv [of f] show ?thesis
    by (auto simp: ls_defs ls_Clear_def)
qed

section \<open>Writing the log\<close>

text \<open>
  \<open>rpl_ready\<close>: everything logged has been committed, the next id is valid and the store
  accepts logs. \<open>rpl_encodes\<close>: the data to log gets through the compression.
\<close>

definition rpl_ready :: "Replication \<Rightarrow> bool" where
  "rpl_ready rp \<longleftrightarrow> ls_inv (rs rp) \<and> ls_healthy (rs rp) \<and>
     commitID rp = lastLogID (ls_logs (rs rp)) \<and> commitID rp + 1 \<noteq> InvalidLogID \<and>
     (cfgSyncLog rp = 2 \<longrightarrow> commitLog_err rp = None)"

definition rpl_payload :: "Replication \<Rightarrow> bytes \<Rightarrow> bytes res" where
  "rpl_payload rp dat = (if cfgCompression rp then snappy_Encode rp dat else Inr dat)"

definition rpl_log :: "i64 \<Rightarrow> bytes \<Rightarrow> Replication \<Rightarrow> Log" where
  "rpl_log now d rp = \<lparr>ID = commitID rp + 1, CreateTime = ucast now,
     Compression = (if cfgCompression rp then 1 else 0), Data = d\<rparr>"

lemma r_Log_ready:
  assumes "rpl_ready rp" and "rpl_payload rp dat = Inr d" and "length d < 2 ^ 32"
  shows "\<exists>s. r_Log now dat rp = (Inr (rpl_log now d rp), rp\<lparr>rs := s\<rparr>) \<and>
    ls_inv s \<and> ls_healthy s \<and> ls_logs s = ls_logs (rs rp) @ [rpl_log now d rp]"
proof -
  let ?l = "rpl_log now d rp"
  obtain s1 where s1: "ls_LastID (rs rp) = (Inr (commitID rp), s1)"
      "ls_inv s1" "ls_logs s1 = ls_logs (rs rp)" "ls_healthy s1"
    using ls.LastID_ok [of "rs rp"] assms(1) by (auto simp: rpl_ready_def)
  obtain s2 where s2: "ls_StoreLog ?l s1 = (Inr (), s2)"
      "ls_inv s2" "ls_logs s2 = ls_logs s1 @ [?l]" "ls_healthy s2"
    using ls.StoreLog_ok [of s1 ?l] ls.may_store_next [of s1] s1 assms(1,3)
    by (auto simp: rpl_ready_def rpl_log_def Log_ok_def)
  show ?thesis
    using assms(2) s1 s2
    by (intro exI [of _ s2]) (simp add: r_Log_def rpl_payload_def rpl_log_def)
qed

lemma r_Log_accepted:
  assumes "rpl_ready rp" and "rpl_payload rp dat = Inr d"
  shows "\<exists>s. r_Log now dat rp = (Inr (rpl_log now d rp), rp\<lparr>rs := s\<rparr>)"
proof -
  let ?l = "rpl_log now d rp"
  obtain s1 where s1: "ls_LastID (rs rp) = (Inr (commitID rp), s1)"
      "ls_inv s1" "ls_logs s1 = ls_logs (rs rp)" "ls_healthy s1"
    using ls.LastID_ok [of "rs rp"] assms(1) by (auto simp: rpl_ready_def)
  obtain s2 where s2: "ls_StoreLog ?l s1 = (Inr (), s2)"
    using ls.StoreLog_accepts [of s1 ?l] ls.may_store_next [of s1] s1 assms(1) by (auto simp: rpl_ready_def rpl_log_def)
  show ?thesis
    using assms(2) s1 s2
    by (intro exI [of _ s2]) (simp add: r_Log_def rpl_payload_def rpl_log_def)
qed

lemma r_UpdateCommitID_ready:
  assumes "cfgSyncLog rp = 2 \<longrightarrow> commitLog_err rp = None"
  shows "\<exists>f. r_UpdateCommitID i rp = (Inr (), rp\<lparr>commitID := i, commitLog := f\<rparr>)"
  using assms
  by (cases "cfgSyncLog rp = 2")
     (auto simp: r_UpdateCommitID_def r_updateCommitID_def
       intro: exI [of _ "commitLog rp"] exI [of _ "put_be64 i @ drop 8 (commitLog rp)"])

text \<open>
  A log that could not be committed blocks every later write: the store is then ahead of the
  commit id, and \<open>r_Log\<close> refuses.
\<close>

lemma r_Log_behind:
  assumes "ls_inv (rs rp)" and "commitID rp < lastLogID (ls_logs (rs rp))"
    and "rpl_payload rp dat = Inr d"
  shows "\<exists>s. r_Log now dat rp = (Inl ErrCommitIDBehind, rp\<lparr>rs := s\<rparr>) \<and>
    ls_inv s \<and> ls_logs s = ls_logs (rs rp)"
  using ls.LastID_ok [OF assms(1)] assms(2,3)
  by (auto simp: r_Log_def rpl_payload_def)

lemma readCommitLog_force:
  "r_updateCommitID i True rp = (Inr (), rp') \<Longrightarrow> readCommitLog (commitLog rp') = Inr i"
  by (auto simp: r_updateCommitID_def readCommitLog_def ReadFull_def split: option.splits)

end
