(* ===== verification/Ledis_DB.thy ===== *)
theory Ledis_DB
  imports Ledis_Codec_Laws Rpl_Replication
begin

text \<open>
  The state of the server side library and the parts every data type uses: committing a batch
  (\<open>ledis/batch.go\<close>), and times to live (\<open>ledis/t_ttl.go\<close>, apart from the background check).

  A batch \<open>t\<close> is the list of its operations. It is empty when its lock is taken, since
  \<open>Unlock\<close> rolls it back, so every operation below starts from \<open>[]\<close>; a commit leaves the
  batch as it is. An operation that returns \<open>(result, err)\<close> returns \<open>Inl err\<close> when \<open>err\<close>
  is not nil: the callers look at the other result only when it is nil. The backend never
  answers a read with an error (\<open>store/goleveldb/db.go\<close> drops it).
\<close>

section \<open>State\<close>

text \<open>
  \<open>ldb_err\<close> is the error the backend answers a write with, if any; \<open>now\<close> is
  \<open>time.Now().Unix()\<close>; \<open>events\<close> are the logs handed to the handlers in \<open>l.rhs\<close>.
\<close>

record Ledis =
  readonly :: bool
  ldb :: kvstore
  ldb_err :: "err option"
  rpl :: "Replication option"
  now :: i64
  events :: "Log list"

text \<open>\<open>nc\<close> is the time of the next check of the \<open>ttlChecker\<close>.\<close>

record DB = Ledis +
  index :: nat
  indexVarBuf :: bytes
  nc :: i64

definition newDB :: "Ledis \<Rightarrow> nat \<Rightarrow> DB" where
  "newDB l i = Ledis.extend l \<lparr>index = i, indexVarBuf = setIndex i, nc = 0\<rparr>"

definition bucket_Get :: "'a Ledis_scheme \<Rightarrow> bytes \<Rightarrow> bytes option res" where
  "bucket_Get l k = Inr (kv_get (ldb l) k)"

definition db_RangeLimitIterator ::
  "'a Ledis_scheme \<Rightarrow> bytes option \<Rightarrow> bytes option \<Rightarrow> byte \<Rightarrow> int \<Rightarrow> int \<Rightarrow> RangeLimitIterator" where
  "db_RangeLimitIterator l mn mx ty offset cnt =
     NewRangeLimitIterator (NewIterator (ldb l)) \<lparr>rMin = mn, rMax = mx, rType = ty\<rparr>
       \<lparr>Offset = offset, Count = cnt\<rparr>"

definition db_RevRangeLimitIterator ::
  "'a Ledis_scheme \<Rightarrow> bytes option \<Rightarrow> bytes option \<Rightarrow> byte \<Rightarrow> int \<Rightarrow> int \<Rightarrow> RangeLimitIterator" where
  "db_RevRangeLimitIterator l mn mx ty offset cnt =
     NewRevRangeLimitIterator (NewIterator (ldb l)) \<lparr>rMin = mn, rMax = mx, rType = ty\<rparr>
       \<lparr>Offset = offset, Count = cnt\<rparr>"

section \<open>Batches\<close>

definition wb_Data :: "wop list \<Rightarrow> bytes" where
  "wb_Data t =
     (case NewBatchData (Dump t) of Inr b \<Rightarrow> BatchData_Data b | Inl e \<Rightarrow> Dump [])"

definition wb_Commit :: "wop list \<Rightarrow> 'a Ledis_scheme \<Rightarrow> unit res \<times> 'a Ledis_scheme" where
  "wb_Commit t l =
     (case ldb_err l of
        Some e \<Rightarrow> (Inl e, l)
      | None \<Rightarrow> (Inr (), l\<lparr>ldb := wb_write t (ldb l)\<rparr>))"

definition propagate :: "Log \<Rightarrow> 'a Ledis_scheme \<Rightarrow> 'a Ledis_scheme" where
  "propagate rl l = l\<lparr>events := events l @ [rl]\<rparr>"

text \<open>
  \<open>log.Fatalf\<close> of the logging library only logs, so the function goes on to its return.
\<close>

definition handleCommit :: "wop list \<Rightarrow> 'a Ledis_scheme \<Rightarrow> unit res \<times> 'a Ledis_scheme" where
  "handleCommit t l =
     (case rpl l of
        Some rp \<Rightarrow>
          (case r_Log (now l) (wb_Data t) rp of
             (Inl e, rp) \<Rightarrow> (Inl e, l\<lparr>rpl := Some rp\<rparr>)
           | (Inr rl, rp) \<Rightarrow>
               (case wb_Commit t (propagate rl (l\<lparr>rpl := Some rp\<rparr>)) of
                  (Inl e, l) \<Rightarrow> (Inl e, l)
                | (Inr u, l) \<Rightarrow>
                    (case r_UpdateCommitID (ID rl) rp of (x, rp) \<Rightarrow> (x, l\<lparr>rpl := Some rp\<rparr>))))
      | None \<Rightarrow> wb_Commit t l)"

definition Commit :: "wop list \<Rightarrow> 'a Ledis_scheme \<Rightarrow> unit res \<times> 'a Ledis_scheme" where
  "Commit t l = (if readonly l then (Inl ErrWriteInROnly, l) else handleCommit t l)"

section \<open>Times to live\<close>

definition setNextCheckTime :: "i64 \<Rightarrow> bool \<Rightarrow> DB \<Rightarrow> DB" where
  "setNextCheckTime when force db =
     (if force then db\<lparr>nc := when\<rparr>
      else if sint when < sint (nc db) then db\<lparr>nc := when\<rparr> else db)"

definition expireAt :: "DB \<Rightarrow> wop list \<Rightarrow> byte \<Rightarrow> bytes \<Rightarrow> i64 \<Rightarrow> wop list \<times> DB" where
  "expireAt db t dataType key when =
     (let mk = expEncodeMetaKey (indexVarBuf db) dataType key;
          tk = expEncodeTimeKey (indexVarBuf db) dataType key when
      in (wb_Put mk (PutInt64 when) (wb_Put tk mk t), setNextCheckTime when False db))"

definition expire :: "DB \<Rightarrow> wop list \<Rightarrow> byte \<Rightarrow> bytes \<Rightarrow> i64 \<Rightarrow> wop list \<times> DB" where
  "expire db t dataType key duration = expireAt db t dataType key (now db + duration)"

definition ttl :: "DB \<Rightarrow> byte \<Rightarrow> bytes \<Rightarrow> i64 res" where
  "ttl db dataType key =
     (let mk = expEncodeMetaKey (indexVarBuf db) dataType key in
      case Int64 (bucket_Get db mk) of
        Inl e \<Rightarrow> Inl e
      | Inr t \<Rightarrow>
          if t = 0 then Inr (-1)
          else let t = t - now db in if sint t \<le> 0 then Inr (-1) else Inr t)"

definition rmExpire :: "DB \<Rightarrow> wop list \<Rightarrow> byte \<Rightarrow> bytes \<Rightarrow> i64 res \<times> wop list" where
  "rmExpire db t dataType key =
     (let mk = expEncodeMetaKey (indexVarBuf db) dataType key in
      case bucket_Get db mk of
        Inl e \<Rightarrow> (Inl e, t)
      | Inr None \<Rightarrow> (Inr 0, t)
      | Inr (Some v) \<Rightarrow>
          (case Int64 (Inr (Some v)) of
             Inl e \<Rightarrow> (Inl e, t)
           | Inr when \<Rightarrow>
               let tk = expEncodeTimeKey (indexVarBuf db) dataType key when
               in (Inr 1, wb_Delete tk (wb_Delete mk t))))"

section \<open>Commits\<close>

text \<open>
  \<open>writable\<close>: the commit of a batch goes through. With replication this needs a log store
  that is neither behind nor broken, and a compression that does not fail.
\<close>

definition writable :: "'a Ledis_scheme \<Rightarrow> bool" where
  "writable l \<longleftrightarrow> \<not> readonly l \<and> ldb_err l = None \<and>
     (\<forall>rp. rpl l = Some rp \<longrightarrow> rpl_ready rp \<and> (\<forall>d. \<exists>d'. rpl_payload rp d = Inr d'))"

definition committed :: "wop list \<Rightarrow> 'a Ledis_scheme \<Rightarrow> 'a Ledis_scheme" where
  "committed t l = snd (Commit t l)"

lemma bucket_Get_simp [simp]: "bucket_Get l k = Inr (kv_get (ldb l) k)"
  by (simp add: bucket_Get_def)

lemma wb_Data_Dump [simp]: "wb_Data t = Dump t"
proof -
  have "drop 8 (Dump t) = put_le32 (word_of_nat (length t)) @ concat (map appendRec t)"
    by (simp add: Dump_def)
  then show ?thesis
    by (simp add: wb_Data_def NewBatchData_def BatchData_Data_def batchHdrLen_def Dump_def)
qed

lemma Commit_writable:
  assumes "writable l"
  shows "Commit t l = (Inr (), committed t l) \<and> ldb (committed t l) = wb_write t (ldb l)"
proof (cases "rpl l")
  case None
  with assms show ?thesis
    by (simp add: committed_def Commit_def handleCommit_def wb_Commit_def writable_def)
next
  case (Some rp)
  then obtain d where rp: "rpl_ready rp" "rpl_payload rp (Dump t) = Inr d"
    using assms unfolding writable_def by blast
  obtain s where s: "r_Log (now l) (Dump t) rp = (Inr (rpl_log (now l) d rp), rp\<lparr>rs := s\<rparr>)"
    using r_Log_accepted [OF rp] by blast
  have "cfgSyncLog (rp\<lparr>rs := s\<rparr>) = 2 \<longrightarrow> commitLog_err (rp\<lparr>rs := s\<rparr>) = None"
    using rp(1) by (simp add: rpl_ready_def)
  then obtain f where f: "r_UpdateCommitID (ID (rpl_log (now l) d rp)) (rp\<lparr>rs := s\<rparr>) =
      (Inr (), rp\<lparr>rs := s, commitID := ID (rpl_log (now l) d rp), commitLog := f\<rparr>)"
    using r_UpdateCommitID_ready by blast
  show ?thesis
    using assms
    by (simp add: committed_def Commit_def handleCommit_def wb_Commit_def writable_def Some s f
        propagate_def)
qed

lemma Commit_readonly: "readonly l \<Longrightarrow> Commit t l = (Inl ErrWriteInROnly, l)"
  by (simp add: Commit_def)

text \<open>Whatever a commit does, it writes nothing to the database unless it writes the whole batch.\<close>

lemma Commit_atomic: "ldb (snd (Commit t l)) = ldb l \<or> ldb (snd (Commit t l)) = wb_write t (ldb l)"
  by (auto simp: Commit_def handleCommit_def wb_Commit_def propagate_def
      split: option.splits prod.splits sum.splits)

lemma Commit_frame [simp]:
  "readonly (snd (Commit t l)) = readonly l"
  "ldb_err (snd (Commit t l)) = ldb_err l"
  "now (snd (Commit t l)) = now l"
  by (auto simp: Commit_def handleCommit_def wb_Commit_def propagate_def
      split: option.splits prod.splits sum.splits)

lemma Commit_frame_DB [simp]:
  fixes db :: DB
  shows "index (snd (Commit t db)) = index db"
    "indexVarBuf (snd (Commit t db)) = indexVarBuf db"
    "nc (snd (Commit t db)) = nc db"
  by (auto simp: Commit_def handleCommit_def wb_Commit_def propagate_def
      split: option.splits prod.splits sum.splits)

lemma committed_frame [simp]:
  "readonly (committed t l) = readonly l"
  "now (committed t l) = now l"
  "indexVarBuf (committed t (db :: DB)) = indexVarBuf db"
  "index (committed t db) = index db"
  "nc (committed t db) = nc db"
  by (simp_all add: committed_def)

lemma writable_nc [simp]: "writable (db\<lparr>nc := x\<rparr>) = writable (db :: DB)"
  by (simp add: writable_def)

lemma setNextCheckTime_frame [simp]:
  "ldb (setNextCheckTime w f db) = ldb db"
  "indexVarBuf (setNextCheckTime w f db) = indexVarBuf db"
  "now (setNextCheckTime w f db) = now db"
  "writable (setNextCheckTime w f db) = writable db"
  "readonly (setNextCheckTime w f db) = readonly db"
  by (auto simp: setNextCheckTime_def)

section \<open>Well-formed databases\<close>

text \<open>
  \<open>db_ok\<close>: the entries of the backend are in order, the varint buffer is that of the index,
  and every key that starts with it is the key of some datum.
\<close>

definition key_ok :: "bytes \<Rightarrow> bytes \<Rightarrow> bool" where
  "key_ok p k \<longleftrightarrow> (\<forall>xs. k = p @ xs \<longrightarrow> (\<exists>lk. lkey_ok lk \<and> k = lkey_encode p lk))"

definition db_ok :: "DB \<Rightarrow> bool" where
  "db_ok db \<longleftrightarrow> kv_ok (ldb db) \<and> indexVarBuf db = setIndex (index db) \<and> index db < 2 ^ 64 \<and>
     (\<forall>k v. kv_get (ldb db) k = Some v \<longrightarrow> key_ok (indexVarBuf db) k)"

lemma db_ok_kv_ok [simp]: "db_ok db \<Longrightarrow> kv_ok (ldb db)"
  by (simp add: db_ok_def)

definition op_ok :: "bytes \<Rightarrow> wop \<Rightarrow> bool" where
  "op_ok p w = (case w of WPut k v \<Rightarrow> key_ok p k | WDel k \<Rightarrow> True)"

lemma wb_effect_ok:
  assumes "\<forall>k v. m k = Some v \<longrightarrow> key_ok p k" and "list_all (op_ok p) t" and "wb_effect t m k = Some v"
  shows "key_ok p k"
  using assms
proof (induction t arbitrary: m)
  case (Cons w t)
  have "\<forall>k v. wop_effect w m k = Some v \<longrightarrow> key_ok p k"
    using Cons.prems(1,2) by (cases w) (auto simp: op_ok_def)
  with Cons show ?case by simp
qed auto

lemma db_ok_committed:
  assumes "db_ok db" and "writable db" and "list_all (op_ok (indexVarBuf db)) t"
  shows "db_ok (committed t db)"
proof -
  have "key_ok (indexVarBuf db) k" if "wb_effect t (kv_get (ldb db)) k = Some v" for k v
    using assms(1) wb_effect_ok [OF _ assms(3) that] unfolding db_ok_def by blast
  then show ?thesis
    using assms(1) Commit_writable [OF assms(2), of t]
    by (simp add: db_ok_def kv_get_write kv_ok_write)
qed

lemma key_ok_lkey [simp]: "lkey_ok lk \<Longrightarrow> key_ok p (lkey_encode p lk)"
  by (auto simp: key_ok_def)

section \<open>A database to compute with\<close>

definition demo_db :: DB where
  "demo_db = \<lparr>readonly = False, ldb = [], ldb_err = None, rpl = None, now = 1000, events = [],
     index = 0, indexVarBuf = [0], nc = 0\<rparr>"

lemma demo_db_simps [simp]:
  "writable demo_db" "ldb demo_db = []" "indexVarBuf demo_db = [0]" "now demo_db = 1000"
  "nc demo_db = 0" "index demo_db = 0" "\<not> readonly demo_db"
  by (simp_all add: demo_db_def writable_def)

lemma demo_db_ok [simp]: "db_ok demo_db"
  by (simp add: db_ok_def demo_db_def setIndex_def put_uvarint.simps kv_get_def)

end
