(* ===== verification/Ledis_KV.thy ===== *)
theory Ledis_KV
  imports Ledis_DB
begin

text \<open>
  The key-value type, \<open>ledis/t_kv.go\<close>. Every operation maps its arguments and the database to
  its result and the database after it. Results that count things are \<open>int\<close>, values that the
  code computes with 64-bit wrap-around (counters, times) are 64-bit words, and a Go \<open>int\<close>
  argument is an \<open>int\<close>, with the wrap-around written out where a sum of two of them can overflow.
\<close>

unbundle bit_operations_syntax

definition go_int :: "int \<Rightarrow> int" where
  "go_int x = sint (word_of_int x :: i64)"

text \<open>\<open>err = t.Commit(); return n, err\<close>\<close>

definition commit_ret :: "wop list \<Rightarrow> 'a \<Rightarrow> DB \<Rightarrow> 'a res \<times> DB" where
  "commit_ret t n db = (case Commit t db of (Inl e, db) \<Rightarrow> (Inl e, db) | (Inr u, db) \<Rightarrow> (Inr n, db))"

definition old_value :: "bytes option \<Rightarrow> bytes" where
  "old_value v = (case v of None \<Rightarrow> [] | Some b \<Rightarrow> b)"

section \<open>Values\<close>

definition incr :: "bytes \<Rightarrow> i64 \<Rightarrow> DB \<Rightarrow> i64 res \<times> DB" where
  "incr key delta db =
     (case checkKeySize key of
        Inl e \<Rightarrow> (Inl e, db)
      | Inr u \<Rightarrow>
          let key = encodeKVKey (indexVarBuf db) key in
          case StrInt64 (bucket_Get db key) of
            Inl e \<Rightarrow> (Inl e, db)
          | Inr n \<Rightarrow>
              let n = n + delta;
                  t = wb_Put key (FormatInt64ToSlice n) []
              in commit_ret t n db)"

definition Decr :: "bytes \<Rightarrow> DB \<Rightarrow> i64 res \<times> DB" where
  "Decr key db = incr key (-1) db"

definition DecrBy :: "bytes \<Rightarrow> i64 \<Rightarrow> DB \<Rightarrow> i64 res \<times> DB" where
  "DecrBy key decrement db = incr key (- decrement) db"

definition Incr :: "bytes \<Rightarrow> DB \<Rightarrow> i64 res \<times> DB" where
  "Incr key db = incr key 1 db"

definition IncrBy :: "bytes \<Rightarrow> i64 \<Rightarrow> DB \<Rightarrow> i64 res \<times> DB" where
  "IncrBy key increment db = incr key increment db"

definition db_delete :: "DB \<Rightarrow> wop list \<Rightarrow> bytes \<Rightarrow> int \<times> wop list" where
  "db_delete db t key = (1, wb_Delete (encodeKVKey (indexVarBuf db) key) t)"

definition Exists :: "bytes \<Rightarrow> DB \<Rightarrow> int res" where
  "Exists key db =
     (case checkKeySize key of
        Inl e \<Rightarrow> Inl e
      | Inr u \<Rightarrow>
          (case bucket_Get db (encodeKVKey (indexVarBuf db) key) of
             Inr (Some v) \<Rightarrow> Inr 1
           | Inr None \<Rightarrow> Inr 0
           | Inl e \<Rightarrow> Inl e))"

definition setExpireAt :: "bytes \<Rightarrow> i64 \<Rightarrow> DB \<Rightarrow> int res \<times> DB" where
  "setExpireAt key when db =
     (case Exists key db of
        Inl e \<Rightarrow> (Inl e, db)
      | Inr exist \<Rightarrow>
          if exist = 0 then (Inr 0, db)
          else (case expireAt db [] KVType key when of (t, db) \<Rightarrow> commit_ret t 1 db))"

fun Del_loop :: "DB \<Rightarrow> bytes list \<Rightarrow> wop list \<Rightarrow> wop list" where
  "Del_loop db [] t = t"
| "Del_loop db (k # ks) t =
     Del_loop db ks
       (snd (rmExpire db (wb_Delete (encodeKVKey (indexVarBuf db) k) t) KVType k))"

definition Del :: "bytes list \<Rightarrow> DB \<Rightarrow> int res \<times> DB" where
  "Del keys db =
     (if length keys = 0 then (Inr 0, db)
      else commit_ret (Del_loop db keys []) (int (length keys)) db)"

definition Get :: "bytes \<Rightarrow> DB \<Rightarrow> bytes option res" where
  "Get key db =
     (case checkKeySize key of
        Inl e \<Rightarrow> Inl e
      | Inr u \<Rightarrow> bucket_Get db (encodeKVKey (indexVarBuf db) key))"

definition GetSlice :: "bytes \<Rightarrow> DB \<Rightarrow> bytes option res" where
  "GetSlice key db =
     (case checkKeySize key of
        Inl e \<Rightarrow> Inl e
      | Inr u \<Rightarrow> bucket_Get db (encodeKVKey (indexVarBuf db) key))"

definition GetSet :: "bytes \<Rightarrow> bytes \<Rightarrow> DB \<Rightarrow> bytes option res \<times> DB" where
  "GetSet key v db =
     (case checkKeySize key of
        Inl e \<Rightarrow> (Inl e, db)
      | Inr u \<Rightarrow>
          (case checkValueSize v of
             Inl e \<Rightarrow> (Inl e, db)
           | Inr u \<Rightarrow>
               let key = encodeKVKey (indexVarBuf db) key in
               case bucket_Get db key of
                 Inl e \<Rightarrow> (Inl e, db)
               | Inr oldValue \<Rightarrow> commit_ret (wb_Put key v []) oldValue db))"

fun MGet_loop :: "bytes \<Rightarrow> bytes list \<Rightarrow> Iterator \<Rightarrow> bytes option list res" where
  "MGet_loop p [] it = Inr []"
| "MGet_loop p (k # ks) it =
     (case checkKeySize k of
        Inl e \<Rightarrow> Inl e
      | Inr u \<Rightarrow>
          (case it_Find (encodeKVKey p k) it of
             (v, it) \<Rightarrow> (case MGet_loop p ks it of Inl e \<Rightarrow> Inl e | Inr vs \<Rightarrow> Inr (v # vs))))"

definition MGet :: "bytes list \<Rightarrow> DB \<Rightarrow> bytes option list res" where
  "MGet keys db = MGet_loop (indexVarBuf db) keys (NewIterator (ldb db))"

type_synonym KVPair = "bytes \<times> bytes"

fun MSet_loop :: "bytes \<Rightarrow> KVPair list \<Rightarrow> wop list \<Rightarrow> wop list res" where
  "MSet_loop p [] t = Inr t"
| "MSet_loop p ((k, v) # args) t =
     (case checkKeySize k of
        Inl e \<Rightarrow> Inl e
      | Inr u \<Rightarrow>
          (case checkValueSize v of
             Inl e \<Rightarrow> Inl e
           | Inr u \<Rightarrow> MSet_loop p args (wb_Put (encodeKVKey p k) v t)))"

definition MSet :: "KVPair list \<Rightarrow> DB \<Rightarrow> unit res \<times> DB" where
  "MSet args db =
     (if length args = 0 then (Inr (), db)
      else case MSet_loop (indexVarBuf db) args [] of
        Inl e \<Rightarrow> (Inl e, db)
      | Inr t \<Rightarrow> Commit t db)"

definition Set :: "bytes \<Rightarrow> bytes \<Rightarrow> DB \<Rightarrow> unit res \<times> DB" where
  "Set key v db =
     (case checkKeySize key of
        Inl e \<Rightarrow> (Inl e, db)
      | Inr u \<Rightarrow>
          (case checkValueSize v of
             Inl e \<Rightarrow> (Inl e, db)
           | Inr u \<Rightarrow> Commit (wb_Put (encodeKVKey (indexVarBuf db) key) v []) db))"

text \<open>
  In \<open>SetNX\<close> the error of the commit is assigned to a variable of the inner scope, so the
  \<open>err\<close> returned at the end is always nil.
\<close>

definition SetNX :: "bytes \<Rightarrow> bytes \<Rightarrow> DB \<Rightarrow> int res \<times> DB" where
  "SetNX key v db =
     (case checkKeySize key of
        Inl e \<Rightarrow> (Inl e, db)
      | Inr u \<Rightarrow>
          (case checkValueSize v of
             Inl e \<Rightarrow> (Inl e, db)
           | Inr u \<Rightarrow>
               let key = encodeKVKey (indexVarBuf db) key in
               case bucket_Get db key of
                 Inl e \<Rightarrow> (Inl e, db)
               | Inr (Some _) \<Rightarrow> (Inr 0, db)
               | Inr None \<Rightarrow> (Inr 1, snd (Commit (wb_Put key v []) db))))"

definition SetEX :: "bytes \<Rightarrow> i64 \<Rightarrow> bytes \<Rightarrow> DB \<Rightarrow> unit res \<times> DB" where
  "SetEX key duration v db =
     (case checkKeySize key of
        Inl e \<Rightarrow> (Inl e, db)
      | Inr u \<Rightarrow>
          (case checkValueSize v of
             Inl e \<Rightarrow> (Inl e, db)
           | Inr u \<Rightarrow>
               if sint duration \<le> 0 then (Inl ErrExpireValue, db)
               else let ek = encodeKVKey (indexVarBuf db) key;
                        t = wb_Put ek v []
                    in case expireAt db t KVType key (now db + duration) of
                         (t, db) \<Rightarrow> Commit t db))"

section \<open>Times to live\<close>

definition Expire :: "bytes \<Rightarrow> i64 \<Rightarrow> DB \<Rightarrow> int res \<times> DB" where
  "Expire key duration db =
     (if sint duration \<le> 0 then (Inl ErrExpireValue, db)
      else setExpireAt key (now db + duration) db)"

definition ExpireAt :: "bytes \<Rightarrow> i64 \<Rightarrow> DB \<Rightarrow> int res \<times> DB" where
  "ExpireAt key when db =
     (if sint when \<le> sint (now db) then (Inl ErrExpireValue, db) else setExpireAt key when db)"

definition TTL :: "bytes \<Rightarrow> DB \<Rightarrow> i64 res" where
  "TTL key db = (case checkKeySize key of Inl e \<Rightarrow> Inl e | Inr u \<Rightarrow> ttl db KVType key)"

definition Persist :: "bytes \<Rightarrow> DB \<Rightarrow> i64 res \<times> DB" where
  "Persist key db =
     (case checkKeySize key of
        Inl e \<Rightarrow> (Inl e, db)
      | Inr u \<Rightarrow>
          (case rmExpire db [] KVType key of
             (Inl e, t) \<Rightarrow> (Inl e, db)
           | (Inr n, t) \<Rightarrow> commit_ret t n db))"

section \<open>Strings\<close>

text \<open>The new value of \<open>SetRange\<close>: grown by zero bytes if needed, then overwritten from the offset.\<close>

definition setRange_value :: "int \<Rightarrow> bytes \<Rightarrow> bytes \<Rightarrow> bytes res" where
  "setRange_value offset v oldValue =
     (let extra = go_int (offset + int (length v) - int (length oldValue));
          oldValue = (if 0 < extra then oldValue @ replicate (nat extra) 0 else oldValue)
      in if offset < 0 \<or> int (length oldValue) < offset then Inl GoPanic
         else let n = nat offset
              in Inr (take n oldValue @ take (length oldValue - n) v @
                      drop (n + length v) oldValue))"

definition SetRange :: "bytes \<Rightarrow> int \<Rightarrow> bytes \<Rightarrow> DB \<Rightarrow> int res \<times> DB" where
  "SetRange key offset v db =
     (if length v = 0 then (Inr 0, db)
      else case checkKeySize key of
        Inl e \<Rightarrow> (Inl e, db)
      | Inr u \<Rightarrow>
          if int MaxValueSize < go_int (int (length v) + offset) then (Inl ErrValueSize, db)
          else
            let key = encodeKVKey (indexVarBuf db) key in
            case bucket_Get db key of
              Inl e \<Rightarrow> (Inl e, db)
            | Inr ov \<Rightarrow>
                (case setRange_value offset v (old_value ov) of
                   Inl e \<Rightarrow> (Inl e, db)
                 | Inr oldValue \<Rightarrow>
                     commit_ret (wb_Put key oldValue []) (int (length oldValue)) db))"

definition getRange :: "int \<Rightarrow> int \<Rightarrow> int \<Rightarrow> int \<times> int" where
  "getRange start stop valLen =
     (let start = (if start < 0 then valLen + start else start);
          stop = (if stop < 0 then valLen + stop else stop);
          start = (if start < 0 then 0 else start);
          stop = (if stop < 0 then 0 else stop);
          stop = (if valLen \<le> stop then valLen - 1 else stop)
      in (start, stop))"

text \<open>\<open>value[lo : hi]\<close>\<close>

definition slice :: "int \<Rightarrow> int \<Rightarrow> bytes \<Rightarrow> bytes res" where
  "slice lo hi v =
     (if 0 \<le> lo \<and> lo \<le> hi \<and> hi \<le> int (length v) then Inr (take (nat hi - nat lo) (drop (nat lo) v))
      else Inl GoPanic)"

definition GetRange :: "bytes \<Rightarrow> int \<Rightarrow> int \<Rightarrow> DB \<Rightarrow> bytes option res" where
  "GetRange key start stop db =
     (case checkKeySize key of
        Inl e \<Rightarrow> Inl e
      | Inr u \<Rightarrow>
          (case bucket_Get db (encodeKVKey (indexVarBuf db) key) of
             Inl e \<Rightarrow> Inl e
           | Inr ov \<Rightarrow>
               let v = old_value ov in
               case getRange start stop (int (length v)) of
                 (start, stop) \<Rightarrow>
                   if stop < start then Inr None
                   else (case slice start (stop + 1) v of Inl e \<Rightarrow> Inl e | Inr b \<Rightarrow> Inr (Some b))))"

text \<open>
  For a missing key the backend's slice is a nil interface, and calling its method \<open>Size\<close>
  panics.
\<close>

definition StrLen :: "bytes \<Rightarrow> DB \<Rightarrow> int res" where
  "StrLen key db =
     (case GetSlice key db of
        Inl e \<Rightarrow> Inl e
      | Inr None \<Rightarrow> Inl GoPanic
      | Inr (Some s) \<Rightarrow> Inr (int (length s)))"

text \<open>\<open>Append\<close> returns \<open>0, nil\<close> when the commit fails.\<close>

definition Append :: "bytes \<Rightarrow> bytes \<Rightarrow> DB \<Rightarrow> int res \<times> DB" where
  "Append key v db =
     (if length v = 0 then (Inr 0, db)
      else case checkKeySize key of
        Inl e \<Rightarrow> (Inl e, db)
      | Inr u \<Rightarrow>
          let key = encodeKVKey (indexVarBuf db) key in
          case bucket_Get db key of
            Inl e \<Rightarrow> (Inl e, db)
          | Inr ov \<Rightarrow>
              let oldValue = old_value ov in
              if MaxValueSize < length oldValue + length v then (Inl ErrValueSize, db)
              else let oldValue = oldValue @ v in
                case Commit (wb_Put key oldValue []) db of
                  (Inl e, db) \<Rightarrow> (Inr 0, db)
                | (Inr u, db) \<Rightarrow> (Inr (int (length oldValue)), db))"

end
