(* ===== verification/Ledis_KV_Bits.thy ===== *)
theory Ledis_KV_Bits
  imports Ledis_KV
begin

text \<open>
  The bit operations on values, the second half of \<open>ledis/t_kv.go\<close>. Bit \<open>0\<close> of a value is the
  most significant bit of its first byte.
\<close>

unbundle bit_operations_syntax

section \<open>BITOP\<close>

definition BitAND :: bytes where "BitAND = [97, 110, 100]"
definition BitOR :: bytes where "BitOR = [111, 114]"
definition BitXOR :: bytes where "BitXOR = [120, 111, 114]"
definition BitNot :: bytes where "BitNot = [110, 111, 116]"

lemmas bitop_names = BitAND_def BitOR_def BitXOR_def BitNot_def

definition ToLower :: "bytes \<Rightarrow> bytes" where
  "ToLower s = map (\<lambda>c. if 65 \<le> c \<and> c \<le> 90 then c + 32 else c) s"

text \<open>
  One round of the loop over the source keys: the shorter value is combined into the longer
  one, whose remaining bytes are combined with \<open>0\<close>. The name of the operation is only looked
  at while there are bytes to combine.
\<close>

definition bitop_bytes :: "bytes \<Rightarrow> bytes \<Rightarrow> bytes \<Rightarrow> bytes res" where
  "bitop_bytes opn value0 ovalue0 =
     (let (v, ov) = (if length value0 < length ovalue0 then (ovalue0, value0) else (value0, ovalue0));
          n = length ov
      in if n \<noteq> 0 \<and> opn \<notin> {BitAND, BitOR, BitXOR} then Inl (ErrOther ''invalid op type'')
         else
           let hd' = map2 (\<lambda>a b. if opn = BitAND then a AND b
                                 else if opn = BitOR then a OR b
                                 else a XOR b) (take n v) ov;
               tl' = map (\<lambda>a. if opn = BitAND then a AND 0
                              else if opn = BitOR then a OR 0
                              else if opn = BitXOR then a XOR 0 else a) (drop n v)
           in Inr (hd' @ tl'))"

fun BitOP_loop :: "DB \<Rightarrow> bytes \<Rightarrow> bytes list \<Rightarrow> bytes \<Rightarrow> bytes res" where
  "BitOP_loop db opn [] v = Inr v"
| "BitOP_loop db opn (k # ks) v =
     (case checkKeySize k of
        Inl e \<Rightarrow> Inl e
      | Inr u \<Rightarrow>
          (case bucket_Get db (encodeKVKey (indexVarBuf db) k) of
             Inl e \<Rightarrow> Inl e
           | Inr ov \<Rightarrow>
               (case bitop_bytes opn v (old_value ov) of
                  Inl e \<Rightarrow> Inl e
                | Inr v \<Rightarrow> BitOP_loop db opn ks v)))"

definition BitOP :: "bytes \<Rightarrow> bytes \<Rightarrow> bytes list \<Rightarrow> DB \<Rightarrow> int res \<times> DB" where
  "BitOP opn destKey srcKeys db =
     (case checkKeySize destKey of
        Inl e \<Rightarrow> (Inl e, db)
      | Inr u \<Rightarrow>
          let opn = ToLower opn in
          if length srcKeys = 0 then (Inr 0, db)
          else if opn = BitNot \<and> 1 < length srcKeys
          then (Inl (ErrOther ''BITOP NOT has only one srckey''), db)
          else if length srcKeys < 2 then (Inr 0, db)
          else
            case bucket_Get db (encodeKVKey (indexVarBuf db) (srcKeys ! 0)) of
              Inl e \<Rightarrow> (Inl e, db)
            | Inr ov \<Rightarrow>
                (case (if opn = BitNot then Inr (map NOT (old_value ov))
                       else BitOP_loop db opn (drop 1 srcKeys) (old_value ov)) of
                   Inl e \<Rightarrow> (Inl e, db)
                 | Inr v \<Rightarrow>
                     commit_ret (wb_Put (encodeKVKey (indexVarBuf db) destKey) v [])
                       (int (length v)) db))"

section \<open>BITCOUNT\<close>

definition bitsInByte :: "nat list" where
  "bitsInByte =
    [0, 1, 1, 2, 1, 2, 2, 3, 1, 2, 2, 3, 2, 3, 3,
     4, 1, 2, 2, 3, 2, 3, 3, 4, 2, 3, 3, 4, 3, 4, 4, 5, 1, 2, 2, 3, 2, 3,
     3, 4, 2, 3, 3, 4, 3, 4, 4, 5, 2, 3, 3, 4, 3, 4, 4, 5, 3, 4, 4, 5, 4,
     5, 5, 6, 1, 2, 2, 3, 2, 3, 3, 4, 2, 3, 3, 4, 3, 4, 4, 5, 2, 3, 3, 4,
     3, 4, 4, 5, 3, 4, 4, 5, 4, 5, 5, 6, 2, 3, 3, 4, 3, 4, 4, 5, 3, 4, 4,
     5, 4, 5, 5, 6, 3, 4, 4, 5, 4, 5, 5, 6, 4, 5, 5, 6, 5, 6, 6, 7, 1, 2,
     2, 3, 2, 3, 3, 4, 2, 3, 3, 4, 3, 4, 4, 5, 2, 3, 3, 4, 3, 4, 4, 5, 3,
     4, 4, 5, 4, 5, 5, 6, 2, 3, 3, 4, 3, 4, 4, 5, 3, 4, 4, 5, 4, 5, 5, 6,
     3, 4, 4, 5, 4, 5, 5, 6, 4, 5, 5, 6, 5, 6, 6, 7, 2, 3, 3, 4, 3, 4, 4,
     5, 3, 4, 4, 5, 4, 5, 5, 6, 3, 4, 4, 5, 4, 5, 5, 6, 4, 5, 5, 6, 5, 6,
     6, 7, 3, 4, 4, 5, 4, 5, 5, 6, 4, 5, 5, 6, 5, 6, 6, 7, 4, 5, 5, 6, 5,
     6, 6, 7, 5, 6, 6, 7, 6, 7, 7, 8]"

definition numberBitCount :: "u32 \<Rightarrow> u32" where
  "numberBitCount i0 =
     (let i1 = i0 - (drop_bit 1 i0 AND 0x55555555);
          i2 = (i1 AND 0x33333333) + (drop_bit 2 i1 AND 0x33333333)
      in drop_bit 24 (((i2 + drop_bit 4 i2) AND 0x0F0F0F0F) * 0x01010101))"

fun bitCount_loop :: "bytes \<Rightarrow> nat" where
  "bitCount_loop (a # b # c # d # v) = unat (numberBitCount (get_be32 [a, b, c, d])) + bitCount_loop v"
| "bitCount_loop v = sum_list (map (\<lambda>b. bitsInByte ! unat b) v)"

definition BitCount :: "bytes \<Rightarrow> int \<Rightarrow> int \<Rightarrow> DB \<Rightarrow> int res" where
  "BitCount key start stop db =
     (case checkKeySize key of
        Inl e \<Rightarrow> Inl e
      | Inr u \<Rightarrow>
          (case bucket_Get db (encodeKVKey (indexVarBuf db) key) of
             Inl e \<Rightarrow> Inl e
           | Inr ov \<Rightarrow>
               let v = old_value ov in
               case getRange start stop (int (length v)) of
                 (start, stop) \<Rightarrow>
                   (case slice start (stop + 1) v of
                      Inl e \<Rightarrow> Inl e
                    | Inr v \<Rightarrow> Inr (int (bitCount_loop v)))))"

section \<open>BITPOS\<close>

text \<open>The inner loop over the bits of a byte, from \<open>j\<close> on.\<close>

fun bitPos_byte :: "int \<Rightarrow> byte \<Rightarrow> nat list \<Rightarrow> nat option" where
  "bitPos_byte on v [] = None"
| "bitPos_byte on v (j # js) =
     (let isNull = (v AND push_bit (7 - j) 1 = 0) in
      if on = 1 \<and> \<not> isNull \<or> on = 0 \<and> isNull then Some j else bitPos_byte on v js)"

fun bitPos_loop :: "int \<Rightarrow> byte \<Rightarrow> nat \<Rightarrow> bytes \<Rightarrow> (nat \<times> nat) option" where
  "bitPos_loop on skipValue i [] = None"
| "bitPos_loop on skipValue i (v # vs) =
     (case (if v \<noteq> skipValue then bitPos_byte on v [0..<8] else None) of
        Some j \<Rightarrow> Some (i, j)
      | None \<Rightarrow> bitPos_loop on skipValue (Suc i) vs)"

definition BitPos :: "bytes \<Rightarrow> int \<Rightarrow> int \<Rightarrow> int \<Rightarrow> DB \<Rightarrow> int res" where
  "BitPos key on start stop db =
     (case checkKeySize key of
        Inl e \<Rightarrow> Inl e
      | Inr u \<Rightarrow>
          if on AND NOT 1 \<noteq> 0 then Inl (ErrOther ''bit must be 0 or 1'')
          else
            let skipValue = (if on = 0 then 0xFF else 0) in
            case bucket_Get db (encodeKVKey (indexVarBuf db) key) of
              Inl e \<Rightarrow> Inl e
            | Inr ov \<Rightarrow>
                let v = old_value ov in
                case getRange start stop (int (length v)) of
                  (start, stop) \<Rightarrow>
                    (case slice start (stop + 1) v of
                       Inl e \<Rightarrow> Inl e
                     | Inr v \<Rightarrow>
                         (case bitPos_loop on skipValue 0 v of
                            Some (i, j) \<Rightarrow> Inr ((start + int i) * 8 + int j)
                          | None \<Rightarrow> Inr (-1))))"

section \<open>SETBIT and GETBIT\<close>

text \<open>The new value of \<open>SetBit\<close> and the bit it replaces.\<close>

definition setBit_value :: "int \<Rightarrow> int \<Rightarrow> bytes \<Rightarrow> bytes \<times> byte" where
  "setBit_value offset on v =
     (let byteOffset = unat (drop_bit 3 (word_of_int offset :: u32));
          extra = int byteOffset + 1 - int (length v);
          v = (if 0 < extra then v @ replicate (nat extra) 0 else v);
          byteVal = v ! byteOffset;
          b = 7 - unat ((word_of_int offset :: u32) AND 0x7);
          bitVal = byteVal AND push_bit b 1;
          byteVal = (byteVal AND NOT (push_bit b 1)) OR push_bit b (word_of_int (on AND 1))
      in (v[byteOffset := byteVal], bitVal))"

definition SetBit :: "bytes \<Rightarrow> int \<Rightarrow> int \<Rightarrow> DB \<Rightarrow> int res \<times> DB" where
  "SetBit key offset on db =
     (case checkKeySize key of
        Inl e \<Rightarrow> (Inl e, db)
      | Inr u \<Rightarrow>
          if on AND NOT 1 \<noteq> 0 then (Inl (ErrOther ''bit must be 0 or 1''), db)
          else
            let key = encodeKVKey (indexVarBuf db) key in
            case bucket_Get db key of
              Inl e \<Rightarrow> (Inl e, db)
            | Inr ov \<Rightarrow>
                (case setBit_value offset on (old_value ov) of
                   (v, bitVal) \<Rightarrow>
                     commit_ret (wb_Put key v []) (if 0 < bitVal then 1 else 0) db))"

definition GetBit :: "bytes \<Rightarrow> int \<Rightarrow> DB \<Rightarrow> int res" where
  "GetBit key offset db =
     (case checkKeySize key of
        Inl e \<Rightarrow> Inl e
      | Inr u \<Rightarrow>
          (case bucket_Get db (encodeKVKey (indexVarBuf db) key) of
             Inl e \<Rightarrow> Inl e
           | Inr ov \<Rightarrow>
               let v = old_value ov;
                   byteOffset = drop_bit 3 (word_of_int offset :: u32);
                   b = 7 - unat ((word_of_int offset :: u32) AND 0x7)
               in if (word_of_nat (length v) :: u32) \<le> byteOffset then Inr 0
                  else if 0 < (v ! unat byteOffset) AND push_bit b 1 then Inr 1 else Inr 0))"

end
