(* ===== verification/Ledis_KV_Laws.thy ===== *)
theory Ledis_KV_Laws
  imports Ledis_KV_Bits
begin

text \<open>
  What the key-value operations do. The contents of the backend are read as a map
  (\<open>contents\<close>); an operation is described by its result and by the exact change of the whole
  map, so that a statement about one key also says that no other key, of whatever type or
  database, is touched.
\<close>

unbundle bit_operations_syntax

abbreviation contents :: "'a Ledis_scheme \<Rightarrow> bytes \<rightharpoonup> bytes" where
  "contents l \<equiv> kv_get (ldb l)"

abbreviation kvkey :: "DB \<Rightarrow> bytes \<Rightarrow> bytes" where
  "kvkey db k \<equiv> encodeKVKey (indexVarBuf db) k"

definition key_size_ok :: "bytes \<Rightarrow> bool" where
  "key_size_ok key \<longleftrightarrow> 0 < length key \<and> length key \<le> MaxKeySize"

lemma checkKeySize_ok [simp]: "key_size_ok key \<Longrightarrow> checkKeySize key = Inr ()"
  by (simp add: checkKeySize_def key_size_ok_def)

lemma checkKeySize_bad: "\<not> key_size_ok key \<Longrightarrow> checkKeySize key = Inl ErrKeySize"
  by (auto simp: checkKeySize_def key_size_ok_def)

lemma checkValueSize_ok [simp]: "length v \<le> MaxValueSize \<Longrightarrow> checkValueSize v = Inr ()"
  by (simp add: checkValueSize_def)

lemma contents_committed [simp]:
  "writable l \<Longrightarrow> contents (committed t l) = wb_effect t (contents l)"
  using Commit_writable [of l t] by (simp add: kv_get_write)

lemma Commit_ok [simp]: "writable l \<Longrightarrow> Commit t l = (Inr (), committed t l)"
  using Commit_writable by blast

lemma commit_ret_ok [simp]: "writable db \<Longrightarrow> commit_ret t n db = (Inr n, committed t db)"
  by (simp add: commit_ret_def)

lemma commit_ret_readonly: "readonly db \<Longrightarrow> commit_ret t n db = (Inl ErrWriteInROnly, db)"
  by (simp add: commit_ret_def Commit_readonly)

lemma wb_simps [simp]:
  "wb_Put k v t = t @ [WPut k v]"
  "wb_Delete k t = t @ [WDel k]"
  by (simp_all add: wb_Put_def wb_Delete_def)

lemma encodeKVKey_inj [simp]: "encodeKVKey p k = encodeKVKey p k' \<longleftrightarrow> k = k'"
  by (simp add: encodeKVKey_def)

section \<open>Values\<close>

lemma Set_ok:
  assumes "writable db" "key_size_ok key" "length v \<le> MaxValueSize"
  shows "\<exists>db'. Set key v db = (Inr (), db') \<and> contents db' = (contents db)(kvkey db key \<mapsto> v) \<and>
    indexVarBuf db' = indexVarBuf db"
  using assms by (simp add: Set_def)

lemma Get_ok: "key_size_ok key \<Longrightarrow> Get key db = Inr (contents db (kvkey db key))"
  by (simp add: Get_def)

lemma GetSet_ok:
  assumes "writable db" "key_size_ok key" "length v \<le> MaxValueSize"
  shows "\<exists>db'. GetSet key v db = (Inr (contents db (kvkey db key)), db') \<and>
    contents db' = (contents db)(kvkey db key \<mapsto> v)"
  using assms by (simp add: GetSet_def Let_def)

lemma SetNX_ok:
  assumes "writable db" "key_size_ok key" "length v \<le> MaxValueSize"
  shows "\<exists>db'. SetNX key v db = (Inr (if contents db (kvkey db key) = None then 1 else 0), db') \<and>
    contents db' = (if contents db (kvkey db key) = None
      then (contents db)(kvkey db key \<mapsto> v) else contents db)"
  using assms by (auto simp: SetNX_def split: option.splits)

definition counter :: "bytes option \<Rightarrow> i64 res" where
  "counter ov = StrInt64 (Inr ov)"

lemma incr_ok:
  assumes "writable db" "key_size_ok key" "counter (contents db (kvkey db key)) = Inr n"
  shows "\<exists>db'. incr key delta db = (Inr (n + delta), db') \<and>
    contents db' = (contents db)(kvkey db key \<mapsto> FormatInt64ToSlice (n + delta))"
  using assms by (simp add: incr_def counter_def Let_def)

lemma incr_not_int:
  assumes "key_size_ok key" "counter (contents db (kvkey db key)) = Inl e"
  shows "incr key delta db = (Inl e, db)"
  using assms by (simp add: incr_def counter_def)

subsection \<open>Several keys at once\<close>

text \<open>\<open>Find\<close> of an iterator is a lookup, wherever the iterator stands.\<close>

lemma it_Find_get:
  assumes "kv_ok (it_data it)"
  shows "it_Find k it = (kv_get (it_data it) k, Seek k it)"
proof -
  let ?s = "it_data it"
  have d: "ahead IteratorForward (Seek k it) = filter (\<lambda>p. \<not> fst p < k) ?s"
    using dropWhile_sorted [where P = "\<lambda>x. x < k", OF assms] by (auto simp: ahead_Seek)
  have v: "it_Valid (Seek k it) \<longleftrightarrow> ahead IteratorForward (Seek k it) \<noteq> []"
    by (rule it_Valid_ahead) simp
  show ?thesis
  proof (cases "filter (\<lambda>p. \<not> fst p < k) ?s")
    case Nil
    then have "k \<notin> fst ` set ?s"
      by (auto simp: filter_empty_conv)
    then have "kv_get ?s k = None"
      by (simp add: kv_get_def map_of_eq_None_iff)
    with Nil d v show ?thesis by (simp add: it_Find_def)
  next
    case (Cons q qs)
    then have "it_Valid (Seek k it)"
      using d v by simp
    then have r: "RawKey (Seek k it) = Some (fst q)" "RawValue (Seek k it) = Some (snd q)"
      using ahead_RawKey [of "Seek k it" IteratorForward]
        ahead_RawValue [of "Seek k it" IteratorForward] d Cons by simp_all
    have "q \<in> set (filter (\<lambda>p. \<not> fst p < k) ?s)"
      unfolding Cons by simp
    then have q: "q \<in> set ?s" "\<not> fst q < k"
      by simp_all
    have ok: "kv_ok (q # qs)"
      using assms Cons by (metis kv_ok_filter)
    have "fst q = k" if "(k, v) \<in> set ?s" for v
    proof -
      have "(k, v) \<in> set (q # qs)"
        using that unfolding Cons [symmetric] by simp
      then show ?thesis
        using ok q(2) by (auto simp: kv_ok_def)
    qed
    then have "kv_get ?s k = (if fst q = k then Some (snd q) else None)"
      using q(1) assms kv_get_iff_mem [of ?s k] by (cases q; cases "kv_get ?s k") auto
    with \<open>it_Valid (Seek k it)\<close> r show ?thesis
      by (auto simp: it_Find_def)
  qed
qed

lemma MGet_loop_ok:
  "kv_ok (it_data it) \<Longrightarrow> list_all key_size_ok ks \<Longrightarrow>
     MGet_loop p ks it = Inr (map (\<lambda>k. kv_get (it_data it) (encodeKVKey p k)) ks)"
  by (induction ks arbitrary: it) (simp_all add: it_Find_get)

lemma MGet_ok:
  "kv_ok (ldb db) \<Longrightarrow> list_all key_size_ok ks \<Longrightarrow>
     MGet ks db = Inr (map (\<lambda>k. contents db (kvkey db k)) ks)"
  by (simp add: MGet_def MGet_loop_ok NewIterator_def)

definition pair_ok :: "KVPair \<Rightarrow> bool" where
  "pair_ok a \<longleftrightarrow> key_size_ok (fst a) \<and> length (snd a) \<le> MaxValueSize"

lemma MSet_loop_ok:
  "list_all pair_ok args \<Longrightarrow>
     MSet_loop p args t = Inr (t @ map (\<lambda>(k, v). WPut (encodeKVKey p k) v) args)"
  by (induction args arbitrary: t) (auto simp: pair_ok_def)

lemma wb_effect_puts:
  "wb_effect (map (\<lambda>(k, v). WPut (encodeKVKey p k) v) args) m (encodeKVKey p k) =
     (case map_of (rev args) k of Some v \<Rightarrow> Some v | None \<Rightarrow> m (encodeKVKey p k))"
proof (induction args arbitrary: m)
  case (Cons a args)
  then show ?case
    by (cases a) (auto simp: map_add_def split: option.splits)
qed simp

lemma MSet_ok:
  assumes "writable db" "list_all pair_ok args"
  shows "\<exists>db'. MSet args db = (Inr (), db') \<and>
    (\<forall>k. contents db' (kvkey db k) =
       (case map_of (rev args) k of Some v \<Rightarrow> Some v | None \<Rightarrow> contents db (kvkey db k))) \<and>
    (\<forall>ek. ek \<notin> kvkey db ` fst ` set args \<longrightarrow> contents db' ek = contents db ek) \<and>
    indexVarBuf db' = indexVarBuf db"
proof (cases "args = []")
  case False
  let ?t = "map (\<lambda>(k, v). WPut (kvkey db k) v) args"
  have "wop_key ` set ?t = kvkey db ` fst ` set args"
    by (force simp: image_image)
  then have "contents (committed ?t db) ek = contents db ek"
    if "ek \<notin> kvkey db ` fst ` set args" for ek
    using that assms(1) by (simp add: wb_effect_other)
  with False assms show ?thesis
    by (auto simp: MSet_def MSet_loop_ok wb_effect_puts)
qed (use assms in \<open>simp add: MSet_def\<close>)

lemma MSet_loop_bad:
  "\<not> list_all pair_ok args \<Longrightarrow> \<exists>e. MSet_loop p args t = Inl e"
proof (induction args arbitrary: t)
  case (Cons a args)
  then show ?case
    by (cases a) (auto simp: pair_ok_def checkKeySize_def key_size_ok_def checkValueSize_def)
qed simp

lemma MSet_all_or_nothing:
  "args \<noteq> [] \<Longrightarrow> \<not> list_all pair_ok args \<Longrightarrow> \<exists>e. MSet args db = (Inl e, db)"
  using MSet_loop_bad [of args "indexVarBuf db" "[]"] by (auto simp: MSet_def)

section \<open>Deletion and times to live\<close>

abbreviation metakey :: "DB \<Rightarrow> byte \<Rightarrow> bytes \<Rightarrow> bytes" where
  "metakey db dt k \<equiv> expEncodeMetaKey (indexVarBuf db) dt k"

abbreviation timekey :: "DB \<Rightarrow> byte \<Rightarrow> bytes \<Rightarrow> i64 \<Rightarrow> bytes" where
  "timekey db dt k w \<equiv> expEncodeTimeKey (indexVarBuf db) dt k w"

lemma exp_keys_inj [simp]:
  "expEncodeMetaKey p dt k = expEncodeMetaKey p dt' k' \<longleftrightarrow> dt = dt' \<and> k = k'"
  "expEncodeTimeKey p dt k w = expEncodeTimeKey p dt' k' w' \<longleftrightarrow> dt = dt' \<and> k = k' \<and> w = w'"
  by (auto simp: encoder_defs)

lemma exp_keys_neq [simp]:
  "expEncodeMetaKey p dt k \<noteq> expEncodeTimeKey p dt' k' w"
  "expEncodeTimeKey p dt' k' w \<noteq> expEncodeMetaKey p dt k"
  "encodeKVKey p k \<noteq> expEncodeMetaKey p dt' k'"
  "encodeKVKey p k \<noteq> expEncodeTimeKey p dt' k' w"
  "expEncodeMetaKey p dt' k' \<noteq> encodeKVKey p k"
  "expEncodeTimeKey p dt' k' w \<noteq> encodeKVKey p k"
  by (auto simp: encoder_defs type_defs)

lemma expireAt_effect:
  "expireAt db t dt key when = (t', db') \<Longrightarrow>
     wb_effect t' m = (wb_effect t m)(timekey db dt key when \<mapsto> metakey db dt key,
       metakey db dt key \<mapsto> PutInt64 when) \<and>
     db' = setNextCheckTime when False db"
  by (auto simp: expireAt_def Let_def)

text \<open>
  \<open>exp_when\<close> is the expiry time recorded for a datum (\<open>None\<close>: persistent); \<open>exp_wf\<close> says that
  what is recorded is a time.
\<close>

definition exp_when :: "DB \<Rightarrow> byte \<Rightarrow> bytes \<Rightarrow> i64 option" where
  "exp_when db dt key =
     (case contents db (metakey db dt key) of
        None \<Rightarrow> None
      | Some v \<Rightarrow> (case Int64 (Inr (Some v)) of Inl _ \<Rightarrow> None | Inr w \<Rightarrow> Some w))"

definition exp_wf :: "DB \<Rightarrow> byte \<Rightarrow> bytes \<Rightarrow> bool" where
  "exp_wf db dt key \<longleftrightarrow>
     (\<forall>v. contents db (metakey db dt key) = Some v \<longrightarrow> (\<exists>w. v = PutInt64 w))"

lemma rmExpire_effect:
  assumes "exp_wf db dt key"
  shows "rmExpire db t dt key =
    (case exp_when db dt key of
       None \<Rightarrow> (Inr 0, t)
     | Some w \<Rightarrow> (Inr 1, t @ [WDel (metakey db dt key), WDel (timekey db dt key w)]))"
  using assms by (auto simp: rmExpire_def exp_when_def exp_wf_def Let_def split: option.splits)

lemma ttl_when:
  assumes "exp_wf db dt key"
  shows "ttl db dt key =
    (case exp_when db dt key of
       None \<Rightarrow> Inr (-1)
     | Some w \<Rightarrow> Inr (if w \<noteq> 0 \<and> 0 < sint (w - now db) then w - now db else -1))"
  using assms by (auto simp: ttl_def exp_when_def exp_wf_def Let_def split: option.splits)

lemma setExpireAt_ok:
  assumes "writable db" "key_size_ok key" "contents db (kvkey db key) \<noteq> None"
  shows "\<exists>db'. setExpireAt key when db = (Inr 1, db') \<and>
    contents db' = (contents db)(timekey db KVType key when \<mapsto> metakey db KVType key,
       metakey db KVType key \<mapsto> PutInt64 when) \<and>
    nc db' = (if sint when < sint (nc db) then when else nc db) \<and>
    indexVarBuf db' = indexVarBuf db \<and> now db' = now db"
proof -
  obtain t' db1 where e: "expireAt db [] KVType key when = (t', db1)"
    by fastforce
  from expireAt_effect [OF e] assms show ?thesis
    by (auto simp: setExpireAt_def Exists_def e setNextCheckTime_def)
qed

lemma setExpireAt_missing:
  assumes "key_size_ok key" "contents db (kvkey db key) = None"
  shows "setExpireAt key when db = (Inr 0, db)"
  using assms by (simp add: setExpireAt_def Exists_def)

lemma Persist_ok:
  assumes "writable db" "key_size_ok key" "exp_wf db KVType key"
  shows "\<exists>db'. Persist key db = (Inr (if exp_when db KVType key = None then 0 else 1), db') \<and>
    contents db' = (case exp_when db KVType key of
        None \<Rightarrow> contents db
      | Some w \<Rightarrow> (contents db)(metakey db KVType key := None, timekey db KVType key w := None)) \<and>
    indexVarBuf db' = indexVarBuf db"
  using assms by (auto simp: Persist_def rmExpire_effect split: option.splits)

text \<open>The keys a deletion removes: the values, the expiry records and their time entries.\<close>

definition del_keys :: "DB \<Rightarrow> bytes \<Rightarrow> bytes list" where
  "del_keys db key = kvkey db key #
     (case exp_when db KVType key of
        None \<Rightarrow> [] | Some w \<Rightarrow> [metakey db KVType key, timekey db KVType key w])"

lemma Del_loop_ok:
  "\<forall>k\<in>set ks. exp_wf db KVType k \<Longrightarrow>
     Del_loop db ks t = t @ map WDel (concat (map (del_keys db) ks))"
  by (induction ks arbitrary: t) (auto simp: rmExpire_effect del_keys_def split: option.splits)

lemma Del_ok:
  assumes "writable db" "ks \<noteq> []" "\<forall>k\<in>set ks. exp_wf db KVType k"
  shows "\<exists>db'. Del ks db = (Inr (int (length ks)), db') \<and>
    contents db' = (\<lambda>ek. if \<exists>k\<in>set ks. ek \<in> set (del_keys db k) then None else contents db ek) \<and>
    indexVarBuf db' = indexVarBuf db"
  using assms by (auto simp: Del_def Del_loop_ok wb_effect_deletes fun_eq_iff)

section \<open>Ranges of a value\<close>

lemma go_int_id: "- (2 ^ 63) \<le> x \<Longrightarrow> x < 2 ^ 63 \<Longrightarrow> go_int x = x"
  by (simp add: go_int_def sint_sbintrunc' signed_take_bit_int_eq_self)

text \<open>
  \<open>splice_at\<close> is the meaning of \<open>SetRange\<close>, byte by byte: the new bytes from the offset on,
  otherwise the old ones, and zeros in between.
\<close>

definition splice_at :: "nat \<Rightarrow> bytes \<Rightarrow> bytes \<Rightarrow> bytes" where
  "splice_at n v old =
     map (\<lambda>i. if n \<le> i \<and> i < n + length v then v ! (i - n)
              else if i < length old then old ! i else 0)
       [0..<max (length old) (n + length v)]"

lemma length_splice [simp]: "length (splice_at n v old) = max (length old) (n + length v)"
  by (simp add: splice_at_def)

lemma splice_eq:
  assumes "w = old @ replicate (n + length v - length old) 0"
  shows "take n w @ take (length w - n) v @ drop (n + length v) w = splice_at n v old"
proof -
  have w: "w ! i = (if i < length old then old ! i else 0)" if "i < length w" for i
    using that by (simp add: assms nth_append)
  have l: "length w = max (length old) (n + length v)"
    by (simp add: assms)
  have "take n w @ v @ drop (n + length v) w = splice_at n v old"
  proof (rule nth_equalityI)
    show "length (take n w @ v @ drop (n + length v) w) = length (splice_at n v old)"
      by (simp add: l)
    fix i
    assume "i < length (take n w @ v @ drop (n + length v) w)"
    then have i: "i < length w"
      by (simp add: l)
    consider "i < n" | "n \<le> i" "i < n + length v" | "n + length v \<le> i"
      by linarith
    then show "(take n w @ v @ drop (n + length v) w) ! i = splice_at n v old ! i"
      by cases (use w [OF i] i l in \<open>auto simp: splice_at_def nth_append\<close>)
  qed
  then show ?thesis
    by (simp add: l)
qed

lemma setRange_value_splice:
  assumes "n + length v < 2 ^ 62" "length old < 2 ^ 62"
  shows "setRange_value (int n) v old = Inr (splice_at n v old)"
proof -
  let ?x = "int n + int (length v) - int (length old)"
  let ?w = "old @ replicate (n + length v - length old) 0"
  have g: "go_int ?x = ?x"
    using assms by (intro go_int_id; simp)
  have "(if 0 < ?x then old @ replicate (nat ?x) 0 else old) = ?w"
    by (auto simp: nat_diff_distrib nat_int_add)
  moreover have "\<not> int (length ?w) < int n"
    by auto
  ultimately show ?thesis
    unfolding setRange_value_def g Let_def splice_eq [OF refl, symmetric] by (simp only:) simp
qed

lemma SetRange_ok:
  assumes "writable db" "key_size_ok key" "v \<noteq> []" "n + length v \<le> MaxValueSize"
    and old: "length (old_value (contents db (kvkey db key))) < 2 ^ 62"
  shows "\<exists>db'. SetRange key (int n) v db =
      (Inr (int (max (length (old_value (contents db (kvkey db key)))) (n + length v))), db') \<and>
    contents db' =
      (contents db)(kvkey db key \<mapsto> splice_at n v (old_value (contents db (kvkey db key)))) \<and>
    indexVarBuf db' = indexVarBuf db"
proof -
  have m: "MaxValueSize < 2 ^ 62"
    by (simp add: MaxValueSize_def)
  then have "go_int (int (length v) + int n) = int (length v) + int n"
    using assms(4) by (intro go_int_id; simp)
  moreover have "n + length v < 2 ^ 62"
    using assms(4) m by linarith
  ultimately show ?thesis
    using assms by (simp add: SetRange_def setRange_value_splice Let_def)
qed

text \<open>Reading a range back.\<close>

lemma GetRange_ok:
  assumes "key_size_ok key" "0 \<le> a" "a \<le> b" "b < int (length (old_value (contents db (kvkey db key))))"
  shows "GetRange key a b db =
    Inr (Some (take (nat (b + 1) - nat a) (drop (nat a) (old_value (contents db (kvkey db key))))))"
  using assms by (simp add: GetRange_def getRange_def slice_def)

lemma take_drop_splice_at: "take (length v) (drop n (splice_at n v old)) = v"
  by (rule nth_equalityI) (auto simp: splice_at_def)

section \<open>Properties\<close>

lemma kv_get_Nil [simp]: "kv_get [] k = None"
  by (simp add: kv_get_def)

lemma size_ok_small [simp]: "key_size_ok [a]" "key_size_ok [a, b]"
  by (simp_all add: key_size_ok_def MaxKeySize_def)

text \<open>
  C18: a value that was set is got back, and \<open>Set\<close> changes nothing but the entry of this key:
  no other key of any type in any database.
\<close>

theorem kv_set_get:
  assumes "writable db" "key_size_ok key" "length v \<le> MaxValueSize"
  shows "\<exists>db'. Set key v db = (Inr (), db') \<and> Get key db' = Inr (Some v) \<and>
    kv_get (ldb db') = (kv_get (ldb db))(encodeKVKey (indexVarBuf db) key \<mapsto> v)"
  using Set_ok [OF assms] assms(2) by (auto simp: Get_ok)

theorem kv_set_get_witness:
  "\<exists>db'. Set [7] [1, 2] demo_db = (Inr (), db') \<and> Get [7] db' = Inr (Some [1, 2])"
  using kv_set_get [of demo_db "[7]" "[1, 2]"] by (auto simp: MaxValueSize_def)

text \<open>
  \<open>MSet\<close> is atomic and ordered. If all pairs are within the size limits, every key named
  gets the last value given for it and no other entry changes, and \<open>MGet\<close> reads the result
  (in one pass with a single iterator) key by key; if one pair is not, nothing is written.
\<close>

theorem kv_mset_mget:
  assumes "writable db" "kv_ok (ldb db)" "args \<noteq> []"
  shows "if list_all pair_ok args
    then \<exists>db'. MSet args db = (Inr (), db') \<and>
      (\<forall>ek. ek \<notin> encodeKVKey (indexVarBuf db) ` fst ` set args \<longrightarrow>
         kv_get (ldb db') ek = kv_get (ldb db) ek) \<and>
      (\<forall>ks. list_all key_size_ok ks \<longrightarrow> MGet ks db' = Inr (map (\<lambda>k.
         case map_of (rev args) k of
           Some v \<Rightarrow> Some v
         | None \<Rightarrow> kv_get (ldb db) (encodeKVKey (indexVarBuf db) k)) ks))
    else \<exists>e. MSet args db = (Inl e, db)"
proof (cases "list_all pair_ok args")
  case True
  obtain db' where db': "MSet args db = (Inr (), db')" "indexVarBuf db' = indexVarBuf db"
      "\<forall>k. contents db' (kvkey db k) =
         (case map_of (rev args) k of Some v \<Rightarrow> Some v | None \<Rightarrow> contents db (kvkey db k))"
      "\<forall>ek. ek \<notin> kvkey db ` fst ` set args \<longrightarrow> contents db' ek = contents db ek"
    using MSet_ok [OF assms(1) True] by blast
  have "db' = committed (map (\<lambda>(k, v). WPut (kvkey db k) v) args) db"
    using db'(1) assms(1,3) True by (simp add: MSet_def MSet_loop_ok)
  then have "kv_ok (ldb db')"
    using Commit_writable [OF assms(1)] assms(2) by (simp add: kv_ok_write)
  with True db' show ?thesis
    by (simp add: MGet_ok)
next
  case False
  with MSet_all_or_nothing [OF assms(3) False] show ?thesis by simp
qed

theorem kv_mset_mget_witness:
  "\<exists>db'. MSet [([1], [10]), ([2], [20]), ([1], [11])] demo_db = (Inr (), db') \<and>
     MGet [[1], [3], [2]] db' = Inr [Some [11], None, Some [20]]"
proof -
  have "list_all pair_ok [([1], [10]), ([2], [20]), ([1], [11])]"
    by (simp add: pair_ok_def MaxValueSize_def)
  with kv_mset_mget [of demo_db "[([1], [10]), ([2], [20]), ([1], [11])]"] show ?thesis
    by auto
qed

text \<open>
  C19: the counters. A value that reads as a signed 64-bit integer in decimal (a missing one as
  \<open>0\<close>) is replaced by the decimal form of the sum, wrapping around at 64 bits, which is also
  the result; any other value is left alone and the parse error returned.
\<close>

theorem kv_incr:
  assumes "writable db" "key_size_ok key"
  shows "case StrInt64 (Inr (kv_get (ldb db) (encodeKVKey (indexVarBuf db) key))) of
      Inl e \<Rightarrow> incr key delta db = (Inl e, db)
    | Inr n \<Rightarrow> \<exists>db'. incr key delta db = (Inr (n + delta), db') \<and>
        StrInt64 (Get key db') = Inr (n + delta) \<and>
        kv_get (ldb db') = (kv_get (ldb db))
          (encodeKVKey (indexVarBuf db) key \<mapsto> FormatInt64ToSlice (n + delta))"
  using incr_ok [OF assms] incr_not_int [OF assms(2)] assms
  by (auto simp: counter_def incr_def Let_def Get_ok split: sum.splits)

theorem kv_incr_witness:
  "\<exists>db1 db2. incr [7] 5 demo_db = (Inr 5, db1) \<and> incr [7] (-8) db1 = (Inr (-3), db2)"
proof -
  from kv_incr [of demo_db "[7]" 5] obtain db1 where
    db1: "incr [7] 5 demo_db = (Inr 5, db1)" "StrInt64 (Get [7] db1) = Inr 5"
    by (auto simp: StrInt64_def)
  have "db1 = committed [WPut [0, KVType, 7] (FormatInt64ToSlice 5)] demo_db"
    using db1(1) by (simp add: incr_def StrInt64_def encodeKVKey_def Let_def)
  then have "writable db1"
    by (simp add: committed_def Commit_def handleCommit_def wb_Commit_def demo_db_def writable_def)
  from kv_incr [OF this, of "[7]" "-8"] db1 show ?thesis
    by (auto simp: Get_ok)
qed

text \<open>
  C20: a range written with \<open>SetRange\<close> is read back with \<open>GetRange\<close>, and the value outside
  of it is the old one, with zero bytes between the old end and the offset (\<open>splice_at\<close>). The
  result is the new length.
\<close>

theorem kv_setrange_getrange:
  assumes "writable db" "key_size_ok key" "v \<noteq> []" "n + length v \<le> MaxValueSize"
    and "old = (case kv_get (ldb db) (encodeKVKey (indexVarBuf db) key) of None \<Rightarrow> [] | Some b \<Rightarrow> b)"
    and "length old \<le> MaxValueSize"
  shows "\<exists>db'. SetRange key (int n) v db = (Inr (int (max (length old) (n + length v))), db') \<and>
    GetRange key (int n) (int n + int (length v) - 1) db' = Inr (Some v) \<and>
    kv_get (ldb db') = (kv_get (ldb db))(encodeKVKey (indexVarBuf db) key \<mapsto> splice_at n v old)"
proof -
  have old: "old = old_value (contents db (kvkey db key))"
    using assms(5) by (simp add: old_value_def)
  have "length (old_value (contents db (kvkey db key))) < 2 ^ 62"
    using assms(6) unfolding old [symmetric] by (simp add: MaxValueSize_def)
  then obtain db' where db': "SetRange key (int n) v db = (Inr (int (max (length old) (n + length v))), db')"
      "contents db' = (contents db)(kvkey db key \<mapsto> splice_at n v old)" "indexVarBuf db' = indexVarBuf db"
    using SetRange_ok [OF assms(1-4)] unfolding old [symmetric] by blast
  have "0 < length v"
    using assms(3) by simp
  then have "GetRange key (int n) (int n + int (length v) - 1) db' =
      Inr (Some (take (nat (int n + int (length v)) - n) (drop n (splice_at n v old))))"
    using assms(2) db'(2,3) by (subst GetRange_ok) (auto simp: old_value_def)
  moreover have "nat (int n + int (length v)) - n = length v"
    by simp
  ultimately show ?thesis
    using db' by (simp add: take_drop_splice_at)
qed

theorem kv_setrange_getrange_witness:
  "\<exists>db'. SetRange [7] 2 [8, 9] demo_db = (Inr 4, db') \<and> GetRange [7] 2 3 db' = Inr (Some [8, 9]) \<and>
     kv_get (ldb db') [0, KVType, 7] = Some [0, 0, 8, 9]"
  using kv_setrange_getrange [of demo_db "[7]" "[8, 9]" 2 "[]"]
  by (auto simp: MaxValueSize_def encodeKVKey_def splice_at_def upt_rec)

text \<open>
  C21: \<open>Expire\<close> on an existing key makes \<open>TTL\<close> return the duration, and \<open>Persist\<close> afterwards
  makes it return \<open>-1\<close> again; neither touches the value, and \<open>Expire\<close> on a missing key does
  nothing and returns \<open>0\<close>. (The expiry time \<open>now + duration\<close> does not overflow.)
\<close>

theorem kv_expire_persist:
  assumes "writable db" "key_size_ok key" "0 < sint d" "0 < sint (now db + d)"
  shows "if kv_get (ldb db) (encodeKVKey (indexVarBuf db) key) = None
    then Expire key d db = (Inr 0, db)
    else \<exists>db'. Expire key d db = (Inr 1, db') \<and> TTL key db' = Inr d \<and> Get key db' = Get key db \<and>
      (\<forall>db1. ldb db1 = ldb db' \<longrightarrow> indexVarBuf db1 = indexVarBuf db' \<longrightarrow> writable db1 \<longrightarrow>
         (\<exists>db2. Persist key db1 = (Inr 1, db2) \<and> TTL key db2 = Inr (-1) \<and> Get key db2 = Get key db))"
proof (cases "contents db (kvkey db key) = None")
  case True
  with assms show ?thesis
    by (simp add: Expire_def setExpireAt_missing)
next
  case False
  let ?w = "now db + d"
  obtain db' where db': "setExpireAt key ?w db = (Inr 1, db')"
      "contents db' = (contents db)(timekey db KVType key ?w \<mapsto> metakey db KVType key,
         metakey db KVType key \<mapsto> PutInt64 ?w)" "indexVarBuf db' = indexVarBuf db" "now db' = now db"
    using setExpireAt_ok [OF assms(1,2) False, of ?w] by blast
  have e: "Expire key d db = (Inr 1, db')"
    using assms(3) db'(1) by (simp add: Expire_def)
  have wf: "exp_wf db1 KVType key" "exp_when db1 KVType key = Some ?w"
    if "ldb db1 = ldb db'" "indexVarBuf db1 = indexVarBuf db'" for db1
    using that db'(2,3) by (auto simp: exp_wf_def exp_when_def)
  have "?w \<noteq> 0"
    using assms(4) by auto
  then have t: "TTL key db' = Inr d"
    using wf [of db'] assms(2,3) db'(4) by (simp add: TTL_def ttl_when)
  have "\<exists>db2. Persist key db1 = (Inr 1, db2) \<and> TTL key db2 = Inr (-1) \<and> Get key db2 = Get key db"
    if db1: "ldb db1 = ldb db'" "indexVarBuf db1 = indexVarBuf db'" "writable db1" for db1
  proof -
    obtain db2 where p: "Persist key db1 = (Inr 1, db2)" "indexVarBuf db2 = indexVarBuf db1"
        "contents db2 = (contents db1)(metakey db1 KVType key := None, timekey db1 KVType key ?w := None)"
      using Persist_ok [OF db1(3) assms(2) wf(1) [OF db1(1,2)]] wf(2) [OF db1(1,2)] by auto
    have "exp_wf db2 KVType key" "exp_when db2 KVType key = None"
      using p(2,3) by (auto simp: exp_wf_def exp_when_def)
    with p db1(1,2) db'(2,3) assms(2) show ?thesis
      by (simp add: TTL_def ttl_when Get_ok)
  qed
  with e t False db'(2,3) assms(2) show ?thesis
    by (auto simp: Get_ok)
qed

theorem kv_expire_persist_witness:
  "\<exists>db db'. Set [7] [1] demo_db = (Inr (), db) \<and> Expire [7] 60 db = (Inr 1, db') \<and> TTL [7] db' = Inr 60"
proof -
  obtain db where db: "Set [7] [1] demo_db = (Inr (), db)"
      "contents db = (contents demo_db)(kvkey demo_db [7] \<mapsto> [1])" "indexVarBuf db = [0]"
    using Set_ok [of demo_db "[7]" "[1]"] by (auto simp: MaxValueSize_def)
  then have c: "db = committed [WPut [0, KVType, 7] [1]] demo_db"
    by (simp add: Set_def encodeKVKey_def MaxValueSize_def)
  then have w: "writable db" "now db = 1000"
    by (simp_all add: committed_def Commit_def handleCommit_def wb_Commit_def demo_db_def writable_def)
  have "0 < sint (60 :: i64)" "0 < sint (now db + 60)"
    using w(2) by simp_all
  from kv_expire_persist [OF w(1) _ this, of "[7]"] db show ?thesis
    by auto
qed

text \<open>
  In read-only mode \<open>SetNX\<close> on a missing key writes nothing but reports \<open>1\<close> (the key was
  set), where \<open>Set\<close> reports the error; \<open>Append\<close> reports success with length \<open>0\<close>.
\<close>

theorem kv_readonly_reports:
  assumes "readonly db" "key_size_ok key" "v \<noteq> []" "length v \<le> MaxValueSize"
    and "kv_get (ldb db) (encodeKVKey (indexVarBuf db) key) = None"
  shows "Set key v db = (Inl ErrWriteInROnly, db) \<and> SetNX key v db = (Inr 1, db) \<and>
    Append key v db = (Inr 0, db)"
  using assms by (simp add: Set_def SetNX_def Append_def Commit_readonly old_value_def Let_def)

theorem kv_readonly_reports_witness:
  "SetNX [7] [1] (demo_db\<lparr>readonly := True\<rparr>) = (Inr 1, demo_db\<lparr>readonly := True\<rparr>)"
  using kv_readonly_reports [of "demo_db\<lparr>readonly := True\<rparr>" "[7]" "[1]"]
  by (simp add: MaxValueSize_def demo_db_def)

text \<open>
  \<open>StrLen\<close> is the length of an existing value, and panics for a missing key.
\<close>

theorem kv_strlen:
  assumes "key_size_ok key"
  shows "StrLen key db = (case kv_get (ldb db) (encodeKVKey (indexVarBuf db) key) of
    None \<Rightarrow> Inl GoPanic | Some v \<Rightarrow> Inr (int (length v)))"
  using assms by (simp add: StrLen_def GetSlice_def split: option.splits)

theorem kv_strlen_witness: "StrLen [7] demo_db = Inl GoPanic"
  using kv_strlen [of "[7]" demo_db] by simp

end
