(* ===== verification/Ledis_KV_Bits_Laws.thy ===== *)
theory Ledis_KV_Bits_Laws
  imports Ledis_KV_Laws
begin

text \<open>
  The bit operations against their meaning on the sequence of bits of a value.
\<close>

unbundle bit_operations_syntax

section \<open>SETBIT and GETBIT\<close>

definition bit_at :: "bytes \<Rightarrow> nat \<Rightarrow> bool" where
  "bit_at v i \<longleftrightarrow> i div 8 < length v \<and> bit (v ! (i div 8)) (7 - i mod 8)"

lemma offset_word:
  assumes "n < 2 ^ 32"
  shows "unat (drop_bit 3 (word_of_nat n :: u32)) = n div 8"
    and "unat ((word_of_nat n :: u32) AND 7) = n mod 8"
proof -
  have u: "unat (word_of_nat n :: u32) = n"
    using assms by (simp add: unsigned_of_nat take_bit_nat_eq_self)
  show "unat (drop_bit 3 (word_of_nat n :: u32)) = n div 8"
    unfolding unat_drop_bit_eq u by (simp add: drop_bit_eq_div)
  have "(7 :: nat) = mask 3"
    by (simp add: mask_eq_exp_minus_1)
  then have "n AND 7 = n mod 8"
    using take_bit_eq_mask [of 3 n] by (simp add: take_bit_eq_mod)
  then show "unat ((word_of_nat n :: u32) AND 7) = n mod 8"
    unfolding unsigned_and_eq u by simp
qed

lemma and_single_bit: "0 < (x :: byte) AND 2 ^ b \<longleftrightarrow> bit x b"
  by (simp add: word_gt_0 bit_iff_and_push_bit_not_eq_0)

text \<open>The value grown so that it has the byte to change.\<close>

definition grown :: "nat \<Rightarrow> bytes \<Rightarrow> bytes" where
  "grown n v = v @ replicate (Suc n - length v) 0"

lemma bit_at_grown [simp]: "bit_at (grown n v) i = bit_at v i"
  by (auto simp: bit_at_def grown_def nth_append)

lemma setBit_value_eq:
  assumes "n < 2 ^ 32"
  shows "setBit_value (int n) on v =
    (let w = grown (n div 8) v; b = 7 - n mod 8; x = w ! (n div 8)
     in (w[n div 8 := (x AND NOT (2 ^ b)) OR push_bit b (word_of_int (on AND 1))],
         x AND 2 ^ b))"
proof -
  have "(if 0 < int (n div 8) + 1 - int (length v)
      then v @ replicate (nat (int (n div 8) + 1 - int (length v))) 0 else v) = grown (n div 8) v"
    by (auto simp: grown_def nat_diff_distrib Suc_as_int)
  then show ?thesis
    unfolding setBit_value_def of_int_of_nat_eq offset_word [OF assms] Let_def by (simp only:) simp
qed

lemma bit_set_byte:
  fixes x :: byte
  assumes "b < 8" "k < 8" "on = 0 \<or> on = 1"
  shows "bit ((x AND NOT (2 ^ b)) OR push_bit b (word_of_int (on AND 1))) k =
    (if k = b then on = 1 else bit x k)"
  using assms by (auto simp: bit_simps)

lemma same_bit: "n div 8 = i div 8 \<Longrightarrow> 7 - n mod 8 = 7 - i mod 8 \<longleftrightarrow> n = (i :: nat)"
proof -
  assume "n div 8 = i div 8"
  moreover have "n mod 8 \<le> 7" "i mod 8 \<le> 7"
    by (simp_all add: less_Suc_eq_le [symmetric])
  ultimately show ?thesis
    by (metis diff_diff_cancel div_mult_mod_eq)
qed

lemma setBit_value_ok:
  assumes "n < 2 ^ 32" "on = 0 \<or> on = 1" "setBit_value (int n) on v = (v', b)"
  shows "(0 < b) = bit_at v n"
    and "bit_at v' i = (if i = n then on = 1 else bit_at v i)"
    and "length v' = max (length v) (Suc (n div 8))"
proof -
  let ?w = "grown (n div 8) v"
  have w: "n div 8 < length ?w"
    by (simp add: grown_def)
  have e: "b = ?w ! (n div 8) AND 2 ^ (7 - n mod 8)"
    "v' = ?w[n div 8 := (?w ! (n div 8) AND NOT (2 ^ (7 - n mod 8))) OR
            push_bit (7 - n mod 8) (word_of_int (on AND 1))]"
    using assms(3) unfolding setBit_value_eq [OF assms(1)] Let_def by simp_all
  show "(0 < b) = bit_at v n"
    using w unfolding e(1) and_single_bit bit_at_grown [of "n div 8" v n, symmetric]
    by (simp add: bit_at_def)
  show "length v' = max (length v) (Suc (n div 8))"
    unfolding e(2) by (simp add: grown_def)
  have "bit_at v' i = (if i = n then on = 1 else bit_at ?w i)"
  proof (cases "i div 8 = n div 8")
    case True
    then show ?thesis
      unfolding bit_at_def e(2)
      using w assms(2) same_bit [of i n] bit_set_byte [of "7 - n mod 8" "7 - i mod 8" on "?w ! (n div 8)"]
      by simp
  next
    case False
    then have "i \<noteq> n" by auto
    with False show ?thesis
      unfolding bit_at_def e(2) by simp
  qed
  then show "bit_at v' i = (if i = n then on = 1 else bit_at v i)"
    by simp
qed

lemma SetBit_ok:
  assumes "writable db" "key_size_ok key" "n < 2 ^ 32" "on = 0 \<or> on = 1"
    and "v = old_value (contents db (kvkey db key))"
  shows "\<exists>db' v'. SetBit key (int n) on db = (Inr (if bit_at v n then 1 else 0), db') \<and>
    contents db' = (contents db)(kvkey db key \<mapsto> v') \<and> indexVarBuf db' = indexVarBuf db \<and>
    length v' = max (length v) (Suc (n div 8)) \<and>
    (\<forall>i. bit_at v' i = (if i = n then on = 1 else bit_at v i))"
proof -
  obtain v' b where e: "setBit_value (int n) on v = (v', b)"
    by fastforce
  have "on AND NOT 1 = 0"
    using assms(4) by auto
  then have "SetBit key (int n) on db = (Inr (if 0 < b then 1 else 0), committed [WPut (kvkey db key) v'] db)"
    using assms(1,2,5) e by (simp add: SetBit_def)
  then show ?thesis
    using setBit_value_ok [OF assms(3,4) e] assms(1)
    by (intro exI [of _ "committed [WPut (kvkey db key) v'] db"] exI [of _ v']) simp
qed

lemma GetBit_ok:
  assumes "key_size_ok key" "n < 2 ^ 32" "length v < 2 ^ 32"
    and "v = old_value (contents db (kvkey db key))"
  shows "GetBit key (int n) db = Inr (if bit_at v n then 1 else 0)"
proof -
  have "(word_of_nat (length v) :: u32) \<le> drop_bit 3 (word_of_nat n) \<longleftrightarrow> length v \<le> n div 8"
    using assms(3) unfolding word_le_nat_alt offset_word [OF assms(2)]
    by (simp add: unsigned_of_nat take_bit_nat_eq_self)
  then show ?thesis
    using assms(1,4)
    by (auto simp: GetBit_def Let_def offset_word [OF assms(2)] and_single_bit bit_at_def)
qed

end
