(* ===== verification/Ledis_BitCount_Laws.thy ===== *)
theory Ledis_BitCount_Laws
  imports Ledis_KV_Bits_Laws
begin

text \<open>
  \<open>BitCount\<close> adds up a word-parallel bit count of four bytes at a time and a table lookup for
  the last bytes of the value. Both count the bits that are set.

  The arithmetic on a 32-bit word never carries from one byte to the next, so it is followed
  byte by byte: \<open>join\<close> is the number with the four given bytes, and a step of the computation
  on the word is one function on each byte. What the composed function does on a byte is
  checked for all 256 bytes, as is the table.
\<close>

unbundle bit_operations_syntax

section \<open>One byte\<close>

fun popcount :: "nat \<Rightarrow> nat" where
  "popcount n = (if n = 0 then 0 else n mod 2 + popcount (n div 2))"

declare popcount.simps [simp del]

lemma popcount_numeral [simp]:
  "popcount 0 = 0"
  "popcount (Suc 0) = 1"
  "popcount 1 = 1"
  "popcount (numeral (Num.Bit0 k)) = popcount (numeral k)"
  "popcount (numeral (Num.Bit1 k)) = Suc (popcount (numeral k))"
  by (subst popcount.simps; simp)+

definition pairs :: "nat \<Rightarrow> nat" where
  "pairs a = a - (a div 2 AND 0x55)"

definition nibbles :: "nat \<Rightarrow> nat" where
  "nibbles a = (a AND 0x33) + (a div 4 AND 0x33)"

lemma all_bytes: "[0..<256] = 0 # 1 # [2..<256 :: nat]"
  by (subst upt_conv_Cons, simp, subst upt_conv_Cons, simp, simp add: numeral_2_eq_2)

lemma byte_table: "map popcount [0..<256] = bitsInByte"
  unfolding all_bytes by (simp add: upt_rec_numeral bitsInByte_def)

lemma byte_steps:
  "list_all (\<lambda>n. (n div 2 AND 0x55) \<le> n \<and> pairs n < 256 \<and> nibbles (pairs n) < 256 \<and>
     nibbles (pairs n) mod 16 \<le> 4 \<and> nibbles (pairs n) div 16 \<le> 4 \<and>
     nibbles (pairs n) mod 16 + nibbles (pairs n) div 16 = popcount n) [0..<256]"
  unfolding all_bytes by (simp add: upt_rec_numeral pairs_def nibbles_def)

lemma unat_byte: "unat (b :: byte) < 256"
  using unsigned_less [of b, where ?'a = nat] by simp

lemma bitsInByte_popcount: "bitsInByte ! unat (b :: byte) = popcount (unat b)"
  unfolding byte_table [symmetric] using unat_byte [of b] by simp

section \<open>Four bytes\<close>

definition join :: "nat \<Rightarrow> nat \<Rightarrow> nat \<Rightarrow> nat \<Rightarrow> nat" where
  "join a b c d = a + 256 * (b + 256 * (c + 256 * d))"

lemma and_split:
  "(x :: nat) AND m = (x mod 256 AND m mod 256) + 256 * (x div 256 AND m div 256)"
proof -
  have "x AND m = take_bit 8 (x AND m) + 2 ^ 8 * drop_bit 8 (x AND m)"
    by (simp add: take_bit_eq_mod drop_bit_eq_div)
  then show ?thesis
    unfolding take_bit_and drop_bit_and by (simp add: take_bit_eq_mod drop_bit_eq_div)
qed

lemma and_low:
  assumes "m < 2 ^ k"
  shows "(x :: nat) AND m = (x mod 2 ^ k) AND m"
proof -
  have m: "take_bit k m = m"
    using assms by (rule take_bit_nat_eq_self)
  have "x AND m = take_bit k (x AND m)"
    by (subst m [symmetric]) (simp add: take_bit_eq_mask ac_simps)
  then show ?thesis
    unfolding take_bit_and m by (simp add: take_bit_eq_mod)
qed

lemma and_step: "a < 256 \<Longrightarrow> m < 256 \<Longrightarrow> (a + 256 * y) AND (m + 256 * n) = (a AND m) + 256 * (y AND n)"
  for a :: nat
  by (subst and_split) simp

lemma join_and:
  assumes "a < 256" "b < 256" "c < 256" "m < 256"
  shows "join a b c d AND join m m m m = join (a AND m) (b AND m) (c AND m) (d AND m)"
  unfolding join_def and_step [OF assms(1,4)] and_step [OF assms(2,4)] and_step [OF assms(3,4)] ..

lemma div_step:
  fixes a y q r :: nat
  assumes "q * r = 256"
  shows "(a + 256 * y) div q = (a div q + r * (y mod q)) + 256 * (y div q)"
proof -
  have q: "0 < q"
    using assms by (cases q) auto
  have "(a + 256 * y) div q = (a + q * (r * y)) div q"
    using assms by (metis mult.assoc)
  also have "\<dots> = a div q + r * y"
    using q by simp
  also have "r * y = r * (y mod q + q * (y div q))"
    by simp
  also have "\<dots> = r * (y mod q) + 256 * (y div q)"
    using assms by (simp only: distrib_left) (simp add: mult.assoc [symmetric] mult.commute [of r q])
  finally show ?thesis by simp
qed

lemma mod_step:
  fixes b z q r :: nat
  assumes "q * r = 256"
  shows "(b + 256 * z) mod q = b mod q"
  using assms by (metis mod_mult_self2 mult.assoc)

lemma join_div:
  assumes "q * r = 256"
  shows "join a b c d div q =
    join (a div q + r * (b mod q)) (b div q + r * (c mod q)) (c div q + r * (d mod q)) (d div q)"
  unfolding join_def div_step [OF assms] mod_step [OF assms] ..

lemma and_masked:
  fixes a q :: nat
  assumes "q * 2 ^ k = 256" "a < 256" "m < 2 ^ k"
  shows "(a div q + 2 ^ k * t) AND m = a div q AND m"
proof -
  have "a div q < 2 ^ k"
    using assms by (simp add: less_mult_imp_div_less mult.commute)
  then show ?thesis
    using and_low [OF assms(3), of "a div q + 2 ^ k * t"] by simp
qed

lemma digit_bound:
  fixes a b q :: nat
  assumes "q * 2 ^ k = 256" "a < 256"
  shows "a div q + 2 ^ k * (b mod q) < 256"
proof -
  have q: "0 < q"
    using assms by (cases q) auto
  have "a div q < 2 ^ k"
    using assms by (simp add: less_mult_imp_div_less mult.commute)
  moreover have "2 ^ k * (b mod q) \<le> 2 ^ k * (q - 1)"
    using q by (intro mult_le_mono2) (simp add: less_Suc_eq_le [symmetric])
  moreover have "2 ^ k * (q - 1) + 2 ^ k = q * 2 ^ k"
    using q by (cases q) (auto simp: mult.commute)
  ultimately show ?thesis
    using assms(1) by linarith
qed

text \<open>A shift followed by a mask that no bit from the next byte passes is bytewise.\<close>

lemma join_shift_mask:
  assumes "q * 2 ^ k = 256" "m < 2 ^ k" "2 ^ k \<le> (256 :: nat)"
    and "a < 256" "b < 256" "c < 256" "d < 256"
  shows "join a b c d div q AND join m m m m =
    join (a div q AND m) (b div q AND m) (c div q AND m) (d div q AND m)"
proof -
  have "m < 256"
    using assms(2,3) by linarith
  then show ?thesis
    using assms
    by (simp add: join_div [OF assms(1)] join_and digit_bound [OF assms(1)] and_masked [OF assms(1)])
qed

section \<open>The computation on a word\<close>

lemma join_less: "a < 256 \<Longrightarrow> b < 256 \<Longrightarrow> c < 256 \<Longrightarrow> d < 256 \<Longrightarrow> join a b c d < 2 ^ 32"
  by (simp add: join_def)

lemma join_add: "join a b c d + join a' b' c' d' = join (a + a') (b + b') (c + c') (d + d')"
  by (simp add: join_def)

lemma masks:
  "0x55555555 = join 0x55 0x55 0x55 0x55"
  "0x33333333 = join 0x33 0x33 0x33 0x33"
  "0x0F0F0F0F = join 0x0F 0x0F 0x0F 0x0F"
  by (simp_all add: join_def)

lemma step_pairs:
  assumes "a < 256" "b < 256" "c < 256" "d < 256"
  shows "join a b c d - (join a b c d div 2 AND 0x55555555) =
      join (pairs a) (pairs b) (pairs c) (pairs d) \<and>
    (join a b c d div 2 AND 0x55555555) \<le> join a b c d"
proof -
  have le: "(n div 2 AND 0x55) \<le> n" if "n < 256" for n :: nat
    using byte_steps that by (simp add: list_all_iff)
  have s: "join a b c d div 2 AND 0x55555555 =
      join (a div 2 AND 0x55) (b div 2 AND 0x55) (c div 2 AND 0x55) (d div 2 AND 0x55)"
    unfolding masks using assms by (intro join_shift_mask [where k = 7]) simp_all
  have "n = pairs n + (n div 2 AND 0x55)" if "n < 256" for n
    using le [OF that] by (simp add: pairs_def)
  then have "join a b c d = join (pairs a) (pairs b) (pairs c) (pairs d) +
      join (a div 2 AND 0x55) (b div 2 AND 0x55) (c div 2 AND 0x55) (d div 2 AND 0x55)"
    unfolding join_add using assms by simp
  then show ?thesis
    unfolding s by simp
qed

lemma step_nibbles:
  assumes "a < 256" "b < 256" "c < 256" "d < 256"
  shows "(join a b c d AND 0x33333333) + (join a b c d div 4 AND 0x33333333) =
    join (nibbles a) (nibbles b) (nibbles c) (nibbles d)"
proof -
  have s: "join a b c d div 4 AND 0x33333333 =
      join (a div 4 AND 0x33) (b div 4 AND 0x33) (c div 4 AND 0x33) (d div 4 AND 0x33)"
    unfolding masks using assms by (intro join_shift_mask [where k = 6]) simp_all
  have m: "join a b c d AND 0x33333333 =
      join (a AND 0x33) (b AND 0x33) (c AND 0x33) (d AND 0x33)"
    unfolding masks using assms by (intro join_and) simp_all
  show ?thesis
    unfolding s m join_add nibbles_def ..
qed

lemma and_15: "(n :: nat) AND 0x0F = n mod 16"
proof -
  have "(0x0F :: nat) = mask 4"
    by (simp add: mask_eq_exp_minus_1)
  then show ?thesis
    using take_bit_eq_mask [of 4 n] by (simp add: take_bit_eq_mod)
qed

lemma step_bytes:
  assumes "\<And>z. z \<in> {a, b, c, d} \<Longrightarrow> z mod 16 \<le> 4 \<and> z div 16 \<le> 4"
  shows "(join a b c d + join a b c d div 16) AND 0x0F0F0F0F =
    join (a mod 16 + a div 16) (b mod 16 + b div 16) (c mod 16 + c div 16) (d mod 16 + d div 16)"
proof -
  let ?f = "\<lambda>z y. (z mod 16 + z div 16) + 16 * (z div 16 + y mod 16) :: nat"
  have sum: "join a b c d + join a b c d div 16 = join (?f a b) (?f b c) (?f c d) (?f d 0)"
  proof -
    have e: "z + (z div 16 + 16 * y) = (z mod 16 + z div 16) + 16 * (z div 16 + y)"
      and e0: "z + z div 16 = (z mod 16 + z div 16) + 16 * (z div 16 + 0 mod 16)" for z y :: nat
      by presburger+
    have "16 * 16 = (256 :: nat)" by simp
    then show ?thesis
      by (simp only: join_div join_add e e0)
  qed
  have lt: "?f z y < 256" if "z \<in> {a, b, c, d}" "y mod 16 \<le> 4" for z y
    using assms [OF that(1)] that(2) by auto
  have low: "?f z y AND 0x0F = z mod 16 + z div 16" if "z \<in> {a, b, c, d}" for z y
  proof -
    have "?f z y AND 0x0F = ?f z y mod 16"
      by (rule and_15)
    also have "\<dots> = z mod 16 + z div 16"
      using assms [OF that] unfolding mod_mult_self2 by simp
    finally show ?thesis .
  qed
  have m: "z mod 16 \<le> 4" if "z \<in> {a, b, c, d}" for z
    using assms [OF that] by simp
  have l: "?f a b < 256" "?f b c < 256" "?f c d < 256"
    by (rule lt; simp add: m)+
  have e: "?f a b AND 0x0F = a mod 16 + a div 16" "?f b c AND 0x0F = b mod 16 + b div 16"
    "?f c d AND 0x0F = c mod 16 + c div 16" "?f d 0 AND 0x0F = d mod 16 + d div 16"
    by (rule low; simp)+
  have "(0x0F :: nat) < 256"
    by simp
  from join_and [OF l this, of "?f d 0"] show ?thesis
    unfolding sum masks e .
qed

lemma step_sum:
  assumes "a \<le> 8" "b \<le> 8" "c \<le> 8" "d \<le> 8"
  shows "(join a b c d * 0x01010101) mod 2 ^ 32 div 2 ^ 24 = a + b + c + d"
proof -
  let ?low = "a + 256 * (a + b) + 65536 * (a + b + c)"
  have eq: "join a b c d * 0x01010101 =
      (?low + 2 ^ 24 * (a + b + c + d)) + 2 ^ 32 * ((b + c + d) + 256 * (c + d) + 65536 * d)"
    by (simp add: join_def algebra_simps)
  have lt: "?low + 2 ^ 24 * (a + b + c + d) < 2 ^ 32" "?low < 2 ^ 24"
    using assms by simp_all
  have "(join a b c d * 0x01010101) mod 2 ^ 32 = ?low + 2 ^ 24 * (a + b + c + d)"
    unfolding eq mod_mult_self2 by (rule mod_less [OF lt(1)])
  then show ?thesis
    using lt(2) by simp
qed

lemma numberBitCount_join:
  assumes w: "unat w = join a b c d" and "a < 256" "b < 256" "c < 256" "d < 256"
  shows "unat (numberBitCount w) = popcount a + popcount b + popcount c + popcount d"
proof -
  define i1 where "i1 = w - (drop_bit 1 w AND 0x55555555)"
  define i2 where "i2 = (i1 AND 0x33333333) + (drop_bit 2 i1 AND 0x33333333)"
  have st: "pairs n < 256 \<and> nibbles (pairs n) < 256 \<and> nibbles (pairs n) mod 16 \<le> 4 \<and>
      nibbles (pairs n) div 16 \<le> 4 \<and>
      nibbles (pairs n) mod 16 + nibbles (pairs n) div 16 = popcount n" if "n < 256" for n
    using byte_steps that by (simp add: list_all_iff)
  note st4 = st [OF assms(2)] st [OF assms(3)] st [OF assms(4)] st [OF assms(5)]
  have x: "unat (drop_bit 1 w AND 0x55555555) = join a b c d div 2 AND 0x55555555"
    unfolding unsigned_and_eq unat_drop_bit_eq w by (simp add: drop_bit_eq_div)
  have "unat i1 = join (pairs a) (pairs b) (pairs c) (pairs d)"
    using step_pairs [OF assms(2-5)] x w unfolding i1_def
    by (subst unat_sub) (simp_all add: word_le_nat_alt)
  then have i2: "unat i2 = join (nibbles (pairs a)) (nibbles (pairs b)) (nibbles (pairs c)) (nibbles (pairs d))"
    unfolding i2_def unat_word_ariths unsigned_and_eq unat_drop_bit_eq
    using step_nibbles [of "pairs a" "pairs b" "pairs c" "pairs d"] st4 join_less
    by (simp add: drop_bit_eq_div)
  let ?z = "\<lambda>n. nibbles (pairs n)"
  have s: "join (?z a) (?z b) (?z c) (?z d) + join (?z a) (?z b) (?z c) (?z d) div 16 < 2 ^ 32"
  proof -
    have z: "?z n \<le> 68" if "n < 256" for n
      using st [OF that] mult_div_mod_eq [of 16 "?z n"] by linarith
    have "join (?z a) (?z b) (?z c) (?z d) < 2 ^ 31"
      using z [OF assms(2)] z [OF assms(3)] z [OF assms(4)] z [OF assms(5)] by (simp add: join_def)
    then show ?thesis
      using div_le_dividend [of "join (?z a) (?z b) (?z c) (?z d)" 16] by simp
  qed
  have "unat ((i2 + drop_bit 4 i2) AND 0x0F0F0F0F) =
      (unat i2 + unat i2 div 16) AND 0x0F0F0F0F"
    unfolding unsigned_and_eq unat_word_ariths unat_drop_bit_eq using s by (simp add: drop_bit_eq_div i2)
  also have "\<dots> = join (popcount a) (popcount b) (popcount c) (popcount d)"
    unfolding i2 using st4 by (subst step_bytes) auto
  finally have r: "unat ((i2 + drop_bit 4 i2) AND 0x0F0F0F0F) =
      join (popcount a) (popcount b) (popcount c) (popcount d)" .
  have "popcount n \<le> 8" if "n < 256" for n
    using st [OF that] by linarith
  then show ?thesis
    using step_sum [of "popcount a" "popcount b" "popcount c" "popcount d"] assms(2-5)
    unfolding numberBitCount_def Let_def i1_def [symmetric] i2_def [symmetric]
      unat_drop_bit_eq unat_word_ariths r
    by (simp add: drop_bit_eq_div)
qed

lemma get_be32_join:
  "unat (get_be32 [a, b, c, d]) = join (unat d) (unat c) (unat b) (unat a)"
proof -
  have "be_nat [a, b, c, d] = join (unat d) (unat c) (unat b) (unat a)"
    by (simp add: be_nat_def join_def)
  moreover have "join (unat d) (unat c) (unat b) (unat a) < 2 ^ 32"
    by (intro join_less unat_byte)
  ultimately show ?thesis
    by (simp add: get_be32_def unsigned_of_nat take_bit_nat_eq_self)
qed

lemma bitCount_loop_popcount: "bitCount_loop v = sum_list (map (\<lambda>b. popcount (unat b)) v)"
proof (induction v rule: bitCount_loop.induct)
  case (1 a b c d v)
  then show ?case
    using numberBitCount_join [OF get_be32_join [of a b c d]] unat_byte by simp
qed (simp_all add: bitsInByte_popcount)

section \<open>The bits of a value\<close>

definition bits_set :: "bytes \<Rightarrow> nat" where
  "bits_set v = length (filter (bit_at v) [0..<8 * length v])"

lemma popcount_bits: "n < 2 ^ k \<Longrightarrow> popcount n = length (filter (bit n) [0..<k])"
proof (induction k arbitrary: n)
  case (Suc k)
  have "[0..<Suc k] = 0 # map Suc [0..<k]"
    by (simp add: map_Suc_upt upt_conv_Cons del: upt_Suc)
  moreover have "filter (bit n) (map Suc [0..<k]) = map Suc (filter (bit (n div 2)) [0..<k])"
    by (simp add: filter_map o_def bit_Suc)
  moreover have "popcount n = n mod 2 + popcount (n div 2)"
    by (subst popcount.simps) simp
  ultimately show ?case
    using Suc.IH [of "n div 2"] Suc.prems by (auto simp: bit_0 odd_iff_mod_2_eq_one)
qed simp

lemma upt_8: "[0..<8] = [0, 1, 2, 3, 4, 5, 6, 7 :: nat]"
  by (simp add: upt_rec)

lemma popcount_byte: "popcount (unat (b :: byte)) = length (filter (\<lambda>i. bit b (7 - i)) [0..<8])"
proof -
  have "popcount (unat b) = length (filter (bit (unat b)) [0..<8])"
    using unat_byte [of b] by (intro popcount_bits) simp
  also have "bit (unat b) = bit b"
    by (simp add: fun_eq_iff bit_unsigned_iff)
  also have "length (filter (bit b) [0..<8]) = length (filter (\<lambda>i. bit b (7 - i)) [0..<8])"
    unfolding upt_8 by simp
  finally show ?thesis .
qed

lemma bit_at_Cons: "bit_at (b # v) i = (if i < 8 then bit b (7 - i) else bit_at v (i - 8))"
proof (cases "i < 8")
  case False
  then obtain k where "i = k + 8"
    by (metis add.commute le_Suc_ex linorder_not_less)
  moreover have "(k + 8) div 8 = Suc (k div 8)" for k :: nat
    by simp
  ultimately show ?thesis
    by (simp add: bit_at_def)
qed (simp add: bit_at_def)

lemma upt_bits: "[0..<8 * length (b # v)] = [0..<8] @ map (\<lambda>i. i + 8) [0..<8 * length v]"
  by (simp add: map_add_upt upt_add_eq_append [of 0 8, simplified] add.commute)

lemma bits_set_sum: "bits_set v = sum_list (map (\<lambda>b. popcount (unat b)) v)"
proof (induction v)
  case (Cons b v)
  have "filter (bit_at (b # v)) [0..<8] = filter (\<lambda>i. bit b (7 - i)) [0..<8]"
    by (auto simp: bit_at_Cons intro: filter_cong)
  moreover have "filter (bit_at (b # v)) (map (\<lambda>i. i + 8) [0..<8 * length v]) =
      map (\<lambda>i. i + 8) (filter (bit_at v) [0..<8 * length v])"
    by (simp add: filter_map o_def bit_at_Cons)
  ultimately show ?case
    using Cons unfolding bits_set_def upt_bits by (simp add: popcount_byte)
qed (simp add: bits_set_def)

lemma bitCount_loop_bits: "bitCount_loop v = bits_set v"
  by (simp add: bitCount_loop_popcount bits_set_sum)

text \<open>The range a start and an end index select in a value, as \<open>GetRange\<close> has it.\<close>

definition sub_range :: "int \<Rightarrow> int \<Rightarrow> bytes \<Rightarrow> bytes" where
  "sub_range start stop v =
     (case getRange start stop (int (length v)) of
        (a, b) \<Rightarrow> take (nat (b + 1) - nat a) (drop (nat a) v))"

lemma BitCount_ok:
  assumes "key_size_ok key" "v = old_value (contents db (kvkey db key))"
    and "getRange start stop (int (length v)) = (a, b)"
  shows "BitCount key start stop db =
    (if a \<le> b + 1 then Inr (int (bits_set (sub_range start stop v))) else Inl GoPanic)"
proof -
  have "0 \<le> a" "b + 1 \<le> int (length v)"
    using assms(3) by (auto simp: getRange_def Let_def split: if_splits)
  then show ?thesis
    using assms by (simp add: BitCount_def slice_def sub_range_def bitCount_loop_bits)
qed

section \<open>The first bit of a kind\<close>

lemma bitPos_byte_find:
  "on = 0 \<or> on = 1 \<Longrightarrow> bitPos_byte on v js = find (\<lambda>j. bit v (7 - j) = (on = 1)) js"
  by (induction js) (auto simp: Let_def bit_iff_and_push_bit_not_eq_0)

lemma bitPos_skip:
  assumes "on = 0 \<or> on = 1"
  shows "(if v \<noteq> (if on = 0 then 0xFF else 0) then bitPos_byte on v [0..<8] else None) =
    find (\<lambda>j. bit v (7 - j) = (on = 1)) [0..<8]"
proof (cases "v = (if on = 0 then 0xFF else 0)")
  case True
  have mask_eq_FF: "(0xFF :: byte) = mask 8"
    by (simp add: mask_eq_exp_minus_1)
  have "bit (0xFF :: byte) (7 - j)" for j
    unfolding mask_eq_FF by (simp add: bit_mask_iff)
  moreover have "find (\<lambda>j. False) js = None" for js :: "nat list"
    by (induction js) simp_all
  ultimately show ?thesis
    using True assms by auto
next
  case False
  with assms show ?thesis by (simp add: bitPos_byte_find)
qed

lemma find_append:
  "find P (xs @ ys) = (case find P xs of Some x \<Rightarrow> Some x | None \<Rightarrow> find P ys)"
  by (induction xs) auto

lemma find_map: "find P (map f xs) = map_option f (find (\<lambda>x. P (f x)) xs)"
  by (induction xs) auto

lemma find_cong: "(\<And>x. x \<in> set xs \<Longrightarrow> P x = Q x) \<Longrightarrow> find P xs = find Q xs"
  by (induction xs) auto

lemma find_Some_set: "find P xs = Some x \<Longrightarrow> x \<in> set xs \<and> P x"
  by (induction xs) (auto split: if_splits)

lemma bitPos_loop_find:
  assumes "on = 0 \<or> on = 1"
  shows "bitPos_loop on (if on = 0 then 0xFF else 0) i v =
    map_option (\<lambda>p. (i + p div 8, p mod 8))
      (find (\<lambda>p. bit_at v p = (on = 1)) [0..<8 * length v])"
proof (induction v arbitrary: i)
  case (Cons b v)
  let ?P = "\<lambda>p. bit_at (b # v) p = (on = 1)"
  have d8: "(k + 8) div 8 = Suc (k div 8)" for k :: nat
    by simp
  have h: "find ?P [0..<8] = find (\<lambda>j. bit b (7 - j) = (on = 1)) [0..<8]"
    by (rule find_cong) (simp add: bit_at_Cons)
  have t: "find ?P (map (\<lambda>i. i + 8) [0..<8 * length v]) =
      map_option (\<lambda>i. i + 8) (find (\<lambda>p. bit_at v p = (on = 1)) [0..<8 * length v])"
    by (simp add: find_map bit_at_Cons)
  have "bitPos_loop on (if on = 0 then 0xFF else 0) i (b # v) =
      (case find (\<lambda>j. bit b (7 - j) = (on = 1)) [0..<8] of
         Some j \<Rightarrow> Some (i, j)
       | None \<Rightarrow> bitPos_loop on (if on = 0 then 0xFF else 0) (Suc i) v)"
    by (simp only: bitPos_loop.simps bitPos_skip [OF assms])
  also have "\<dots> = map_option (\<lambda>p. (i + p div 8, p mod 8)) (find ?P [0..<8 * length (b # v)])"
    unfolding upt_bits find_append h t Cons.IH
    using find_Some_set [of "\<lambda>j. bit b (7 - j) = (on = 1)" "[0..<8]"] d8
    by (auto simp: option.map_comp o_def split: option.splits)
  finally show ?case .
qed simp

lemma BitPos_ok:
  assumes "key_size_ok key" "v = old_value (contents db (kvkey db key))"
    and "getRange start stop (int (length v)) = (a, b)" and "on = 0 \<or> on = 1"
  shows "BitPos key on start stop db =
    (if a \<le> b + 1
     then Inr (case find (\<lambda>p. bit_at (sub_range start stop v) p = (on = 1))
                      [0..<8 * length (sub_range start stop v)] of
                 None \<Rightarrow> -1 | Some p \<Rightarrow> a * 8 + int p)
     else Inl GoPanic)"
proof -
  have r: "0 \<le> a" "b + 1 \<le> int (length v)"
    using assms(3) by (auto simp: getRange_def Let_def split: if_splits)
  have on: "on AND NOT 1 = 0"
    using assms(4) by auto
  have p: "int (p div 8) * 8 + int (p mod 8) = int p" for p
    by (metis div_mult_mod_eq of_nat_add of_nat_mult of_nat_numeral)
  show ?thesis
    using assms r
    by (auto simp: BitPos_def slice_def sub_range_def on bitPos_loop_find p Let_def
        split: option.splits)
qed

section \<open>Properties\<close>

text \<open>
  C22: \<open>BitCount\<close> returns the number of bits set in the selected range of bytes, for every
  value: the word-parallel count and the table agree with counting the bits one by one. When
  the normalised range starts more than one byte behind its end, the code panics.
\<close>

theorem bitcount_counts:
  assumes "key_size_ok key"
    and "v = (case kv_get (ldb db) (encodeKVKey (indexVarBuf db) key) of None \<Rightarrow> [] | Some b \<Rightarrow> b)"
    and "getRange start stop (int (length v)) = (a, b)"
  shows "BitCount key start stop db =
    (if a \<le> b + 1
     then Inr (int (length (filter (bit_at (sub_range start stop v))
            [0..<8 * length (sub_range start stop v)])))
     else Inl GoPanic)"
  using BitCount_ok [OF assms(1) _ assms(3)] assms(2) by (simp add: old_value_def bits_set_def)

theorem bitcount_counts_witness:
  "BitCount [7] 5 3 demo_db = Inl GoPanic \<and>
   (\<exists>db. Set [7] [255, 1, 3, 0, 128] demo_db = (Inr (), db) \<and> BitCount [7] 0 (-1) db = Inr 12)"
proof -
  have "getRange 5 3 (int (length ([] :: bytes))) = (5, -1)"
    by (simp add: getRange_def)
  from bitcount_counts [OF _ _ this, of "[7]" demo_db] have "BitCount [7] 5 3 demo_db = Inl GoPanic"
    by simp
  moreover obtain db where db: "Set [7] [255, 1, 3, 0, 128] demo_db = (Inr (), db)"
      "contents db = (contents demo_db)(kvkey demo_db [7] \<mapsto> [255, 1, 3, 0, 128])"
      "indexVarBuf db = indexVarBuf demo_db"
    using Set_ok [of demo_db "[7]" "[255, 1, 3, 0, 128]"] by (auto simp: MaxValueSize_def)
  have r: "getRange 0 (-1) (int (length ([255, 1, 3, 0, 128] :: bytes))) = (0, 4)"
    by (simp add: getRange_def)
  have "sub_range 0 (-1) [255, 1, 3, 0, 128] = [255, 1, 3, 0, 128]"
    unfolding sub_range_def r by simp
  moreover have "bits_set [255, 1, 3, 0, 128] = 12"
    unfolding bits_set_sum by simp
  ultimately show ?thesis
    using bitcount_counts [OF _ _ r, of "[7]" db] db by (auto simp: bits_set_def)
qed

text \<open>
  C23: \<open>BitPos\<close> returns the position of the first bit of the wanted kind in the selected range
  of bytes, counted from the first bit of the value, or \<open>-1\<close> if there is none; skipping the
  bytes that consist of the other kind only does not change the result.
\<close>

theorem bitpos_first:
  assumes "key_size_ok key" "on = 0 \<or> on = 1"
    and "v = (case kv_get (ldb db) (encodeKVKey (indexVarBuf db) key) of None \<Rightarrow> [] | Some b \<Rightarrow> b)"
    and "getRange start stop (int (length v)) = (a, b)" and "a \<le> b + 1"
  shows "BitPos key on start stop db =
    Inr (case find (\<lambda>p. bit_at (sub_range start stop v) p = (on = 1))
                [0..<8 * length (sub_range start stop v)] of
           None \<Rightarrow> -1 | Some p \<Rightarrow> a * 8 + int p)"
  using BitPos_ok [OF assms(1) _ assms(4) assms(2)] assms(3,5) by (simp add: old_value_def)

theorem bitpos_first_witness:
  "\<exists>db. Set [7] [0, 16] demo_db = (Inr (), db) \<and> BitPos [7] 1 0 (-1) db = Inr 11"
proof -
  obtain db where db: "Set [7] [0, 16] demo_db = (Inr (), db)"
      "contents db = (contents demo_db)(kvkey demo_db [7] \<mapsto> [0, 16])"
      "indexVarBuf db = indexVarBuf demo_db"
    using Set_ok [of demo_db "[7]" "[0, 16]"] by (auto simp: MaxValueSize_def)
  have r: "getRange 0 (-1) (int (length ([0, 16] :: bytes))) = (0, 1)"
    by (simp add: getRange_def)
  have "sub_range 0 (-1) [0, 16] = [0, 16]"
    unfolding sub_range_def r by simp
  moreover have "find (bit_at [0, 16]) [0..<16] = Some 11"
    by (simp add: upt_rec bit_at_def)
  ultimately show ?thesis
    using bitpos_first [OF _ _ _ r, of "[7]" 1 db] db by auto
qed

text \<open>
  C24: \<open>SetBit\<close> returns the old bit and sets the one bit asked for, growing the value by zero
  bytes if needed and leaving every other bit; \<open>GetBit\<close> reads the bits of the result.
\<close>

theorem setbit_getbit:
  assumes "writable db" "key_size_ok key" "n < 2 ^ 32" "on = 0 \<or> on = 1"
    and "v = (case kv_get (ldb db) (encodeKVKey (indexVarBuf db) key) of None \<Rightarrow> [] | Some b \<Rightarrow> b)"
    and "length v < 2 ^ 32"
  shows "\<exists>db' v'. SetBit key (int n) on db = (Inr (if bit_at v n then 1 else 0), db') \<and>
    kv_get (ldb db') = (kv_get (ldb db))(encodeKVKey (indexVarBuf db) key \<mapsto> v') \<and>
    length v' = max (length v) (Suc (n div 8)) \<and>
    (\<forall>i. bit_at v' i = (if i = n then on = 1 else bit_at v i)) \<and>
    (\<forall>i < 2 ^ 32. GetBit key (int i) db' =
       Inr (if (if i = n then on = 1 else bit_at v i) then 1 else 0))"
proof -
  have v: "v = old_value (contents db (kvkey db key))"
    using assms(5) by (simp add: old_value_def)
  obtain db' v' where r: "SetBit key (int n) on db = (Inr (if bit_at v n then 1 else 0), db')"
      "contents db' = (contents db)(kvkey db key \<mapsto> v')" "indexVarBuf db' = indexVarBuf db"
      "length v' = max (length v) (Suc (n div 8))"
      "\<forall>i. bit_at v' i = (if i = n then on = 1 else bit_at v i)"
    using SetBit_ok [OF assms(1-4) v] by blast
  have "length v' < 2 ^ 32"
    using r(4) assms(3,6) by simp
  then have "GetBit key (int i) db' = Inr (if bit_at v' i then 1 else 0)" if "i < 2 ^ 32" for i
    using that assms(2) r(2,3) by (intro GetBit_ok) (auto simp: old_value_def)
  with r show ?thesis by auto
qed

theorem setbit_getbit_witness:
  "\<exists>db'. SetBit [7] 9 1 demo_db = (Inr 0, db') \<and> GetBit [7] 9 db' = Inr 1 \<and> GetBit [7] 8 db' = Inr 0"
proof -
  from setbit_getbit [of demo_db "[7]" 9 1 "[]"] obtain db' where
    "SetBit [7] 9 1 demo_db = (Inr 0, db')"
    "\<forall>i < 2 ^ 32. GetBit [7] (int i) db' = Inr (if i = 9 then 1 else 0)"
    by (auto simp: bit_at_def)
  then show ?thesis
    by (auto dest: spec [of _ 8] spec [of _ 9])
qed

end
