(* ===== verification/Ledis_List.thy ===== *)
theory Ledis_List
  imports Ledis_KV
begin

text \<open>
  Lists, \<open>ledis/t_list.go\<close> (without the blocking pops). The elements of a list are
  stored under consecutive sequence numbers; the meta entry holds the first and the last of them.
  Sequence numbers and indices are 32-bit words that wrap around as the code's \<open>int32\<close> do, and
  are compared as signed numbers.
\<close>

definition listHeadSeq :: i32 where "listHeadSeq = 1"
definition listTailSeq :: i32 where "listTailSeq = 2"
definition listMinSeq :: i32 where "listMinSeq = 1000"
definition listMaxSeq :: i32 where "listMaxSeq = 2 ^ 31 - 1000"
definition listInitialSeq :: i32 where
  "listInitialSeq = listMinSeq + (listMaxSeq - listMinSeq) div 2"

section \<open>The meta entry\<close>

text \<open>
  With an iterator (\<open>Some it\<close>) the entry is looked up by \<open>Find\<close>, otherwise in the database.
  A value that is too short makes the slice expressions panic.
\<close>

definition lGetMeta :: "DB \<Rightarrow> Iterator option \<Rightarrow> bytes \<Rightarrow> (i32 \<times> i32 \<times> i32) res" where
  "lGetMeta db it ek =
     (case (case it of Some i \<Rightarrow> Inr (fst (it_Find ek i)) | None \<Rightarrow> bucket_Get db ek) of
        Inl e \<Rightarrow> Inl e
      | Inr None \<Rightarrow> Inr (listInitialSeq, listInitialSeq, 0)
      | Inr (Some v) \<Rightarrow>
          if length v < 8 then Inl GoPanic
          else let headSeq = get_le32 v; tailSeq = get_le32 (drop 4 v)
               in Inr (headSeq, tailSeq, tailSeq - headSeq + 1))"

text \<open>A negative size is only logged.\<close>

definition lSetMeta :: "bytes \<Rightarrow> i32 \<Rightarrow> i32 \<Rightarrow> wop list \<Rightarrow> i32 \<times> wop list" where
  "lSetMeta ek headSeq tailSeq t =
     (let sz = tailSeq - headSeq + 1
      in (sz,
          if sint sz < 0 then t
          else if sz = 0 then wb_Delete ek t
          else wb_Put ek (put_le32 headSeq @ put_le32 tailSeq) t))"

section \<open>Pushing and popping\<close>

fun lpush_loop :: "bytes \<Rightarrow> bytes \<Rightarrow> i32 \<Rightarrow> i32 \<Rightarrow> nat \<Rightarrow> bytes list \<Rightarrow> wop list \<Rightarrow> wop list" where
  "lpush_loop p key s delta i [] t = t"
| "lpush_loop p key s delta i (a # args) t =
     lpush_loop p key s delta (Suc i) args
       (wb_Put (lEncodeListKey p key (s + word_of_nat i * delta)) a t)"

definition lpush :: "bytes \<Rightarrow> i32 \<Rightarrow> bytes list \<Rightarrow> DB \<Rightarrow> int res \<times> DB" where
  "lpush key whereSeq args db =
     (case checkKeySize key of
        Inl e \<Rightarrow> (Inl e, db)
      | Inr u \<Rightarrow>
          let metaKey = lEncodeMetaKey (indexVarBuf db) key in
          case lGetMeta db None metaKey of
            Inl e \<Rightarrow> (Inl e, db)
          | Inr (headSeq, tailSeq, sz) \<Rightarrow>
              let pushCnt = length args in
              if pushCnt = 0 then (Inr (sint sz), db)
              else
                let s = (if whereSeq = listTailSeq then tailSeq else headSeq);
                    delta = (if whereSeq = listTailSeq then 1 else -1);
                    s = (if 0 < sint sz then s + delta else s);
                    t = lpush_loop (indexVarBuf db) key s delta 0 args [];
                    s = s + word_of_nat (pushCnt - 1) * delta
                in if sint s \<le> sint listMinSeq \<or> sint listMaxSeq \<le> sint s then (Inl ErrListSeq, db)
                   else
                     let headSeq = (if whereSeq = listHeadSeq then s else headSeq);
                         tailSeq = (if whereSeq = listHeadSeq then tailSeq else s)
                     in commit_ret (snd (lSetMeta metaKey headSeq tailSeq t))
                          (sint sz + int pushCnt) db)"

definition lpop :: "bytes \<Rightarrow> i32 \<Rightarrow> DB \<Rightarrow> bytes option res \<times> DB" where
  "lpop key whereSeq db =
     (case checkKeySize key of
        Inl e \<Rightarrow> (Inl e, db)
      | Inr u \<Rightarrow>
          let metaKey = lEncodeMetaKey (indexVarBuf db) key in
          case lGetMeta db None metaKey of
            Inl e \<Rightarrow> (Inl e, db)
          | Inr (headSeq, tailSeq, sz) \<Rightarrow>
              if sz = 0 then (Inr None, db)
              else
                let s = (if whereSeq = listTailSeq then tailSeq else headSeq);
                    itemKey = lEncodeListKey (indexVarBuf db) key s in
                case bucket_Get db itemKey of
                  Inl e \<Rightarrow> (Inl e, db)
                | Inr v \<Rightarrow>
                    let headSeq = (if whereSeq = listHeadSeq then headSeq + 1 else headSeq);
                        tailSeq = (if whereSeq = listHeadSeq then tailSeq else tailSeq - 1) in
                    case lSetMeta metaKey headSeq tailSeq (wb_Delete itemKey []) of
                      (sz, t) \<Rightarrow>
                        commit_ret (if sz = 0 then snd (rmExpire db t ListType key) else t) v db)"

section \<open>Trimming\<close>

text \<open>\<open>for i := int32(a); i < b; i++\<close> deleting the element at \<open>headSeq+i\<close>.\<close>

function ltrim2_loop :: "bytes \<Rightarrow> bytes \<Rightarrow> i32 \<Rightarrow> i32 \<Rightarrow> i32 \<Rightarrow> wop list \<Rightarrow> wop list" where
  "ltrim2_loop p key headSeq i b t =
     (if sint i < sint b
      then ltrim2_loop p key headSeq (i + 1) b (wb_Delete (lEncodeListKey p key (headSeq + i)) t)
      else t)"
  by pat_completeness auto

termination
proof (relation "measure (\<lambda>(p, key, h, i, b, t). nat (sint b - sint i))")
  fix p key h t and i b :: i32
  assume "sint i < sint b"
  then show "((p, key, h, i + 1, b, wb_Delete (lEncodeListKey p key (h + i)) t), p, key, h, i, b, t)
      \<in> measure (\<lambda>(p, key, h, i, b, t). nat (sint b - sint i))"
    using sint32_bounds(2) [of b] by (simp add: sint32_Suc)
qed simp

text \<open>
  \<open>for trimSeq := s; trimSeq <= e; trimSeq++\<close> deleting the element at \<open>trimSeq\<close>. The loop has no
  end if \<open>e\<close> is the largest \<open>int32\<close> (\<open>None\<close>).
\<close>

function ltrim_loop :: "bytes \<Rightarrow> bytes \<Rightarrow> i32 \<Rightarrow> i32 \<Rightarrow> wop list \<Rightarrow> wop list option" where
  "ltrim_loop p key s e t =
     (if sint s \<le> sint e
      then if sint s = 2 ^ 31 - 1 then None
           else ltrim_loop p key (s + 1) e (wb_Delete (lEncodeListKey p key s) t)
      else Some t)"
  by pat_completeness auto

termination
proof (relation "measure (\<lambda>(p, key, s, e, t). nat (sint e - sint s + 1))")
  fix p key t and s e :: i32
  assume "sint s \<le> sint e" "sint s \<noteq> 2 ^ 31 - 1"
  then show "((p, key, s + 1, e, wb_Delete (lEncodeListKey p key s) t), p, key, s, e, t)
      \<in> measure (\<lambda>(p, key, s, e, t). nat (sint e - sint s + 1))"
    using sint32_bounds(2) [of s] by (simp add: sint32_Suc)
qed simp

declare ltrim2_loop.simps [simp del] ltrim_loop.simps [simp del]

text \<open>
  \<open>lDelete\<close> returns the number of elements it deletes, and adds nothing to the batch when reading
  the meta entry returns an error.
\<close>

definition lDelete :: "DB \<Rightarrow> wop list \<Rightarrow> bytes \<Rightarrow> (int \<times> wop list) res" where
  "lDelete db t key =
     (let mk = lEncodeMetaKey (indexVarBuf db) key;
          it = NewIterator (ldb db) in
      case lGetMeta db (Some it) mk of
        Inl e \<Rightarrow> if e = GoPanic then Inl GoPanic else Inr (0, t)
      | Inr (headSeq, tailSeq, sz) \<Rightarrow>
          let startKey = lEncodeListKey (indexVarBuf db) key headSeq;
              stopKey = lEncodeListKey (indexVarBuf db) key tailSeq;
              es = rli_run (NewRangeIterator it
                     \<lparr>rMin = Some startKey, rMax = Some stopKey, rType = RangeClose\<rparr>)
          in Inr (int (length es), wb_Delete mk (fold (\<lambda>e. wb_Delete (fst e)) es t)))"

definition ltrim2 :: "bytes \<Rightarrow> i64 \<Rightarrow> i64 \<Rightarrow> DB \<Rightarrow> unit res \<times> DB" where
  "ltrim2 key startP stopP db =
     (case checkKeySize key of
        Inl e \<Rightarrow> (Inl e, db)
      | Inr u \<Rightarrow>
          let start = ucast startP :: i32;
              stop = ucast stopP :: i32;
              p = indexVarBuf db;
              ek = lEncodeMetaKey p key in
          case lGetMeta db None ek of
            Inl e \<Rightarrow> (Inl e, db)
          | Inr (headSeq, tailSeq, llen) \<Rightarrow>
              let start = (if sint start < 0 then llen + start else start);
                  stop = (if sint stop < 0 then llen + stop else stop) in
              if sint llen \<le> sint start \<or> sint stop < sint start
              then (case lDelete db [] key of
                      Inl e \<Rightarrow> (Inl e, db)
                    | Inr (num, t) \<Rightarrow> Commit (snd (rmExpire db t ListType key)) db)
              else
                let start = (if sint start < 0 then 0 else start);
                    stop = (if sint llen \<le> sint stop then llen - 1 else stop);
                    t = (if 0 < sint start then ltrim2_loop p key headSeq 0 start [] else []);
                    t = (if sint stop < sint (llen - 1)
                         then ltrim2_loop p key headSeq (stop + 1) llen t else t)
                in Commit (snd (lSetMeta ek (headSeq + start) (headSeq + stop) t)) db)"

definition MinInt32 :: "i32 \<Rightarrow> i32 \<Rightarrow> i32" where
  "MinInt32 a b = (if sint b < sint a then b else a)"

definition MaxInt32 :: "i32 \<Rightarrow> i32 \<Rightarrow> i32" where
  "MaxInt32 a b = (if sint b < sint a then a else b)"

text \<open>
  A loop without an end adds to the batch until the memory is exhausted, which ends the
  program: \<open>GoPanic\<close>.
\<close>

definition ltrim :: "bytes \<Rightarrow> i32 \<Rightarrow> i32 \<Rightarrow> DB \<Rightarrow> i32 res \<times> DB" where
  "ltrim key trimSize whereSeq db =
     (case checkKeySize key of
        Inl e \<Rightarrow> (Inl e, db)
      | Inr u \<Rightarrow>
          if trimSize = 0 then (Inr 0, db)
          else
            let p = indexVarBuf db;
                metaKey = lEncodeMetaKey p key in
            case lGetMeta db None metaKey of
              Inl e \<Rightarrow> (Inl e, db)
            | Inr (headSeq, tailSeq, sz) \<Rightarrow>
                if sz = 0 then (Inr 0, db)
                else
                  let trimStartSeq = (if whereSeq = listHeadSeq then headSeq
                        else MaxInt32 (tailSeq - trimSize + 1) headSeq);
                      trimEndSeq = (if whereSeq = listHeadSeq
                        then MinInt32 (trimStartSeq + trimSize - 1) tailSeq else tailSeq);
                      headSeq = (if whereSeq = listHeadSeq then trimEndSeq + 1 else headSeq);
                      tailSeq = (if whereSeq = listHeadSeq then tailSeq else trimStartSeq - 1) in
                  case ltrim_loop p key trimStartSeq trimEndSeq [] of
                    None \<Rightarrow> (Inl GoPanic, db)
                  | Some t \<Rightarrow>
                      (case lSetMeta metaKey headSeq tailSeq t of
                         (sz, t) \<Rightarrow>
                           commit_ret (if sz = 0 then snd (rmExpire db t ListType key) else t)
                             (trimEndSeq - trimStartSeq + 1) db))"

section \<open>Operations\<close>

definition LLen :: "bytes \<Rightarrow> DB \<Rightarrow> int res" where
  "LLen key db =
     (case checkKeySize key of
        Inl e \<Rightarrow> Inl e
      | Inr u \<Rightarrow>
          (case lGetMeta db None (lEncodeMetaKey (indexVarBuf db) key) of
             Inl e \<Rightarrow> Inl e
           | Inr (headSeq, tailSeq, sz) \<Rightarrow> Inr (sint sz)))"

definition lExpireAt :: "bytes \<Rightarrow> i64 \<Rightarrow> DB \<Rightarrow> int res \<times> DB" where
  "lExpireAt key when db =
     (case LLen key db of
        Inl e \<Rightarrow> (Inl e, db)
      | Inr llen \<Rightarrow>
          if llen = 0 then (Inr 0, db)
          else (case expireAt db [] ListType key when of (t, db) \<Rightarrow> commit_ret t 1 db))"

definition LIndex :: "bytes \<Rightarrow> i32 \<Rightarrow> DB \<Rightarrow> bytes option res" where
  "LIndex key idx db =
     (case checkKeySize key of
        Inl e \<Rightarrow> Inl e
      | Inr u \<Rightarrow>
          let it = NewIterator (ldb db) in
          case lGetMeta db (Some it) (lEncodeMetaKey (indexVarBuf db) key) of
            Inl e \<Rightarrow> Inl e
          | Inr (headSeq, tailSeq, sz) \<Rightarrow>
              let s = (if 0 \<le> sint idx then headSeq + idx else tailSeq + idx + 1)
              in Inr (fst (it_Find (lEncodeListKey (indexVarBuf db) key s) it)))"

definition LPop :: "bytes \<Rightarrow> DB \<Rightarrow> bytes option res \<times> DB" where
  "LPop key db = lpop key listHeadSeq db"

definition LTrim :: "bytes \<Rightarrow> i64 \<Rightarrow> i64 \<Rightarrow> DB \<Rightarrow> unit res \<times> DB" where
  "LTrim key start stop db = ltrim2 key start stop db"

definition LTrimFront :: "bytes \<Rightarrow> i32 \<Rightarrow> DB \<Rightarrow> i32 res \<times> DB" where
  "LTrimFront key trimSize db = ltrim key trimSize listHeadSeq db"

definition LTrimBack :: "bytes \<Rightarrow> i32 \<Rightarrow> DB \<Rightarrow> i32 res \<times> DB" where
  "LTrimBack key trimSize db = ltrim key trimSize listTailSeq db"

definition LPush :: "bytes \<Rightarrow> bytes list \<Rightarrow> DB \<Rightarrow> int res \<times> DB" where
  "LPush key args db = lpush key listHeadSeq args db"

definition LSet :: "bytes \<Rightarrow> i32 \<Rightarrow> bytes \<Rightarrow> DB \<Rightarrow> unit res \<times> DB" where
  "LSet key idx v db =
     (case checkKeySize key of
        Inl e \<Rightarrow> (Inl e, db)
      | Inr u \<Rightarrow>
          (case lGetMeta db None (lEncodeMetaKey (indexVarBuf db) key) of
             Inl e \<Rightarrow> (Inl e, db)
           | Inr (headSeq, tailSeq, sz) \<Rightarrow>
               let s = (if 0 \<le> sint idx then headSeq + idx else tailSeq + idx + 1) in
               if sint s < sint headSeq \<or> sint tailSeq < sint s then (Inl ErrListIndex, db)
               else Commit (wb_Put (lEncodeListKey (indexVarBuf db) key s) v []) db))"

definition LRange :: "bytes \<Rightarrow> i32 \<Rightarrow> i32 \<Rightarrow> DB \<Rightarrow> bytes list res" where
  "LRange key start stop db =
     (case checkKeySize key of
        Inl e \<Rightarrow> Inl e
      | Inr u \<Rightarrow>
          let it = NewIterator (ldb db) in
          case lGetMeta db (Some it) (lEncodeMetaKey (indexVarBuf db) key) of
            Inl e \<Rightarrow> Inl e
          | Inr (headSeq, tailSeq, llen) \<Rightarrow>
              let start = (if sint start < 0 then llen + start else start);
                  stop = (if sint stop < 0 then llen + stop else stop);
                  start = (if sint start < 0 then 0 else start) in
              if sint stop < sint start \<or> sint llen \<le> sint start then Inr []
              else
                let stop = (if sint llen \<le> sint stop then llen - 1 else stop);
                    limit = stop - start + 1;
                    headSeq = headSeq + start;
                    startKey = lEncodeListKey (indexVarBuf db) key headSeq
                in Inr (map snd (rli_run (NewRangeLimitIterator it
                     \<lparr>rMin = Some startKey, rMax = None, rType = RangeClose\<rparr>
                     \<lparr>Offset = 0, Count = sint limit\<rparr>))))"

definition RPop :: "bytes \<Rightarrow> DB \<Rightarrow> bytes option res \<times> DB" where
  "RPop key db = lpop key listTailSeq db"

definition RPush :: "bytes \<Rightarrow> bytes list \<Rightarrow> DB \<Rightarrow> int res \<times> DB" where
  "RPush key args db = lpush key listTailSeq args db"

definition LClear :: "bytes \<Rightarrow> DB \<Rightarrow> int res \<times> DB" where
  "LClear key db =
     (case checkKeySize key of
        Inl e \<Rightarrow> (Inl e, db)
      | Inr u \<Rightarrow>
          (case lDelete db [] key of
             Inl e \<Rightarrow> (Inl e, db)
           | Inr (num, t) \<Rightarrow> commit_ret (snd (rmExpire db t ListType key)) num db))"

fun LMclear_loop :: "DB \<Rightarrow> bytes list \<Rightarrow> wop list \<Rightarrow> wop list res" where
  "LMclear_loop db [] t = Inr t"
| "LMclear_loop db (key # keys) t =
     (case checkKeySize key of
        Inl e \<Rightarrow> Inl e
      | Inr u \<Rightarrow>
          (case lDelete db t key of
             Inl e \<Rightarrow> Inl e
           | Inr (num, t) \<Rightarrow> LMclear_loop db keys (snd (rmExpire db t ListType key))))"

definition LMclear :: "bytes list \<Rightarrow> DB \<Rightarrow> int res \<times> DB" where
  "LMclear keys db =
     (case LMclear_loop db keys [] of
        Inl e \<Rightarrow> (Inl e, db)
      | Inr t \<Rightarrow> commit_ret t (int (length keys)) db)"

definition LExpire :: "bytes \<Rightarrow> i64 \<Rightarrow> DB \<Rightarrow> int res \<times> DB" where
  "LExpire key duration db =
     (if sint duration \<le> 0 then (Inl ErrExpireValue, db)
      else lExpireAt key (now db + duration) db)"

definition LExpireAt :: "bytes \<Rightarrow> i64 \<Rightarrow> DB \<Rightarrow> int res \<times> DB" where
  "LExpireAt key when db =
     (if sint when \<le> sint (now db) then (Inl ErrExpireValue, db) else lExpireAt key when db)"

definition LTTL :: "bytes \<Rightarrow> DB \<Rightarrow> i64 res" where
  "LTTL key db = (case checkKeySize key of Inl e \<Rightarrow> Inl e | Inr u \<Rightarrow> ttl db ListType key)"

definition LPersist :: "bytes \<Rightarrow> DB \<Rightarrow> i64 res \<times> DB" where
  "LPersist key db =
     (case checkKeySize key of
        Inl e \<Rightarrow> (Inl e, db)
      | Inr u \<Rightarrow>
          (case rmExpire db [] ListType key of
             (Inl e, t) \<Rightarrow> (Inl e, db)
           | (Inr n, t) \<Rightarrow> commit_ret t n db))"

definition lEncodeMinKey :: "bytes \<Rightarrow> bytes" where
  "lEncodeMinKey p = lEncodeMetaKey p []"

definition lEncodeMaxKey :: "bytes \<Rightarrow> bytes" where
  "lEncodeMaxKey p = (let ek = lEncodeMetaKey p [] in ek[length ek - 1 := LMetaType + 1])"

definition LKeyExists :: "bytes \<Rightarrow> DB \<Rightarrow> int res" where
  "LKeyExists key db =
     (case checkKeySize key of
        Inl e \<Rightarrow> Inl e
      | Inr u \<Rightarrow>
          (case bucket_Get db (lEncodeMetaKey (indexVarBuf db) key) of
             Inr (Some v) \<Rightarrow> Inr 1
           | Inr None \<Rightarrow> Inr 0
           | Inl e \<Rightarrow> Inl e))"

end
