(* ===== verification/Ledis_Own.thy ===== *)
theory Ledis_Own
  imports Ledis_KV_Laws Ledis_List
begin

text \<open>
  Who owns a key of the backend: every entry of a database belongs to one datum, a name within a
  data type. An operation acts on the data it names (\<open>acts\<close>): it writes nothing, or commits one
  batch whose records all belong to these data. From this follow, once for all operations, that
  they keep the database well formed, that they leave all other data alone, that they write all
  or nothing, and that they write nothing in read-only mode.
\<close>

fun lk_owner :: "lkey \<Rightarrow> byte \<times> bytes" where
  "lk_owner (KVKey k) = (KVType, k)"
| "lk_owner (LMetaKey k) = (ListType, k)"
| "lk_owner (ListKey k s) = (ListType, k)"
| "lk_owner (HSizeKey k) = (HashType, k)"
| "lk_owner (HashKey k f) = (HashType, k)"
| "lk_owner (SSizeKey k) = (SetType, k)"
| "lk_owner (SetKey k m) = (SetType, k)"
| "lk_owner (ZSizeKey k) = (ZSetType, k)"
| "lk_owner (ZSetKey k m) = (ZSetType, k)"
| "lk_owner (ZScoreKey k m s) = (ZSetType, k)"
| "lk_owner (ExpMetaKey dt k) = (dt, k)"
| "lk_owner (ExpTimeKey dt k w) = (dt, k)"

definition own :: "bytes \<Rightarrow> byte \<Rightarrow> bytes set \<Rightarrow> bytes set" where
  "own p dt K = {lkey_encode p lk | lk. lkey_ok lk \<and> fst (lk_owner lk) = dt \<and> snd (lk_owner lk) \<in> K}"

lemma own_I:
  "lkey_ok lk \<Longrightarrow> fst (lk_owner lk) = dt \<Longrightarrow> snd (lk_owner lk) \<in> K \<Longrightarrow> lkey_encode p lk \<in> own p dt K"
  by (auto simp: own_def)

lemma own_simps [simp]:
  "k \<in> K \<Longrightarrow> encodeKVKey p k \<in> own p KVType K"
  "k \<in> K \<Longrightarrow> lEncodeMetaKey p k \<in> own p ListType K"
  "k \<in> K \<Longrightarrow> key16 k \<Longrightarrow> lEncodeListKey p k s \<in> own p ListType K"
  "k \<in> K \<Longrightarrow> hEncodeSizeKey p k \<in> own p HashType K"
  "k \<in> K \<Longrightarrow> key16 k \<Longrightarrow> hEncodeHashKey p k f \<in> own p HashType K"
  "k \<in> K \<Longrightarrow> sEncodeSizeKey p k \<in> own p SetType K"
  "k \<in> K \<Longrightarrow> key16 k \<Longrightarrow> sEncodeSetKey p k f \<in> own p SetType K"
  "k \<in> K \<Longrightarrow> zEncodeSizeKey p k \<in> own p ZSetType K"
  "k \<in> K \<Longrightarrow> key16 k \<Longrightarrow> zEncodeSetKey p k f \<in> own p ZSetType K"
  "k \<in> K \<Longrightarrow> key16 k \<Longrightarrow> zEncodeScoreKey p k f sc \<in> own p ZSetType K"
  "k \<in> K \<Longrightarrow> expEncodeMetaKey p dt k \<in> own p dt K"
  "k \<in> K \<Longrightarrow> expEncodeTimeKey p dt k w \<in> own p dt K"
  using own_I [of "KVKey k" KVType K p] own_I [of "LMetaKey k" ListType K p]
    own_I [of "ListKey k s" ListType K p] own_I [of "HSizeKey k" HashType K p]
    own_I [of "HashKey k f" HashType K p] own_I [of "SSizeKey k" SetType K p]
    own_I [of "SetKey k f" SetType K p] own_I [of "ZSizeKey k" ZSetType K p]
    own_I [of "ZSetKey k f" ZSetType K p] own_I [of "ZScoreKey k f sc" ZSetType K p]
    own_I [of "ExpMetaKey dt k" dt K p] own_I [of "ExpTimeKey dt k w" dt K p]
  by simp_all

lemma own_disjoint:
  assumes "dt \<noteq> dt' \<or> K \<inter> K' = {}"
  shows "own p dt K \<inter> own p dt' K' = {}"
  using assms by (auto simp: own_def lkey_encode_inj)

definition own_batch :: "bytes \<Rightarrow> byte \<Rightarrow> bytes set \<Rightarrow> wop list \<Rightarrow> bool" where
  "own_batch p dt K t \<longleftrightarrow> wop_key ` set t \<subseteq> own p dt K"

lemma own_batch_simps [simp]:
  "own_batch p dt K []"
  "own_batch p dt K (t @ u) \<longleftrightarrow> own_batch p dt K t \<and> own_batch p dt K u"
  "own_batch p dt K (WPut k v # t) \<longleftrightarrow> k \<in> own p dt K \<and> own_batch p dt K t"
  "own_batch p dt K (WDel k # t) \<longleftrightarrow> k \<in> own p dt K \<and> own_batch p dt K t"
  by (auto simp: own_batch_def)

lemma own_mono: "K \<subseteq> K' \<Longrightarrow> own p dt K \<subseteq> own p dt K'"
  unfolding own_def by blast

lemma own_batch_mono: "K \<subseteq> K' \<Longrightarrow> own_batch p dt K t \<Longrightarrow> own_batch p dt K' t"
  unfolding own_batch_def using own_mono by blast

lemma own_batch_op_ok: "own_batch p dt K t \<Longrightarrow> list_all (op_ok p) t"
proof (induction t)
  case (Cons w t)
  then show ?case
    by (cases w) (auto simp: op_ok_def own_def)
qed simp

inductive acts :: "byte \<Rightarrow> bytes set \<Rightarrow> DB \<Rightarrow> DB \<Rightarrow> bool" for dt K db where
  none: "acts dt K db db"
| commit: "own_batch (indexVarBuf db) dt K t \<Longrightarrow> acts dt K db (snd (Commit t (db\<lparr>nc := n\<rparr>)))"

text \<open>
  Rules that follow the control flow of an operation down to its commits.
\<close>

named_theorems acts_rules "control flow rules for the relation acts"

lemma acts_refl [acts_rules]: "acts dt K db (snd (r, db))"
  by (simp add: acts.none)

lemma acts_Commit [acts_rules]:
  "own_batch (indexVarBuf db) dt K t \<Longrightarrow> acts dt K db (snd (Commit t db))"
  using acts.commit [of db dt K t "nc db"] by simp

lemma acts_commit_ret [acts_rules]:
  "own_batch (indexVarBuf db) dt K t \<Longrightarrow> acts dt K db (snd (commit_ret t n db))"
  using acts_Commit [of db dt K t] by (auto simp: commit_ret_def split: prod.splits sum.splits)

lemma acts_res [acts_rules]:
  "(\<And>e. x = Inl e \<Longrightarrow> acts dt K db (snd (f e))) \<Longrightarrow> (\<And>v. x = Inr v \<Longrightarrow> acts dt K db (snd (g v))) \<Longrightarrow>
     acts dt K db (snd (case x of Inl e \<Rightarrow> f e | Inr v \<Rightarrow> g v))"
  by (cases x) simp_all

lemma acts_option [acts_rules]:
  "(x = None \<Longrightarrow> acts dt K db (snd f)) \<Longrightarrow> (\<And>v. x = Some v \<Longrightarrow> acts dt K db (snd (g v))) \<Longrightarrow>
     acts dt K db (snd (case x of None \<Rightarrow> f | Some v \<Rightarrow> g v))"
  by (cases x) simp_all

lemma acts_prod [acts_rules]:
  "(\<And>a b. x = (a, b) \<Longrightarrow> acts dt K db (snd (f a b))) \<Longrightarrow> acts dt K db (snd (case x of (a, b) \<Rightarrow> f a b))"
  by (cases x) simp

lemma acts_if [acts_rules]:
  "(b \<Longrightarrow> acts dt K db (snd x)) \<Longrightarrow> (\<not> b \<Longrightarrow> acts dt K db (snd y)) \<Longrightarrow>
     acts dt K db (snd (if b then x else y))"
  by simp

lemma acts_Let [acts_rules]:
  "(\<And>y. y = x \<Longrightarrow> acts dt K db (snd (f y))) \<Longrightarrow> acts dt K db (snd (let y = x in f y))"
  by simp

section \<open>Consequences\<close>

lemma db_ok_Commit:
  assumes "db_ok db" and "list_all (op_ok (indexVarBuf db)) t"
  shows "db_ok (snd (Commit t (db\<lparr>nc := n\<rparr>)))"
proof -
  have "key_ok (indexVarBuf db) k" if "wb_effect t (kv_get (ldb db)) k = Some v" for k v
    using assms(1) wb_effect_ok [OF _ assms(2) that] unfolding db_ok_def by blast
  moreover have "ldb (snd (Commit t (db\<lparr>nc := n\<rparr>))) = ldb db \<or>
      ldb (snd (Commit t (db\<lparr>nc := n\<rparr>))) = wb_write t (ldb db)"
    using Commit_atomic [of t "db\<lparr>nc := n\<rparr>"] by simp
  ultimately show ?thesis
    using assms(1) by (auto simp: db_ok_def kv_get_write)
qed

lemma acts_db_ok: "acts dt K db db' \<Longrightarrow> db_ok db \<Longrightarrow> db_ok db'"
  by (induction rule: acts.induct) (auto intro: db_ok_Commit own_batch_op_ok)

lemma acts_frame:
  assumes "acts dt K db db'" and "ek \<notin> own (indexVarBuf db) dt K"
  shows "contents db' ek = contents db ek"
  using assms
proof cases
  case (commit t n)
  then have "ek \<notin> wop_key ` set t"
    using assms(2) by (auto simp: own_batch_def)
  then show ?thesis
    using Commit_atomic [of t "db\<lparr>nc := n\<rparr>"] commit
    by (auto simp: kv_get_write wb_effect_other)
qed simp

lemma acts_index [simp]: "acts dt K db db' \<Longrightarrow> indexVarBuf db' = indexVarBuf db"
  by (induction rule: acts.induct) auto

lemma acts_readonly: "acts dt K db db' \<Longrightarrow> readonly db \<Longrightarrow> ldb db' = ldb db"
  by (induction rule: acts.induct) (auto simp: Commit_readonly)

lemma acts_readonly_same: "acts dt K db db' \<Longrightarrow> readonly db' = readonly db"
  by (induction rule: acts.induct) auto

lemma acts_atomic:
  "acts dt K db db' \<Longrightarrow> \<exists>t. own_batch (indexVarBuf db) dt K t \<and> ldb db' \<in> {ldb db, wb_write t (ldb db)}"
proof (induction rule: acts.induct)
  case (commit t n)
  then show ?case
    using Commit_atomic [of t "db\<lparr>nc := n\<rparr>"] by (intro exI [of _ t]) auto
qed (auto intro: exI [of _ "[]"])

section \<open>The shared helpers\<close>

lemma rmExpire_own [simp]:
  "key \<in> K \<Longrightarrow> own_batch (indexVarBuf db) dt K (snd (rmExpire db t dt key)) \<longleftrightarrow>
     own_batch (indexVarBuf db) dt K t"
  by (auto simp: rmExpire_def Let_def split: option.splits sum.splits)

lemma rmExpire_own_pair:
  "rmExpire db t dt key = (r, u) \<Longrightarrow> key \<in> K \<Longrightarrow> own_batch (indexVarBuf db) dt K t \<Longrightarrow>
     own_batch (indexVarBuf db) dt K u"
  using rmExpire_own [of key K db dt t] by simp

text \<open>An operation that only sets an expiry time.\<close>

lemma acts_expireAt [acts_rules]:
  assumes "key \<in> K" and "own_batch (indexVarBuf db) dt K t"
    and "\<And>t' n. own_batch (indexVarBuf db) dt K t' \<Longrightarrow> acts dt K db (snd (f t' (db\<lparr>nc := n\<rparr>)))"
  shows "acts dt K db (snd (case expireAt db t dt key when of (t', db') \<Rightarrow> f t' db'))"
proof -
  obtain t' db' where e: "expireAt db t dt key when = (t', db')"
    by fastforce
  with assms have "own_batch (indexVarBuf db) dt K t'" "db' = db\<lparr>nc := nc db'\<rparr>"
    by (auto simp: expireAt_def Let_def setNextCheckTime_def)
  with assms(3) e show ?thesis
    by (metis case_prod_conv)
qed

lemma acts_Commit_nc [acts_rules]:
  "own_batch (indexVarBuf db) dt K t \<Longrightarrow> acts dt K db (snd (Commit t (db\<lparr>nc := n\<rparr>)))"
  by (rule acts.commit)

lemma acts_commit_ret_nc [acts_rules]:
  "own_batch (indexVarBuf db) dt K t \<Longrightarrow> acts dt K db (snd (commit_ret t x (db\<lparr>nc := n\<rparr>)))"
  using acts.commit [of db dt K t n] by (auto simp: commit_ret_def split: prod.splits sum.splits)

lemma checkKeySize_key16: "checkKeySize key = Inr u \<Longrightarrow> key16 key"
  by (auto simp: checkKeySize_def key16_def MaxKeySize_def split: if_splits)

lemma key_size_key16 [simp]: "key_size_ok key \<Longrightarrow> key16 key"
  by (simp add: key_size_ok_def key16_def MaxKeySize_def)

section \<open>Running the iterators of a database\<close>

lemma run_new [simp]:
  assumes "kv_ok s"
  shows "rli_run (NewRangeLimitIterator (NewIterator s) r l) = limit_entries l (range_entries r s)"
    "rli_run (NewRevRangeLimitIterator (NewIterator s) r l) = limit_entries l (rev (range_entries r s))"
    "rli_run (NewRangeIterator (NewIterator s) r) = range_entries r s"
  using assms rli_run_range [of "NewIterator s"]
  by (simp_all add: NewRangeLimitIterator_def NewRevRangeLimitIterator_def NewRangeIterator_def
      directed_def limit_entries_def limited_def NewIterator_def)

lemma run_db [simp]:
  assumes "kv_ok (ldb db)"
  shows "rli_run (db_RangeLimitIterator db mn mx ty off n) =
      limit_entries \<lparr>Offset = off, Count = n\<rparr> (range_entries \<lparr>rMin = mn, rMax = mx, rType = ty\<rparr> (ldb db))"
    "rli_run (db_RevRangeLimitIterator db mn mx ty off n) =
      limit_entries \<lparr>Offset = off, Count = n\<rparr>
        (rev (range_entries \<lparr>rMin = mn, rMax = mx, rType = ty\<rparr> (ldb db)))"
  using assms by (simp_all add: db_RangeLimitIterator_def db_RevRangeLimitIterator_def)

lemma range_filter:
  "range_entries \<lparr>rMin = Some a, rMax = Some b, rType = RangeClose\<rparr> s = filter (\<lambda>e. a \<le> fst e \<and> fst e \<le> b) s"
  "range_entries \<lparr>rMin = Some a, rMax = Some b, rType = RangeROpen\<rparr> s = filter (\<lambda>e. a \<le> fst e \<and> fst e < b) s"
  "range_entries \<lparr>rMin = Some a, rMax = None, rType = RangeClose\<rparr> s = filter (\<lambda>e. a \<le> fst e) s"
  by (simp_all add: range_entries_def above_min_def below_max_def range_types)

lemma limit_all [simp]: "limit_entries \<lparr>Offset = 0, Count = -1\<rparr> xs = xs"
  by (simp add: limit_entries_def limited_def)

lemma fold_wb_Delete: "fold (\<lambda>e. wb_Delete (fst e)) es t = t @ map (\<lambda>e. WDel (fst e)) es"
  by (induction es arbitrary: t) simp_all

text \<open>The strings between two strings with a common prefix have this prefix.\<close>

lemma between_prefix:
  fixes k :: "'a :: linorder list"
  shows "q @ a \<le> k \<Longrightarrow> k \<le> q @ b \<Longrightarrow> \<exists>r. k = q @ r"
proof (induction q arbitrary: k)
  case (Cons x q)
  then show ?case by (cases k) auto
qed simp

lemma filter_ge_Cons:
  "kv_ok s \<Longrightarrow> kv_get s k = Some v \<Longrightarrow> filter (\<lambda>e. k \<le> fst e) s = (k, v) # filter (\<lambda>e. k < fst e) s"
proof (induction s)
  case (Cons e s)
  show ?case
  proof (cases "fst e = k")
    case True
    then have "filter (\<lambda>e. k \<le> fst e) s = filter (\<lambda>e. k < fst e) s"
      using Cons.prems(1) by (intro filter_cong) (auto simp: kv_ok_def)
    with True Cons.prems(2) show ?thesis
      by (cases e) (simp add: kv_get_def)
  next
    case False
    then have "kv_get s k = Some v"
      using Cons.prems(2) by (cases e) (simp add: kv_get_def)
    moreover from this have "fst e < k"
      using Cons.prems(1) by (auto simp: kv_ok_def kv_get_def dest!: map_of_SomeD)
    ultimately show ?thesis
      using Cons False by (auto simp: kv_ok_def)
  qed
qed (simp add: kv_get_def)

lemma kv_get_dom: "kv_ok s \<Longrightarrow> e \<in> set s \<Longrightarrow> kv_get s (fst e) = Some (snd e)"
  by (cases e) (simp add: kv_get_iff_mem)

section \<open>Refinement of runs\<close>

text \<open>
  A machine executes commands on a state and answers each; \<open>exec\<close> refines \<open>spec\<close> if related
  states give the same answer and related states again, for commands that are \<open>ok\<close>. Each command
  has a cost, and the relation is kept only up to a bound on the total cost.
\<close>

fun run :: "('c \<Rightarrow> 's \<Rightarrow> 'o \<times> 's) \<Rightarrow> 'c list \<Rightarrow> 's \<Rightarrow> 'o list \<times> 's" where
  "run f [] s = ([], s)"
| "run f (c # cs) s = (case f c s of (r, s) \<Rightarrow> (case run f cs s of (outs, s) \<Rightarrow> (r # outs, s)))"

locale step_refinement =
  fixes exec :: "'c \<Rightarrow> 's \<Rightarrow> 'o \<times> 's" and spec :: "'c \<Rightarrow> 'a \<Rightarrow> 'o \<times> 'a"
    and rel :: "nat \<Rightarrow> 's \<Rightarrow> 'a \<Rightarrow> bool" and ok :: "'c \<Rightarrow> bool" and cost :: "'c \<Rightarrow> nat" and bound :: nat
  assumes step: "rel n s a \<Longrightarrow> ok c \<Longrightarrow> n + cost c \<le> bound \<Longrightarrow>
    \<exists>s'. exec c s = (fst (spec c a), s') \<and> rel (n + cost c) s' (snd (spec c a))"
begin

lemma run_refines:
  "rel n s a \<Longrightarrow> list_all ok cs \<Longrightarrow> n + sum_list (map cost cs) \<le> bound \<Longrightarrow>
     \<exists>s'. run exec cs s = (fst (run spec cs a), s') \<and> rel (n + sum_list (map cost cs)) s' (snd (run spec cs a))"
proof (induction cs arbitrary: n s a)
  case (Cons c cs)
  then obtain s' where s': "exec c s = (fst (spec c a), s')" "rel (n + cost c) s' (snd (spec c a))"
    using step [of n s a c] by auto
  show ?case
    using Cons.IH [OF s'(2)] Cons.prems(2,3) s'(1) by (auto simp: add.assoc split: prod.splits)
qed simp

end

end
