(* ===== verification/Ledis_List_Laws.thy ===== *)
theory Ledis_List_Laws
  imports Ledis_Own
begin

text \<open>
  What the list operations do, against the lists of HOL: \<open>list_at db key h xs\<close> says that the
  entries of \<open>key\<close> represent the list \<open>xs\<close>, its first element being stored under sequence number
  \<open>h\<close>. Every operation maps a represented list to a represented list.
\<close>

abbreviation lmeta :: "DB \<Rightarrow> bytes \<Rightarrow> bytes" where
  "lmeta db key \<equiv> lEncodeMetaKey (indexVarBuf db) key"

abbreviation litem :: "DB \<Rightarrow> bytes \<Rightarrow> i32 \<Rightarrow> bytes" where
  "litem db key s \<equiv> lEncodeListKey (indexVarBuf db) key s"

section \<open>Slots\<close>

text \<open>\<open>slot h xs\<close> is the list \<open>xs\<close> laid out from position \<open>h\<close> on.\<close>

definition slot :: "int \<Rightarrow> 'a list \<Rightarrow> int \<Rightarrow> 'a option" where
  "slot h xs x = (if h \<le> x \<and> x < h + int (length xs) then Some (xs ! nat (x - h)) else None)"

lemma slot_Nil [simp]: "slot h [] = Map.empty"
  by (simp add: slot_def fun_eq_iff)

lemma slot_Cons: "slot (h - 1) (a # xs) = (slot h xs)(h - 1 \<mapsto> a)"
  by (auto simp: slot_def fun_eq_iff nth_Cons' nat_diff_distrib' intro!: arg_cong [where f = "nth xs"])

lemma slot_snoc: "slot h (xs @ [a]) = (slot h xs)(h + int (length xs) \<mapsto> a)"
  by (auto simp: slot_def fun_eq_iff nth_append)

lemma slot_drop: "n \<le> length xs \<Longrightarrow>
    slot (h + int n) (drop n xs) x = (if x < h + int n then None else slot h xs x)"
  by (auto simp: slot_def intro!: arg_cong [where f = "nth xs"])

lemma slot_take: "slot h (take n xs) x = (if h + int n \<le> x then None else slot h xs x)"
  by (auto simp: slot_def min_def)

lemma slot_update: "i < length xs \<Longrightarrow> slot h (xs[i := v]) = (slot h xs)(h + int i \<mapsto> v)"
  by (auto simp: slot_def fun_eq_iff nth_list_update)

lemma slot_nth: "i < length xs \<Longrightarrow> slot h xs (h + int i) = Some (xs ! i)"
  by (simp add: slot_def)

section \<open>Represented lists\<close>

definition list_at :: "DB \<Rightarrow> bytes \<Rightarrow> int \<Rightarrow> bytes list \<Rightarrow> bool" where
  "list_at db key h xs \<longleftrightarrow>
     contents db (lmeta db key) = (if xs = [] then None
       else Some (put_le32 (word_of_int h) @ put_le32 (word_of_int (h + int (length xs) - 1)))) \<and>
     (\<forall>s. contents db (litem db key s) = slot h xs (sint s)) \<and>
     (xs \<noteq> [] \<longrightarrow> 1000 < h \<and> h + int (length xs) \<le> 2 ^ 31 - 1000)"

definition initSeq :: int where "initSeq = 2 ^ 30"

lemma seq_consts [simp]:
  "sint listMinSeq = 1000" "sint listMaxSeq = 2 ^ 31 - 1000" "listInitialSeq = word_of_int initSeq"
  "listHeadSeq \<noteq> listTailSeq" "listTailSeq \<noteq> listHeadSeq"
  by (simp_all add: listMinSeq_def listMaxSeq_def listInitialSeq_def initSeq_def listHeadSeq_def
      listTailSeq_def)

lemma list_keys_simps [simp]:
  "lEncodeListKey p k s = lEncodeListKey p k s' \<longleftrightarrow> s = s'"
  "lEncodeListKey p k s \<noteq> lEncodeMetaKey p k'"
  "lEncodeMetaKey p k' \<noteq> lEncodeListKey p k s"
  "expEncodeMetaKey p dt k' \<noteq> lEncodeListKey p k s"
  "expEncodeTimeKey p dt k' w \<noteq> lEncodeListKey p k s"
  "expEncodeMetaKey p dt k' \<noteq> lEncodeMetaKey p k"
  "expEncodeTimeKey p dt k' w \<noteq> lEncodeMetaKey p k"
  "lEncodeListKey p k s \<noteq> expEncodeMetaKey p dt k'"
  "lEncodeListKey p k s \<noteq> expEncodeTimeKey p dt k' w"
  "lEncodeMetaKey p k \<noteq> expEncodeMetaKey p dt k'"
  "lEncodeMetaKey p k \<noteq> expEncodeTimeKey p dt k' w"
  by (auto simp: encoder_defs type_defs)

text \<open>Removing an expiry does not touch a list.\<close>

lemma rmExpire_other:
  assumes "\<And>w. ek \<noteq> expEncodeTimeKey (indexVarBuf db) dt key w"
    and "ek \<noteq> expEncodeMetaKey (indexVarBuf db) dt key"
  shows "wb_effect (snd (rmExpire db t dt key)) m ek = wb_effect t m ek"
  using assms by (auto simp: rmExpire_def Let_def split: option.splits sum.splits)

lemma list_at_nonempty:
  assumes "list_at db key h xs" "xs \<noteq> []"
  shows "1000 < h" "h + int (length xs) \<le> 2 ^ 31 - 1000"
  using assms by (simp_all add: list_at_def)

lemma sint_seq: "0 \<le> x \<Longrightarrow> x < 2 ^ 31 \<Longrightarrow> sint (word_of_int x :: i32) = x"
  by (simp add: sint32_of_int)

lemma sint_seq_nat: "n < 2 ^ 31 \<Longrightarrow> sint (word_of_nat n :: i32) = int n"
  using sint_seq [of "int n"] by simp

lemma seq_iff: "- (2 ^ 31) \<le> x \<Longrightarrow> x < 2 ^ 31 \<Longrightarrow> (s :: i32) = word_of_int x \<longleftrightarrow> sint s = x"
  by (auto simp: sint32_of_int)

lemma lGetMeta_at:
  assumes "list_at db key h xs"
  shows "lGetMeta db None (lmeta db key) = Inr (if xs = [] then (listInitialSeq, listInitialSeq, 0)
    else (word_of_int h, word_of_int (h + int (length xs) - 1), word_of_int (int (length xs))))"
  using assms by (simp add: lGetMeta_def list_at_def Let_def del: seq_consts)

lemma it_Find_new [simp]: "kv_ok s \<Longrightarrow> fst (it_Find k (NewIterator s)) = kv_get s k"
  by (simp add: it_Find_get NewIterator_def)

lemma lGetMeta_it:
  assumes "kv_ok (ldb db)"
  shows "lGetMeta db (Some (NewIterator (ldb db))) ek = lGetMeta db None ek"
  using assms by (simp add: lGetMeta_def)

lemma LLen_at: "list_at db key h xs \<Longrightarrow> key_size_ok key \<Longrightarrow> LLen key db = Inr (int (length xs))"
  using list_at_nonempty [of db key h xs] by (auto simp: LLen_def lGetMeta_at sint_seq_nat)

text \<open>
  The representation of a list depends on its own entries only.
\<close>

lemma list_at_cong:
  assumes "indexVarBuf db' = indexVarBuf db"
    and "contents db' (lmeta db key) = contents db (lmeta db key)"
    and "\<And>s. contents db' (litem db key s) = contents db (litem db key s)"
  shows "list_at db' key h xs \<longleftrightarrow> list_at db key h xs"
  using assms by (simp add: list_at_def)

lemma list_at_frame:
  assumes "acts dt K db db'" "dt \<noteq> ListType \<or> key \<notin> K" "key16 key"
  shows "list_at db' key h xs \<longleftrightarrow> list_at db key h xs"
proof (rule list_at_cong)
  have d: "own (indexVarBuf db) dt K \<inter> own (indexVarBuf db) ListType {key} = {}"
    using assms(2) by (intro own_disjoint) auto
  have m: "lmeta db key \<in> own (indexVarBuf db) ListType {key}"
    and i: "litem db key s \<in> own (indexVarBuf db) ListType {key}" for s
    using assms(3) by simp_all
  show "contents db' (lmeta db key) = contents db (lmeta db key)"
    "contents db' (litem db key s) = contents db (litem db key s)" for s
    using acts_frame [OF assms(1)] d m i by blast+
qed (use assms in simp)

section \<open>Pushing\<close>

lemma lpush_loop_Suc: "lpush_loop p key s d (Suc i) args t = lpush_loop p key (s + d) d i args t"
  by (induction args arbitrary: i t) (simp_all add: algebra_simps)

lemma lpush_loop_append: "lpush_loop p key s d i args t = t @ lpush_loop p key s d i args []"
proof (induction args arbitrary: i t)
  case (Cons a args)
  show ?case
    using Cons [of "Suc i" "t @ [WPut (lEncodeListKey p key (s + word_of_nat i * d)) a]"]
      Cons [of "Suc i" "[WPut (lEncodeListKey p key (s + word_of_nat i * d)) a]"] by simp
qed simp

lemma lpush_loop_Cons:
  "lpush_loop p key s d 0 (a # args) [] =
     WPut (lEncodeListKey p key s) a # lpush_loop p key (s + d) d 0 args []"
  using lpush_loop_append [of p key "s + d" d 0 args "[WPut (lEncodeListKey p key s) a]"]
  by (simp add: lpush_loop_Suc)

lemma lpush_loop_own:
  "k \<in> K \<Longrightarrow> key16 k \<Longrightarrow> own_batch p ListType K (lpush_loop p k s d i args t) \<longleftrightarrow> own_batch p ListType K t"
  by (induction args arbitrary: i t) simp_all

lemma lpush_loop_meta: "wb_effect (lpush_loop p k s d 0 args []) m (lEncodeMetaKey p k') = m (lEncodeMetaKey p k')"
  by (induction args arbitrary: s m) (simp_all add: lpush_loop_Cons del: lpush_loop.simps(2))

lemma lpush_head_effect:
  assumes "\<And>s. m (lEncodeListKey p key s) = slot h xs (sint s)"
    and "- (2 ^ 31) \<le> h - int (length args)" "h \<le> 2 ^ 31"
  shows "wb_effect (lpush_loop p key (word_of_int (h - 1)) (-1) 0 args []) m (lEncodeListKey p key s) =
    slot (h - int (length args)) (rev args @ xs) (sint s)"
  using assms
proof (induction args arbitrary: m h xs)
  case (Cons a args)
  let ?m = "m(lEncodeListKey p key (word_of_int (h - 1)) \<mapsto> a)"
  have eq: "(s = word_of_int (h - 1)) \<longleftrightarrow> sint s = h - 1" for s :: i32
    using Cons.prems(2,3) by (intro seq_iff) simp_all
  have "wb_effect (lpush_loop p key (word_of_int (h - 1 - 1)) (-1) 0 args []) ?m (lEncodeListKey p key s) =
      slot (h - 1 - int (length args)) (rev args @ a # xs) (sint s)"
    using Cons.prems by (intro Cons.IH) (simp_all add: slot_Cons eq del: of_int_diff)
  then show ?case
    by (simp add: lpush_loop_Cons algebra_simps del: lpush_loop.simps(2))
qed simp

lemma lpush_tail_effect:
  assumes "\<And>s. m (lEncodeListKey p key s) = slot h xs (sint s)" "h + int (length xs) = e"
    and "e + int (length args) \<le> 2 ^ 31" "- (2 ^ 31) \<le> e"
  shows "wb_effect (lpush_loop p key (word_of_int e) 1 0 args []) m (lEncodeListKey p key s) =
    slot h (xs @ args) (sint s)"
  using assms
proof (induction args arbitrary: m e xs)
  case (Cons a args)
  let ?m = "m(lEncodeListKey p key (word_of_int e) \<mapsto> a)"
  have eq: "(s = word_of_int e) \<longleftrightarrow> sint s = e" for s :: i32
    using Cons.prems(3,4) by (intro seq_iff) simp_all
  have "wb_effect (lpush_loop p key (word_of_int (e + 1)) 1 0 args []) ?m (lEncodeListKey p key s) =
      slot h ((xs @ [a]) @ args) (sint s)"
    using Cons.prems by (intro Cons.IH) (simp_all add: slot_snoc eq)
  then show ?case
    by (simp add: lpush_loop_Cons algebra_simps del: lpush_loop.simps(2))
qed simp

lemma lSetMeta_words:
  assumes "e - h + 1 = word_of_int n" "0 \<le> n" "n < 2 ^ 31"
  shows "lSetMeta ek h e t =
    (word_of_int n, if n = 0 then t @ [WDel ek] else t @ [WPut ek (put_le32 h @ put_le32 e)])"
proof -
  have "word_of_int n = (0 :: i32) \<longleftrightarrow> n = 0"
    using seq_iff [of n 0] assms(2,3) by auto
  then show ?thesis
    using assms by (simp add: lSetMeta_def Let_def sint_seq)
qed

lemma lSetMeta_effect:
  assumes "0 \<le> n" "n < 2 ^ 31"
  shows "lSetMeta ek (word_of_int h) (word_of_int (h + n - 1)) t =
    (word_of_int n, if n = 0 then t @ [WDel ek]
       else t @ [WPut ek (put_le32 (word_of_int h) @ put_le32 (word_of_int (h + n - 1)))])"
  by (rule lSetMeta_words) (use assms in simp_all)

lemma lSetMeta_own [simp]:
  "ek \<in> own p dt K \<Longrightarrow> own_batch p dt K (snd (lSetMeta ek h e t)) \<longleftrightarrow> own_batch p dt K t"
  by (simp add: lSetMeta_def Let_def)

lemma lpush_acts: "acts ListType {key} db (snd (lpush key whereSeq args db))"
  unfolding lpush_def by (intro acts_rules) (simp_all add: lpush_loop_own checkKeySize_key16)

text \<open>The position in front of the first and the one after the last element.\<close>

definition head_pos :: "int \<Rightarrow> 'a list \<Rightarrow> int" where
  "head_pos h xs = (if xs = [] then initSeq else h - 1)"

definition tail_pos :: "int \<Rightarrow> 'a list \<Rightarrow> int" where
  "tail_pos h xs = (if xs = [] then initSeq else h + int (length xs))"

lemma list_at_committed:
  assumes "writable db" "\<And>s. wb_effect t (contents db) (litem db key s) = slot h ys (sint s)"
    and "wb_effect t (contents db) (lmeta db key) = (if ys = [] then None
       else Some (put_le32 (word_of_int h) @ put_le32 (word_of_int (h + int (length ys) - 1))))"
    and "ys \<noteq> [] \<Longrightarrow> 1000 < h \<and> h + int (length ys) \<le> 2 ^ 31 - 1000"
  shows "list_at (committed t db) key h ys"
  using assms by (simp add: list_at_def)

lemma list_at_pos:
  assumes "list_at db key h xs"
  shows "999 < head_pos h xs" "head_pos h xs + int (length xs) < 2 ^ 31 - 1000"
    "1000 < tail_pos h xs" "tail_pos h xs \<le> 2 ^ 31 - 1000"
    "sint (word_of_nat (length xs) :: i32) = int (length xs)"
    "1000 < tail_pos h xs - int (length xs)"
  using list_at_nonempty [OF assms]
  by (cases "xs = []"; auto simp: head_pos_def tail_pos_def initSeq_def intro!: sint_seq_nat)+

lemma lpush_head_unfold:
  assumes "key_size_ok key" "list_at db key h xs" "args \<noteq> []"
    and s: "word_of_int (head_pos h xs) - word_of_nat (length args - 1) = (s :: i32)"
  shows "LPush key args db =
    (if sint s \<le> 1000 \<or> 2 ^ 31 - 1000 \<le> sint s then (Inl ErrListSeq, db)
     else commit_ret (snd (lSetMeta (lmeta db key) s (word_of_int (head_pos h xs + int (length xs)))
         (lpush_loop (indexVarBuf db) key (word_of_int (head_pos h xs)) (-1) 0 args [])))
       (int (length xs) + int (length args)) db)"
proof (cases "xs = []")
  case True
  then show ?thesis
    using assms by (simp add: LPush_def lpush_def lGetMeta_at Let_def head_pos_def)
next
  case False
  then have "sint (word_of_nat (length xs) :: i32) = int (length xs)" "0 < length xs"
    using list_at_pos(5) [OF assms(2)] by simp_all
  moreover have e: "word_of_int h + word_of_nat (length xs) - 1 = word_of_int h - 1 + (word_of_nat (length xs) :: i32)"
    by simp
  ultimately show ?thesis
    using assms False by (simp add: e LPush_def lpush_def lGetMeta_at Let_def head_pos_def)
qed

lemma LPush_ok:
  assumes "writable db" "key_size_ok key" "list_at db key h xs" "args \<noteq> []" "length args < 2 ^ 31"
    and h': "h' = head_pos h xs - int (length args) + 1"
  shows "if h' \<le> 1000 then LPush key args db = (Inl ErrListSeq, db)
    else \<exists>db'. LPush key args db = (Inr (int (length xs) + int (length args)), db') \<and>
      list_at db' key h' (rev args @ xs)"
proof -
  let ?n = "length args" and ?g = "head_pos h xs"
  let ?t = "lpush_loop (indexVarBuf db) key (word_of_int ?g) (-1) 0 args []"
  note g = list_at_pos [OF assms(3)]
  have n: "1 \<le> ?n"
    using assms(4) by (simp add: Suc_leI)
  have w: "word_of_int ?g - word_of_nat (?n - 1) = (word_of_int h' :: i32)"
    using n by (simp add: h' of_nat_diff)
  have s: "sint (word_of_int h' :: i32) = h'"
    using g assms(5) n h' by (intro sint32_of_int) auto
  have gh: "?g + int (length xs) = h' + (int (length xs) + int ?n) - 1"
    by (simp add: h')
  have hg: "?g + 1 - int ?n = h'"
    by (simp add: h')
  note l = lpush_head_unfold [OF assms(2-4) w, unfolded s gh]
  show ?thesis
  proof (cases "h' \<le> 1000")
    case False
    have b: "\<not> 2 ^ 31 - 1000 \<le> h'" "0 \<le> int (length xs) + int ?n" "int (length xs) + int ?n < 2 ^ 31"
      using g h' n False by auto
    have v: "contents db (litem db key s) = slot (?g + 1) xs (sint s)" for s
      using assms(3) by (simp add: list_at_def head_pos_def)
    have "wb_effect ?t (contents db) (litem db key s) = slot h' (rev args @ xs) (sint s)" for s
      using lpush_head_effect [where m = "contents db", OF v, of args, unfolded hg] g h' assms(5)
      by simp
    then have "list_at (committed (?t @ [WPut (lmeta db key) (put_le32 (word_of_int h') @
        put_le32 (word_of_int (h' + (int (length xs) + int ?n) - 1)))]) db) key h' (rev args @ xs)"
      using assms(1,4) False b(1) g(2) gh
      by (intro list_at_committed) (simp_all add: add.commute [of "int (length xs)"])
    with False b n assms(1) show ?thesis
      by (simp add: l [unfolded lSetMeta_effect [OF b(2,3)]])
  qed (simp add: l)
qed

lemma lpush_tail_unfold:
  assumes "key_size_ok key" "list_at db key h xs" "args \<noteq> []"
    and s: "word_of_int (tail_pos h xs) + word_of_nat (length args - 1) = (s :: i32)"
  shows "RPush key args db =
    (if sint s \<le> 1000 \<or> 2 ^ 31 - 1000 \<le> sint s then (Inl ErrListSeq, db)
     else commit_ret (snd (lSetMeta (lmeta db key) (word_of_int (tail_pos h xs - int (length xs))) s
         (lpush_loop (indexVarBuf db) key (word_of_int (tail_pos h xs)) 1 0 args [])))
       (int (length xs) + int (length args)) db)"
proof (cases "xs = []")
  case True
  then show ?thesis
    using assms by (simp add: RPush_def lpush_def lGetMeta_at Let_def tail_pos_def)
next
  case False
  then have "sint (word_of_nat (length xs) :: i32) = int (length xs)" "0 < length xs"
    using list_at_pos(5) [OF assms(2)] by simp_all
  then show ?thesis
    using assms False by (simp add: RPush_def lpush_def lGetMeta_at Let_def tail_pos_def)
qed

lemma sint32_wrap: "2 ^ 31 \<le> x \<Longrightarrow> x < 2 ^ 32 \<Longrightarrow> sint (word_of_int x :: i32) = x - 2 ^ 32"
proof -
  assume x: "2 ^ 31 \<le> x" "x < 2 ^ 32"
  have "(word_of_int (x - 2 ^ 32) :: i32) = word_of_int x"
    by (rule word_of_int_eq_iff [THEN iffD2]) (simp add: take_bit_eq_mod)
  with x show ?thesis
    using sint32_of_int [of "x - 2 ^ 32"] by (simp del: of_int_diff)
qed

lemma RPush_ok:
  assumes "writable db" "key_size_ok key" "list_at db key h xs" "args \<noteq> []" "length args < 2 ^ 31"
    and h': "h' = tail_pos h xs - int (length xs)"
  shows "if 2 ^ 31 - 1000 < tail_pos h xs + int (length args) then RPush key args db = (Inl ErrListSeq, db)
    else \<exists>db'. RPush key args db = (Inr (int (length xs) + int (length args)), db') \<and>
      list_at db' key h' (xs @ args)"
proof -
  let ?n = "length args" and ?g = "tail_pos h xs"
  let ?t = "lpush_loop (indexVarBuf db) key (word_of_int ?g) 1 0 args []"
  note g = list_at_pos [OF assms(3)]
  have n: "1 \<le> ?n"
    using assms(4) by (simp add: Suc_leI)
  let ?s = "?g + int ?n - 1"
  have w: "word_of_int ?g + word_of_nat (?n - 1) = (word_of_int ?s :: i32)"
    using n by (simp add: of_nat_diff)
  have gh: "?s = h' + (int (length xs) + int ?n) - 1"
    by (simp add: h')
  note l = lpush_tail_unfold [OF assms(2-4) w, folded h']
  show ?thesis
  proof (cases "2 ^ 31 - 1000 < ?g + int ?n")
    case True
    then have "sint (word_of_int ?s :: i32) = (if ?s < 2 ^ 31 then ?s else ?s - 2 ^ 32)"
      using g assms(5) sint32_wrap [of ?s] sint32_of_int [of ?s] by simp
    with True g assms(5) show ?thesis
      unfolding l by auto
  next
    case False
    have s: "sint (word_of_int ?s :: i32) = ?s"
      using g n False by (intro sint32_of_int) auto
    have b: "\<not> ?s \<le> 1000" "\<not> 2 ^ 31 - 1000 \<le> ?s"
      "0 \<le> int (length xs) + int ?n" "int (length xs) + int ?n < 2 ^ 31"
      using g n False by auto
    have v: "contents db (litem db key s) = slot h' xs (sint s)" for s
      using assms(3) by (simp add: list_at_def tail_pos_def h')
    have "wb_effect ?t (contents db) (litem db key s) = slot h' (xs @ args) (sint s)" for s
      using lpush_tail_effect [where m = "contents db", OF v, of ?g args] g h' False by simp
    then have "list_at (committed (?t @ [WPut (lmeta db key) (put_le32 (word_of_int h') @
        put_le32 (word_of_int (h' + (int (length xs) + int ?n) - 1)))]) db) key h' (xs @ args)"
      using assms(1,4) False g h' list_at_nonempty [OF assms(3)] 
      by (intro list_at_committed) (simp_all add: tail_pos_def initSeq_def split: if_splits)
    with False b n assms(1) show ?thesis
      using l [unfolded s] b(1,2) unfolding gh lSetMeta_effect [OF b(3,4)] by simp
  qed
qed

section \<open>Popping\<close>

lemma lSetMeta_rm_own:
  assumes "lSetMeta ek h e t0 = (sz, t)" "ek \<in> own (indexVarBuf db) ListType K"
    "own_batch (indexVarBuf db) ListType K t0" "key \<in> K"
  shows "own_batch (indexVarBuf db) ListType K (if b then snd (rmExpire db t ListType key) else t)"
  using assms lSetMeta_own [of ek "indexVarBuf db" ListType K h e t0] by simp

lemma lpop_acts: "acts ListType {key} db (snd (lpop key whereSeq db))"
  unfolding lpop_def by (intro acts_rules) (simp_all add: checkKeySize_key16 lSetMeta_rm_own)

lemma lpop_empty: "list_at db key h [] \<Longrightarrow> key_size_ok key \<Longrightarrow> lpop key w db = (Inr None, db)"
  using lGetMeta_at [of db key h "[]"] by (simp add: lpop_def)

lemma seq_zero_iff: "n < 2 ^ 31 \<Longrightarrow> word_of_nat n = (0 :: i32) \<longleftrightarrow> n = 0"
  using sint_seq_nat [of n] by fastforce

text \<open>The batch of a pop that leaves the list \<open>ys\<close>.\<close>

definition pop_batch :: "DB \<Rightarrow> bytes \<Rightarrow> i32 \<Rightarrow> int \<Rightarrow> bytes list \<Rightarrow> wop list" where
  "pop_batch db key s h ys =
     (let t = [WDel (litem db key s)] in
      if ys = [] then snd (rmExpire db (t @ [WDel (lmeta db key)]) ListType key)
      else t @ [WPut (lmeta db key)
        (put_le32 (word_of_int h) @ put_le32 (word_of_int (h + int (length ys) - 1)))])"

lemma pop_batch_list_at:
  assumes "writable db" "ys \<noteq> [] \<Longrightarrow> 1000 < h \<and> h + int (length ys) \<le> 2 ^ 31 - 1000"
    and "\<And>s'. (if s' = s then None else contents db (litem db key s')) = slot h ys (sint s')"
  shows "list_at (committed (pop_batch db key s h ys) db) key h ys"
proof (rule list_at_committed)
  show "wb_effect (pop_batch db key s h ys) (contents db) (litem db key s') = slot h ys (sint s')" for s'
    using assms(3) [of s'] by (auto simp: pop_batch_def Let_def rmExpire_other)
qed (use assms in \<open>auto simp: pop_batch_def Let_def rmExpire_other\<close>)

lemma lpop_unfold:
  assumes "writable db" "key_size_ok key" "list_at db key h zs" "length zs = Suc (length ys)"
    and "h' = (if w = listHeadSeq then h + 1 else h)" "w = listHeadSeq \<or> w = listTailSeq"
    and "s = word_of_int (if w = listHeadSeq then h else h + int (length ys))"
  shows "lpop key w db = (Inr (contents db (litem db key s)), committed (pop_batch db key s h' ys) db)"
proof -
  have "zs \<noteq> []"
    using assms(4) by auto
  note b = list_at_nonempty [OF assms(3) this]
  have n: "1 + word_of_nat (length ys) \<noteq> (0 :: i32)"
    using seq_zero_iff [of "Suc (length ys)"] b assms(4) by simp
  have m: "lSetMeta ek (word_of_int h') (word_of_int (h' + int (length ys) - 1)) t =
      (word_of_nat (length ys), if ys = [] then t @ [WDel ek] else t @ [WPut ek
        (put_le32 (word_of_int h') @ put_le32 (word_of_int (h' + int (length ys) - 1)))])" for ek t
    using lSetMeta_effect [of "int (length ys)" ek h' t] b assms(4) by simp
  have z: "word_of_nat (length ys) = (0 :: i32) \<longleftrightarrow> ys = []"
    using seq_zero_iff [of "length ys"] b assms(4) by simp
  show ?thesis
    using assms n m z lGetMeta_at [OF assms(3)] \<open>zs \<noteq> []\<close>
    by (auto simp: lpop_def pop_batch_def Let_def)
qed

lemma LPop_ok:
  assumes "writable db" "key_size_ok key" "list_at db key h (x # xs)"
  shows "\<exists>db'. LPop key db = (Inr (Some x), db') \<and> list_at db' key (h + 1) xs"
proof -
  note b = list_at_nonempty [OF assms(3), simplified]
  have v: "contents db (litem db key s) = slot h (x # xs) (sint s)" for s
    using assms(3) by (simp add: list_at_def)
  have "list_at (committed (pop_batch db key (word_of_int h) (h + 1) xs) db) key (h + 1) xs"
    using slot_drop [of 1 "x # xs" h] seq_iff [of h] b assms(1)
    by (intro pop_batch_list_at) (auto simp: v slot_def)
  then show ?thesis
    using lpop_unfold [OF assms, of xs "h + 1" listHeadSeq] b sint_seq [of h]
    by (simp add: LPop_def v slot_def)
qed

lemma RPop_ok:
  assumes "writable db" "key_size_ok key" "list_at db key h (xs @ [x])"
  shows "\<exists>db'. RPop key db = (Inr (Some x), db') \<and> list_at db' key h xs"
proof -
  note b = list_at_nonempty [OF assms(3), simplified]
  let ?e = "h + int (length xs)"
  have v: "contents db (litem db key s) = slot h (xs @ [x]) (sint s)" for s
    using assms(3) by (simp add: list_at_def)
  have "list_at (committed (pop_batch db key (word_of_int ?e) h xs) db) key h xs"
    using slot_snoc [of h xs x] seq_iff [of ?e] b assms(1)
    by (intro pop_batch_list_at) (auto simp: v slot_def)
  then show ?thesis
    using lpop_unfold [OF assms, of xs h listTailSeq] b sint_seq [of ?e] slot_snoc [of h xs x]
    by (simp add: RPop_def v)
qed

section \<open>Elements by index\<close>

text \<open>An index counts from the end if it is negative.\<close>

definition list_index :: "int \<Rightarrow> 'a list \<Rightarrow> int" where
  "list_index i xs = (if 0 \<le> i then i else int (length xs) + i)"

definition index_seq :: "int \<Rightarrow> bytes list \<Rightarrow> i32 \<Rightarrow> i32" where
  "index_seq h xs i = (if 0 \<le> sint i then word_of_int h + i
     else word_of_int (h + int (length xs) - 1) + i + 1)"

lemma sint_index_seq:
  assumes "1000 < h" "h + int (length xs) \<le> 2 ^ 31 - 1000"
  shows "sint (index_seq h xs i) = (if h + list_index (sint i) xs < 2 ^ 31
    then h + list_index (sint i) xs else h + list_index (sint i) xs - 2 ^ 32)"
proof -
  have i: "- (2 ^ 31) \<le> sint i" "sint i < 2 ^ 31"
    by (rule sint32_bounds)+
  have "index_seq h xs i = word_of_int (h + list_index (sint i) xs)"
    by (simp add: index_seq_def list_index_def)
  then show ?thesis
    using assms i sint32_of_int [of "h + list_index (sint i) xs"]
      sint32_wrap [of "h + list_index (sint i) xs"]
    by (auto simp: list_index_def simp del: of_int_add)
qed

definition nth_opt :: "'a list \<Rightarrow> int \<Rightarrow> 'a option" where
  "nth_opt xs i = (if 0 \<le> i \<and> i < int (length xs) then Some (xs ! nat i) else None)"

lemma list_index_bound: "length xs < 2 ^ 31 \<Longrightarrow> list_index (sint (i :: i32)) xs < 2 ^ 31"
  using sint32_bounds [of i] by (simp add: list_index_def)

lemma LIndex_ok:
  assumes "kv_ok (ldb db)" "key_size_ok key" "list_at db key h xs"
  shows "LIndex key i db = Inr (nth_opt xs (list_index (sint i) xs))"
proof (cases "xs = []")
  case True
  then show ?thesis
    using assms lGetMeta_at [OF assms(3)]
    by (simp add: LIndex_def lGetMeta_it Let_def list_at_def nth_opt_def list_index_def)
next
  case False
  note b = list_at_nonempty [OF assms(3) False]
  have "LIndex key i db = Inr (slot h xs (sint (index_seq h xs i)))"
    using assms False lGetMeta_at [OF assms(3)] lGetMeta_it [OF assms(1)]
    by (simp add: LIndex_def Let_def list_at_def index_seq_def)
  then show ?thesis
    using b list_index_bound [of xs i] by (auto simp: sint_index_seq [OF b] slot_def nth_opt_def)
qed

lemma LSet_ok:
  assumes "writable db" "key_size_ok key" "list_at db key h xs" "xs \<noteq> []"
  shows "if nth_opt xs (list_index (sint i) xs) = None then LSet key i v db = (Inl ErrListIndex, db)
    else \<exists>db'. LSet key i v db = (Inr (), db') \<and>
      list_at db' key h (xs[nat (list_index (sint i) xs) := v])"
proof -
  note b = list_at_nonempty [OF assms(3,4)]
  let ?k = "list_index (sint i) xs" and ?s = "index_seq h xs i"
  have h: "sint (word_of_int h :: i32) = h"
    "sint (word_of_int (h + int (length xs) - 1) :: i32) = h + int (length xs) - 1"
    using b by (intro sint_seq; auto)+
  have l: "LSet key i v db = (if sint ?s < h \<or> h + int (length xs) - 1 < sint ?s
      then (Inl ErrListIndex, db) else Commit [WPut (litem db key ?s) v] db)"
    using assms lGetMeta_at [OF assms(3)] h
    by (simp add: LSet_def Let_def index_seq_def)
  show ?thesis
  proof (cases "0 \<le> ?k \<and> ?k < int (length xs)")
    case True
    have s: "sint ?s = h + ?k"
      using True b by (simp add: sint_index_seq [OF b])
    have "nat ?k < length xs"
      using True by linarith
    note u = slot_update [OF this, of h v]
    have "list_at (committed [WPut (litem db key ?s) v] db) key h (xs[nat ?k := v])"
    proof (rule list_at_committed)
      fix s'
      have "s' = ?s \<longleftrightarrow> sint s' = sint ?s"
        by (auto intro: signed_word_eqI)
      then show "wb_effect [WPut (litem db key ?s) v] (contents db) (litem db key s') =
          slot h (xs[nat ?k := v]) (sint s')"
        using u True assms(3) s by (simp add: list_at_def)
    qed (use assms b in \<open>auto simp: list_at_def\<close>)
    moreover have "LSet key i v db = (Inr (), committed [WPut (litem db key ?s) v] db)"
      using True l s assms(1) by simp
    moreover have "nth_opt xs ?k \<noteq> None"
      using True by (simp add: nth_opt_def)
    ultimately show ?thesis by simp
  next
    case False
    then have "sint ?s < h \<or> h + int (length xs) - 1 < sint ?s"
      using b list_index_bound [of xs i] unfolding sint_index_seq [OF b] by auto
    moreover have "nth_opt xs ?k = None"
      using False by (simp only: nth_opt_def if_False)
    ultimately show ?thesis
      unfolding l by (simp only: if_True simp_thms)
  qed
qed

text \<open>
  On a missing list the index \<open>0\<close> (and \<open>-1\<close>) passes the bounds check, and \<open>LSet\<close> writes an
  element without a meta entry.
\<close>

lemma LSet_missing:
  assumes "writable db" "key_size_ok key" "list_at db key h []"
  shows "\<exists>db'. LSet key 0 v db = (Inr (), db') \<and>
    contents db' = (contents db)(litem db key listInitialSeq \<mapsto> v) \<and> indexVarBuf db' = indexVarBuf db"
  using assms lGetMeta_at [OF assms(3)] by (simp add: LSet_def)

end
