(* ===== verification/Ledis_List_Range_Laws.thy ===== *)
theory Ledis_List_Range_Laws
  imports Ledis_List_Laws
begin

text \<open>
  The list operations that work on ranges: reading a range, clearing and trimming. They rely on
  the layout of the keys, so the database has to be well formed (\<open>db_ok\<close>): between two elements
  of a list there is nothing but elements of this list.
\<close>

section \<open>The elements of a list as a range of keys\<close>

lemma seq_le: "0 \<le> x \<Longrightarrow> x < 2 ^ 31 \<Longrightarrow> 0 \<le> y \<Longrightarrow> y < 2 ^ 31 \<Longrightarrow>
    (word_of_int x :: i32) \<le> word_of_int y \<longleftrightarrow> x \<le> y"
  by (simp add: word_le_def uint_word_of_int)

lemma seq_less: "0 \<le> x \<Longrightarrow> x < 2 ^ 31 \<Longrightarrow> 0 \<le> y \<Longrightarrow> y < 2 ^ 31 \<Longrightarrow>
    (word_of_int x :: i32) < word_of_int y \<longleftrightarrow> x < y"
  by (simp add: word_less_def uint_word_of_int)

lemma list_key_between:
  assumes "key_ok p k" "key16 key" "lEncodeListKey p key a \<le> k" "k \<le> lEncodeListKey p key b"
  shows "\<exists>s. k = lEncodeListKey p key s"
proof -
  let ?q = "p @ ListType # keyLen16 key @ key"
  have "?q @ put_be32 a \<le> k" "k \<le> ?q @ put_be32 b"
    using assms(3,4) by (simp_all add: lEncodeListKey_def)
  then obtain r where r: "k = ?q @ r"
    using between_prefix by blast
  then obtain lk where lk: "lkey_ok lk" "k = lkey_encode p lk"
    using assms(1) unfolding key_ok_def by (metis append.assoc)
  have "lkey_type lk = ListType"
    using lkey_encode_nth [of p lk] unfolding lk(2) [symmetric] r by (simp add: nth_append)
  then obtain k' s where "lk = ListKey k' s"
    by (cases lk) (auto simp: type_defs)
  moreover from this have "keyLen16 k' @ k' @ put_be32 s = keyLen16 key @ key @ r"
    using lk(2) r by (simp add: lEncodeListKey_def)
  ultimately show ?thesis
    using lk keyLen16_append_eq [of k' key] assms(2) by auto
qed

lemma db_entry:
  assumes "db_ok db" "e \<in> set (ldb db)"
  shows "contents db (fst e) = Some (snd e)" "key_ok (indexVarBuf db) (fst e)"
  using assms kv_get_dom [of "ldb db" e] by (auto simp: db_ok_def)

lemma list_entry_seq:
  assumes "db_ok db" "key16 key" "list_at db key h xs" "e \<in> set (ldb db)"
    and "litem db key a \<le> fst e" "fst e \<le> litem db key b"
  obtains x where "fst e = litem db key (word_of_int x)" "h \<le> x" "x < h + int (length xs)"
proof -
  obtain s where s: "fst e = litem db key s"
    using list_key_between [OF db_entry(2) [OF assms(1,4)] assms(2,5,6)] by blast
  then have "slot h xs (sint s) = Some (snd e)"
    using db_entry(1) [OF assms(1,4)] assms(3) by (simp add: list_at_def)
  with s that [of "sint s"] show ?thesis
    by (auto simp: slot_def split: if_splits)
qed

definition item_entries :: "DB \<Rightarrow> bytes \<Rightarrow> int \<Rightarrow> bytes list \<Rightarrow> nat \<Rightarrow> kvstore" where
  "item_entries db key h xs n = map (\<lambda>i. (litem db key (word_of_int (h + int i)), xs ! i)) [n..<length xs]"

lemma items_from:
  assumes "db_ok db" "key16 key" "list_at db key h xs" "n < length xs"
  shows "\<exists>rest. filter (\<lambda>e. litem db key (word_of_int (h + int n)) \<le> fst e) (ldb db) =
    item_entries db key h xs n @ rest"
  using assms(4)
proof (induction "length xs - n" arbitrary: n)
  case (Suc m)
  let ?k = "\<lambda>n. litem db key (word_of_int (h + int n))"
  note b = list_at_nonempty [OF assms(3)]
  have b': "1000 < h" "h + int (length xs) \<le> 2 ^ 31 - 1000"
    using b Suc.prems by fastforce+
  have "contents db (?k n) = Some (xs ! n)"
    using assms(3) Suc.prems b' sint_seq [of "h + int n"] slot_nth [of n xs h]
    by (simp add: list_at_def del: of_int_add)
  then have f: "filter (\<lambda>e. ?k n \<le> fst e) (ldb db) = (?k n, xs ! n) # filter (\<lambda>e. ?k n < fst e) (ldb db)"
    using assms(1) by (intro filter_ge_Cons) auto
  have i: "item_entries db key h xs n = (?k n, xs ! n) # item_entries db key h xs (Suc n)"
    using Suc.prems by (simp add: item_entries_def upt_rec del: of_int_add)
  show ?case
  proof (cases "Suc n < length xs")
    case True
    have m: "m = length xs - Suc n"
      using Suc.hyps(2) by simp
    have "?k (Suc n) \<le> fst e" if e: "e \<in> set (ldb db)" and gt: "?k n < fst e" for e
    proof (rule ccontr)
      assume "\<not> ?k (Suc n) \<le> fst e"
      with gt have lt: "?k n < fst e \<and> fst e < ?k (Suc n)"
        by (simp only: not_le simp_thms)
      obtain x where "fst e = litem db key (word_of_int x)" "h \<le> x" "x < h + int (length xs)"
        using list_entry_seq [OF assms(1-3) e, of "word_of_int (h + int n)" "word_of_int (h + int (Suc n))"]
          lt by (metis less_imp_le)
      with lt b' True seq_less [of "h + int n" x] seq_less [of x "h + int (Suc n)"] show False
        by (simp add: list_key_less del: of_int_add)
    qed
    moreover have "?k n < ?k (Suc n)"
      using b' True seq_less [of "h + int n" "h + int (Suc n)"]
      by (simp add: list_key_less del: of_int_add)
    ultimately have "filter (\<lambda>e. ?k n < fst e) (ldb db) = filter (\<lambda>e. ?k (Suc n) \<le> fst e) (ldb db)"
      by (intro filter_cong refl) (meson less_le_trans)
    moreover obtain rest where "filter (\<lambda>e. ?k (Suc n) \<le> fst e) (ldb db) = item_entries db key h xs (Suc n) @ rest"
      using Suc.hyps(1) [OF m True] by blast
    ultimately show ?thesis
      using f i by simp
  next
    case False
    then have "item_entries db key h xs (Suc n) = []"
      by (simp add: item_entries_def)
    with f i show ?thesis by simp
  qed
qed simp

lemma range_items:
  assumes "db_ok db" "key16 key" "list_at db key h xs" "xs \<noteq> []"
  shows "filter (\<lambda>e. litem db key (word_of_int h) \<le> fst e \<and>
      fst e \<le> litem db key (word_of_int (h + int (length xs) - 1))) (ldb db) = item_entries db key h xs 0"
    (is "filter (\<lambda>e. ?a \<le> fst e \<and> fst e \<le> ?b) ?s = _")
proof -
  note b = list_at_nonempty [OF assms(3,4)]
  obtain rest where r: "filter (\<lambda>e. ?a \<le> fst e) ?s = item_entries db key h xs 0 @ rest"
    using items_from [OF assms(1-3), of 0] assms(4) by auto
  have ok: "kv_ok (item_entries db key h xs 0 @ rest)"
    unfolding r [symmetric] using assms(1) by (intro kv_ok_filter) simp
  have l: "(?b, xs ! (length xs - 1)) \<in> set (item_entries db key h xs 0)"
    using assms(4) by (force simp: item_entries_def Suc_le_eq of_nat_diff)
  have "filter (\<lambda>e. ?a \<le> fst e \<and> fst e \<le> ?b) ?s = filter (\<lambda>e. fst e \<le> ?b) (filter (\<lambda>e. ?a \<le> fst e) ?s)"
    by (simp add: conj_commute)
  also have "\<dots> = filter (\<lambda>e. fst e \<le> ?b) (item_entries db key h xs 0) @ filter (\<lambda>e. fst e \<le> ?b) rest"
    unfolding r by simp
  also have "filter (\<lambda>e. fst e \<le> ?b) rest = []"
  proof -
    have "\<forall>x\<in>set (item_entries db key h xs 0). \<forall>y\<in>set rest. fst x < fst y"
      using ok by (simp add: kv_ok_def sorted_wrt_append)
    then have "\<forall>y\<in>set rest. ?b < fst y"
      using l by (metis fst_conv)
    then show ?thesis
      by (simp add: filter_empty_conv not_le)
  qed
  also have "filter (\<lambda>e. fst e \<le> ?b) (item_entries db key h xs 0) = item_entries db key h xs 0"
  proof -
    have "word_of_int (h + int i) \<le> (word_of_int (h + int (length xs) - 1) :: i32)" if "i < length xs" for i
      using that b seq_le [of "h + int i" "h + int (length xs) - 1"] by simp
    then show ?thesis
      unfolding filter_id_conv item_entries_def by (auto simp only: list_key_less set_map set_upt atLeastLessThan_iff fst_conv)
  qed
  finally show ?thesis by simp
qed

section \<open>Reading a range\<close>

lemma norm_index:
  "(if sint i < 0 then word_of_nat (length xs) + i else i) = (word_of_int (list_index (sint i) xs) :: i32)"
  by (simp add: list_index_def)

lemma list_index_range:
  "length xs < 2 ^ 31 \<Longrightarrow> sint (word_of_int (list_index (sint (i :: i32)) xs) :: i32) = list_index (sint i) xs"
  using sint32_bounds [of i] by (intro sint32_of_int) (auto simp: list_index_def)

definition range_of :: "int \<Rightarrow> int \<Rightarrow> 'a list \<Rightarrow> 'a list" where
  "range_of a b xs =
     (let a = max 0 (list_index a xs); b = min (list_index b xs) (int (length xs) - 1)
      in if b < a then [] else take (nat (b - a + 1)) (drop (nat a) xs))"

lemma lGetMeta_len:
  assumes "list_at db key h xs"
  shows "\<exists>hw tw. lGetMeta db None (lmeta db key) = Inr (hw, tw, word_of_nat (length xs)) \<and>
    (xs \<noteq> [] \<longrightarrow> hw = word_of_int h) \<and> length xs < 2 ^ 31"
  using lGetMeta_at [OF assms] list_at_nonempty [OF assms] by (cases "xs = []") auto

lemma LRange_unfold:
  fixes xs :: "bytes list" and start stop :: i32
  assumes "kv_ok (ldb db)" "key_size_ok key" "length xs < 2 ^ 31"
    and meta: "lGetMeta db None (lmeta db key) = Inr (hw, tw, word_of_nat (length xs))"
    and A: "A = list_index (sint start) xs" and B: "B = list_index (sint stop) xs"
  shows "LRange key start stop db =
    (if B < max 0 A \<or> int (length xs) \<le> max 0 A then Inr []
     else Inr (map snd (limit_entries
       \<lparr>Offset = 0, Count = sint (word_of_int (min B (int (length xs) - 1) - max 0 A + 1) :: i32)\<rparr>
       (filter (\<lambda>e. litem db key (hw + word_of_int (max 0 A)) \<le> fst e) (ldb db)))))"
proof -
  note r = list_index_range [OF assms(3), of start, folded A]
    list_index_range [OF assms(3), of stop, folded B] sint_seq_nat [OF assms(3)]
  have a: "(if A < 0 then 0 else word_of_int A) = (word_of_int (max 0 A) :: i32)"
    "sint (word_of_int (max 0 A) :: i32) = max 0 A"
    using r by (auto simp: max_def)
  have c: "(if int (length xs) \<le> B then word_of_nat (length xs) - 1 else word_of_int B) -
      word_of_int (max 0 A) + 1 = (word_of_int (min B (int (length xs) - 1) - max 0 A + 1) :: i32)"
    by (simp add: min_def)
  show ?thesis
    unfolding LRange_def Let_def
    by (simp only: checkKeySize_ok [OF assms(2)] lGetMeta_it [OF assms(1)] meta sum.case prod.case
        norm_index A [symmetric] B [symmetric] r a c run_new [OF assms(1)] range_filter)
qed

lemma LRange_ok:
  assumes "db_ok db" "key_size_ok key" "list_at db key h xs"
  shows "LRange key start stop db = Inr (range_of (sint start) (sint stop) xs)"
proof -
  obtain hw tw where m: "lGetMeta db None (lmeta db key) = Inr (hw, tw, word_of_nat (length xs))"
      "xs \<noteq> [] \<longrightarrow> hw = word_of_int h" "length xs < 2 ^ 31"
    using lGetMeta_len [OF assms(3)] by blast
  define A where "A = list_index (sint start) xs"
  define B where "B = list_index (sint stop) xs"
  let ?n = "int (length xs)" and ?a = "max 0 A" and ?b = "min B (int (length xs) - 1)"
  note l = LRange_unfold [OF db_ok_kv_ok [OF assms(1)] assms(2) m(3,1) A_def B_def]
  note spec = range_of_def [of "sint start" "sint stop" xs, folded A_def B_def, unfolded Let_def]
  show ?thesis
  proof (cases "B < ?a \<or> ?n \<le> ?a")
    case True
    then show ?thesis
      unfolding l spec by auto
  next
    case False
    have c: "sint (word_of_int (?b - ?a + 1) :: i32) = ?b - ?a + 1"
      using False m(3) by (intro sint32_of_int) auto
    have h: "hw + word_of_int ?a = word_of_int (h + int (nat ?a))"
      using False m(2) by (cases "xs = []") simp_all
    have "nat ?a < length xs"
      using False by linarith
    from items_from [OF assms(1) key_size_key16 [OF assms(2)] assms(3) this]
    obtain rest where r: "filter (\<lambda>e. litem db key (word_of_int (h + int (nat ?a))) \<le> fst e) (ldb db) =
        item_entries db key h xs (nat ?a) @ rest"
      by blast
    have d: "map snd (item_entries db key h xs (nat ?a)) = drop (nat ?a) xs"
      by (rule nth_equalityI) (auto simp: item_entries_def)
    have "nat (?b - ?a + 1) \<le> length (item_entries db key h xs (nat ?a))" "\<not> ?b - ?a + 1 < 0" "\<not> ?b < ?a"
      using False by (auto simp: item_entries_def)
    with False show ?thesis
      unfolding l spec c h r by (simp add: limit_entries_def limited_def d flip: take_map)
  qed
qed

section \<open>Clearing\<close>

lemma lDelete_own:
  assumes "db_ok db" "key16 key" "key \<in> K" "lDelete db t key = Inr (n, u)"
    and "own_batch (indexVarBuf db) ListType K t"
  shows "own_batch (indexVarBuf db) ListType K u"
proof -
  have o: "fst e \<in> own (indexVarBuf db) ListType K"
    if "e \<in> set (ldb db)" "litem db key a \<le> fst e" "fst e \<le> litem db key b"
    for e a b
    using list_key_between [OF db_entry(2) [OF assms(1) that(1)] assms(2) that(2,3)] assms(2,3) by auto
  consider "u = t" | a b where "u = t @ map (\<lambda>e. WDel (fst e))
      (filter (\<lambda>e. litem db key a \<le> fst e \<and> fst e \<le> litem db key b) (ldb db)) @ [WDel (lmeta db key)]"
    using assms(1,4) by (auto simp: lDelete_def lGetMeta_it Let_def fold_wb_Delete range_filter
        split: sum.splits if_splits)
  then show ?thesis
    by cases (use o assms(3,5) in \<open>auto simp: own_batch_def\<close>)
qed

lemma lDelete_at:
  assumes "db_ok db" "key_size_ok key" "list_at db key h xs"
  shows "lDelete db t key =
    Inr (int (length xs), t @ map (\<lambda>e. WDel (fst e)) (item_entries db key h xs 0) @ [WDel (lmeta db key)])"
proof (cases "xs = []")
  case True
  have "\<not> (litem db key listInitialSeq \<le> fst e \<and> fst e \<le> litem db key listInitialSeq)"
    if "e \<in> set (ldb db)" for e
  proof
    assume "litem db key listInitialSeq \<le> fst e \<and> fst e \<le> litem db key listInitialSeq"
    then have "fst e = litem db key listInitialSeq"
      by (simp only: order.antisym)
    then show False
      using db_entry(1) [OF assms(1) that] assms(3) True by (simp add: list_at_def)
  qed
  then have "filter (\<lambda>e. litem db key listInitialSeq \<le> fst e \<and> fst e \<le> litem db key listInitialSeq) (ldb db) = []"
    by (simp only: filter_empty_conv) blast
  with True show ?thesis
    using assms lGetMeta_at [OF assms(3)]
    by (simp add: lDelete_def lGetMeta_it Let_def fold_wb_Delete range_filter item_entries_def)
next
  case False
  have "length (item_entries db key h xs 0) = length xs"
    by (simp add: item_entries_def)
  with False show ?thesis
    using assms lGetMeta_at [OF assms(3)] range_items [OF assms(1) key_size_key16 [OF assms(2)] assms(3) False]
    by (simp add: lDelete_def lGetMeta_it Let_def fold_wb_Delete range_filter del: of_int_add of_int_diff)
qed

lemma wb_effect_WDel_map: "wb_effect (map (\<lambda>e. WDel (f e)) es) m = (\<lambda>k. if k \<in> f ` set es then None else m k)"
  using wb_effect_deletes [of "map f es" m] by (simp add: comp_def)

lemma clear_effect:
  assumes "list_at db key h xs"
  shows "wb_effect (map (\<lambda>e. WDel (fst e)) (item_entries db key h xs 0) @ [WDel (lmeta db key)])
      (contents db) (litem db key s) = None"
proof (cases "h \<le> sint s \<and> sint s < h + int (length xs)")
  case True
  then have i: "word_of_int (h + int (nat (sint s - h))) = s" "nat (sint s - h) \<in> {0..<length xs}"
    by auto
  have "fst ` set (item_entries db key h xs 0) = (\<lambda>i. litem db key (word_of_int (h + int i))) ` {0..<length xs}"
    by (simp add: item_entries_def image_image)
  then have "litem db key s \<in> fst ` set (item_entries db key h xs 0)"
    using imageI [OF i(2), of "\<lambda>i. litem db key (word_of_int (h + int i))"] by (simp only: i(1))
  then show ?thesis
    by (simp add: wb_effect_WDel_map)
next
  case False
  then show ?thesis
    using assms by (auto simp: wb_effect_WDel_map list_at_def slot_def)
qed

lemma list_cleared:
  assumes "writable db" "list_at db key h xs"
  shows "list_at (committed (snd (rmExpire db (map (\<lambda>e. WDel (fst e)) (item_entries db key h xs 0) @
    [WDel (lmeta db key)]) ListType key)) db) key h []"
proof (rule list_at_committed)
  let ?t = "map (\<lambda>e. WDel (fst e)) (item_entries db key h xs 0) @ [WDel (lmeta db key)]"
  fix s
  have "wb_effect (snd (rmExpire db ?t ListType key)) (contents db) (litem db key s) =
      wb_effect ?t (contents db) (litem db key s)"
    by (rule rmExpire_other) simp_all
  then show "wb_effect (snd (rmExpire db ?t ListType key)) (contents db) (litem db key s) = slot h [] (sint s)"
    unfolding clear_effect [OF assms(2)] by simp
qed (simp_all add: rmExpire_other assms(1))

lemma LClear_ok:
  assumes "db_ok db" "writable db" "key_size_ok key" "list_at db key h xs"
  shows "\<exists>db'. LClear key db = (Inr (int (length xs)), db') \<and> list_at db' key h []"
  using lDelete_at [OF assms(1,3,4), of "[]"] list_cleared [OF assms(2,4)] assms
  by (simp add: LClear_def)

lemma LClear_acts:
  assumes "db_ok db"
  shows "acts ListType {key} db (snd (LClear key db))"
  unfolding LClear_def
  by (intro acts_rules) (simp_all add: lDelete_own [OF assms checkKeySize_key16])

lemma LMclear_loop_own:
  "db_ok db \<Longrightarrow> set ks \<subseteq> K \<Longrightarrow> LMclear_loop db ks t = Inr u \<Longrightarrow>
     own_batch (indexVarBuf db) ListType K t \<Longrightarrow> own_batch (indexVarBuf db) ListType K u"
proof (induction ks arbitrary: t)
  case (Cons k ks)
  then obtain n t' where t': "checkKeySize k = Inr ()" "lDelete db t k = Inr (n, t')"
      "LMclear_loop db ks (snd (rmExpire db t' ListType k)) = Inr u"
    by (auto split: sum.splits)
  have "own_batch (indexVarBuf db) ListType K t'"
    using Cons.prems(1,2,4) lDelete_own [OF _ _ _ t'(2)] checkKeySize_key16 [OF t'(1)] by simp
  then show ?case
    using Cons.IH [OF Cons.prems(1) _ t'(3)] Cons.prems(2) by simp
qed simp

lemma LMclear_acts:
  assumes "db_ok db"
  shows "acts ListType (set keys) db (snd (LMclear keys db))"
  unfolding LMclear_def
  by (intro acts_rules) (auto intro: LMclear_loop_own [OF assms])

section \<open>Trimming\<close>

lemma ltrim2_loop_eq:
  assumes "- (2 ^ 31) \<le> a" "b < 2 ^ 31" "a \<le> 2 ^ 31 - 1" "- (2 ^ 31) \<le> b"
  shows "ltrim2_loop p key hw (word_of_int a) (word_of_int b) t =
    t @ map (\<lambda>i. WDel (lEncodeListKey p key (hw + word_of_int i))) [a..b - 1]"
  using assms
proof (induction "nat (b - a)" arbitrary: a t)
  case 0
  then have "\<not> a < b"
    by simp
  with 0 show ?case
    by (subst ltrim2_loop.simps) (simp add: sint32_of_int)
next
  case (Suc n)
  then have lt: "a < b"
    by simp
  then have "ltrim2_loop p key hw (word_of_int (a + 1)) (word_of_int b) u =
      u @ map (\<lambda>i. WDel (lEncodeListKey p key (hw + word_of_int i))) [a + 1..b - 1]" for u
    using Suc by (intro Suc.hyps(1)) auto
  with lt Suc.prems show ?case
    by (subst ltrim2_loop.simps) (simp add: sint32_of_int upto_rec1)
qed

lemma ltrim_loop_eq:
  assumes "- (2 ^ 31) \<le> a" "b < 2 ^ 31 - 1" "a \<le> 2 ^ 31 - 1" "- (2 ^ 31) \<le> b"
  shows "ltrim_loop p key (word_of_int a) (word_of_int b) t =
    Some (t @ map (\<lambda>i. WDel (lEncodeListKey p key (word_of_int i))) [a..b])"
  using assms
proof (induction "nat (b - a + 1)" arbitrary: a t)
  case 0
  then have "\<not> a \<le> b"
    by simp
  with 0 show ?case
    by (subst ltrim_loop.simps) (simp add: sint32_of_int)
next
  case (Suc n)
  then have le: "a \<le> b"
    by simp
  then have "ltrim_loop p key (word_of_int (a + 1)) (word_of_int b) u =
      Some (u @ map (\<lambda>i. WDel (lEncodeListKey p key (word_of_int i))) [a + 1..b])" for u
    using Suc by (intro Suc.hyps(1)) auto
  with le Suc.prems show ?case
    by (subst ltrim_loop.simps) (simp add: sint32_of_int upto_rec1)
qed

text \<open>Deleting the positions from \<open>a\<close> up to \<open>b\<close>.\<close>

lemma wb_effect_positions:
  assumes "- (2 ^ 31) \<le> a" "b < 2 ^ 31"
  shows "wb_effect (map (\<lambda>i. WDel (lEncodeListKey p key (word_of_int i))) [a..b]) m (lEncodeListKey p key s) =
    (if a \<le> sint s \<and> sint s \<le> b then None else m (lEncodeListKey p key s))"
proof -
  have "lEncodeListKey p key s \<in> (\<lambda>i. lEncodeListKey p key (word_of_int i)) ` {a..b} \<longleftrightarrow>
      a \<le> sint s \<and> sint s \<le> b"
    using assms seq_iff by (auto simp: image_iff)
  then show ?thesis
    by (simp add: wb_effect_WDel_map)
qed

lemma map_upto_shift: "map (\<lambda>i. f (h + i)) [x..y] = map f [h + x..h + y]"
  by (rule nth_equalityI) (auto simp: algebra_simps)

lemma slot_part:
  assumes "0 \<le> a" "a \<le> b" "b < int (length xs)"
  shows "slot (h + a) (take (nat (b - a + 1)) (drop (nat a) xs)) x =
    (if h \<le> x \<and> x \<le> h + a - 1 \<or> h + b + 1 \<le> x \<and> x \<le> h + int (length xs) - 1 then None else slot h xs x)"
  using assms slot_drop [of "nat a" xs h x] by (auto simp: slot_take slot_def)

lemma wb_effect_positions_meta:
  "wb_effect (map (\<lambda>i. WDel (lEncodeListKey p key (f i))) xs) m (lEncodeMetaKey p key') = m (lEncodeMetaKey p key')"
  by (auto simp: wb_effect_WDel_map)

lemma ltrim2_unfold:
  fixes xs :: "bytes list"
  assumes "key_size_ok key" "length xs < 2 ^ 31"
    and meta: "lGetMeta db None (lmeta db key) = Inr (hw, tw, word_of_nat (length xs))"
    and A: "A = list_index (sint (ucast sP :: i32)) xs" and B: "B = list_index (sint (ucast eP :: i32)) xs"
    and a: "a = max 0 A" and b: "b = min B (int (length xs) - 1)"
  shows "ltrim2 key sP eP db =
    (if int (length xs) \<le> A \<or> B < A
     then (case lDelete db [] key of
             Inl e \<Rightarrow> (Inl e, db)
           | Inr (num, t) \<Rightarrow> Commit (snd (rmExpire db t ListType key)) db)
     else Commit (snd (lSetMeta (lmeta db key) (hw + word_of_int a) (hw + word_of_int b)
       (map (\<lambda>i. WDel (litem db key (hw + word_of_int i))) ([0..a - 1] @ [b + 1..int (length xs) - 1])))) db)"
proof -
  let ?n = "int (length xs)"
  note r = list_index_range [OF assms(2), of "ucast sP", folded A]
    list_index_range [OF assms(2), of "ucast eP", folded B] sint_seq_nat [OF assms(2)]
  have i: "(if A < 0 then 0 else word_of_int A) = (word_of_int a :: i32)"
    "(if ?n \<le> B then word_of_nat (length xs) - 1 else word_of_int B) = (word_of_int b :: i32)"
    by (auto simp: a b max_def min_def)
  have ab: "- (2 ^ 31) \<le> b" "b < ?n" "0 \<le> a" "a < 2 ^ 31"
    using r sint32_bounds [of "word_of_int A"] sint32_bounds [of "word_of_int B"]
    by (auto simp: a b simp del: signed_of_int)
  then have s: "sint (word_of_int a :: i32) = a" "sint (word_of_int b :: i32) = b"
      "sint (word_of_nat (length xs) - 1 :: i32) = ?n - 1"
    using assms(2) sint32_of_int [of a] sint32_of_int [of b] sint32_of_int [of "?n - 1"] by simp_all
  have t1: "(if 0 < a then ltrim2_loop p key hw 0 (word_of_int a) [] else []) =
      map (\<lambda>i. WDel (lEncodeListKey p key (hw + word_of_int i))) [0..a - 1]" for p
    using ltrim2_loop_eq [of 0 a p key hw "[]"] ab by auto
  have t2: "(if b < ?n - 1 then ltrim2_loop p key hw (word_of_int b + 1) (word_of_nat (length xs)) t else t) =
      t @ map (\<lambda>i. WDel (lEncodeListKey p key (hw + word_of_int i))) [b + 1..?n - 1]" for p t
    using ltrim2_loop_eq [of "b + 1" ?n p key hw t] ab assms(2) by auto
  show ?thesis
    unfolding ltrim2_def Let_def
    by (simp only: checkKeySize_ok [OF assms(1)] meta sum.case prod.case norm_index A [symmetric]
        B [symmetric] r i s t1 t2 map_append)
qed

text \<open>The batch of a trim that keeps the elements from \<open>a\<close> to \<open>b\<close> of a list that is not empty.\<close>

lemma trim_batch:
  assumes "writable db" "list_at db key h xs" "0 \<le> a" "a \<le> b" "b < int (length xs)"
    and ys: "ys = take (nat (b - a + 1)) (drop (nat a) xs)"
  shows "list_at (committed (snd (lSetMeta (lmeta db key) (word_of_int h + word_of_int a)
      (word_of_int h + word_of_int b) (map (\<lambda>i. WDel (litem db key (word_of_int h + word_of_int i)))
        ([0..a - 1] @ [b + 1..int (length xs) - 1])))) db) key (h + a) ys"
proof -
  let ?n = "int (length xs)"
  define d where "d = map (\<lambda>i. WDel (litem db key (word_of_int i))) [h..h + a - 1] @
    map (\<lambda>i. WDel (litem db key (word_of_int i))) [h + b + 1..h + ?n - 1]"
  have ne: "xs \<noteq> []"
    using assms(3-5) by auto
  note bnd = list_at_nonempty [OF assms(2) ne]
  have len: "int (length ys) = b - a + 1" "ys \<noteq> []"
    using assms(3-5) by (auto simp: ys)
  have d: "map (\<lambda>i. WDel (litem db key (word_of_int h + word_of_int i))) ([0..a - 1] @ [b + 1..?n - 1]) = d"
    using map_upto_shift [of "\<lambda>i. WDel (litem db key (word_of_int i))" h]
    by (simp add: d_def algebra_simps)
  have sm: "snd (lSetMeta (lmeta db key) (word_of_int h + word_of_int a) (word_of_int h + word_of_int b) d) =
      d @ [WPut (lmeta db key) (put_le32 (word_of_int (h + a)) @ put_le32 (word_of_int (h + a + int (length ys) - 1)))]"
    using assms(3-5) bnd by (subst lSetMeta_words [of _ _ "b - a + 1"]) (auto simp: len)
  have "wb_effect d (contents db) (litem db key s) = slot (h + a) ys (sint s)" for s
    using assms(2-5) bnd slot_part [OF assms(3-5), of h "sint s"]
    by (simp add: d_def wb_effect_positions list_at_def ys)
  then show ?thesis
    unfolding d sm using assms len bnd
    by (intro list_at_committed) (simp_all add: d_def wb_effect_positions_meta)
qed

lemma list_emptied: "writable db \<Longrightarrow> list_at db key h [] \<Longrightarrow> list_at (committed [WDel (lmeta db key)] db) key h []"
  by (simp add: list_at_def)

lemma LTrim_ok:
  assumes "db_ok db" "writable db" "key_size_ok key" "list_at db key h xs"
    and A: "A = list_index (sint (ucast start :: i32)) xs" and B: "B = list_index (sint (ucast stop :: i32)) xs"
    and neg: "\<not> (A \<le> B \<and> B < 0)"
    and ys: "ys = range_of (sint (ucast start :: i32)) (sint (ucast stop :: i32)) xs"
  shows "\<exists>db' h'. LTrim key start stop db = (Inr (), db') \<and> list_at db' key h' ys"
proof -
  obtain hw tw where m: "lGetMeta db None (lmeta db key) = Inr (hw, tw, word_of_nat (length xs))"
      "xs \<noteq> [] \<longrightarrow> hw = word_of_int h" "length xs < 2 ^ 31"
    using lGetMeta_len [OF assms(4)] by blast
  define a where "a = max 0 A"
  define b where "b = min B (int (length xs) - 1)"
  note l = ltrim2_unfold [OF assms(3) m(3,1) A B a_def b_def, folded LTrim_def]
  have ys': "ys = (if b < a then [] else take (nat (b - a + 1)) (drop (nat a) xs))"
    by (simp add: ys range_of_def Let_def a_def b_def A B)
  consider "int (length xs) \<le> A \<or> B < A" | "\<not> (int (length xs) \<le> A \<or> B < A)" "xs = []"
    | "\<not> (int (length xs) \<le> A \<or> B < A)" "xs \<noteq> []"
    by blast
  then show ?thesis
  proof cases
    case 1
    then have "ys = []"
      unfolding ys' by (auto simp: a_def b_def)
    then show ?thesis
      using 1 l lDelete_at [OF assms(1,3,4), of "[]"] list_cleared [OF assms(2,4)] assms(2) by auto
  next
    case 2
    then have ab: "a = 0" "b = -1" "ys = []"
      using neg by (auto simp: a_def b_def ys')
    have "list_at (committed [WDel (lmeta db key)] db) key h []"
      using list_emptied [OF assms(2)] assms(4) 2(2) by blast
    moreover have "LTrim key start stop db = Commit [WDel (lmeta db key)] db"
      using lSetMeta_words [of "hw - 1" hw 0 "lmeta db key" "[]"] unfolding l if_not_P [OF 2(1)]
      by (simp add: ab 2(2))
    ultimately show ?thesis
      using assms(2) ab(3) by auto
  next
    case 3
    then have ab: "0 \<le> a" "a \<le> b" "b < int (length xs)"
      using neg by (auto simp: a_def b_def)
    then have "ys = take (nat (b - a + 1)) (drop (nat a) xs)"
      by (simp add: ys')
    from trim_batch [OF assms(2,4) ab this] 3 l m(2) assms(2) show ?thesis
      by auto
  qed
qed

lemma lSetMeta_rmExpire:
  assumes "writable db" "\<And>s. wb_effect d (contents db) (litem db key s) = slot h ys (sint s)"
    and b: "length ys < 2 ^ 31" "ys \<noteq> [] \<Longrightarrow> 1000 < h \<and> h + int (length ys) \<le> 2 ^ 31 - 1000"
    and m: "lSetMeta (lmeta db key) (word_of_int h) (word_of_int (h + int (length ys) - 1)) d = (sz, t)"
  shows "list_at (committed (if sz = 0 then snd (rmExpire db t ListType key) else t) db) key h ys"
proof (cases "ys = []")
  case True
  then have "sz = 0" "t = d @ [WDel (lmeta db key)]"
    using m lSetMeta_effect [of 0 "lmeta db key" h d] by auto
  then show ?thesis
    by (simp add: list_at_def rmExpire_other assms(1,2) True)
next
  case False
  then have "sz \<noteq> 0" "t = d @ [WPut (lmeta db key) (put_le32 (word_of_int h) @
      put_le32 (word_of_int (h + int (length ys) - 1)))]"
    using m lSetMeta_effect [of "int (length ys)" "lmeta db key" h d] b(1) seq_zero_iff [OF b(1)] by auto
  then show ?thesis
    using b(2) False by (simp add: list_at_def assms(1,2))
qed

lemma ltrim_unfold:
  assumes "key_size_ok key" "trimSize \<noteq> 0"
    and meta: "lGetMeta db None (lmeta db key) = Inr (hw, tw, sz)" "sz \<noteq> 0"
    and st: "(if w = listHeadSeq then hw else MaxInt32 (tw - trimSize + 1) hw) = word_of_int a"
    and en: "(if w = listHeadSeq then MinInt32 (word_of_int a + trimSize - 1) tw else tw) = word_of_int b"
    and r: "- (2 ^ 31) \<le> a" "b < 2 ^ 31 - 1" "a \<le> 2 ^ 31 - 1" "- (2 ^ 31) \<le> b"
  shows "ltrim key trimSize w db =
    (case lSetMeta (lmeta db key) (if w = listHeadSeq then word_of_int b + 1 else hw)
        (if w = listHeadSeq then tw else word_of_int a - 1)
        (map (\<lambda>i. WDel (litem db key (word_of_int i))) [a..b]) of
       (sz, t) \<Rightarrow> commit_ret (if sz = 0 then snd (rmExpire db t ListType key) else t)
         (word_of_int b - word_of_int a + 1) db)"
  unfolding ltrim_def Let_def
  by (simp only: checkKeySize_ok [OF assms(1)] meta sum.case prod.case st en if_not_P [OF assms(2)]
      if_not_P [OF meta(2)] ltrim_loop_eq [OF r] option.case append_Nil if_False simp_thms)

lemma LTrimFront_ok:
  assumes "writable db" "key_size_ok key" "list_at db key h xs" "xs \<noteq> []"
    and n: "0 < sint n" "h + sint n \<le> 2 ^ 31" and k: "k = min (nat (sint n)) (length xs)"
  shows "\<exists>db'. LTrimFront key n db = (Inr (word_of_nat k), db') \<and> list_at db' key (h + int k) (drop k xs)"
proof -
  note b = list_at_nonempty [OF assms(3,4)]
  let ?e = "h + int k - 1" and ?l = "int (length xs)"
  have k': "1 \<le> k" "k \<le> length xs" "int k = min (sint n) ?l"
    using n(1) assms(4) by (auto simp: k Suc_le_eq)
  have e: "MinInt32 (word_of_int h + n - 1) (word_of_int (h + ?l - 1)) = word_of_int ?e"
  proof -
    have "word_of_int h + n - 1 = (word_of_int (h + sint n - 1) :: i32)"
      by simp
    moreover have "sint (word_of_int (h + sint n - 1) :: i32) = h + sint n - 1"
      "sint (word_of_int (h + ?l - 1) :: i32) = h + ?l - 1"
      using b n by (intro sint32_of_int; auto)+
    ultimately show ?thesis
      using k'(3) by (simp add: MinInt32_def min_def del: of_int_add of_int_diff)
  qed
  have nz: "n \<noteq> 0"
    using n(1) by auto
  obtain sz t where m: "lSetMeta (lmeta db key) (word_of_int (h + int k))
      (word_of_int (h + int k + int (length (drop k xs)) - 1))
      (map (\<lambda>i. WDel (litem db key (word_of_int i))) [h..?e]) = (sz, t)"
    by fastforce
  have "slot (h + int k) (drop k xs) x = (if h \<le> x \<and> x \<le> ?e then None else slot h xs x)" for x
    using slot_drop [OF k'(2), of h x] by (auto simp: slot_def)
  then have eff: "wb_effect (map (\<lambda>i. WDel (litem db key (word_of_int i))) [h..?e]) (contents db) (litem db key s) =
      slot (h + int k) (drop k xs) (sint s)" for s
    using assms(3) b k'(2) by (simp add: wb_effect_positions list_at_def)
  have "list_at (committed (if sz = 0 then snd (rmExpire db t ListType key) else t) db) key (h + int k) (drop k xs)"
    by (rule lSetMeta_rmExpire [OF assms(1) eff _ _ m]) (use b k'(2) in auto)
  moreover have "LTrimFront key n db =
      (Inr (word_of_nat k), committed (if sz = 0 then snd (rmExpire db t ListType key) else t) db)"
    using ltrim_unfold [OF assms(2) nz, of db "word_of_int h" "word_of_int (h + ?l - 1)" "word_of_nat (length xs)"
        listHeadSeq h ?e] n(1) b k'(2) lGetMeta_at [OF assms(3)] assms(1,4) e m seq_zero_iff [of "length xs"]
    by (auto simp: LTrimFront_def of_nat_diff)
  ultimately show ?thesis by blast
qed

lemma LTrimBack_ok:
  assumes "writable db" "key_size_ok key" "list_at db key h xs" "xs \<noteq> []"
    and n: "0 < sint n" and k: "k = min (nat (sint n)) (length xs)"
  shows "\<exists>db'. LTrimBack key n db = (Inr (word_of_nat k), db') \<and>
    list_at db' key h (take (length xs - k) xs)"
proof -
  note b = list_at_nonempty [OF assms(3,4)]
  let ?l = "int (length xs)" and ?ys = "take (length xs - k) xs"
  let ?s = "h + ?l - int k" and ?e = "h + ?l - 1"
  have k': "1 \<le> k" "k \<le> length xs" "int k = min (sint n) ?l"
    using n(1) assms(4) by (auto simp: k Suc_le_eq)
  have e: "MaxInt32 (word_of_int ?e - n + 1) (word_of_int h) = word_of_int ?s"
  proof -
    have "word_of_int ?e - n + 1 = (word_of_int (h + ?l - sint n) :: i32)"
      by simp
    moreover have "sint (word_of_int (h + ?l - sint n) :: i32) = h + ?l - sint n"
      "sint (word_of_int h :: i32) = h"
      using b n sint32_bounds [of n] by (intro sint32_of_int; auto)+
    ultimately show ?thesis
      using k'(3) by (simp add: MaxInt32_def min_def del: of_int_add of_int_diff)
  qed
  have nz: "n \<noteq> 0"
    using n(1) by auto
  obtain sz t where m: "lSetMeta (lmeta db key) (word_of_int h) (word_of_int ?s - 1)
      (map (\<lambda>i. WDel (litem db key (word_of_int i))) [?s..?e]) = (sz, t)"
    by fastforce
  have q: "word_of_int ?s - 1 = (word_of_int (h + int (length ?ys) - 1) :: i32)"
    using k'(2) by (simp add: of_nat_diff)
  have "slot h ?ys x = (if ?s \<le> x \<and> x \<le> ?e then None else slot h xs x)" for x
    using k'(2) by (auto simp: slot_take slot_def of_nat_diff)
  then have eff: "wb_effect (map (\<lambda>i. WDel (litem db key (word_of_int i))) [?s..?e]) (contents db) (litem db key s) =
      slot h ?ys (sint s)" for s
    using assms(3) b k'(2) by (simp add: wb_effect_positions list_at_def)
  have "list_at (committed (if sz = 0 then snd (rmExpire db t ListType key) else t) db) key h ?ys"
    by (rule lSetMeta_rmExpire [OF assms(1) eff _ _ m [unfolded q]]) (use b k'(2) in auto)
  moreover have "LTrimBack key n db =
      (Inr (word_of_nat k), committed (if sz = 0 then snd (rmExpire db t ListType key) else t) db)"
    using ltrim_unfold [OF assms(2) nz, of db "word_of_int h" "word_of_int ?e" "word_of_nat (length xs)"
        listTailSeq ?s ?e] n(1) b k'(2) lGetMeta_at [OF assms(3)] assms(1,4) e m seq_zero_iff [of "length xs"]
    by (auto simp: LTrimBack_def of_nat_diff)
  ultimately show ?thesis by blast
qed

text \<open>
  When the end of the part to trim overflows, the new first sequence number is negative; the
  size computed from it is, too, so that the meta entry stays as it is.
\<close>

lemma LTrimFront_overflow:
  assumes "writable db" "key_size_ok key" "list_at db key h xs" "xs \<noteq> []"
    and n: "0 < sint n" "2 ^ 31 < h + sint n"
  shows "LTrimFront key n db = (Inr n, committed [] db)"
proof -
  note b = list_at_nonempty [OF assms(3,4)]
  let ?l = "int (length xs)"
  define e where "e = h + sint n - 1 - 2 ^ 32"
  have nz: "n \<noteq> 0"
    using n(1) by auto
  have w: "(word_of_int e :: i32) = word_of_int h + n - 1"
    using word_of_int_eq_iff [where 'a = 32, of e "h + sint n - 1"] by (simp add: take_bit_eq_mod e_def)
  have s: "sint (word_of_int e :: i32) = e" "sint (word_of_int (h + ?l - 1) :: i32) = h + ?l - 1"
    using b n sint32_bounds [of n] by (intro sint32_of_int; auto simp: e_def)+
  then have mn: "MinInt32 (word_of_int h + n - 1) (word_of_int (h + ?l - 1)) = word_of_int e"
    using b n sint32_bounds [of n] unfolding w [symmetric] by (simp add: MinInt32_def e_def del: of_int_add of_int_diff)
  have z: "word_of_int h + word_of_nat (length xs) - 1 - (word_of_int h + n) + 1 = (word_of_int (?l - sint n) :: i32)"
    by simp
  have "sint (word_of_int (?l - sint n) :: i32) = ?l - sint n"
    using b n sint32_bounds [of n] by (intro sint32_of_int) auto
  then have m: "lSetMeta ek (word_of_int h + n) (word_of_int h + word_of_nat (length xs) - 1) t =
      (word_of_int (?l - sint n), t)" for ek t
    using b n unfolding lSetMeta_def Let_def z by simp
  have nz': "(word_of_int (?l - sint n) :: i32) \<noteq> 0"
    using seq_iff [of "?l - sint n" 0] b n sint32_bounds [of n] by auto
  have eb: "e < 2 ^ 31 - 1" "- (2 ^ 31) \<le> e" "[h..e] = []"
    using b n sint32_bounds [of n] by (auto simp: e_def)
  show ?thesis
    using ltrim_unfold [OF assms(2) nz, of db "word_of_int h" "word_of_int (h + ?l - 1)" "word_of_nat (length xs)"
        listHeadSeq h e] b nz' lGetMeta_at [OF assms(3)] assms(1,4) mn w eb m seq_zero_iff [of "length xs"]
    by (simp add: LTrimFront_def)
qed

end
