(* ===== verification/Ledis_List_Props.thy ===== *)
theory Ledis_List_Props
  imports Ledis_List_Range_Laws
begin

text \<open>
  Lists as a whole: the operations act on their own key only, and a list behaves like a
  double-ended queue through any sequence of operations.
\<close>

section \<open>The operations act on their key\<close>

lemma LPush_acts: "acts ListType {key} db (snd (LPush key args db))"
  and RPush_acts: "acts ListType {key} db (snd (RPush key args db))"
  and LPop_acts: "acts ListType {key} db (snd (LPop key db))"
  and RPop_acts: "acts ListType {key} db (snd (RPop key db))"
  by (simp_all add: LPush_def RPush_def LPop_def RPop_def lpush_acts lpop_acts)

lemma LSet_acts: "acts ListType {key} db (snd (LSet key i v db))"
  unfolding LSet_def by (intro acts_rules) (simp_all add: checkKeySize_key16)

lemma ltrim2_loop_own:
  "key16 key \<Longrightarrow> key \<in> K \<Longrightarrow> own_batch p ListType K (ltrim2_loop p key h i b t) \<longleftrightarrow> own_batch p ListType K t"
  by (induction p key h i b t rule: ltrim2_loop.induct) (subst ltrim2_loop.simps, simp)

lemma ltrim_loop_own:
  "ltrim_loop p key s e t = Some u \<Longrightarrow> key16 key \<Longrightarrow> key \<in> K \<Longrightarrow>
     own_batch p ListType K u \<longleftrightarrow> own_batch p ListType K t"
proof (induction p key s e t rule: ltrim_loop.induct)
  case (1 p key s e t)
  then show ?case
    by (subst (asm) ltrim_loop.simps) (auto split: if_splits)
qed

lemma LTrim_acts:
  assumes "db_ok db"
  shows "acts ListType {key} db (snd (LTrim key start stop db))"
  unfolding LTrim_def ltrim2_def
  by (intro acts_rules)
     (simp_all add: checkKeySize_key16 ltrim2_loop_own lDelete_own [OF assms checkKeySize_key16])

lemma ltrim_acts: "acts ListType {key} db (snd (ltrim key n w db))"
  unfolding ltrim_def
  by (intro acts_rules) (simp_all add: checkKeySize_key16 ltrim_loop_own [OF _ checkKeySize_key16]
      lSetMeta_rm_own)

lemma LTrimFront_acts: "acts ListType {key} db (snd (LTrimFront key n db))"
  and LTrimBack_acts: "acts ListType {key} db (snd (LTrimBack key n db))"
  by (simp_all add: LTrimFront_def LTrimBack_def ltrim_acts)

lemma lExpireAt_acts: "acts ListType {key} db (snd (lExpireAt key when db))"
  unfolding lExpireAt_def by (intro acts_rules) simp_all

lemma LExpire_acts: "acts ListType {key} db (snd (LExpire key d db))"
  and LExpireAt_acts: "acts ListType {key} db (snd (LExpireAt key d db))"
  by (simp_all add: LExpire_def LExpireAt_def lExpireAt_acts acts.none)

lemma LPersist_acts: "acts ListType {key} db (snd (LPersist key db))"
  unfolding LPersist_def
  by (intro acts_rules) (auto intro!: acts_rules dest: rmExpire_own_pair [where K = "{key}"])

section \<open>A list is a double-ended queue\<close>

datatype list_op =
    OpLPush "bytes list" | OpRPush "bytes list" | OpLPop | OpRPop
  | OpLIndex i32 | OpLRange i32 i32 | OpLLen | OpLClear

datatype list_out = OutInt "int res" | OutValue "bytes option res" | OutValues "bytes list res"

fun list_exec :: "bytes \<Rightarrow> list_op \<Rightarrow> DB \<Rightarrow> list_out \<times> DB" where
  "list_exec key (OpLPush args) db = (case LPush key args db of (r, db) \<Rightarrow> (OutInt r, db))"
| "list_exec key (OpRPush args) db = (case RPush key args db of (r, db) \<Rightarrow> (OutInt r, db))"
| "list_exec key OpLPop db = (case LPop key db of (r, db) \<Rightarrow> (OutValue r, db))"
| "list_exec key OpRPop db = (case RPop key db of (r, db) \<Rightarrow> (OutValue r, db))"
| "list_exec key (OpLIndex i) db = (OutValue (LIndex key i db), db)"
| "list_exec key (OpLRange a b) db = (OutValues (LRange key a b db), db)"
| "list_exec key OpLLen db = (OutInt (LLen key db), db)"
| "list_exec key OpLClear db = (case LClear key db of (r, db) \<Rightarrow> (OutInt r, db))"

text \<open>The abstract list.\<close>

fun deque_step :: "list_op \<Rightarrow> bytes list \<Rightarrow> list_out \<times> bytes list" where
  "deque_step (OpLPush args) xs = (OutInt (Inr (int (length xs) + int (length args))), rev args @ xs)"
| "deque_step (OpRPush args) xs = (OutInt (Inr (int (length xs) + int (length args))), xs @ args)"
| "deque_step OpLPop xs = (case xs of [] \<Rightarrow> (OutValue (Inr None), []) | x # ys \<Rightarrow> (OutValue (Inr (Some x)), ys))"
| "deque_step OpRPop xs =
     (if xs = [] then (OutValue (Inr None), []) else (OutValue (Inr (Some (last xs))), butlast xs))"
| "deque_step (OpLIndex i) xs = (OutValue (Inr (nth_opt xs (list_index (sint i) xs))), xs)"
| "deque_step (OpLRange a b) xs = (OutValues (Inr (range_of (sint a) (sint b) xs)), xs)"
| "deque_step OpLLen xs = (OutInt (Inr (int (length xs))), xs)"
| "deque_step OpLClear xs = (OutInt (Inr (int (length xs))), [])"

fun op_pushes :: "list_op \<Rightarrow> nat" where
  "op_pushes (OpLPush args) = length args"
| "op_pushes (OpRPush args) = length args"
| "op_pushes _ = 0"

text \<open>
  After \<open>n\<close> pushes the elements are at most \<open>n\<close> positions away from the start position.
\<close>

definition near_start :: "nat \<Rightarrow> int \<Rightarrow> 'a list \<Rightarrow> bool" where
  "near_start n h xs \<longleftrightarrow> xs = [] \<or> initSeq - int n \<le> h \<and> h + int (length xs) \<le> initSeq + int n + 1"

definition standalone :: "DB \<Rightarrow> bool" where
  "standalone db \<longleftrightarrow> \<not> readonly db \<and> ldb_err db = None \<and> rpl db = None"

lemma standalone_writable [simp]: "standalone db \<Longrightarrow> writable db"
  by (simp add: standalone_def writable_def)

lemma standalone_acts: "acts dt K db db' \<Longrightarrow> standalone db \<Longrightarrow> standalone db'"
  by (induction rule: acts.induct)
     (auto simp: standalone_def Commit_def handleCommit_def wb_Commit_def)

definition max_pushes :: nat where "max_pushes = 2 ^ 30 - 1001"

lemma push_nil:
  assumes "key_size_ok key" "list_at db key h xs"
  shows "LPush key [] db = (Inr (int (length xs)), db)" "RPush key [] db = (Inr (int (length xs)), db)"
  using assms lGetMeta_at [OF assms(2)] list_at_pos(5) [OF assms(2)]
  by (auto simp: LPush_def RPush_def lpush_def Let_def)

text \<open>\<open>simulates\<close>: the step of the database matches the step of the abstract list.\<close>

definition simulates :: "bytes \<Rightarrow> nat \<Rightarrow> list_op \<Rightarrow> DB \<Rightarrow> bytes list \<Rightarrow> bool" where
  "simulates key n c db xs \<longleftrightarrow>
     (\<exists>db' h'. list_exec key c db = (fst (deque_step c xs), db') \<and>
        list_at db' key h' (snd (deque_step c xs)) \<and>
        near_start (n + op_pushes c) h' (snd (deque_step c xs)))"

lemma simulates_LPush:
  assumes "standalone db" "key_size_ok key" "list_at db key h xs" "near_start n h xs"
    and "n + length args \<le> max_pushes"
  shows "simulates key n (OpLPush args) db xs"
proof (cases "args = []")
  case True
  then show ?thesis
    using assms push_nil [OF assms(2,3)] by (auto simp: simulates_def)
next
  case False
  let ?h = "head_pos h xs - int (length args) + 1"
  have k: "1 \<le> length args" "length args < 2 ^ 31"
    using False assms(5) by (simp_all add: Suc_leI max_pushes_def)
  have "\<not> ?h \<le> 1000" and near: "near_start (n + length args) ?h (rev args @ xs)"
    using assms(4,5) k(1) by (auto simp: near_start_def head_pos_def max_pushes_def initSeq_def)
  then show ?thesis
    using LPush_ok [OF standalone_writable [OF assms(1)] assms(2,3) False k(2) refl] near
    by (auto simp: simulates_def)
qed

lemma simulates_RPush:
  assumes "standalone db" "key_size_ok key" "list_at db key h xs" "near_start n h xs"
    and "n + length args \<le> max_pushes"
  shows "simulates key n (OpRPush args) db xs"
proof (cases "args = []")
  case True
  then show ?thesis
    using assms push_nil [OF assms(2,3)] by (auto simp: simulates_def)
next
  case False
  let ?h = "tail_pos h xs - int (length xs)"
  have k: "1 \<le> length args" "length args < 2 ^ 31"
    using False assms(5) by (simp_all add: Suc_leI max_pushes_def)
  have "\<not> 2 ^ 31 - 1000 < tail_pos h xs + int (length args)"
    and near: "near_start (n + length args) ?h (xs @ args)"
    using assms(4,5) k(1) by (auto simp: near_start_def tail_pos_def max_pushes_def initSeq_def)
  then show ?thesis
    using RPush_ok [OF standalone_writable [OF assms(1)] assms(2,3) False k(2) refl] near
    by (auto simp: simulates_def)
qed

lemma simulates_pop:
  assumes "standalone db" "key_size_ok key" "list_at db key h xs" "near_start n h xs"
  shows "simulates key n OpLPop db xs" "simulates key n OpRPop db xs"
proof -
  show "simulates key n OpLPop db xs"
  proof (cases xs)
    case Nil
    then show ?thesis
      using assms lpop_empty [of db key h] by (auto simp: simulates_def LPop_def)
  next
    case (Cons x ys)
    have "near_start n (h + 1) ys"
      using assms(4) Cons by (auto simp: near_start_def)
    then show ?thesis
      using LPop_ok [OF standalone_writable [OF assms(1)] assms(2) assms(3) [unfolded Cons]]
      by (auto simp: simulates_def Cons)
  qed
  show "simulates key n OpRPop db xs"
  proof (cases xs rule: rev_cases)
    case Nil
    then show ?thesis
      using assms lpop_empty [of db key h] by (auto simp: simulates_def RPop_def)
  next
    case (snoc ys x)
    have "near_start n h ys"
      using assms(4) snoc by (auto simp: near_start_def)
    then show ?thesis
      using RPop_ok [OF standalone_writable [OF assms(1)] assms(2) assms(3) [unfolded snoc]]
      by (auto simp: simulates_def snoc)
  qed
qed

lemma list_exec_acts: "db_ok db \<Longrightarrow> acts ListType {key} db (snd (list_exec key c db))"
  using LPush_acts RPush_acts LPop_acts RPop_acts LClear_acts
  by (cases c) (auto split: prod.splits intro: acts.none simp: case_prod_beta)

lemma list_exec_simulates:
  assumes "standalone db" "db_ok db" "key_size_ok key" "list_at db key h xs" "near_start n h xs"
    and "n + op_pushes c \<le> max_pushes"
  shows "simulates key n c db xs"
proof (cases c)
  case (OpLIndex i)
  then show ?thesis
    using LIndex_ok [OF db_ok_kv_ok [OF assms(2)] assms(3,4), of i] assms by (auto simp: simulates_def)
next
  case (OpLRange a b)
  then show ?thesis
    using LRange_ok [OF assms(2-4), of a b] assms by (auto simp: simulates_def)
next
  case OpLLen
  then show ?thesis
    using LLen_at [OF assms(4,3)] assms by (auto simp: simulates_def)
next
  case OpLClear
  then show ?thesis
    using LClear_ok [OF assms(2) standalone_writable [OF assms(1)] assms(3,4)]
    by (auto simp: simulates_def near_start_def)
qed (use assms simulates_LPush simulates_RPush simulates_pop in auto)

definition list_rel :: "bytes \<Rightarrow> nat \<Rightarrow> DB \<Rightarrow> bytes list \<Rightarrow> bool" where
  "list_rel key n db xs \<longleftrightarrow> key_size_ok key \<and> standalone db \<and> db_ok db \<and>
     (\<exists>h. list_at db key h xs \<and> near_start n h xs)"

interpretation deque: step_refinement "list_exec key" deque_step "list_rel key" "\<lambda>_. True" op_pushes max_pushes
  for key
proof
  fix n db xs c
  assume r: "list_rel key n db xs" and n: "n + op_pushes c \<le> max_pushes"
  then obtain h where h: "standalone db" "db_ok db" "key_size_ok key" "list_at db key h xs" "near_start n h xs"
    by (auto simp: list_rel_def)
  from list_exec_simulates [OF h n] obtain db' h' where e: "list_exec key c db = (fst (deque_step c xs), db')"
      "list_at db' key h' (snd (deque_step c xs))" "near_start (n + op_pushes c) h' (snd (deque_step c xs))"
    by (auto simp: simulates_def)
  moreover have "acts ListType {key} db db'"
    using list_exec_acts [OF h(2), of key c] e(1) by simp
  ultimately show "\<exists>db'. list_exec key c db = (fst (deque_step c xs), db') \<and>
      list_rel key (n + op_pushes c) db' (snd (deque_step c xs))"
    using standalone_acts acts_db_ok h by (auto simp: list_rel_def)
qed

section \<open>Trimming to nothing\<close>

lemma LTrim_before:
  assumes "writable db" "key_size_ok key" "list_at db key h xs" "xs \<noteq> []"
    and A: "A = list_index (sint (ucast start :: i32)) xs" and B: "B = list_index (sint (ucast stop :: i32)) xs"
    and "A \<le> B" "B < 0"
    and d: "d = map (\<lambda>i. WDel (litem db key (word_of_int i))) [h + (B + 1)..h + (int (length xs) - 1)]"
  shows "LTrim key start stop db =
      Commit (if B = -1 then d @ [WDel (lmeta db key)] else d) db"
    and "wb_effect d (contents db) (litem db key s) = None"
proof -
  note b = list_at_nonempty [OF assms(3,4)]
  obtain hw tw where m: "lGetMeta db None (lmeta db key) = Inr (hw, tw, word_of_nat (length xs))"
      "hw = word_of_int h" "length xs < 2 ^ 31"
    using lGetMeta_len [OF assms(3)] assms(4) by blast
  have mm: "max 0 A = 0" "min B (int (length xs) - 1) = B"
    using assms(7,8) by auto
  note l = ltrim2_unfold [OF assms(2) m(3,1) A B refl refl, folded LTrim_def, unfolded mm]
  have bB: "- (2 ^ 31) \<le> B"
    using B list_index_range [OF m(3)] sint32_bounds(1) by metis
  have sB: "sint (word_of_int B + 1 :: i32) = B + 1" "word_of_int B + 1 = (0 :: i32) \<longleftrightarrow> B = -1"
    using bB assms(8) seq_iff [of "B + 1" 0] sint32_of_int [of "B + 1"] by auto
  then have sm: "snd (lSetMeta ek (hw + word_of_int 0) (hw + word_of_int B) t) =
      (if B = -1 then t @ [WDel ek] else t)" for ek t
    using assms(8) by (simp add: lSetMeta_def Let_def)
  have "map (\<lambda>i. WDel (litem db key (hw + word_of_int i))) ([0..0 - 1] @ [B + 1..int (length xs) - 1]) = d"
    using map_upto_shift [of "\<lambda>i. WDel (litem db key (word_of_int i))" h "B + 1" "int (length xs) - 1"]
    by (simp add: m(2) d)
  then show "LTrim key start stop db = Commit (if B = -1 then d @ [WDel (lmeta db key)] else d) db"
    using assms(7,8) unfolding l sm by auto
  show "wb_effect d (contents db) (litem db key s) = None"
    using assms(3,8) b bB by (auto simp: d wb_effect_positions list_at_def slot_def)
qed

lemma LTrim_far:
  assumes "writable db" "key_size_ok key" "list_at db key h xs" "xs \<noteq> []"
    and A: "A = list_index (sint (ucast start :: i32)) xs" and B: "B = list_index (sint (ucast stop :: i32)) xs"
    and "A \<le> B" "B < 0"
  shows "\<exists>db'. LTrim key start stop db = (Inr (), db') \<and>
    (if B = -1 then list_at db' key h []
     else LLen key db' = Inr (int (length xs)) \<and> (\<forall>s. contents db' (litem db key s) = None))"
proof -
  define d where "d = map (\<lambda>i. WDel (litem db key (word_of_int i))) [h + (B + 1)..h + (int (length xs) - 1)]"
  note t = LTrim_before [OF assms d_def]
  have "contents (committed d db) (lmeta db key) = contents db (lmeta db key)"
    using assms(1) by (simp add: wb_effect_positions_meta d_def)
  then have "LLen key (committed d db) = LLen key db"
    using assms(2) by (simp add: LLen_def lGetMeta_def)
  moreover have "list_at (committed (d @ [WDel (lmeta db key)]) db) key h []"
    using assms(1) t(2) by (simp add: list_at_def)
  ultimately show ?thesis
    using t assms(1) LLen_at [OF assms(3,2)] by auto
qed

section \<open>Properties\<close>

lemma demo_list_at [simp]: "list_at demo_db key h []"
  by (simp add: list_at_def)

lemma demo_standalone [simp]: "standalone demo_db"
  by (simp add: standalone_def demo_db_def)

text \<open>
  C3: a list is a double-ended queue. Any sequence of pushes and pops at either end, of index,
  range and length queries and of clears, on a key that holds no list at the start, gives the
  answers of the same sequence on a list of HOL, as long as no more than \<open>2 ^ 30 - 1001\<close>
  elements are pushed: so many always fit between the first and the last sequence number. The
  database is writable and has no replication.
\<close>

theorem list_is_deque:
  assumes "standalone db" "db_ok db" "key_size_ok key" "list_at db key h []"
    and "sum_list (map op_pushes cs) \<le> 2 ^ 30 - 1001"
  shows "\<exists>db' h'. run (list_exec key) cs db = (fst (run deque_step cs []), db') \<and>
    list_at db' key h' (snd (run deque_step cs []))"
proof -
  have "list_rel key 0 db []"
    using assms by (auto simp: list_rel_def near_start_def)
  from deque.run_refines [OF this, of cs] assms(5) show ?thesis
    by (auto simp: list_rel_def max_pushes_def list_all_iff)
qed

theorem list_is_deque_witness:
  "\<exists>db'. run (list_exec [7]) [OpRPush [[1], [2]], OpLPush [[3], [4]], OpLRange 1 (-1), OpRPop, OpLLen] demo_db =
     ([OutInt (Inr 2), OutInt (Inr 4), OutValues (Inr [[3], [1], [2]]), OutValue (Inr (Some [2])),
       OutInt (Inr 3)], db')"
  using list_is_deque [of demo_db "[7]" 0 "[OpRPush [[1], [2]], OpLPush [[3], [4]], OpLRange 1 (-1), OpRPop, OpLLen]"]
  by (auto simp: range_of_def list_index_def)

text \<open>
  C25: \<open>LTrim\<close> keeps the elements from \<open>start\<close> to \<open>stop\<close>, negative positions counting from the
  end and the range being cut to the list, the elements \<open>LRange\<close> returns. The exception is a
  range that ends two or more positions in front of the list: then all elements are deleted but
  the length stays.
\<close>

theorem list_trim:
  assumes "db_ok db" "writable db" "key_size_ok key" "list_at db key h xs" "xs \<noteq> []"
    and "A = list_index (sint (ucast start :: i32)) xs" "B = list_index (sint (ucast stop :: i32)) xs"
  shows "if A \<le> B \<and> B < -1
    then \<exists>db'. LTrim key start stop db = (Inr (), db') \<and> LLen key db' = Inr (int (length xs)) \<and>
      (\<forall>s. kv_get (ldb db') (lEncodeListKey (indexVarBuf db) key s) = None)
    else \<exists>db' h'. LTrim key start stop db = (Inr (), db') \<and>
      list_at db' key h' (range_of (sint (ucast start :: i32)) (sint (ucast stop :: i32)) xs)"
proof (cases "A \<le> B \<and> B < 0")
  case True
  then have "range_of (sint (ucast start :: i32)) (sint (ucast stop :: i32)) xs = []"
    using assms(6,7) by (simp add: range_of_def Let_def)
  with True show ?thesis
    using LTrim_far [OF assms(2-7)] by (auto split: if_splits)
next
  case False
  then show ?thesis
    using LTrim_ok [OF assms(1-4,6,7) False refl] by auto
qed

lemma demo_list:
  "\<exists>db. RPush [7] [[1], [2], [3]] demo_db = (Inr 3, db) \<and> list_at db [7] initSeq [[1], [2], [3]] \<and>
     db_ok db \<and> writable db"
proof -
  obtain db where db: "RPush [7] [[1], [2], [3]] demo_db = (Inr 3, db)" "list_at db [7] initSeq [[1], [2], [3]]"
    using RPush_ok [of demo_db "[7]" 0 "[]" "[[1], [2], [3]]", OF _ _ _ _ _ refl]
    by (auto simp: tail_pos_def initSeq_def)
  have "acts ListType {[7]} demo_db db"
    using RPush_acts [of "[7]" demo_db "[[1], [2], [3]]"] db(1) by simp
  then show ?thesis
    using db acts_db_ok standalone_acts by (auto intro!: standalone_writable)
qed

theorem list_trim_witness:
  "\<exists>db db' h'. RPush [7] [[1], [2], [3]] demo_db = (Inr 3, db) \<and>
     LTrim [7] 1 2 db = (Inr (), db') \<and> list_at db' [7] h' [[2], [3]]"
proof -
  obtain db where db: "RPush [7] [[1], [2], [3]] demo_db = (Inr 3, db)"
      "list_at db [7] initSeq [[1], [2], [3]]" "db_ok db" "writable db"
    using demo_list by blast
  show ?thesis
    using list_trim [OF db(3,4) _ db(2) _ refl refl, of 1 2] db(1)
    by (auto simp: range_of_def list_index_def)
qed

text \<open>
  \<open>LSet\<close> replaces the element at an index within the list, and returns an error and writes
  nothing for an index outside, except when there is no list: then index \<open>0\<close> is accepted and an
  element is written that \<open>LIndex\<close> returns while \<open>LLen\<close> is still \<open>0\<close>.
\<close>

theorem list_set:
  assumes "kv_ok (ldb db)" "writable db" "key_size_ok key" "list_at db key h xs"
  shows "if xs = []
    then \<exists>db'. LSet key 0 v db = (Inr (), db') \<and> LLen key db' = Inr 0 \<and> LIndex key 0 db' = Inr (Some v)
    else if nth_opt xs (list_index (sint i) xs) = None then LSet key i v db = (Inl ErrListIndex, db)
    else \<exists>db'. LSet key i v db = (Inr (), db') \<and>
      list_at db' key h (xs[nat (list_index (sint i) xs) := v])"
proof (cases "xs = []")
  case True
  let ?t = "[WPut (litem db key listInitialSeq) v]"
  have g: "lGetMeta db None (lmeta db key) = Inr (listInitialSeq, listInitialSeq, 0)"
    using lGetMeta_at [OF assms(4)] True by simp
  have l: "LSet key 0 v db = (Inr (), committed ?t db)"
    using assms(2,3) g by (simp add: LSet_def)
  have "contents (committed ?t db) (lmeta db key) = None"
    using assms(2,4) True by (simp add: list_at_def)
  then have g': "lGetMeta (committed ?t db) None (lmeta db key) = Inr (listInitialSeq, listInitialSeq, 0)"
    by (simp add: lGetMeta_def)
  have "kv_ok (ldb (committed ?t db))"
    using Commit_writable [OF assms(2)] assms(1) by simp
  with l g' True assms(2,3) show ?thesis
    by (auto simp: LLen_def LIndex_def lGetMeta_it)
next
  case False
  then show ?thesis
    using LSet_ok [OF assms(2-4) False] by simp
qed

theorem list_set_witness:
  "\<exists>db'. LSet [7] 0 [9] demo_db = (Inr (), db') \<and> LLen [7] db' = Inr 0 \<and> LIndex [7] 0 db' = Inr (Some [9])"
  using list_set [of demo_db "[7]" 0 "[]" "[9]"] by simp

text \<open>
  \<open>LTrimFront\<close> and \<open>LTrimBack\<close> remove that many elements from the end in question, all if
  there are not as many, and return the number removed. \<open>LTrimFront\<close> does so only if the
  number added to the first sequence number stays below \<open>2 ^ 31\<close>; for a larger number it
  removes nothing and returns the number given.
\<close>

theorem list_trim_ends:
  assumes "writable db" "key_size_ok key" "list_at db key h xs" "xs \<noteq> []" "0 < sint n"
    and "k = min (nat (sint n)) (length xs)"
  shows "(\<exists>db'. LTrimBack key n db = (Inr (word_of_nat k), db') \<and>
      list_at db' key h (take (length xs - k) xs)) \<and>
    (if h + sint n \<le> 2 ^ 31
     then \<exists>db'. LTrimFront key n db = (Inr (word_of_nat k), db') \<and>
       list_at db' key (h + int k) (drop k xs)
     else \<exists>db'. LTrimFront key n db = (Inr n, db') \<and> list_at db' key h xs)"
proof (intro conjI)
  show "\<exists>db'. LTrimBack key n db = (Inr (word_of_nat k), db') \<and>
      list_at db' key h (take (length xs - k) xs)"
    by (rule LTrimBack_ok [OF assms])
  have "list_at (committed [] db) key h xs"
    using assms(1,3) by (simp add: list_at_def)
  then show "if h + sint n \<le> 2 ^ 31
     then \<exists>db'. LTrimFront key n db = (Inr (word_of_nat k), db') \<and>
       list_at db' key (h + int k) (drop k xs)
     else \<exists>db'. LTrimFront key n db = (Inr n, db') \<and> list_at db' key h xs"
    using LTrimFront_ok [OF assms(1-5) _ assms(6)] LTrimFront_overflow [OF assms(1-5)] by auto
qed

theorem list_trim_ends_witness:
  "\<exists>db db'. RPush [7] [[1], [2], [3]] demo_db = (Inr 3, db) \<and>
     LTrimFront [7] 2000000000 db = (Inr 2000000000, db') \<and> list_at db' [7] initSeq [[1], [2], [3]]"
proof -
  obtain db where db: "RPush [7] [[1], [2], [3]] demo_db = (Inr 3, db)"
      "list_at db [7] initSeq [[1], [2], [3]]" "writable db"
    using demo_list by blast
  show ?thesis
    using list_trim_ends [OF db(3) _ db(2) _ _ refl, of 2000000000] db(1)
    by (simp add: initSeq_def)
qed

end
