(* ===== verification/Ledis_Collection.thy ===== *)
theory Ledis_Collection
  imports Ledis_List_Props
begin

text \<open>
  What hashes, sets and sorted sets have in common: items stored one by one under keys that fill
  a range of the key space of their own, and an entry with their number. \<open>coll_at\<close> says that the
  entries of a key represent a finite map; the locale \<open>sized_collection\<close> is the contract of the
  key encoders and of the function that maintains the number, with what follows for range
  queries, for changes of the number and for the deletion of a whole collection.
\<close>

text \<open>The entries of a finite map in the order of their keys.\<close>

definition map_entries :: "(bytes \<rightharpoonup> 'a) \<Rightarrow> (bytes \<times> 'a) list" where
  "map_entries m = map (\<lambda>f. (f, the (m f))) (sorted_list_of_set (dom m))"

lemma map_entries_keys: "map fst (map_entries m) = sorted_list_of_set (dom m)"
  by (simp add: map_entries_def comp_def)

lemma set_map_entries: "finite (dom m) \<Longrightarrow> set (map_entries m) = {(f, v). m f = Some v}"
  by (auto simp: map_entries_def)

lemma length_map_entries [simp]: "length (map_entries m) = card (dom m)"
  by (simp add: map_entries_def)

lemma map_of_map_entries: "finite (dom m) \<Longrightarrow> map_of (map_entries m) = m"
proof
  fix f
  assume "finite (dom m)"
  then show "map_of (map_entries m) f = m f"
    by (cases "m f") (auto simp: map_entries_def map_of_map_restrict restrict_map_def)
qed

lemma map_entries_empty [simp]: "map_entries Map.empty = []"
  by (simp add: map_entries_def)

lemma sint64_of_nat: "n < 2 ^ 63 \<Longrightarrow> sint (word_of_nat n :: i64) = int n"
proof -
  assume n: "n < 2 ^ 63"
  have "sint (word_of_int (int n) :: i64) = int n"
    using n by (subst sint_sbintrunc') (simp add: signed_take_bit_int_eq_self)
  then show ?thesis by simp
qed

lemma case_prod_pick: "(\<lambda>(f, v). (f, v)) = id" "(\<lambda>(f, v). f) = fst" "(\<lambda>(f, v). v) = snd"
  by auto

lemma kv_get_filter: "kv_get (filter (\<lambda>e. P (fst e)) s) k = (if P k then kv_get s k else None)"
  by (simp add: kv_get_def map_of_filter_key)

lemma kv_get_map_inj:
  assumes "inj g"
  shows "kv_get (map (\<lambda>(f, v). (g f, h v)) es) (g k) = map_option h (map_of es k)"
  using assms by (induction es) (auto simp: kv_get_def inj_eq)

lemma kv_get_map_other: "k \<notin> range g \<Longrightarrow> kv_get (map (\<lambda>(f, v). (g f, h v)) es) k = None"
  by (induction es) (auto simp: kv_get_def)

text \<open>Batches that put or delete several items.\<close>

lemma wb_effect_put_items:
  assumes "inj g"
  shows "wb_effect (map (\<lambda>(f, v). WPut (g f) v) args) M (g k) =
    (case map_of (rev args) k of Some v \<Rightarrow> Some v | None \<Rightarrow> M (g k))"
proof (induction args arbitrary: M)
  case (Cons a args)
  then show ?case
    using assms by (cases a) (auto simp: map_add_def inj_eq split: option.splits)
qed simp

lemma wb_effect_put_other:
  "k \<notin> range g \<Longrightarrow> wb_effect (map (\<lambda>(f, v). WPut (g f) v) args) M k = M k"
  by (rule wb_effect_other) auto

lemma map_of_rev_distinct: "distinct (map fst args) \<Longrightarrow> map_of (rev args) = map_of args"
  by (rule map_of_eqI) (auto simp: rev_map [symmetric] map_of_eq_Some_iff distinct_rev)

definition new_items :: "(bytes \<rightharpoonup> 'a) \<Rightarrow> bytes list \<Rightarrow> nat" where
  "new_items m fs = length (filter (\<lambda>f. m f = None) fs)"

definition old_items :: "(bytes \<rightharpoonup> 'a) \<Rightarrow> bytes list \<Rightarrow> nat" where
  "old_items m fs = length (filter (\<lambda>f. m f \<noteq> None) fs)"

lemma card_add_items:
  assumes "finite (dom m)" "distinct fs" "dom m' = dom m \<union> set fs"
  shows "card (dom m') = card (dom m) + new_items m fs"
proof -
  have "dom m' = dom m \<union> set (filter (\<lambda>f. m f = None) fs)"
    using assms(3) by auto
  moreover have "dom m \<inter> set (filter (\<lambda>f. m f = None) fs) = {}"
    by auto
  ultimately show ?thesis
    using assms(1,2) by (simp add: card_Un_disjoint new_items_def distinct_card del: set_filter)
qed

lemma card_remove_items:
  assumes "finite (dom m)" "distinct fs"
  shows "card (dom (m |` (- set fs))) + old_items m fs = card (dom m)"
proof -
  have "dom m = dom (m |` (- set fs)) \<union> set (filter (\<lambda>f. m f \<noteq> None) fs)"
    by auto
  moreover have "dom (m |` (- set fs)) \<inter> set (filter (\<lambda>f. m f \<noteq> None) fs) = {}"
    by auto
  moreover have "finite (dom (m |` (- set fs)))"
    using assms(1) by simp
  ultimately show ?thesis
    using assms(2) by (metis List.finite_set card_Un_disjoint distinct_card distinct_filter old_items_def)
qed

text \<open>What removing an expiry adds to a batch.\<close>

definition rm_ops :: "DB \<Rightarrow> byte \<Rightarrow> bytes \<Rightarrow> wop list" where
  "rm_ops db dt key = snd (rmExpire db [] dt key)"

lemma rmExpire_ops: "snd (rmExpire db t dt key) = t @ rm_ops db dt key"
  by (auto simp: rm_ops_def rmExpire_def Let_def split: option.splits sum.splits)

lemma rm_ops_other:
  "(\<And>w. ek \<noteq> expEncodeTimeKey (indexVarBuf db) dt key w) \<Longrightarrow> ek \<noteq> expEncodeMetaKey (indexVarBuf db) dt key \<Longrightarrow>
     wb_effect (rm_ops db dt key) m ek = m ek"
  using rmExpire_other [of ek db dt key "[]" m] by (simp add: rm_ops_def)

lemma rm_ops_own [simp]: "key \<in> K \<Longrightarrow> own_batch (indexVarBuf db) dt K (rm_ops db dt key)"
  by (simp add: rm_ops_def)

definition size_entry :: "nat \<Rightarrow> bytes option" where
  "size_entry n = (if n = 0 then None else Some (PutInt64 (word_of_nat n)))"

definition coll_at :: "(bytes \<Rightarrow> bytes \<Rightarrow> bytes) \<Rightarrow> (bytes \<Rightarrow> bytes \<Rightarrow> bytes \<Rightarrow> bytes) \<Rightarrow>
    DB \<Rightarrow> bytes \<Rightarrow> (bytes \<rightharpoonup> bytes) \<Rightarrow> bool" where
  "coll_at sk ik db key m \<longleftrightarrow>
     (\<forall>f. contents db (ik (indexVarBuf db) key f) = m f) \<and> finite (dom m) \<and> card (dom m) < 2 ^ 63 \<and>
     contents db (sk (indexVarBuf db) key) = size_entry (card (dom m))"

lemma Int64_size_entry [simp]: "Int64 (Inr (size_entry n)) = Inr (word_of_nat n)"
  by (simp add: size_entry_def)

locale sized_collection =
  fixes dt :: byte
    and sk :: "bytes \<Rightarrow> bytes \<Rightarrow> bytes"
    and ik :: "bytes \<Rightarrow> bytes \<Rightarrow> bytes \<Rightarrow> bytes"
    and start stop :: "bytes \<Rightarrow> bytes \<Rightarrow> bytes"
    and IncrSize :: "DB \<Rightarrow> bytes \<Rightarrow> i64 \<Rightarrow> wop list \<Rightarrow> (i64 \<times> wop list) res"
  assumes sk_own: "sk p k \<in> own p dt {k}"
    and ik_own: "key16 k \<Longrightarrow> ik p k f \<in> own p dt {k}"
    and ik_less: "ik p k f < ik p k f' \<longleftrightarrow> f < f'"
    and ik_range: "start p k \<le> ek \<and> ek < stop p k \<longleftrightarrow> (\<exists>f. ek = ik p k f)"
    and sk_ik: "sk p k \<noteq> ik p k f"
    and exp_sk: "expEncodeMetaKey p dt k \<noteq> sk p k'" "expEncodeTimeKey p dt k w \<noteq> sk p k'"
    and exp_ik: "expEncodeMetaKey p dt k \<noteq> ik p k' f" "expEncodeTimeKey p dt k w \<noteq> ik p k' f"
    and IncrSize_eq: "IncrSize db key delta t =
      (case Int64 (bucket_Get db (sk (indexVarBuf db) key)) of
         Inl e \<Rightarrow> Inl e
       | Inr n \<Rightarrow>
           if sint (n + delta) \<le> 0
           then Inr (0, snd (rmExpire db (wb_Delete (sk (indexVarBuf db) key) t) dt key))
           else Inr (n + delta, wb_Put (sk (indexVarBuf db) key) (PutInt64 (n + delta)) t))"
begin

lemma ik_inj: "ik p k f = ik p k f' \<longleftrightarrow> f = f'"
  using ik_less [of p k f f'] ik_less [of p k f' f] by (metis less_irrefl linorder_neqE)

lemma inj_ik: "inj (ik p k)"
  by (simp add: inj_def ik_inj)

lemma keys_neq [simp]:
  "ik p k f = ik p k f' \<longleftrightarrow> f = f'" "sk p k \<noteq> ik p k f" "ik p k f \<noteq> sk p k"
  "expEncodeMetaKey p dt k \<noteq> sk p k'" "expEncodeTimeKey p dt k w \<noteq> sk p k'"
  "expEncodeMetaKey p dt k \<noteq> ik p k' f" "expEncodeTimeKey p dt k w \<noteq> ik p k' f"
  "sk p k' \<noteq> expEncodeMetaKey p dt k" "sk p k' \<noteq> expEncodeTimeKey p dt k w"
  "ik p k' f \<noteq> expEncodeMetaKey p dt k" "ik p k' f \<noteq> expEncodeTimeKey p dt k w"
  using ik_inj sk_ik exp_sk exp_ik by metis+

text \<open>The range between the start and the stop key lists the items in the order of their names.\<close>

lemma range_query:
  assumes "kv_ok (ldb db)" "coll_at sk ik db key m"
  shows "range_entries \<lparr>rMin = Some (start (indexVarBuf db) key), rMax = Some (stop (indexVarBuf db) key),
      rType = RangeROpen\<rparr> (ldb db) = map (\<lambda>(f, v). (ik (indexVarBuf db) key f, v)) (map_entries m)"
    (is "?l = ?r")
proof (rule kv_ok_ext)
  let ?p = "indexVarBuf db"
  have fin: "finite (dom m)" and c: "contents db (ik ?p key f) = m f" for f
    using assms(2) by (simp_all add: coll_at_def)
  show "kv_ok ?l"
    using assms(1) by (auto simp: range_filter)
  have "map fst ?r = map (ik ?p key) (sorted_list_of_set (dom m))"
    by (simp add: map_entries_def)
  then show "kv_ok ?r"
    using strict_sorted_list_of_set [of "dom m"] by (simp add: kv_ok_def sorted_wrt_map ik_less)
  show "kv_get ?l = kv_get ?r"
  proof
    fix ek
    show "kv_get ?l ek = kv_get ?r ek"
    proof (cases "ek \<in> range (ik ?p key)")
      case True
      then obtain f where f: "ek = ik ?p key f" by blast
      then have "start ?p key \<le> ek \<and> ek < stop ?p key"
        using ik_range by blast
      then have "kv_get ?l ek = m f"
        unfolding range_filter kv_get_filter [where P = "\<lambda>k. start ?p key \<le> k \<and> k < stop ?p key"]
        using c f by simp
      moreover have "kv_get ?r ek = m f"
        using kv_get_map_inj [OF inj_ik [of ?p key], where h = id and es = "map_entries m"] f
        by (simp add: map_of_map_entries [OF fin] option.map_id0)
      ultimately show ?thesis by simp
    next
      case False
      then have "\<not> (start ?p key \<le> ek \<and> ek < stop ?p key)"
        using ik_range by blast
      then have "kv_get ?l ek = None"
        unfolding range_filter kv_get_filter [where P = "\<lambda>k. start ?p key \<le> k \<and> k < stop ?p key"]
        by auto
      moreover have "kv_get ?r ek = None"
        using kv_get_map_other [OF False, where h = id and es = "map_entries m"] by simp
      ultimately show ?thesis by simp
    qed
  qed
qed

text \<open>Changing the number of items.\<close>

lemma IncrSize_at:
  assumes "coll_at sk ik db key m" "int n = int (card (dom m)) + d" "n < 2 ^ 63"
  shows "\<exists>u. IncrSize db key (word_of_int d) t = Inr (word_of_nat n, t @ u) \<and>
    (\<forall>M f. wb_effect u M (ik (indexVarBuf db) key f) = M (ik (indexVarBuf db) key f)) \<and>
    (\<forall>M. wb_effect u M (sk (indexVarBuf db) key) = size_entry n)"
proof -
  let ?p = "indexVarBuf db"
  have n: "word_of_nat (card (dom m)) + word_of_int d = (word_of_nat n :: i64)"
  proof -
    have "(word_of_int (int n) :: i64) = word_of_int (int (card (dom m))) + word_of_int d"
      unfolding assms(2) by (simp only: of_int_add)
    then show ?thesis by simp
  qed
  have "sint (word_of_nat n :: i64) = int n"
    by (rule sint64_of_nat [OF assms(3)])
  moreover have "Int64 (bucket_Get db (sk ?p key)) = Inr (word_of_nat (card (dom m)))"
    using assms(1) by (simp add: coll_at_def)
  ultimately have i: "IncrSize db key (word_of_int d) t =
      (if n = 0 then Inr (0, t @ WDel (sk ?p key) # rm_ops db dt key)
       else Inr (word_of_nat n, t @ [WPut (sk ?p key) (PutInt64 (word_of_nat n))]))"
    unfolding IncrSize_eq rmExpire_ops by (simp add: n)
  show ?thesis
    by (rule exI [of _ "if n = 0 then WDel (sk ?p key) # rm_ops db dt key
        else [WPut (sk ?p key) (PutInt64 (word_of_nat n))]"])
       (simp add: i rm_ops_other size_entry_def)
qed

lemma IncrSize_other:
  assumes "IncrSize db key d t = Inr (n, t @ u)" "ek \<noteq> sk (indexVarBuf db) key"
    and "ek \<noteq> expEncodeMetaKey (indexVarBuf db) dt key" "\<And>w. ek \<noteq> expEncodeTimeKey (indexVarBuf db) dt key w"
  shows "wb_effect u M ek = M ek"
  using assms unfolding IncrSize_eq rmExpire_ops
  by (auto simp: rm_ops_other split: sum.splits if_splits)

lemma IncrSize_own:
  "IncrSize db key d t = Inr (n, u) \<Longrightarrow> own_batch (indexVarBuf db) dt {key} t \<Longrightarrow>
     own_batch (indexVarBuf db) dt {key} u"
  using sk_own [of "indexVarBuf db" key] unfolding IncrSize_eq rmExpire_ops
  by (auto split: sum.splits if_splits)

lemma IncrSize_own_in:
  assumes "IncrSize db key d t = Inr (n, u)" "key \<in> K" "own_batch (indexVarBuf db) dt K t"
  shows "own_batch (indexVarBuf db) dt K u"
  using assms sk_own [of "indexVarBuf db" key] own_mono [of "{key}" K "indexVarBuf db" dt]
  unfolding IncrSize_eq rmExpire_ops by (auto split: sum.splits if_splits)

text \<open>Deleting all items and the number.\<close>

lemma delete_effect:
  assumes "kv_ok (ldb db)" "coll_at sk ik db key m"
    and t: "t = map (\<lambda>e. WDel (fst e)) (range_entries \<lparr>rMin = Some (start (indexVarBuf db) key),
        rMax = Some (stop (indexVarBuf db) key), rType = RangeROpen\<rparr> (ldb db)) @ [WDel (sk (indexVarBuf db) key)]"
  shows "wb_effect t (contents db) (ik (indexVarBuf db) key f) = None"
    and "wb_effect t (contents db) (sk (indexVarBuf db) key) = None"
proof -
  let ?p = "indexVarBuf db"
  have k: "fst ` set (map (\<lambda>(f, v). (ik ?p key f, v)) (map_entries m)) = ik ?p key ` dom m"
    using assms(2) by (force simp: coll_at_def set_map_entries image_iff)
  have "m f = contents db (ik ?p key f)"
    using assms(2) by (simp add: coll_at_def)
  then show "wb_effect t (contents db) (ik ?p key f) = None"
    unfolding t range_query [OF assms(1,2)] wb_effect_append wb_effect_WDel_map k
    by (cases "m f") auto
  show "wb_effect t (contents db) (sk ?p key) = None"
    unfolding t by simp
qed

lemma delete_own:
  assumes "key16 key" and "kv_ok (ldb db)"
  shows "own_batch (indexVarBuf db) dt {key} (map (\<lambda>e. WDel (fst e))
    (range_entries \<lparr>rMin = Some (start (indexVarBuf db) key),
        rMax = Some (stop (indexVarBuf db) key), rType = RangeROpen\<rparr> (ldb db)))"
proof -
  have "fst e \<in> own (indexVarBuf db) dt {key}"
    if "start (indexVarBuf db) key \<le> fst e" "fst e < stop (indexVarBuf db) key" for e :: "bytes \<times> bytes"
    using that ik_range [of "indexVarBuf db" key "fst e"] ik_own [OF assms(1)] by auto
  then show ?thesis
    by (auto simp: own_batch_def range_filter)
qed

lemma coll_at_committed:
  assumes "writable db" "\<And>f. wb_effect t (contents db) (ik (indexVarBuf db) key f) = m f"
    and "finite (dom m)" "card (dom m) < 2 ^ 63"
    and "wb_effect t (contents db) (sk (indexVarBuf db) key) = size_entry (card (dom m))"
  shows "coll_at sk ik (committed t db) key m"
  using assms by (simp add: coll_at_def)

lemma coll_at_frame:
  assumes "acts dt' K db db'" "dt' \<noteq> dt \<or> key \<notin> K" "key16 key"
  shows "coll_at sk ik db' key m \<longleftrightarrow> coll_at sk ik db key m"
proof -
  have d: "own (indexVarBuf db) dt' K \<inter> own (indexVarBuf db) dt {key} = {}"
    using assms(2) by (intro own_disjoint) auto
  have "contents db' (sk (indexVarBuf db) key) = contents db (sk (indexVarBuf db) key)"
    "contents db' (ik (indexVarBuf db) key f) = contents db (ik (indexVarBuf db) key f)" for f
    using acts_frame [OF assms(1)] d sk_own ik_own [OF assms(3)] by blast+
  with assms(1) show ?thesis
    by (simp add: coll_at_def)
qed

end

end
