(* ===== verification/Ledis_Hash.thy ===== *)
theory Ledis_Hash
  imports Ledis_KV
begin

text \<open>
  Hashes, \<open>ledis/t_hash.go\<close>. The fields of a hash are entries of their own; a further entry
  holds their number. The operations read the database, not the batch they build, so an operation
  that names a field twice sees the state before it both times.
\<close>

type_synonym FVPair = "bytes \<times> bytes"

definition hIncrSize :: "DB \<Rightarrow> bytes \<Rightarrow> i64 \<Rightarrow> wop list \<Rightarrow> (i64 \<times> wop list) res" where
  "hIncrSize db key delta t =
     (let sk = hEncodeSizeKey (indexVarBuf db) key in
      case Int64 (bucket_Get db sk) of
        Inl e \<Rightarrow> Inl e
      | Inr sz \<Rightarrow>
          let sz = sz + delta in
          if sint sz \<le> 0 then Inr (0, snd (rmExpire db (wb_Delete sk t) HashType key))
          else Inr (sz, wb_Put sk (PutInt64 sz) t))"

definition hSetItem :: "DB \<Rightarrow> bytes \<Rightarrow> bytes \<Rightarrow> bytes \<Rightarrow> wop list \<Rightarrow> (int \<times> wop list) res" where
  "hSetItem db key field v t =
     (let ek = hEncodeHashKey (indexVarBuf db) key field in
      case bucket_Get db ek of
        Inr (Some _) \<Rightarrow> Inr (0, wb_Put ek v t)
      | _ \<Rightarrow>
          (case hIncrSize db key 1 t of
             Inl e \<Rightarrow> Inl e
           | Inr (_, t) \<Rightarrow> Inr (1, wb_Put ek v t)))"

definition hDelete :: "DB \<Rightarrow> wop list \<Rightarrow> bytes \<Rightarrow> int \<times> wop list" where
  "hDelete db t key =
     (let p = indexVarBuf db;
          es = rli_run (db_RangeLimitIterator db (Some (hEncodeStartKey p key))
                 (Some (hEncodeStopKey p key)) RangeROpen 0 (-1))
      in (int (length es), wb_Delete (hEncodeSizeKey p key) (fold (\<lambda>e. wb_Delete (fst e)) es t)))"

definition HLen :: "bytes \<Rightarrow> DB \<Rightarrow> i64 res" where
  "HLen key db =
     (case checkKeySize key of
        Inl e \<Rightarrow> Inl e
      | Inr u \<Rightarrow> Int64 (bucket_Get db (hEncodeSizeKey (indexVarBuf db) key)))"

definition hExpireAt :: "bytes \<Rightarrow> i64 \<Rightarrow> DB \<Rightarrow> int res \<times> DB" where
  "hExpireAt key when db =
     (case HLen key db of
        Inl e \<Rightarrow> (Inl e, db)
      | Inr hlen \<Rightarrow>
          if hlen = 0 then (Inr 0, db)
          else (case expireAt db [] HashType key when of (t, db) \<Rightarrow> commit_ret t 1 db))"

definition HSet :: "bytes \<Rightarrow> bytes \<Rightarrow> bytes \<Rightarrow> DB \<Rightarrow> int res \<times> DB" where
  "HSet key field v db =
     (case checkHashKFSize key field of
        Inl e \<Rightarrow> (Inl e, db)
      | Inr u \<Rightarrow>
          (case checkValueSize v of
             Inl e \<Rightarrow> (Inl e, db)
           | Inr u \<Rightarrow>
               (case hSetItem db key field v [] of
                  Inl e \<Rightarrow> (Inl e, db)
                | Inr (n, t) \<Rightarrow> commit_ret t n db)))"

definition HGet :: "bytes \<Rightarrow> bytes \<Rightarrow> DB \<Rightarrow> bytes option res" where
  "HGet key field db =
     (case checkHashKFSize key field of
        Inl e \<Rightarrow> Inl e
      | Inr u \<Rightarrow> bucket_Get db (hEncodeHashKey (indexVarBuf db) key field))"

fun HMset_loop :: "DB \<Rightarrow> bytes \<Rightarrow> FVPair list \<Rightarrow> i64 \<Rightarrow> wop list \<Rightarrow> (i64 \<times> wop list) res" where
  "HMset_loop db key [] num t = Inr (num, t)"
| "HMset_loop db key ((field, v) # args) num t =
     (case checkHashKFSize key field of
        Inl e \<Rightarrow> Inl e
      | Inr u \<Rightarrow>
          (case checkValueSize v of
             Inl e \<Rightarrow> Inl e
           | Inr u \<Rightarrow>
               let ek = hEncodeHashKey (indexVarBuf db) key field in
               case bucket_Get db ek of
                 Inl e \<Rightarrow> Inl e
               | Inr ov \<Rightarrow>
                   HMset_loop db key args (if ov = None then num + 1 else num) (wb_Put ek v t)))"

definition HMset :: "bytes \<Rightarrow> FVPair list \<Rightarrow> DB \<Rightarrow> unit res \<times> DB" where
  "HMset key args db =
     (case HMset_loop db key args 0 [] of
        Inl e \<Rightarrow> (Inl e, db)
      | Inr (num, t) \<Rightarrow>
          (case hIncrSize db key num t of
             Inl e \<Rightarrow> (Inl e, db)
           | Inr (_, t) \<Rightarrow> Commit t db))"

fun HMget_loop :: "bytes \<Rightarrow> bytes \<Rightarrow> bytes list \<Rightarrow> Iterator \<Rightarrow> bytes option list res" where
  "HMget_loop p key [] it = Inr []"
| "HMget_loop p key (field # args) it =
     (case checkHashKFSize key field of
        Inl e \<Rightarrow> Inl e
      | Inr u \<Rightarrow>
          (case it_Find (hEncodeHashKey p key field) it of
             (v, it) \<Rightarrow> (case HMget_loop p key args it of Inl e \<Rightarrow> Inl e | Inr vs \<Rightarrow> Inr (v # vs))))"

definition HMget :: "bytes \<Rightarrow> bytes list \<Rightarrow> DB \<Rightarrow> bytes option list res" where
  "HMget key args db = HMget_loop (indexVarBuf db) key args (NewIterator (ldb db))"

fun HDel_loop :: "bytes \<Rightarrow> bytes \<Rightarrow> bytes list \<Rightarrow> Iterator \<Rightarrow> i64 \<Rightarrow> wop list \<Rightarrow> (i64 \<times> wop list) res" where
  "HDel_loop p key [] it num t = Inr (num, t)"
| "HDel_loop p key (field # args) it num t =
     (case checkHashKFSize key field of
        Inl e \<Rightarrow> Inl e
      | Inr u \<Rightarrow>
          let ek = hEncodeHashKey p key field in
          case it_Find ek it of
            (None, it) \<Rightarrow> HDel_loop p key args it num t
          | (Some v, it) \<Rightarrow> HDel_loop p key args it (num + 1) (wb_Delete ek t))"

definition HDel :: "bytes \<Rightarrow> bytes list \<Rightarrow> DB \<Rightarrow> i64 res \<times> DB" where
  "HDel key args db =
     (case HDel_loop (indexVarBuf db) key args (NewIterator (ldb db)) 0 [] of
        Inl e \<Rightarrow> (Inl e, db)
      | Inr (num, t) \<Rightarrow>
          (case hIncrSize db key (- num) t of
             Inl e \<Rightarrow> (Inl e, db)
           | Inr (_, t) \<Rightarrow> commit_ret t num db))"

definition HIncrBy :: "bytes \<Rightarrow> bytes \<Rightarrow> i64 \<Rightarrow> DB \<Rightarrow> i64 res \<times> DB" where
  "HIncrBy key field delta db =
     (case checkHashKFSize key field of
        Inl e \<Rightarrow> (Inl e, db)
      | Inr u \<Rightarrow>
          (case StrInt64 (bucket_Get db (hEncodeHashKey (indexVarBuf db) key field)) of
             Inl e \<Rightarrow> (Inl e, db)
           | Inr n \<Rightarrow>
               let n = n + delta in
               case hSetItem db key field (FormatInt64ToSlice n) [] of
                 Inl e \<Rightarrow> (Inl e, db)
               | Inr (_, t) \<Rightarrow> commit_ret t n db))"

text \<open>\<open>HGetAll\<close>, \<open>HKeys\<close> and \<open>HValues\<close> run over the same range and differ in what they collect.\<close>

fun hCollect :: "bytes \<Rightarrow> (bytes \<Rightarrow> bytes \<Rightarrow> 'a) \<Rightarrow> (bytes \<times> bytes) list \<Rightarrow> 'a list res" where
  "hCollect p f [] = Inr []"
| "hCollect p f ((k, v) # es) =
     (case hDecodeHashKey p k of
        Inl e \<Rightarrow> Inl e
      | Inr (_, field) \<Rightarrow> (case hCollect p f es of Inl e \<Rightarrow> Inl e | Inr vs \<Rightarrow> Inr (f field v # vs)))"

definition hRange :: "bytes \<Rightarrow> DB \<Rightarrow> (bytes \<times> bytes) list" where
  "hRange key db =
     rli_run (db_RangeLimitIterator db (Some (hEncodeStartKey (indexVarBuf db) key))
       (Some (hEncodeStopKey (indexVarBuf db) key)) RangeROpen 0 (-1))"

definition HGetAll :: "bytes \<Rightarrow> DB \<Rightarrow> FVPair list res" where
  "HGetAll key db =
     (case checkKeySize key of
        Inl e \<Rightarrow> Inl e
      | Inr u \<Rightarrow> hCollect (indexVarBuf db) (\<lambda>f v. (f, v)) (hRange key db))"

definition HKeys :: "bytes \<Rightarrow> DB \<Rightarrow> bytes list res" where
  "HKeys key db =
     (case checkKeySize key of
        Inl e \<Rightarrow> Inl e
      | Inr u \<Rightarrow> hCollect (indexVarBuf db) (\<lambda>f v. f) (hRange key db))"

definition HValues :: "bytes \<Rightarrow> DB \<Rightarrow> bytes list res" where
  "HValues key db =
     (case checkKeySize key of
        Inl e \<Rightarrow> Inl e
      | Inr u \<Rightarrow> hCollect (indexVarBuf db) (\<lambda>f v. v) (hRange key db))"

definition HClear :: "bytes \<Rightarrow> DB \<Rightarrow> int res \<times> DB" where
  "HClear key db =
     (case checkKeySize key of
        Inl e \<Rightarrow> (Inl e, db)
      | Inr u \<Rightarrow>
          (case hDelete db [] key of
             (num, t) \<Rightarrow> commit_ret (snd (rmExpire db t HashType key)) num db))"

fun HMclear_loop :: "DB \<Rightarrow> bytes list \<Rightarrow> wop list \<Rightarrow> wop list res" where
  "HMclear_loop db [] t = Inr t"
| "HMclear_loop db (key # keys) t =
     (case checkKeySize key of
        Inl e \<Rightarrow> Inl e
      | Inr u \<Rightarrow> HMclear_loop db keys (snd (rmExpire db (snd (hDelete db t key)) HashType key)))"

definition HMclear :: "bytes list \<Rightarrow> DB \<Rightarrow> int res \<times> DB" where
  "HMclear keys db =
     (case HMclear_loop db keys [] of
        Inl e \<Rightarrow> (Inl e, db)
      | Inr t \<Rightarrow> commit_ret t (int (length keys)) db)"

definition HExpire :: "bytes \<Rightarrow> i64 \<Rightarrow> DB \<Rightarrow> int res \<times> DB" where
  "HExpire key duration db =
     (if sint duration \<le> 0 then (Inl ErrExpireValue, db)
      else hExpireAt key (now db + duration) db)"

definition HExpireAt :: "bytes \<Rightarrow> i64 \<Rightarrow> DB \<Rightarrow> int res \<times> DB" where
  "HExpireAt key when db =
     (if sint when \<le> sint (now db) then (Inl ErrExpireValue, db) else hExpireAt key when db)"

definition HTTL :: "bytes \<Rightarrow> DB \<Rightarrow> i64 res" where
  "HTTL key db = (case checkKeySize key of Inl e \<Rightarrow> Inl e | Inr u \<Rightarrow> ttl db HashType key)"

definition HPersist :: "bytes \<Rightarrow> DB \<Rightarrow> i64 res \<times> DB" where
  "HPersist key db =
     (case checkKeySize key of
        Inl e \<Rightarrow> (Inl e, db)
      | Inr u \<Rightarrow>
          (case rmExpire db [] HashType key of
             (Inl e, t) \<Rightarrow> (Inl e, db)
           | (Inr n, t) \<Rightarrow> commit_ret t n db))"

definition HKeyExists :: "bytes \<Rightarrow> DB \<Rightarrow> int res" where
  "HKeyExists key db =
     (case checkKeySize key of
        Inl e \<Rightarrow> Inl e
      | Inr u \<Rightarrow>
          (case bucket_Get db (hEncodeSizeKey (indexVarBuf db) key) of
             Inr (Some v) \<Rightarrow> Inr 1
           | Inr None \<Rightarrow> Inr 0
           | Inl e \<Rightarrow> Inl e))"

end
