(* ===== verification/Ledis_Hash_Laws.thy ===== *)
theory Ledis_Hash_Laws
  imports Ledis_Collection Ledis_Hash
begin

text \<open>
  What the hash operations do: the entries of a key represent a finite map from fields to values
  (\<open>hash_at\<close>), and every operation is the one of the map.
\<close>

lemma hash_keys_neq:
  "hEncodeSizeKey p k \<noteq> hEncodeHashKey p k' f"
  "expEncodeMetaKey p dt k \<noteq> hEncodeSizeKey p k'" "expEncodeTimeKey p dt k w \<noteq> hEncodeSizeKey p k'"
  "expEncodeMetaKey p dt k \<noteq> hEncodeHashKey p k' f" "expEncodeTimeKey p dt k w \<noteq> hEncodeHashKey p k' f"
  by (auto simp: encoder_defs type_defs)

interpretation hash: sized_collection HashType hEncodeSizeKey hEncodeHashKey hEncodeStartKey
  hEncodeStopKey hIncrSize
  by unfold_locales
     (simp_all add: item_key_less hash_range hash_keys_neq hIncrSize_def Let_def split: sum.split)

abbreviation hash_at :: "DB \<Rightarrow> bytes \<Rightarrow> (bytes \<rightharpoonup> bytes) \<Rightarrow> bool" where
  "hash_at \<equiv> coll_at hEncodeSizeKey hEncodeHashKey"

abbreviation hitem :: "DB \<Rightarrow> bytes \<Rightarrow> bytes \<Rightarrow> bytes" where
  "hitem db key f \<equiv> hEncodeHashKey (indexVarBuf db) key f"

abbreviation hsize :: "DB \<Rightarrow> bytes \<Rightarrow> bytes" where
  "hsize db key \<equiv> hEncodeSizeKey (indexVarBuf db) key"

definition field_ok :: "bytes \<Rightarrow> bool" where
  "field_ok f \<longleftrightarrow> 0 < length f \<and> length f \<le> MaxHashFieldSize"

lemma checkHashKFSize_ok [simp]: "key_size_ok key \<Longrightarrow> field_ok f \<Longrightarrow> checkHashKFSize key f = Inr ()"
  by (simp add: checkHashKFSize_def key_size_ok_def field_ok_def)

lemma checkHashKFSize_key16: "checkHashKFSize key f = Inr u \<Longrightarrow> key16 key"
  by (auto simp: checkHashKFSize_def key16_def MaxKeySize_def split: if_splits)

lemma hash_at_get: "hash_at db key m \<Longrightarrow> contents db (hitem db key f) = m f"
  by (simp add: coll_at_def)

section \<open>Reading\<close>

lemma HGet_ok: "hash_at db key m \<Longrightarrow> key_size_ok key \<Longrightarrow> field_ok f \<Longrightarrow> HGet key f db = Inr (m f)"
  by (simp add: HGet_def hash_at_get)

lemma HLen_ok: "hash_at db key m \<Longrightarrow> key_size_ok key \<Longrightarrow> HLen key db = Inr (word_of_nat (card (dom m)))"
  by (simp add: HLen_def coll_at_def)

lemma HKeyExists_ok:
  "hash_at db key m \<Longrightarrow> key_size_ok key \<Longrightarrow> HKeyExists key db = Inr (if dom m = {} then 0 else 1)"
  by (auto simp: HKeyExists_def coll_at_def size_entry_def)

lemma HMget_loop_ok:
  "kv_ok (it_data it) \<Longrightarrow> key_size_ok key \<Longrightarrow> list_all field_ok fs \<Longrightarrow>
     HMget_loop p key fs it = Inr (map (\<lambda>f. kv_get (it_data it) (hEncodeHashKey p key f)) fs)"
  by (induction fs arbitrary: it) (simp_all add: it_Find_get)

lemma HMget_ok:
  "kv_ok (ldb db) \<Longrightarrow> hash_at db key m \<Longrightarrow> key_size_ok key \<Longrightarrow> list_all field_ok fs \<Longrightarrow>
     HMget key fs db = Inr (map m fs)"
  by (simp add: HMget_def HMget_loop_ok NewIterator_def hash_at_get)

lemma hRange_ok:
  "kv_ok (ldb db) \<Longrightarrow> hash_at db key m \<Longrightarrow> hRange key db = map (\<lambda>(f, v). (hitem db key f, v)) (map_entries m)"
  by (simp add: hRange_def hash.range_query)

lemma hCollect_ok:
  "key16 key \<Longrightarrow> hCollect p g (map (\<lambda>(f, v). (hEncodeHashKey p key f, v)) es) = Inr (map (\<lambda>(f, v). g f v) es)"
  by (induction es) auto

lemma HGetAll_ok:
  assumes "kv_ok (ldb db)" "hash_at db key m" "key_size_ok key"
  shows "HGetAll key db = Inr (map_entries m)" "HKeys key db = Inr (sorted_list_of_set (dom m))"
    "HValues key db = Inr (map snd (map_entries m))"
  using assms
  by (simp_all add: HGetAll_def HKeys_def HValues_def hRange_ok hCollect_ok case_prod_pick map_entries_keys)

section \<open>Writing\<close>

lemma hSetItem_ok:
  assumes "hash_at db key m" "card (dom m) + 1 < 2 ^ 63"
  shows "\<exists>u. hSetItem db key f v [] = Inr (if m f = None then 1 else 0, u) \<and>
    (\<forall>g. wb_effect u (contents db) (hitem db key g) = (m(f \<mapsto> v)) g) \<and>
    wb_effect u (contents db) (hsize db key) = size_entry (card (dom (m(f \<mapsto> v))))"
proof (cases "m f")
  case None
  obtain u where u: "hIncrSize db key 1 [] = Inr (word_of_nat (card (dom m) + 1), u)"
      "\<forall>M f. wb_effect u M (hitem db key f) = M (hitem db key f)"
      "\<forall>M. wb_effect u M (hsize db key) = size_entry (card (dom m) + 1)"
    using hash.IncrSize_at [OF assms(1), of "card (dom m) + 1" 1 "[]"] assms(2) by auto
  have "card (dom (m(f \<mapsto> v))) = card (dom m) + 1"
    using None assms(1) by (simp add: coll_at_def card_insert_if domIff)
  with None u assms(1) show ?thesis
    by (simp add: hSetItem_def Let_def hash_at_get del: fun_upd_apply) (simp add: hash_at_get)
next
  case (Some w)
  then have "dom (m(f \<mapsto> v)) = dom m"
    by auto
  with Some assms(1) show ?thesis
    by (simp add: hSetItem_def Let_def hash_at_get) (simp add: coll_at_def)
qed

lemma HSet_ok:
  assumes "writable db" "hash_at db key m" "key_size_ok key" "field_ok f" "length v \<le> MaxValueSize"
    and "card (dom m) + 1 < 2 ^ 63"
  shows "\<exists>db'. HSet key f v db = (Inr (if m f = None then 1 else 0), db') \<and> hash_at db' key (m(f \<mapsto> v))"
proof -
  obtain u where u: "hSetItem db key f v [] = Inr (if m f = None then 1 else 0, u)"
      "\<forall>g. wb_effect u (contents db) (hitem db key g) = (m(f \<mapsto> v)) g"
      "wb_effect u (contents db) (hsize db key) = size_entry (card (dom (m(f \<mapsto> v))))"
    using hSetItem_ok [OF assms(2,6)] by blast
  have "card (dom (m(f \<mapsto> v))) < 2 ^ 63" "finite (dom (m(f \<mapsto> v)))"
    using assms(2,6) by (auto simp: coll_at_def card_insert_if)
  then have "hash_at (committed u db) key (m(f \<mapsto> v))"
    using u(2,3) by (intro hash.coll_at_committed [OF assms(1)]) simp_all
  then show ?thesis
    using assms u(1) by (simp add: HSet_def)
qed

definition fv_ok :: "FVPair \<Rightarrow> bool" where
  "fv_ok a \<longleftrightarrow> field_ok (fst a) \<and> length (snd a) \<le> MaxValueSize"

lemma HMset_loop_ok:
  assumes "hash_at db key m" "key_size_ok key" "list_all fv_ok args"
  shows "HMset_loop db key args n t = Inr (n + word_of_nat (new_items m (map fst args)),
    t @ map (\<lambda>(f, v). WPut (hitem db key f) v) args)"
  using assms(3)
proof (induction args arbitrary: n t)
  case (Cons a args)
  then show ?case
    using assms(1,2) by (cases a) (simp add: fv_ok_def new_items_def hash_at_get Let_def)
qed (simp add: new_items_def)

text \<open>
  In general the last value of a field wins, but a field that is new and named several times is
  counted as often.
\<close>

lemma HMset_effect:
  assumes "writable db" "hash_at db key m" "key_size_ok key" "list_all fv_ok args"
    and n: "n = card (dom m) + new_items m (map fst args)" "n < 2 ^ 63"
  shows "\<exists>db'. HMset key args db = (Inr (), db') \<and> indexVarBuf db' = indexVarBuf db \<and>
    (\<forall>f. contents db' (hitem db key f) = (m ++ map_of (rev args)) f) \<and>
    contents db' (hsize db key) = size_entry n"
proof -
  let ?t = "map (\<lambda>(f, v). WPut (hitem db key f) v) args"
  obtain u where u: "hIncrSize db key (word_of_nat (new_items m (map fst args))) ?t = Inr (word_of_nat n, ?t @ u)"
      "\<forall>M f. wb_effect u M (hitem db key f) = M (hitem db key f)"
      "\<forall>M. wb_effect u M (hsize db key) = size_entry n"
    using hash.IncrSize_at [OF assms(2), of n "int (new_items m (map fst args))" ?t] n by auto
  have "HMset key args db = (Inr (), committed (?t @ u) db)"
    using assms u(1) by (simp add: HMset_def HMset_loop_ok [OF assms(2-4)])
  moreover have "wb_effect (?t @ u) (contents db) (hitem db key f) = (m ++ map_of (rev args)) f" for f
    using u(2) wb_effect_put_items [OF hash.inj_ik, of "indexVarBuf db" key args "contents db" f] assms(2)
    by (simp add: hash_at_get map_add_def split: option.splits)
  ultimately show ?thesis
    using assms(1) u(3) by simp
qed

lemma HMset_ok:
  assumes "writable db" "hash_at db key m" "key_size_ok key" "list_all fv_ok args"
    and "distinct (map fst args)" "card (dom m) + length args < 2 ^ 63"
  shows "\<exists>db'. HMset key args db = (Inr (), db') \<and> hash_at db' key (m ++ map_of args)"
proof -
  have fin: "finite (dom m)" "finite (dom (m ++ map_of args))"
    using assms(2) by (simp_all add: coll_at_def finite_dom_map_of)
  have c: "card (dom (m ++ map_of args)) = card (dom m) + new_items m (map fst args)"
    by (rule card_add_items [OF fin(1) assms(5)]) (simp add: dom_map_of_conv_image_fst Un_commute)
  have "new_items m (map fst args) \<le> length args"
    unfolding new_items_def using length_filter_le [of _ "map fst args"] by simp
  then have n: "card (dom (m ++ map_of args)) < 2 ^ 63"
    using c assms(6) by simp
  show ?thesis
    using HMset_effect [OF assms(1-4) c n] fin n unfolding map_of_rev_distinct [OF assms(5)]
    by (auto simp: coll_at_def)
qed

lemma HDel_loop_ok:
  assumes "hash_at db key m" "key_size_ok key" "list_all field_ok fs" "kv_ok (ldb db)" "it_data it = ldb db"
  shows "HDel_loop (indexVarBuf db) key fs it n t = Inr (n + word_of_nat (old_items m fs),
    t @ map (\<lambda>f. WDel (hitem db key f)) (filter (\<lambda>f. m f \<noteq> None) fs))"
  using assms(3,5)
proof (induction fs arbitrary: it n t)
  case (Cons f fs)
  have "it_Find (hitem db key f) it = (m f, Seek (hitem db key f) it)"
    using it_Find_get [of it "hitem db key f"] assms(1,4) Cons.prems(2) by (simp add: hash_at_get)
  then show ?case
    using Cons assms(2) by (cases "m f") (simp_all add: old_items_def Let_def)
qed (simp add: old_items_def)

lemma HDel_effect:
  assumes "writable db" "kv_ok (ldb db)" "hash_at db key m" "key_size_ok key" "list_all field_ok fs"
    and n: "n + old_items m fs = card (dom m)"
  shows "\<exists>db'. HDel key fs db = (Inr (word_of_nat (old_items m fs)), db') \<and> indexVarBuf db' = indexVarBuf db \<and>
    (\<forall>f. contents db' (hitem db key f) = (m |` (- set fs)) f) \<and> contents db' (hsize db key) = size_entry n"
proof -
  let ?t = "map (\<lambda>f. WDel (hitem db key f)) (filter (\<lambda>f. m f \<noteq> None) fs)"
  have "n < 2 ^ 63"
    using assms(3) n by (simp add: coll_at_def)
  then obtain u where u: "hIncrSize db key (- word_of_nat (old_items m fs)) ?t = Inr (word_of_nat n, ?t @ u)"
      "\<forall>M f. wb_effect u M (hitem db key f) = M (hitem db key f)"
      "\<forall>M. wb_effect u M (hsize db key) = size_entry n"
    using hash.IncrSize_at [OF assms(3), of n "- int (old_items m fs)" ?t] n by auto
  have "HDel key fs db = (Inr (word_of_nat (old_items m fs)), committed (?t @ u) db)"
    using assms u(1) HDel_loop_ok [OF assms(3-5,2), of "NewIterator (ldb db)" 0 "[]"]
    by (simp add: HDel_def NewIterator_def)
  moreover have "wb_effect (?t @ u) (contents db) (hitem db key f) = (m |` (- set fs)) f" for f
    using u(2) assms(3) by (auto simp: wb_effect_WDel_map hash_at_get restrict_map_def)
  ultimately show ?thesis
    using assms(1) u(3) by simp
qed

lemma HDel_ok:
  assumes "writable db" "kv_ok (ldb db)" "hash_at db key m" "key_size_ok key" "list_all field_ok fs" "distinct fs"
  shows "\<exists>db'. HDel key fs db = (Inr (word_of_nat (old_items m fs)), db') \<and> hash_at db' key (m |` (- set fs))"
proof -
  have fin: "finite (dom m)" "card (dom m) < 2 ^ 63"
    using assms(3) by (simp_all add: coll_at_def)
  note c = card_remove_items [OF fin(1) assms(6)]
  show ?thesis
    using HDel_effect [OF assms(1-5) c] fin c by (auto simp: coll_at_def)
qed

lemma HClear_ok:
  assumes "writable db" "kv_ok (ldb db)" "hash_at db key m" "key_size_ok key"
  shows "\<exists>db'. HClear key db = (Inr (int (card (dom m))), db') \<and> hash_at db' key Map.empty"
proof -
  let ?r = "range_entries \<lparr>rMin = Some (hEncodeStartKey (indexVarBuf db) key),
    rMax = Some (hEncodeStopKey (indexVarBuf db) key), rType = RangeROpen\<rparr> (ldb db)"
  let ?t = "map (\<lambda>e. WDel (fst e)) ?r @ [WDel (hsize db key)]"
  note e = hash.delete_effect [OF assms(2,3) refl]
  have "HClear key db = (Inr (int (card (dom m))), committed (?t @ rm_ops db HashType key) db)"
    using assms by (simp add: HClear_def hDelete_def Let_def fold_wb_Delete rmExpire_ops hash.range_query)
  moreover have "hash_at (committed (?t @ rm_ops db HashType key) db) key Map.empty"
    using e assms(1) by (simp add: coll_at_def rm_ops_other size_entry_def hash_keys_neq [symmetric])
  ultimately show ?thesis by blast
qed

lemma HIncrBy_ok:
  assumes "writable db" "hash_at db key m" "key_size_ok key" "field_ok f" "card (dom m) + 1 < 2 ^ 63"
    and "StrInt64 (Inr (m f)) = Inr n"
  shows "\<exists>db'. HIncrBy key f delta db = (Inr (n + delta), db') \<and>
    hash_at db' key (m(f \<mapsto> FormatInt64ToSlice (n + delta)))"
proof -
  let ?v = "FormatInt64ToSlice (n + delta)"
  obtain u where u: "hSetItem db key f ?v [] = Inr (if m f = None then 1 else 0, u)"
      "\<forall>g. wb_effect u (contents db) (hitem db key g) = (m(f \<mapsto> ?v)) g"
      "wb_effect u (contents db) (hsize db key) = size_entry (card (dom (m(f \<mapsto> ?v))))"
    using hSetItem_ok [OF assms(2,5)] by blast
  have "card (dom (m(f \<mapsto> ?v))) < 2 ^ 63" "finite (dom (m(f \<mapsto> ?v)))"
    using assms(2,5) by (auto simp: coll_at_def card_insert_if)
  then have "hash_at (committed u db) key (m(f \<mapsto> ?v))"
    using u(2,3) by (intro hash.coll_at_committed [OF assms(1)]) simp_all
  then show ?thesis
    using assms u(1) by (simp add: HIncrBy_def hash_at_get)
qed

lemma HIncrBy_error:
  "hash_at db key m \<Longrightarrow> key_size_ok key \<Longrightarrow> field_ok f \<Longrightarrow> StrInt64 (Inr (m f)) = Inl e \<Longrightarrow>
     HIncrBy key f delta db = (Inl e, db)"
  by (simp add: HIncrBy_def hash_at_get)

end
