(* ===== verification/Ledis_Hash_Props.thy ===== *)
theory Ledis_Hash_Props
  imports Ledis_Hash_Laws
begin

text \<open>
  Hashes as a whole: the operations act on their own key only, and a hash behaves like a finite
  map through any sequence of operations.
\<close>

section \<open>The operations act on their key\<close>

lemma hSetItem_own:
  "hSetItem db key f v t = Inr (n, u) \<Longrightarrow> key16 key \<Longrightarrow> own_batch (indexVarBuf db) HashType {key} t \<Longrightarrow>
     own_batch (indexVarBuf db) HashType {key} u"
  by (auto simp: hSetItem_def Let_def dest: hash.IncrSize_own split: sum.splits option.splits)

lemma HSet_acts: "acts HashType {key} db (snd (HSet key f v db))"
  unfolding HSet_def
  by (intro acts_rules) (auto dest: hSetItem_own checkHashKFSize_key16)

lemma HIncrBy_acts: "acts HashType {key} db (snd (HIncrBy key f d db))"
  unfolding HIncrBy_def
  by (intro acts_rules) (auto dest: hSetItem_own checkHashKFSize_key16)

lemma HMset_loop_own:
  "HMset_loop db key args n t = Inr (k, u) \<Longrightarrow> own_batch (indexVarBuf db) HashType {key} t \<Longrightarrow>
     own_batch (indexVarBuf db) HashType {key} u"
  by (induction db key args n t rule: HMset_loop.induct)
     (auto simp: Let_def dest: checkHashKFSize_key16 split: sum.splits)

lemma HMset_acts: "acts HashType {key} db (snd (HMset key args db))"
  unfolding HMset_def
  by (intro acts_rules) (auto dest!: HMset_loop_own hash.IncrSize_own)

lemma HDel_loop_own:
  "HDel_loop p key fs it n t = Inr (k, u) \<Longrightarrow> own_batch p HashType {key} t \<Longrightarrow> own_batch p HashType {key} u"
  by (induction p key fs it n t rule: HDel_loop.induct)
     (auto simp: Let_def dest: checkHashKFSize_key16 split: sum.splits prod.splits option.splits)

lemma HDel_acts: "acts HashType {key} db (snd (HDel key fs db))"
  unfolding HDel_def
  by (intro acts_rules) (auto dest!: HDel_loop_own hash.IncrSize_own)

lemma hDelete_own:
  assumes "kv_ok (ldb db)" "key16 key" "key \<in> K" "own_batch (indexVarBuf db) HashType K t"
  shows "own_batch (indexVarBuf db) HashType K (snd (hDelete db t key))"
  using assms hash.delete_own [OF assms(2,1)] own_batch_mono [of "{key}" K]
  by (simp add: hDelete_def Let_def fold_wb_Delete)

lemma HClear_acts: "kv_ok (ldb db) \<Longrightarrow> acts HashType {key} db (snd (HClear key db))"
  unfolding HClear_def
  by (intro acts_rules) (auto dest!: checkKeySize_key16 dest: hDelete_own [of db key "{key}" "[]"])

lemma HMclear_loop_own:
  "HMclear_loop db keys t = Inr u \<Longrightarrow> kv_ok (ldb db) \<Longrightarrow> set keys \<subseteq> K \<Longrightarrow>
     own_batch (indexVarBuf db) HashType K t \<Longrightarrow> own_batch (indexVarBuf db) HashType K u"
  by (induction db keys t rule: HMclear_loop.induct)
     (auto dest: checkKeySize_key16 simp: hDelete_own split: sum.splits)

lemma HMclear_acts: "kv_ok (ldb db) \<Longrightarrow> acts HashType (set keys) db (snd (HMclear keys db))"
  unfolding HMclear_def
  by (intro acts_rules) (auto dest: HMclear_loop_own)

lemma hExpireAt_acts: "acts HashType {key} db (snd (hExpireAt key when db))"
  unfolding hExpireAt_def by (intro acts_rules) simp_all

lemma HExpire_acts: "acts HashType {key} db (snd (HExpire key d db))"
  and HExpireAt_acts: "acts HashType {key} db (snd (HExpireAt key d db))"
  by (simp_all add: HExpire_def HExpireAt_def hExpireAt_acts acts.none)

lemma HPersist_acts: "acts HashType {key} db (snd (HPersist key db))"
  unfolding HPersist_def
  by (intro acts_rules) (auto intro!: acts_rules dest: rmExpire_own_pair [where K = "{key}"])

section \<open>A hash is a finite map\<close>

datatype hash_op =
    OpHSet bytes bytes | OpHGet bytes | OpHMset "FVPair list" | OpHMget "bytes list"
  | OpHDel "bytes list" | OpHIncrBy bytes i64 | OpHLen | OpHKeyExists | OpHGetAll | OpHKeys
  | OpHValues | OpHClear

datatype hash_out =
    HOutInt "int res" | HOutInt64 "i64 res" | HOutValue "bytes option res" | HOutUnit "unit res"
  | HOutValues "bytes option list res" | HOutPairs "FVPair list res" | HOutList "bytes list res"

fun hash_exec :: "bytes \<Rightarrow> hash_op \<Rightarrow> DB \<Rightarrow> hash_out \<times> DB" where
  "hash_exec key (OpHSet f v) db = (case HSet key f v db of (r, db) \<Rightarrow> (HOutInt r, db))"
| "hash_exec key (OpHGet f) db = (HOutValue (HGet key f db), db)"
| "hash_exec key (OpHMset args) db = (case HMset key args db of (r, db) \<Rightarrow> (HOutUnit r, db))"
| "hash_exec key (OpHMget fs) db = (HOutValues (HMget key fs db), db)"
| "hash_exec key (OpHDel fs) db = (case HDel key fs db of (r, db) \<Rightarrow> (HOutInt64 r, db))"
| "hash_exec key (OpHIncrBy f d) db = (case HIncrBy key f d db of (r, db) \<Rightarrow> (HOutInt64 r, db))"
| "hash_exec key OpHLen db = (HOutInt64 (HLen key db), db)"
| "hash_exec key OpHKeyExists db = (HOutInt (HKeyExists key db), db)"
| "hash_exec key OpHGetAll db = (HOutPairs (HGetAll key db), db)"
| "hash_exec key OpHKeys db = (HOutList (HKeys key db), db)"
| "hash_exec key OpHValues db = (HOutList (HValues key db), db)"
| "hash_exec key OpHClear db = (case HClear key db of (r, db) \<Rightarrow> (HOutInt r, db))"

text \<open>The abstract hash.\<close>

fun map_step :: "hash_op \<Rightarrow> (bytes \<rightharpoonup> bytes) \<Rightarrow> hash_out \<times> (bytes \<rightharpoonup> bytes)" where
  "map_step (OpHSet f v) m = (HOutInt (Inr (if m f = None then 1 else 0)), m(f \<mapsto> v))"
| "map_step (OpHGet f) m = (HOutValue (Inr (m f)), m)"
| "map_step (OpHMset args) m = (HOutUnit (Inr ()), m ++ map_of args)"
| "map_step (OpHMget fs) m = (HOutValues (Inr (map m fs)), m)"
| "map_step (OpHDel fs) m = (HOutInt64 (Inr (word_of_nat (old_items m fs))), m |` (- set fs))"
| "map_step (OpHIncrBy f d) m =
     (case StrInt64 (Inr (m f)) of
        Inl e \<Rightarrow> (HOutInt64 (Inl e), m)
      | Inr n \<Rightarrow> (HOutInt64 (Inr (n + d)), m(f \<mapsto> FormatInt64ToSlice (n + d))))"
| "map_step OpHLen m = (HOutInt64 (Inr (word_of_nat (card (dom m)))), m)"
| "map_step OpHKeyExists m = (HOutInt (Inr (if dom m = {} then 0 else 1)), m)"
| "map_step OpHGetAll m = (HOutPairs (Inr (map_entries m)), m)"
| "map_step OpHKeys m = (HOutList (Inr (sorted_list_of_set (dom m))), m)"
| "map_step OpHValues m = (HOutList (Inr (map snd (map_entries m))), m)"
| "map_step OpHClear m = (HOutInt (Inr (int (card (dom m)))), Map.empty)"

text \<open>Commands within the size limits that name no field twice in one write.\<close>

fun hash_op_ok :: "hash_op \<Rightarrow> bool" where
  "hash_op_ok (OpHSet f v) \<longleftrightarrow> fv_ok (f, v)"
| "hash_op_ok (OpHGet f) \<longleftrightarrow> field_ok f"
| "hash_op_ok (OpHMset args) \<longleftrightarrow> list_all fv_ok args \<and> distinct (map fst args)"
| "hash_op_ok (OpHMget fs) \<longleftrightarrow> list_all field_ok fs"
| "hash_op_ok (OpHDel fs) \<longleftrightarrow> list_all field_ok fs \<and> distinct fs"
| "hash_op_ok (OpHIncrBy f d) \<longleftrightarrow> field_ok f"
| "hash_op_ok _ \<longleftrightarrow> True"

fun op_fields :: "hash_op \<Rightarrow> nat" where
  "op_fields (OpHSet f v) = 1"
| "op_fields (OpHMset args) = length args"
| "op_fields (OpHIncrBy f d) = 1"
| "op_fields _ = 0"

definition max_fields :: nat where "max_fields = 2 ^ 63 - 1"

definition hash_rel :: "bytes \<Rightarrow> nat \<Rightarrow> DB \<Rightarrow> (bytes \<rightharpoonup> bytes) \<Rightarrow> bool" where
  "hash_rel key n db m \<longleftrightarrow> key_size_ok key \<and> standalone db \<and> db_ok db \<and> hash_at db key m \<and> card (dom m) \<le> n"

lemma hash_exec_acts: "db_ok db \<Longrightarrow> acts HashType {key} db (snd (hash_exec key c db))"
  using HSet_acts HMset_acts HDel_acts HIncrBy_acts HClear_acts
  by (cases c) (auto split: prod.splits intro: acts.none simp: case_prod_beta)

lemma map_step_card:
  assumes "finite (dom m)"
  shows "card (dom (snd (map_step c m))) \<le> card (dom m) + op_fields c"
proof (cases c)
  case (OpHMset args)
  have "card (set (map fst args)) \<le> length args"
    using card_length [of "map fst args"] by simp
  then show ?thesis
    using card_Un_le [of "fst ` set args" "dom m"] OpHMset by (simp add: dom_map_of_conv_image_fst)
next
  case (OpHDel fs)
  then show ?thesis
    using card_mono [OF assms, of "dom m \<inter> - set fs"] by simp
qed (use assms in \<open>auto simp: card_insert_if split: sum.split\<close>)

lemma hash_exec_ok:
  assumes "standalone db" "db_ok db" "key_size_ok key" "hash_at db key m" "hash_op_ok c"
    and "card (dom m) + op_fields c < 2 ^ 63"
  shows "\<exists>db'. hash_exec key c db = (fst (map_step c m), db') \<and> hash_at db' key (snd (map_step c m))"
proof -
  note w = standalone_writable [OF assms(1)] and k = db_ok_kv_ok [OF assms(2)]
  show ?thesis
  proof (cases c)
    case (OpHSet f v)
    then show ?thesis
      using HSet_ok [OF w assms(4,3), of f v] assms(5,6) by (auto simp: fv_ok_def)
  next
    case (OpHMset args)
    then show ?thesis
      using HMset_ok [OF w assms(4,3), of args] assms(5,6) by auto
  next
    case (OpHDel fs)
    then show ?thesis
      using HDel_ok [OF w k assms(4,3), of fs] assms(5) by auto
  next
    case (OpHIncrBy f d)
    then show ?thesis
      using HIncrBy_ok [OF w assms(4,3), of f _ d] HIncrBy_error [OF assms(4,3), of f _ d] assms(4,5,6)
      by (cases "StrInt64 (Inr (m f))") auto
  next
    case OpHClear
    then show ?thesis
      using HClear_ok [OF w k assms(4,3)] by auto
  qed (use assms k in \<open>auto simp: HGet_ok HMget_ok HLen_ok HKeyExists_ok HGetAll_ok\<close>)
qed

interpretation fmap: step_refinement "hash_exec key" map_step "hash_rel key" hash_op_ok op_fields max_fields
  for key
proof
  fix n db m c
  assume r: "hash_rel key n db m" "hash_op_ok c" and n: "n + op_fields c \<le> max_fields"
  then have h: "standalone db" "db_ok db" "key_size_ok key" "hash_at db key m" "card (dom m) \<le> n"
    by (simp_all add: hash_rel_def)
  have "card (dom m) + op_fields c < 2 ^ 63"
    using h(5) n by (simp add: max_fields_def)
  from hash_exec_ok [OF h(1-4) r(2) this] obtain db' where e:
      "hash_exec key c db = (fst (map_step c m), db')" "hash_at db' key (snd (map_step c m))"
    by blast
  moreover have "acts HashType {key} db db'"
    using hash_exec_acts [OF h(2), of key c] e(1) by simp
  moreover have "card (dom (snd (map_step c m))) \<le> n + op_fields c"
    using map_step_card [of m c] h(4,5) by (simp add: coll_at_def)
  ultimately show "\<exists>db'. hash_exec key c db = (fst (map_step c m), db') \<and>
      hash_rel key (n + op_fields c) db' (snd (map_step c m))"
    using standalone_acts acts_db_ok h by (auto simp: hash_rel_def)
qed

lemma demo_hash_at [simp]: "hash_at demo_db key Map.empty"
  by (simp add: coll_at_def size_entry_def)

lemma field_ok_small [simp]: "field_ok [a]" "field_ok [a, b]"
  by (simp_all add: field_ok_def MaxHashFieldSize_def)

text \<open>
  C4: Any sequence of \<open>HSet\<close>, \<open>HGet\<close>, \<open>HMset\<close>, \<open>HMget\<close>, \<open>HDel\<close>, \<open>HIncrBy\<close>, \<open>HLen\<close>, \<open>HKeyExists\<close>,
  \<open>HGetAll\<close>, \<open>HKeys\<close>, \<open>HValues\<close> and \<open>HClear\<close> on a hash answers what the operations of a finite map
  answer: new fields are counted, the fields and their values are listed in ascending order of
  the fields, and increments of a value that is no number are refused. Side conditions: the
  database is writable and has no replication, fields and values are within the size limits,
  no \<open>HMset\<close> or \<open>HDel\<close> names a field twice (which miscounts), and
  fewer than \<open>2 ^ 63\<close> fields are set.
\<close>

theorem hash_is_map:
  assumes "db_ok db" "standalone db" "key_size_ok key" "hash_at db key m" "list_all hash_op_ok cs"
    and "card (dom m) + sum_list (map op_fields cs) < 2 ^ 63"
  shows "\<exists>db'. run (hash_exec key) cs db = (fst (run map_step cs m), db') \<and>
    hash_at db' key (snd (run map_step cs m))"
  using fmap.run_refines [of key "card (dom m)" db m cs] assms
  by (auto simp: hash_rel_def max_fields_def)

theorem hash_is_map_witness:
  "\<exists>db'. run (hash_exec [7]) [OpHMset [([1], [5]), ([2], [6])], OpHIncrBy [3] 4, OpHIncrBy [3] (-6), OpHSet [1] [6],
       OpHDel [[1], [4]], OpHMget [[1], [2], [3]], OpHLen] demo_db =
     ([HOutUnit (Inr ()), HOutInt64 (Inr 4), HOutInt64 (Inr (-2)), HOutInt (Inr 0), HOutInt64 (Inr 1),
       HOutValues (Inr [None, Some [6], Some (FormatInt64ToSlice (-2))]), HOutInt64 (Inr 2)], db')"
proof -
  let ?cs = "[OpHMset [([1], [5]), ([2], [6])], OpHIncrBy [3] 4, OpHIncrBy [3] (-6), OpHSet [1] [6],
       OpHDel [[1], [4]], OpHMget [[1], [2], [3]], OpHLen] :: hash_op list"
  have "dom (snd (run map_step (butlast ?cs) Map.empty)) = {[2], [3]}"
    by (auto simp: StrInt64_def split: if_splits)
  then have "fst (run map_step ?cs Map.empty) = [HOutUnit (Inr ()), HOutInt64 (Inr 4), HOutInt64 (Inr (-2)),
      HOutInt (Inr 0), HOutInt64 (Inr 1), HOutValues (Inr [None, Some [6], Some (FormatInt64ToSlice (-2))]),
      HOutInt64 (Inr 2)]"
    by (simp add: old_items_def StrInt64_def)
  moreover have "list_all hash_op_ok ?cs"
    by (simp add: fv_ok_def MaxValueSize_def)
  ultimately show ?thesis
    using hash_is_map [of demo_db "[7]" Map.empty ?cs] by auto
qed

text \<open>
  C26: \<open>HMset\<close> and \<open>HDel\<close> look every field up in the state before the operation, so a field that is
  named twice counts twice: the last value wins, but a new field adds to \<open>HLen\<close> as often as
  it is named, and a field that is deleted is subtracted as often. In a hash of two fields,
  deleting one of them by naming it twice leaves the other one behind in a hash that has length
  \<open>0\<close> and does not exist.
\<close>

theorem hash_duplicate_fields:
  assumes "db_ok db" "writable db" "key_size_ok key" "hash_at db key m"
    and "list_all fv_ok args" "card (dom m) + new_items m (map fst args) < 2 ^ 63"
    and "list_all field_ok fs" "old_items m fs \<le> card (dom m)" "field_ok g"
  shows "(\<exists>db'. HMset key args db = (Inr (), db') \<and> HGet key g db' = Inr ((m ++ map_of (rev args)) g) \<and>
      HLen key db' = Inr (word_of_nat (card (dom m) + new_items m (map fst args)))) \<and>
    (\<exists>db'. HDel key fs db = (Inr (word_of_nat (old_items m fs)), db') \<and>
      HGet key g db' = Inr (if g \<in> set fs then None else m g) \<and>
      HLen key db' = Inr (word_of_nat (card (dom m) - old_items m fs)) \<and>
      HKeyExists key db' = Inr (if old_items m fs = card (dom m) then 0 else 1))"
proof (intro conjI)
  obtain db' where d: "HMset key args db = (Inr (), db')" "indexVarBuf db' = indexVarBuf db"
      "contents db' (hitem db key g) = (m ++ map_of (rev args)) g"
      "contents db' (hsize db key) = size_entry (card (dom m) + new_items m (map fst args))"
    using HMset_effect [OF assms(2,4,3,5) refl assms(6)] by auto
  show "\<exists>db'. HMset key args db = (Inr (), db') \<and> HGet key g db' = Inr ((m ++ map_of (rev args)) g) \<and>
      HLen key db' = Inr (word_of_nat (card (dom m) + new_items m (map fst args)))"
    by (rule exI [of _ db']) (use d assms(3,9) in \<open>simp add: HGet_def HLen_def del: of_nat_add\<close>)
next
  have n: "(card (dom m) - old_items m fs) + old_items m fs = card (dom m)"
    using assms(8) by simp
  obtain db' where d: "HDel key fs db = (Inr (word_of_nat (old_items m fs)), db')" "indexVarBuf db' = indexVarBuf db"
      "contents db' (hitem db key g) = (m |` (- set fs)) g"
      "contents db' (hsize db key) = size_entry (card (dom m) - old_items m fs)"
    using HDel_effect [OF assms(2) db_ok_kv_ok [OF assms(1)] assms(4,3,7) n] by auto
  show "\<exists>db'. HDel key fs db = (Inr (word_of_nat (old_items m fs)), db') \<and>
      HGet key g db' = Inr (if g \<in> set fs then None else m g) \<and>
      HLen key db' = Inr (word_of_nat (card (dom m) - old_items m fs)) \<and>
      HKeyExists key db' = Inr (if old_items m fs = card (dom m) then 0 else 1)"
    by (rule exI [of _ db'])
       (use d assms(3,8,9) in \<open>simp add: HGet_def HLen_def HKeyExists_def size_entry_def del: of_nat_diff\<close>)
qed

theorem hash_duplicate_fields_witness:
  "\<exists>db db'. HMset [7] [([1], [5]), ([2], [6])] demo_db = (Inr (), db) \<and> HDel [7] [[1], [1]] db = (Inr 2, db') \<and>
     HGet [7] [2] db' = Inr (Some [6]) \<and> HLen [7] db' = Inr 0 \<and> HKeyExists [7] db' = Inr 0"
proof -
  let ?m = "[[1] \<mapsto> [5], [2] \<mapsto> [6]] :: bytes \<rightharpoonup> bytes"
  obtain db where db: "HMset [7] [([1], [5]), ([2], [6])] demo_db = (Inr (), db)" "hash_at db [7] ?m"
    using HMset_ok [of demo_db "[7]" Map.empty "[([1], [5]), ([2], [6])]"]
    by (auto simp: fv_ok_def MaxValueSize_def fun_upd_twist)
  have "acts HashType {[7]} demo_db db"
    using HMset_acts [of "[7]" demo_db "[([1], [5]), ([2], [6])]"] db(1) by simp
  then have "db_ok db" "writable db"
    using acts_db_ok standalone_acts by (auto intro!: standalone_writable)
  moreover have "old_items ?m [[1], [1]] = 2" "card (dom ?m) = 2"
    by (simp_all add: old_items_def)
  ultimately show ?thesis
    using hash_duplicate_fields [OF _ _ _ db(2), of "[]" "[[1], [1]]" "[2]"] db(1)
    by (simp add: new_items_def)
qed

end
