(* ===== verification/Ledis_Set.thy ===== *)
theory Ledis_Set
  imports Ledis_KV
begin

text \<open>
  Sets, \<open>ledis/t_set.go\<close>. The members of a set are entries of their own with an empty value; a
  further entry holds their number. Union, difference and intersection collect the members in a
  Go map and return its keys in the order of the iteration over the map, which Go leaves open:
  the operations take this order as the parameter \<open>ord\<close>, a function that permutes the keys.
\<close>

definition UnionType :: byte where "UnionType = 51"
definition DiffType :: byte where "DiffType = 52"
definition InterType :: byte where "InterType = 53"

definition sDelete :: "DB \<Rightarrow> wop list \<Rightarrow> bytes \<Rightarrow> int \<times> wop list" where
  "sDelete db t key =
     (let p = indexVarBuf db;
          es = rli_run (db_RangeLimitIterator db (Some (sEncodeStartKey p key))
                 (Some (sEncodeStopKey p key)) RangeROpen 0 (-1))
      in (int (length es), wb_Delete (sEncodeSizeKey p key) (fold (\<lambda>e. wb_Delete (fst e)) es t)))"

definition sIncrSize :: "DB \<Rightarrow> bytes \<Rightarrow> i64 \<Rightarrow> wop list \<Rightarrow> (i64 \<times> wop list) res" where
  "sIncrSize db key delta t =
     (let sk = sEncodeSizeKey (indexVarBuf db) key in
      case Int64 (bucket_Get db sk) of
        Inl e \<Rightarrow> Inl e
      | Inr sz \<Rightarrow>
          let sz = sz + delta in
          if sint sz \<le> 0 then Inr (0, snd (rmExpire db (wb_Delete sk t) SetType key))
          else Inr (sz, wb_Put sk (PutInt64 sz) t))"

definition SCard :: "bytes \<Rightarrow> DB \<Rightarrow> i64 res" where
  "SCard key db =
     (case checkKeySize key of
        Inl e \<Rightarrow> Inl e
      | Inr u \<Rightarrow> Int64 (bucket_Get db (sEncodeSizeKey (indexVarBuf db) key)))"

definition sExpireAt :: "bytes \<Rightarrow> i64 \<Rightarrow> DB \<Rightarrow> int res \<times> DB" where
  "sExpireAt key when db =
     (case SCard key db of
        Inl e \<Rightarrow> (Inl e, db)
      | Inr scnt \<Rightarrow>
          if scnt = 0 then (Inr 0, db)
          else (case expireAt db [] SetType key when of (t, db) \<Rightarrow> commit_ret t 1 db))"

definition sSetItem :: "DB \<Rightarrow> bytes \<Rightarrow> bytes \<Rightarrow> wop list \<Rightarrow> (int \<times> wop list) res" where
  "sSetItem db key member t =
     (let ek = sEncodeSetKey (indexVarBuf db) key member in
      case bucket_Get db ek of
        Inr (Some _) \<Rightarrow> Inr (0, wb_Put ek [] t)
      | _ \<Rightarrow>
          (case sIncrSize db key 1 t of
             Inl e \<Rightarrow> Inl e
           | Inr (_, t) \<Rightarrow> Inr (1, wb_Put ek [] t)))"

fun SAdd_loop :: "DB \<Rightarrow> bytes \<Rightarrow> bytes list \<Rightarrow> i64 \<Rightarrow> wop list \<Rightarrow> (i64 \<times> wop list) res" where
  "SAdd_loop db key [] num t = Inr (num, t)"
| "SAdd_loop db key (member # args) num t =
     (case checkSetKMSize key member of
        Inl e \<Rightarrow> Inl e
      | Inr u \<Rightarrow>
          let ek = sEncodeSetKey (indexVarBuf db) key member in
          case bucket_Get db ek of
            Inl e \<Rightarrow> Inl e
          | Inr v \<Rightarrow> SAdd_loop db key args (if v = None then num + 1 else num) (wb_Put ek [] t))"

definition SAdd :: "bytes \<Rightarrow> bytes list \<Rightarrow> DB \<Rightarrow> i64 res \<times> DB" where
  "SAdd key args db =
     (case SAdd_loop db key args 0 [] of
        Inl e \<Rightarrow> (Inl e, db)
      | Inr (num, t) \<Rightarrow>
          (case sIncrSize db key num t of
             Inl e \<Rightarrow> (Inl e, db)
           | Inr (_, t) \<Rightarrow> commit_ret t num db))"

definition SKeyExists :: "bytes \<Rightarrow> DB \<Rightarrow> int res" where
  "SKeyExists key db =
     (case checkKeySize key of
        Inl e \<Rightarrow> Inl e
      | Inr u \<Rightarrow>
          (case bucket_Get db (sEncodeSizeKey (indexVarBuf db) key) of
             Inr (Some v) \<Rightarrow> Inr 1
           | Inr None \<Rightarrow> Inr 0
           | Inl e \<Rightarrow> Inl e))"

definition SIsMember :: "bytes \<Rightarrow> bytes \<Rightarrow> DB \<Rightarrow> int res" where
  "SIsMember key member db =
     (case bucket_Get db (sEncodeSetKey (indexVarBuf db) key member) of
        Inl e \<Rightarrow> Inl e
      | Inr None \<Rightarrow> Inr 0
      | Inr (Some v) \<Rightarrow> Inr 1)"

fun sCollect :: "bytes \<Rightarrow> (bytes \<times> bytes) list \<Rightarrow> bytes list res" where
  "sCollect p [] = Inr []"
| "sCollect p ((k, v) # es) =
     (case sDecodeSetKey p k of
        Inl e \<Rightarrow> Inl e
      | Inr (_, m) \<Rightarrow> (case sCollect p es of Inl e \<Rightarrow> Inl e | Inr ms \<Rightarrow> Inr (m # ms)))"

definition SMembers :: "bytes \<Rightarrow> DB \<Rightarrow> bytes list res" where
  "SMembers key db =
     (case checkKeySize key of
        Inl e \<Rightarrow> Inl e
      | Inr u \<Rightarrow>
          sCollect (indexVarBuf db)
            (rli_run (db_RangeLimitIterator db (Some (sEncodeStartKey (indexVarBuf db) key))
               (Some (sEncodeStopKey (indexVarBuf db) key)) RangeROpen 0 (-1))))"

fun SRem_loop :: "bytes \<Rightarrow> bytes \<Rightarrow> bytes list \<Rightarrow> Iterator \<Rightarrow> i64 \<Rightarrow> wop list \<Rightarrow> (i64 \<times> wop list) res" where
  "SRem_loop p key [] it num t = Inr (num, t)"
| "SRem_loop p key (member # args) it num t =
     (case checkSetKMSize key member of
        Inl e \<Rightarrow> Inl e
      | Inr u \<Rightarrow>
          let ek = sEncodeSetKey p key member in
          case it_Find ek it of
            (None, it) \<Rightarrow> SRem_loop p key args it num t
          | (Some v, it) \<Rightarrow> SRem_loop p key args it (num + 1) (wb_Delete ek t))"

definition SRem :: "bytes \<Rightarrow> bytes list \<Rightarrow> DB \<Rightarrow> i64 res \<times> DB" where
  "SRem key args db =
     (case SRem_loop (indexVarBuf db) key args (NewIterator (ldb db)) 0 [] of
        Inl e \<Rightarrow> (Inl e, db)
      | Inr (num, t) \<Rightarrow>
          (case sIncrSize db key (- num) t of
             Inl e \<Rightarrow> (Inl e, db)
           | Inr (_, t) \<Rightarrow> commit_ret t num db))"

text \<open>
  The Go map of the members collected so far is the list of its keys, each once: all its values
  are \<open>true\<close>.
\<close>

definition map_insert :: "bytes list \<Rightarrow> bytes list \<Rightarrow> bytes list" where
  "map_insert ms dest = fold List.insert ms dest"

definition map_delete :: "bytes list \<Rightarrow> bytes list \<Rightarrow> bytes list" where
  "map_delete ms dest = fold removeAll ms dest"

fun sDiff_loop :: "DB \<Rightarrow> bytes list \<Rightarrow> bytes list \<Rightarrow> bytes list res" where
  "sDiff_loop db [] dest = Inr dest"
| "sDiff_loop db (k # ks) dest =
     (case SMembers k db of
        Inl e \<Rightarrow> Inl e
      | Inr ms \<Rightarrow>
          let dest = map_delete ms dest in
          if dest = [] then Inr [] else sDiff_loop db ks dest)"

definition sDiffGeneric :: "(bytes list \<Rightarrow> bytes list) \<Rightarrow> bytes list \<Rightarrow> DB \<Rightarrow> bytes list res" where
  "sDiffGeneric ord keys db =
     (case keys of
        [] \<Rightarrow> Inl GoPanic
      | k # ks \<Rightarrow>
          (case SMembers k db of
             Inl e \<Rightarrow> Inl e
           | Inr ms \<Rightarrow>
               (case sDiff_loop db ks (map_insert ms []) of Inl e \<Rightarrow> Inl e | Inr dest \<Rightarrow> Inr (ord dest))))"

definition SDiff :: "(bytes list \<Rightarrow> bytes list) \<Rightarrow> bytes list \<Rightarrow> DB \<Rightarrow> bytes list res" where
  "SDiff ord keys db = sDiffGeneric ord keys db"

fun sInter_mark :: "bytes list \<Rightarrow> bytes list \<Rightarrow> bytes list \<Rightarrow> bytes list res" where
  "sInter_mark dest [] temp = Inr temp"
| "sInter_mark dest (m # ms) temp =
     (case checkKeySize m of
        Inl e \<Rightarrow> Inl e
      | Inr u \<Rightarrow> sInter_mark dest ms (if m \<in> set dest then List.insert m temp else temp))"

fun sInter_loop :: "DB \<Rightarrow> bytes list \<Rightarrow> bytes list \<Rightarrow> bytes list res" where
  "sInter_loop db [] dest = Inr dest"
| "sInter_loop db (k # ks) dest =
     (case checkKeySize k of
        Inl e \<Rightarrow> Inl e
      | Inr u \<Rightarrow>
          (case SMembers k db of
             Inl e \<Rightarrow> Inl e
           | Inr ms \<Rightarrow>
               if ms = [] then Inr []
               else (case sInter_mark dest ms [] of
                       Inl e \<Rightarrow> Inl e
                     | Inr temp \<Rightarrow> if temp = [] then Inr [] else sInter_loop db ks temp)))"

definition sInterGeneric :: "(bytes list \<Rightarrow> bytes list) \<Rightarrow> bytes list \<Rightarrow> DB \<Rightarrow> bytes list res" where
  "sInterGeneric ord keys db =
     (case keys of
        [] \<Rightarrow> Inl GoPanic
      | k # ks \<Rightarrow>
          (case SMembers k db of
             Inl e \<Rightarrow> Inl e
           | Inr ms \<Rightarrow>
               (case sInter_loop db ks (map_insert ms []) of Inl e \<Rightarrow> Inl e | Inr dest \<Rightarrow> Inr (ord dest))))"

definition SInter :: "(bytes list \<Rightarrow> bytes list) \<Rightarrow> bytes list \<Rightarrow> DB \<Rightarrow> bytes list res" where
  "SInter ord keys db = sInterGeneric ord keys db"

fun sUnion_loop :: "DB \<Rightarrow> bytes list \<Rightarrow> bytes list \<Rightarrow> bytes list res" where
  "sUnion_loop db [] dest = Inr dest"
| "sUnion_loop db (k # ks) dest =
     (case checkKeySize k of
        Inl e \<Rightarrow> Inl e
      | Inr u \<Rightarrow>
          (case SMembers k db of Inl e \<Rightarrow> Inl e | Inr ms \<Rightarrow> sUnion_loop db ks (map_insert ms dest)))"

definition sUnionGeneric :: "(bytes list \<Rightarrow> bytes list) \<Rightarrow> bytes list \<Rightarrow> DB \<Rightarrow> bytes list res" where
  "sUnionGeneric ord keys db =
     (case sUnion_loop db keys [] of Inl e \<Rightarrow> Inl e | Inr dest \<Rightarrow> Inr (ord dest))"

definition SUnion :: "(bytes list \<Rightarrow> bytes list) \<Rightarrow> bytes list \<Rightarrow> DB \<Rightarrow> bytes list res" where
  "SUnion ord keys db = sUnionGeneric ord keys db"

text \<open>The result is stored under the destination, whose old members go with the same batch.\<close>

fun sStore_loop :: "DB \<Rightarrow> bytes \<Rightarrow> bytes list \<Rightarrow> wop list \<Rightarrow> wop list res" where
  "sStore_loop db dstKey [] t = Inr t"
| "sStore_loop db dstKey (m # ms) t =
     (case checkSetKMSize dstKey m of
        Inl e \<Rightarrow> Inl e
      | Inr u \<Rightarrow>
          let ek = sEncodeSetKey (indexVarBuf db) dstKey m in
          case bucket_Get db ek of
            Inl e \<Rightarrow> Inl e
          | Inr _ \<Rightarrow> sStore_loop db dstKey ms (wb_Put ek [] t))"

definition sStoreGeneric ::
  "(bytes list \<Rightarrow> bytes list) \<Rightarrow> bytes \<Rightarrow> byte \<Rightarrow> bytes list \<Rightarrow> DB \<Rightarrow> i64 res \<times> DB" where
  "sStoreGeneric ord dstKey optType keys db =
     (case checkKeySize dstKey of
        Inl e \<Rightarrow> (Inl e, db)
      | Inr u \<Rightarrow>
          let t = snd (sDelete db [] dstKey);
              r = (if optType = UnionType then sUnionGeneric ord keys db
                   else if optType = DiffType then sDiffGeneric ord keys db
                   else if optType = InterType then sInterGeneric ord keys db
                   else Inr [])
          in case r of
               Inl e \<Rightarrow> (Inl e, db)
             | Inr v \<Rightarrow>
                 (case sStore_loop db dstKey v t of
                    Inl e \<Rightarrow> (Inl e, db)
                  | Inr t \<Rightarrow>
                      let n = word_of_nat (length v) in
                      commit_ret (wb_Put (sEncodeSizeKey (indexVarBuf db) dstKey) (PutInt64 n) t) n db))"

definition SDiffStore :: "(bytes list \<Rightarrow> bytes list) \<Rightarrow> bytes \<Rightarrow> bytes list \<Rightarrow> DB \<Rightarrow> i64 res \<times> DB" where
  "SDiffStore ord dstKey keys db = sStoreGeneric ord dstKey DiffType keys db"

definition SInterStore :: "(bytes list \<Rightarrow> bytes list) \<Rightarrow> bytes \<Rightarrow> bytes list \<Rightarrow> DB \<Rightarrow> i64 res \<times> DB" where
  "SInterStore ord dstKey keys db = sStoreGeneric ord dstKey InterType keys db"

definition SUnionStore :: "(bytes list \<Rightarrow> bytes list) \<Rightarrow> bytes \<Rightarrow> bytes list \<Rightarrow> DB \<Rightarrow> i64 res \<times> DB" where
  "SUnionStore ord dstKey keys db = sStoreGeneric ord dstKey UnionType keys db"

definition SClear :: "bytes \<Rightarrow> DB \<Rightarrow> int res \<times> DB" where
  "SClear key db =
     (case checkKeySize key of
        Inl e \<Rightarrow> (Inl e, db)
      | Inr u \<Rightarrow>
          (case sDelete db [] key of
             (num, t) \<Rightarrow> commit_ret (snd (rmExpire db t SetType key)) num db))"

fun SMclear_loop :: "DB \<Rightarrow> bytes list \<Rightarrow> wop list \<Rightarrow> wop list res" where
  "SMclear_loop db [] t = Inr t"
| "SMclear_loop db (key # keys) t =
     (case checkKeySize key of
        Inl e \<Rightarrow> Inl e
      | Inr u \<Rightarrow> SMclear_loop db keys (snd (rmExpire db (snd (sDelete db t key)) SetType key)))"

definition SMclear :: "bytes list \<Rightarrow> DB \<Rightarrow> int res \<times> DB" where
  "SMclear keys db =
     (case SMclear_loop db keys [] of
        Inl e \<Rightarrow> (Inl e, db)
      | Inr t \<Rightarrow> commit_ret t (int (length keys)) db)"

definition SExpire :: "bytes \<Rightarrow> i64 \<Rightarrow> DB \<Rightarrow> int res \<times> DB" where
  "SExpire key duration db =
     (if sint duration \<le> 0 then (Inl ErrExpireValue, db)
      else sExpireAt key (now db + duration) db)"

definition SExpireAt :: "bytes \<Rightarrow> i64 \<Rightarrow> DB \<Rightarrow> int res \<times> DB" where
  "SExpireAt key when db =
     (if sint when \<le> sint (now db) then (Inl ErrExpireValue, db) else sExpireAt key when db)"

definition STTL :: "bytes \<Rightarrow> DB \<Rightarrow> i64 res" where
  "STTL key db = (case checkKeySize key of Inl e \<Rightarrow> Inl e | Inr u \<Rightarrow> ttl db SetType key)"

definition SPersist :: "bytes \<Rightarrow> DB \<Rightarrow> i64 res \<times> DB" where
  "SPersist key db =
     (case checkKeySize key of
        Inl e \<Rightarrow> (Inl e, db)
      | Inr u \<Rightarrow>
          (case rmExpire db [] SetType key of
             (Inl e, t) \<Rightarrow> (Inl e, db)
           | (Inr n, t) \<Rightarrow> commit_ret t n db))"

end
