(* ===== verification/Ledis_Set_Laws.thy ===== *)
theory Ledis_Set_Laws
  imports Ledis_Collection Ledis_Set
begin

text \<open>
  What the set operations do: the entries of a key represent a finite set of members (\<open>set_at\<close>),
  and every operation is the one of the set.
\<close>

lemma set_keys_neq:
  "sEncodeSizeKey p k \<noteq> sEncodeSetKey p k' f"
  "expEncodeMetaKey p dt k \<noteq> sEncodeSizeKey p k'" "expEncodeTimeKey p dt k w \<noteq> sEncodeSizeKey p k'"
  "expEncodeMetaKey p dt k \<noteq> sEncodeSetKey p k' f" "expEncodeTimeKey p dt k w \<noteq> sEncodeSetKey p k' f"
  by (auto simp: encoder_defs type_defs)

interpretation sets: sized_collection SetType sEncodeSizeKey sEncodeSetKey sEncodeStartKey
  sEncodeStopKey sIncrSize
  by unfold_locales
     (simp_all add: item_key_less set_range set_keys_neq sIncrSize_def Let_def split: sum.split)

definition mem_map :: "bytes set \<Rightarrow> bytes \<rightharpoonup> bytes" where
  "mem_map A x = (if x \<in> A then Some [] else None)"

lemma mem_map_dom [simp]: "dom (mem_map A) = A"
  by (auto simp: mem_map_def split: if_splits)

lemma mem_map_None [simp]: "mem_map A x = None \<longleftrightarrow> x \<notin> A"
  by (simp add: mem_map_def)

abbreviation sets_at :: "DB \<Rightarrow> bytes \<Rightarrow> (bytes \<rightharpoonup> bytes) \<Rightarrow> bool" where
  "sets_at \<equiv> coll_at sEncodeSizeKey sEncodeSetKey"

abbreviation set_at :: "DB \<Rightarrow> bytes \<Rightarrow> bytes set \<Rightarrow> bool" where
  "set_at db key A \<equiv> sets_at db key (mem_map A)"

abbreviation sitem :: "DB \<Rightarrow> bytes \<Rightarrow> bytes \<Rightarrow> bytes" where
  "sitem db key f \<equiv> sEncodeSetKey (indexVarBuf db) key f"

abbreviation ssize :: "DB \<Rightarrow> bytes \<Rightarrow> bytes" where
  "ssize db key \<equiv> sEncodeSizeKey (indexVarBuf db) key"

definition member_ok :: "bytes \<Rightarrow> bool" where
  "member_ok x \<longleftrightarrow> 0 < length x \<and> length x \<le> MaxSetMemberSize"

lemma checkSetKMSize_ok [simp]: "key_size_ok key \<Longrightarrow> member_ok x \<Longrightarrow> checkSetKMSize key x = Inr ()"
  by (simp add: checkSetKMSize_def key_size_ok_def member_ok_def)

lemma checkSetKMSize_key16: "checkSetKMSize key x = Inr u \<Longrightarrow> key16 key"
  by (auto simp: checkSetKMSize_def key16_def MaxKeySize_def split: if_splits)

lemma member_key_size [simp]: "member_ok x \<Longrightarrow> key_size_ok x"
  by (simp add: member_ok_def key_size_ok_def MaxKeySize_def MaxSetMemberSize_def)

lemma sets_at_get: "sets_at db key m \<Longrightarrow> contents db (sitem db key f) = m f"
  by (simp add: coll_at_def)

lemma set_at_finite: "set_at db key A \<Longrightarrow> finite A"
  by (simp add: coll_at_def)

section \<open>Reading\<close>

lemma SIsMember_ok: "set_at db key A \<Longrightarrow> SIsMember key x db = Inr (if x \<in> A then 1 else 0)"
  by (simp add: SIsMember_def sets_at_get mem_map_def)

lemma SCard_ok: "set_at db key A \<Longrightarrow> key_size_ok key \<Longrightarrow> SCard key db = Inr (word_of_nat (card A))"
  by (simp add: SCard_def coll_at_def)

lemma SKeyExists_ok:
  "set_at db key A \<Longrightarrow> key_size_ok key \<Longrightarrow> SKeyExists key db = Inr (if A = {} then 0 else 1)"
  by (simp add: SKeyExists_def coll_at_def size_entry_def)

lemma sCollect_ok:
  "key16 key \<Longrightarrow> sCollect p (map (\<lambda>(f, v). (sEncodeSetKey p key f, v)) es) = Inr (map fst es)"
  by (induction es) auto

lemma SMembers_ok:
  assumes "kv_ok (ldb db)" "set_at db key A" "key_size_ok key"
  shows "SMembers key db = Inr (sorted_list_of_set A)"
  using assms by (simp add: SMembers_def sets.range_query sCollect_ok map_entries_keys)

section \<open>Writing\<close>

lemma SAdd_loop_ok:
  assumes "set_at db key A" "key_size_ok key" "list_all member_ok args"
  shows "SAdd_loop db key args n t = Inr (n + word_of_nat (new_items (mem_map A) args),
    t @ map (\<lambda>(f, v). WPut (sitem db key f) v) (map (\<lambda>x. (x, [])) args))"
  using assms(3)
proof (induction args arbitrary: n t)
  case (Cons a args)
  then show ?case
    using assms(1,2) by (simp add: new_items_def sets_at_get Let_def)
qed (simp add: new_items_def)

lemma map_of_members: "map_of (rev (map (\<lambda>x. (x, [])) args)) = mem_map (set args)"
proof -
  have "map_of (map (\<lambda>x. (x, [])) xs) = mem_map (set xs)" for xs
    by (induction xs) (auto simp: mem_map_def)
  from this [of "rev args"] show ?thesis
    by (simp add: rev_map)
qed

lemma mem_map_add: "mem_map A ++ mem_map B = mem_map (A \<union> B)"
  by (auto simp: mem_map_def map_add_def split: option.splits)

lemma SAdd_effect:
  assumes "writable db" "set_at db key A" "key_size_ok key" "list_all member_ok args"
    and n: "n = card A + new_items (mem_map A) args" "n < 2 ^ 63"
  shows "\<exists>db'. SAdd key args db = (Inr (word_of_nat (new_items (mem_map A) args)), db') \<and>
    indexVarBuf db' = indexVarBuf db \<and>
    (\<forall>f. contents db' (sitem db key f) = mem_map (A \<union> set args) f) \<and> contents db' (ssize db key) = size_entry n"
proof -
  let ?xs = "map (\<lambda>x. (x, [])) args :: (bytes \<times> bytes) list"
  let ?t = "map (\<lambda>(f, v). WPut (sitem db key f) v) ?xs"
  obtain u where u: "sIncrSize db key (word_of_nat (new_items (mem_map A) args)) ?t = Inr (word_of_nat n, ?t @ u)"
      "\<forall>M f. wb_effect u M (sitem db key f) = M (sitem db key f)"
      "\<forall>M. wb_effect u M (ssize db key) = size_entry n"
    using sets.IncrSize_at [OF assms(2), of n "int (new_items (mem_map A) args)" ?t] n by auto
  have "SAdd key args db = (Inr (word_of_nat (new_items (mem_map A) args)), committed (?t @ u) db)"
    using assms(1) u(1) SAdd_loop_ok [OF assms(2-4), of 0 "[]"] by (simp add: SAdd_def)
  moreover have "wb_effect (?t @ u) (contents db) (sitem db key f) = (mem_map A ++ mem_map (set args)) f" for f
    using u(2) wb_effect_put_items [OF sets.inj_ik, of "indexVarBuf db" key ?xs "contents db" f] assms(2)
    unfolding map_of_members
    by (cases "f \<in> set args") (simp_all add: sets_at_get map_add_def mem_map_def del: map_map)
  ultimately show ?thesis
    using assms(1) u(3) unfolding mem_map_add by simp
qed

lemma SAdd_ok:
  assumes "writable db" "set_at db key A" "key_size_ok key" "list_all member_ok args"
    and "distinct args" "card A + length args < 2 ^ 63"
  shows "\<exists>db'. SAdd key args db = (Inr (word_of_nat (card (set args - A))), db') \<and> set_at db' key (A \<union> set args)"
proof -
  have fin: "finite A"
    using assms(2) by (simp add: coll_at_def)
  have c: "card (A \<union> set args) = card A + new_items (mem_map A) args"
    using card_add_items [of "mem_map A" args "mem_map (A \<union> set args)"] fin assms(5) by simp
  have n: "new_items (mem_map A) args \<le> length args" "new_items (mem_map A) args = card (set args - A)"
    using assms(5) distinct_card [of "filter (\<lambda>x. x \<notin> A) args"]
    by (simp_all add: new_items_def set_diff_eq)
  have "card (A \<union> set args) < 2 ^ 63"
    using c n(1) assms(6) by simp
  then show ?thesis
    using SAdd_effect [OF assms(1-4) c] fin n by (auto simp: coll_at_def)
qed

lemma SRem_loop_ok:
  assumes "set_at db key A" "key_size_ok key" "list_all member_ok fs" "kv_ok (ldb db)" "it_data it = ldb db"
  shows "SRem_loop (indexVarBuf db) key fs it n t = Inr (n + word_of_nat (old_items (mem_map A) fs),
    t @ map (\<lambda>f. WDel (sitem db key f)) (filter (\<lambda>f. f \<in> A) fs))"
  using assms(3,5)
proof (induction fs arbitrary: it n t)
  case (Cons f fs)
  have "it_Find (sitem db key f) it = (mem_map A f, Seek (sitem db key f) it)"
    using it_Find_get [of it "sitem db key f"] assms(1,4) Cons.prems(2) by (simp add: sets_at_get)
  then show ?case
    using Cons assms(2) by (cases "f \<in> A") (simp_all add: old_items_def Let_def mem_map_def)
qed (simp add: old_items_def)

lemma SRem_effect:
  assumes "writable db" "kv_ok (ldb db)" "set_at db key A" "key_size_ok key" "list_all member_ok fs"
    and n: "n + old_items (mem_map A) fs = card A"
  shows "\<exists>db'. SRem key fs db = (Inr (word_of_nat (old_items (mem_map A) fs)), db') \<and>
    indexVarBuf db' = indexVarBuf db \<and>
    (\<forall>f. contents db' (sitem db key f) = mem_map (A - set fs) f) \<and> contents db' (ssize db key) = size_entry n"
proof -
  let ?t = "map (\<lambda>f. WDel (sitem db key f)) (filter (\<lambda>f. f \<in> A) fs)"
  have "n < 2 ^ 63"
    using assms(3) n by (simp add: coll_at_def)
  then obtain u where u: "sIncrSize db key (- word_of_nat (old_items (mem_map A) fs)) ?t = Inr (word_of_nat n, ?t @ u)"
      "\<forall>M f. wb_effect u M (sitem db key f) = M (sitem db key f)"
      "\<forall>M. wb_effect u M (ssize db key) = size_entry n"
    using sets.IncrSize_at [OF assms(3), of n "- int (old_items (mem_map A) fs)" ?t] n by auto
  have "SRem key fs db = (Inr (word_of_nat (old_items (mem_map A) fs)), committed (?t @ u) db)"
    using assms u(1) SRem_loop_ok [OF assms(3-5,2), of "NewIterator (ldb db)" 0 "[]"]
    by (simp add: SRem_def NewIterator_def)
  moreover have "wb_effect (?t @ u) (contents db) (sitem db key f) = mem_map (A - set fs) f" for f
    using u(2) assms(3) by (auto simp: wb_effect_WDel_map sets_at_get mem_map_def)
  ultimately show ?thesis
    using assms(1) u(3) by simp
qed

lemma SRem_ok:
  assumes "writable db" "kv_ok (ldb db)" "set_at db key A" "key_size_ok key" "list_all member_ok fs" "distinct fs"
  shows "\<exists>db'. SRem key fs db = (Inr (word_of_nat (card (A \<inter> set fs))), db') \<and> set_at db' key (A - set fs)"
proof -
  have fin: "finite A" "card A < 2 ^ 63"
    using assms(3) by (simp_all add: coll_at_def)
  have n: "old_items (mem_map A) fs = card (A \<inter> set fs)"
    using assms(6) distinct_card [of "filter (\<lambda>x. x \<in> A) fs"]
    by (simp add: old_items_def Int_def conj_commute)
  have c: "card (A - set fs) + old_items (mem_map A) fs = card A"
    using fin card_Diff_subset_Int [of A "set fs"] card_mono [of A "A \<inter> set fs"] by (simp add: n)
  show ?thesis
    using SRem_effect [OF assms(1-5) c] fin c n by (auto simp: coll_at_def)
qed

lemma SClear_ok:
  assumes "writable db" "kv_ok (ldb db)" "set_at db key A" "key_size_ok key"
  shows "\<exists>db'. SClear key db = (Inr (int (card A)), db') \<and> set_at db' key {}"
proof -
  let ?r = "range_entries \<lparr>rMin = Some (sEncodeStartKey (indexVarBuf db) key),
    rMax = Some (sEncodeStopKey (indexVarBuf db) key), rType = RangeROpen\<rparr> (ldb db)"
  let ?t = "map (\<lambda>e. WDel (fst e)) ?r @ [WDel (ssize db key)]"
  note e = sets.delete_effect [OF assms(2,3) refl]
  have "length (map_entries (mem_map A)) = card A"
    by (simp add: map_entries_def)
  then have "SClear key db = (Inr (int (card A)), committed (?t @ rm_ops db SetType key) db)"
    using assms by (simp add: SClear_def sDelete_def Let_def fold_wb_Delete rmExpire_ops sets.range_query)
  moreover have "set_at (committed (?t @ rm_ops db SetType key) db) key {}"
    using e assms(1) by (simp add: coll_at_def rm_ops_other size_entry_def set_keys_neq [symmetric] mem_map_def)
  ultimately show ?thesis by blast
qed

end
