(* ===== verification/Ledis_Set_Props.thy ===== *)
theory Ledis_Set_Props
  imports Ledis_Set_Laws "HOL-Library.Multiset"
begin

text \<open>
  Sets as a whole: the operations act on their own key only, a set behaves like a finite set
  through any sequence of operations, and union, intersection and difference are the ones of
  sets whatever the order in which Go iterates over its maps.
\<close>

section \<open>The operations act on their key\<close>

lemma SAdd_loop_own:
  "SAdd_loop db key args n t = Inr (k, u) \<Longrightarrow> own_batch (indexVarBuf db) SetType {key} t \<Longrightarrow>
     own_batch (indexVarBuf db) SetType {key} u"
  by (induction db key args n t rule: SAdd_loop.induct)
     (auto simp: Let_def dest: checkSetKMSize_key16 split: sum.splits)

lemma SAdd_acts: "acts SetType {key} db (snd (SAdd key args db))"
  unfolding SAdd_def
  by (intro acts_rules) (auto dest!: SAdd_loop_own sets.IncrSize_own)

lemma SRem_loop_own:
  "SRem_loop p key fs it n t = Inr (k, u) \<Longrightarrow> own_batch p SetType {key} t \<Longrightarrow> own_batch p SetType {key} u"
  by (induction p key fs it n t rule: SRem_loop.induct)
     (auto simp: Let_def dest: checkSetKMSize_key16 split: sum.splits prod.splits option.splits)

lemma SRem_acts: "acts SetType {key} db (snd (SRem key fs db))"
  unfolding SRem_def
  by (intro acts_rules) (auto dest!: SRem_loop_own sets.IncrSize_own)

lemma sDelete_own:
  assumes "kv_ok (ldb db)" "key16 key" "key \<in> K" "own_batch (indexVarBuf db) SetType K t"
  shows "own_batch (indexVarBuf db) SetType K (snd (sDelete db t key))"
  using assms sets.delete_own [OF assms(2,1)] own_batch_mono [of "{key}" K]
  by (simp add: sDelete_def Let_def fold_wb_Delete)

lemma SClear_acts: "kv_ok (ldb db) \<Longrightarrow> acts SetType {key} db (snd (SClear key db))"
  unfolding SClear_def
  by (intro acts_rules) (auto dest!: checkKeySize_key16 dest: sDelete_own [of db key "{key}" "[]"])

lemma SMclear_loop_own:
  "SMclear_loop db keys t = Inr u \<Longrightarrow> kv_ok (ldb db) \<Longrightarrow> set keys \<subseteq> K \<Longrightarrow>
     own_batch (indexVarBuf db) SetType K t \<Longrightarrow> own_batch (indexVarBuf db) SetType K u"
  by (induction db keys t rule: SMclear_loop.induct)
     (auto dest: checkKeySize_key16 simp: sDelete_own split: sum.splits)

lemma SMclear_acts: "kv_ok (ldb db) \<Longrightarrow> acts SetType (set keys) db (snd (SMclear keys db))"
  unfolding SMclear_def
  by (intro acts_rules) (auto dest: SMclear_loop_own)

lemma sStore_loop_own:
  "sStore_loop db key ms t = Inr u \<Longrightarrow> own_batch (indexVarBuf db) SetType {key} t \<Longrightarrow>
     own_batch (indexVarBuf db) SetType {key} u"
  by (induction db key ms t rule: sStore_loop.induct)
     (auto simp: Let_def dest: checkSetKMSize_key16 split: sum.splits)

lemma sStoreGeneric_acts: "kv_ok (ldb db) \<Longrightarrow> acts SetType {key} db (snd (sStoreGeneric ord key op keys db))"
  unfolding sStoreGeneric_def
  by (intro acts_rules)
     (auto dest!: sStore_loop_own simp: sDelete_own checkKeySize_key16)

lemma SDiffStore_acts: "kv_ok (ldb db) \<Longrightarrow> acts SetType {key} db (snd (SDiffStore ord key keys db))"
  and SInterStore_acts: "kv_ok (ldb db) \<Longrightarrow> acts SetType {key} db (snd (SInterStore ord key keys db))"
  and SUnionStore_acts: "kv_ok (ldb db) \<Longrightarrow> acts SetType {key} db (snd (SUnionStore ord key keys db))"
  by (simp_all add: SDiffStore_def SInterStore_def SUnionStore_def sStoreGeneric_acts)

lemma sExpireAt_acts: "acts SetType {key} db (snd (sExpireAt key when db))"
  unfolding sExpireAt_def by (intro acts_rules) simp_all

lemma SExpire_acts: "acts SetType {key} db (snd (SExpire key d db))"
  and SExpireAt_acts: "acts SetType {key} db (snd (SExpireAt key d db))"
  by (simp_all add: SExpire_def SExpireAt_def sExpireAt_acts acts.none)

lemma SPersist_acts: "acts SetType {key} db (snd (SPersist key db))"
  unfolding SPersist_def
  by (intro acts_rules) (auto intro!: acts_rules dest: rmExpire_own_pair [where K = "{key}"])

section \<open>A set is a finite set\<close>

datatype set_op = OpSAdd "bytes list" | OpSRem "bytes list" | OpSIsMember bytes | OpSMembers | OpSCard
  | OpSKeyExists | OpSClear

datatype set_out = SOutInt "int res" | SOutInt64 "i64 res" | SOutMembers "bytes list res"

fun set_exec :: "bytes \<Rightarrow> set_op \<Rightarrow> DB \<Rightarrow> set_out \<times> DB" where
  "set_exec key (OpSAdd args) db = (case SAdd key args db of (r, db) \<Rightarrow> (SOutInt64 r, db))"
| "set_exec key (OpSRem args) db = (case SRem key args db of (r, db) \<Rightarrow> (SOutInt64 r, db))"
| "set_exec key (OpSIsMember x) db = (SOutInt (SIsMember key x db), db)"
| "set_exec key OpSMembers db = (SOutMembers (SMembers key db), db)"
| "set_exec key OpSCard db = (SOutInt64 (SCard key db), db)"
| "set_exec key OpSKeyExists db = (SOutInt (SKeyExists key db), db)"
| "set_exec key OpSClear db = (case SClear key db of (r, db) \<Rightarrow> (SOutInt r, db))"

text \<open>The abstract set.\<close>

fun fset_step :: "set_op \<Rightarrow> bytes set \<Rightarrow> set_out \<times> bytes set" where
  "fset_step (OpSAdd args) A = (SOutInt64 (Inr (word_of_nat (card (set args - A)))), A \<union> set args)"
| "fset_step (OpSRem args) A = (SOutInt64 (Inr (word_of_nat (card (A \<inter> set args)))), A - set args)"
| "fset_step (OpSIsMember x) A = (SOutInt (Inr (if x \<in> A then 1 else 0)), A)"
| "fset_step OpSMembers A = (SOutMembers (Inr (sorted_list_of_set A)), A)"
| "fset_step OpSCard A = (SOutInt64 (Inr (word_of_nat (card A))), A)"
| "fset_step OpSKeyExists A = (SOutInt (Inr (if A = {} then 0 else 1)), A)"
| "fset_step OpSClear A = (SOutInt (Inr (int (card A))), {})"

fun set_op_ok :: "set_op \<Rightarrow> bool" where
  "set_op_ok (OpSAdd args) \<longleftrightarrow> list_all member_ok args \<and> distinct args"
| "set_op_ok (OpSRem args) \<longleftrightarrow> list_all member_ok args \<and> distinct args"
| "set_op_ok _ \<longleftrightarrow> True"

fun op_members :: "set_op \<Rightarrow> nat" where
  "op_members (OpSAdd args) = length args"
| "op_members _ = 0"

definition max_members :: nat where "max_members = 2 ^ 63 - 1"

definition set_rel :: "bytes \<Rightarrow> nat \<Rightarrow> DB \<Rightarrow> bytes set \<Rightarrow> bool" where
  "set_rel key n db A \<longleftrightarrow> key_size_ok key \<and> standalone db \<and> db_ok db \<and> set_at db key A \<and> card A \<le> n"

lemma set_exec_acts: "db_ok db \<Longrightarrow> acts SetType {key} db (snd (set_exec key c db))"
  using SAdd_acts SRem_acts SClear_acts
  by (cases c) (auto split: prod.splits intro: acts.none simp: case_prod_beta)

lemma fset_step_card: "finite A \<Longrightarrow> card (snd (fset_step c A)) \<le> card A + op_members c"
proof (cases c)
  case (OpSAdd args)
  then show ?thesis
    using card_Un_le [of A "set args"] card_length [of args] by simp
qed (simp_all add: card_mono)

lemma set_exec_ok:
  assumes "standalone db" "db_ok db" "key_size_ok key" "set_at db key A" "set_op_ok c"
    and "card A + op_members c < 2 ^ 63"
  shows "\<exists>db'. set_exec key c db = (fst (fset_step c A), db') \<and> set_at db' key (snd (fset_step c A))"
proof -
  note w = standalone_writable [OF assms(1)] and k = db_ok_kv_ok [OF assms(2)]
  show ?thesis
  proof (cases c)
    case (OpSAdd args)
    then show ?thesis
      using SAdd_ok [OF w assms(4,3), of args] assms(5,6) by auto
  next
    case (OpSRem args)
    then show ?thesis
      using SRem_ok [OF w k assms(4,3), of args] assms(5) by auto
  next
    case OpSClear
    then show ?thesis
      using SClear_ok [OF w k assms(4,3)] by auto
  qed (use assms k in \<open>auto simp: SIsMember_ok SMembers_ok SCard_ok SKeyExists_ok\<close>)
qed

interpretation finset: step_refinement "set_exec key" fset_step "set_rel key" set_op_ok op_members max_members
  for key
proof
  fix n db A c
  assume r: "set_rel key n db A" "set_op_ok c" and n: "n + op_members c \<le> max_members"
  then have h: "standalone db" "db_ok db" "key_size_ok key" "set_at db key A" "card A \<le> n"
    by (simp_all add: set_rel_def)
  have "card A + op_members c < 2 ^ 63"
    using h(5) n by (simp add: max_members_def)
  from set_exec_ok [OF h(1-4) r(2) this] obtain db' where e:
      "set_exec key c db = (fst (fset_step c A), db')" "set_at db' key (snd (fset_step c A))"
    by blast
  moreover have "acts SetType {key} db db'"
    using set_exec_acts [OF h(2), of key c] e(1) by simp
  moreover have "card (snd (fset_step c A)) \<le> n + op_members c"
    using fset_step_card [OF set_at_finite [OF h(4)], of c] h(5) by simp
  ultimately show "\<exists>db'. set_exec key c db = (fst (fset_step c A), db') \<and>
      set_rel key (n + op_members c) db' (snd (fset_step c A))"
    using standalone_acts acts_db_ok h by (auto simp: set_rel_def)
qed

section \<open>Union, difference and intersection\<close>

lemma map_insert [simp]:
  "set (map_insert ms dest) = set ms \<union> set dest" "distinct dest \<Longrightarrow> distinct (map_insert ms dest)"
  unfolding map_insert_def by (induction ms arbitrary: dest) auto

lemma map_delete [simp]:
  "set (map_delete ms dest) = set dest - set ms" "distinct dest \<Longrightarrow> distinct (map_delete ms dest)"
  unfolding map_delete_def by (induction ms arbitrary: dest) (auto simp: distinct_removeAll)

text \<open>\<open>holds db ks F\<close>: the keys hold the sets that \<open>F\<close> gives, with members within the size limit.\<close>

definition holds :: "DB \<Rightarrow> bytes list \<Rightarrow> (bytes \<Rightarrow> bytes set) \<Rightarrow> bool" where
  "holds db ks F \<longleftrightarrow> list_all (\<lambda>k. key_size_ok k \<and> set_at db k (F k) \<and> (\<forall>x \<in> F k. member_ok x)) ks"

lemma holds_simps [simp]:
  "holds db [] F"
  "holds db (k # ks) F \<longleftrightarrow> key_size_ok k \<and> set_at db k (F k) \<and> (\<forall>x \<in> F k. member_ok x) \<and> holds db ks F"
  by (simp_all add: holds_def)

lemma SMembers_set:
  "kv_ok (ldb db) \<Longrightarrow> set_at db k A \<Longrightarrow> key_size_ok k \<Longrightarrow>
     \<exists>ms. SMembers k db = Inr ms \<and> set ms = A \<and> distinct ms"
  using SMembers_ok [of db k A] set_at_finite [of db k A] by auto

lemma sUnion_loop_ok:
  "kv_ok (ldb db) \<Longrightarrow> holds db ks F \<Longrightarrow> distinct dest \<Longrightarrow>
     \<exists>r. sUnion_loop db ks dest = Inr r \<and> distinct r \<and> set r = set dest \<union> (\<Union>k \<in> set ks. F k)"
proof (induction ks arbitrary: dest)
  case (Cons k ks)
  then obtain ms where ms: "SMembers k db = Inr ms" "set ms = F k"
    using SMembers_set [of db k "F k"] by auto
  then show ?case
    using Cons.IH [of "map_insert ms dest"] Cons.prems by auto
qed simp

lemma sDiff_loop_ok:
  "kv_ok (ldb db) \<Longrightarrow> holds db ks F \<Longrightarrow> distinct dest \<Longrightarrow>
     \<exists>r. sDiff_loop db ks dest = Inr r \<and> distinct r \<and> set r = set dest - (\<Union>k \<in> set ks. F k)"
proof (induction ks arbitrary: dest)
  case (Cons k ks)
  then obtain ms where ms: "SMembers k db = Inr ms" "set ms = F k"
    using SMembers_set [of db k "F k"] by auto
  show ?case
  proof (cases "map_delete ms dest = []")
    case True
    then have "set dest - F k = {}"
      using map_delete(1) [of ms dest] ms(2) by simp
    with True ms show ?thesis by auto
  next
    case False
    then show ?thesis
      using Cons.IH [of "map_delete ms dest"] Cons.prems ms by auto
  qed
qed simp

lemma sInter_mark_ok:
  "\<forall>x \<in> set ms. key_size_ok x \<Longrightarrow> distinct temp \<Longrightarrow>
     \<exists>r. sInter_mark dest ms temp = Inr r \<and> distinct r \<and> set r = set temp \<union> set ms \<inter> set dest"
proof (induction ms arbitrary: temp)
  case (Cons m ms)
  let ?temp = "if m \<in> set dest then List.insert m temp else temp"
  have d: "distinct ?temp" and ms: "\<forall>x \<in> set ms. key_size_ok x"
    using Cons.prems by simp_all
  obtain r where "sInter_mark dest ms ?temp = Inr r" "distinct r" "set r = set ?temp \<union> set ms \<inter> set dest"
    using Cons.IH [OF ms d] by blast
  with Cons.prems show ?case
    by (intro exI [of _ r]) auto
qed simp

lemma sInter_loop_ok:
  "kv_ok (ldb db) \<Longrightarrow> holds db ks F \<Longrightarrow> distinct dest \<Longrightarrow>
     \<exists>r. sInter_loop db ks dest = Inr r \<and> distinct r \<and> set r = set dest \<inter> (\<Inter>k \<in> set ks. F k)"
proof (induction ks arbitrary: dest)
  case (Cons k ks)
  then obtain ms where ms: "SMembers k db = Inr ms" "set ms = F k"
    using SMembers_set [of db k "F k"] by auto
  then obtain r where r: "sInter_mark dest ms [] = Inr r" "distinct r" "set r = F k \<inter> set dest"
    using sInter_mark_ok [of ms "[]" dest] Cons.prems(2) by auto
  show ?case
  proof (cases "r = []")
    case True
    then have "set dest \<inter> F k = {}"
      using r(3) by auto
    then show ?thesis
      using True ms r Cons.prems(2) by auto
  next
    case False
    then have "ms \<noteq> []"
      using r(3) ms(2) by (cases r) auto
    then show ?thesis
      using Cons.IH [OF Cons.prems(1) _ r(2)] False Cons.prems(2) ms r by auto
  qed
qed simp

text \<open>The set that an operation computes from the sets of the keys.\<close>

definition set_result :: "byte \<Rightarrow> bytes list \<Rightarrow> (bytes \<Rightarrow> bytes set) \<Rightarrow> bytes set" where
  "set_result op keys F =
     (if op = UnionType then (\<Union>k \<in> set keys. F k)
      else if op = DiffType then F (hd keys) - (\<Union>k \<in> set (tl keys). F k)
      else if op = InterType then (\<Inter>k \<in> set keys. F k)
      else {})"

lemma set_types_neq [simp]: "DiffType \<noteq> UnionType" "InterType \<noteq> UnionType" "InterType \<noteq> DiffType"
  by (simp_all add: UnionType_def DiffType_def InterType_def)

definition any_order :: "(bytes list \<Rightarrow> bytes list) \<Rightarrow> bool" where
  "any_order ord \<longleftrightarrow> (\<forall>xs. mset (ord xs) = mset xs)"

lemma any_order_set: "any_order ord \<Longrightarrow> set (ord xs) = set xs"
  unfolding any_order_def by (metis set_mset_mset)

lemma any_order_distinct: "any_order ord \<Longrightarrow> distinct (ord xs) = distinct xs"
  unfolding any_order_def by (metis mset_eq_imp_distinct_iff)

lemma set_generic_ok:
  assumes "kv_ok (ldb db)" "holds db keys F" "keys \<noteq> []" "any_order ord"
  shows "\<exists>r. sUnionGeneric ord keys db = Inr r \<and> distinct r \<and> set r = set_result UnionType keys F"
    and "\<exists>r. sDiffGeneric ord keys db = Inr r \<and> distinct r \<and> set r = set_result DiffType keys F"
    and "\<exists>r. sInterGeneric ord keys db = Inr r \<and> distinct r \<and> set r = set_result InterType keys F"
proof -
  note o = any_order_set [OF assms(4)] any_order_distinct [OF assms(4)]
  show "\<exists>r. sUnionGeneric ord keys db = Inr r \<and> distinct r \<and> set r = set_result UnionType keys F"
    using sUnion_loop_ok [OF assms(1,2), of "[]"] by (auto simp: sUnionGeneric_def set_result_def o)
  obtain k ks where keys: "keys = k # ks"
    using assms(3) by (cases keys) simp_all
  then obtain ms where k: "keys = k # ks" "SMembers k db = Inr ms" "set ms = F k"
    using assms(2) SMembers_set [OF assms(1), of k "F k"] by auto
  show "\<exists>r. sDiffGeneric ord keys db = Inr r \<and> distinct r \<and> set r = set_result DiffType keys F"
    using sDiff_loop_ok [OF assms(1), of ks F "map_insert ms []"] assms(2) k
    by (auto simp: sDiffGeneric_def set_result_def o)
  show "\<exists>r. sInterGeneric ord keys db = Inr r \<and> distinct r \<and> set r = set_result InterType keys F"
    using sInter_loop_ok [OF assms(1), of ks F "map_insert ms []"] assms(2) k
    by (auto simp: sInterGeneric_def set_result_def o)
qed

lemma sStore_loop_ok:
  "key_size_ok dst \<Longrightarrow> list_all member_ok ms \<Longrightarrow>
     sStore_loop db dst ms t = Inr (t @ map (\<lambda>(f, v). WPut (sitem db dst f) v) (map (\<lambda>x. (x, [])) ms))"
  by (induction ms arbitrary: t) (simp_all add: Let_def)

definition store_op :: "byte \<Rightarrow> bool" where
  "store_op op \<longleftrightarrow> op \<in> {UnionType, DiffType, InterType}"

lemma set_result_ok:
  "holds db keys F \<Longrightarrow> keys \<noteq> [] \<Longrightarrow> x \<in> set_result op keys F \<Longrightarrow> member_ok x"
  by (cases keys) (auto simp: set_result_def holds_def list_all_iff split: if_splits)

lemma sStoreGeneric_effect:
  assumes "writable db" "kv_ok (ldb db)" "holds db keys F" "keys \<noteq> []" "any_order ord"
    and "key_size_ok dst" "set_at db dst D" "store_op op" and R: "R = set_result op keys F"
  shows "\<exists>db'. sStoreGeneric ord dst op keys db = (Inr (word_of_nat (card R)), db') \<and>
    indexVarBuf db' = indexVarBuf db \<and> now db' = now db \<and>
    (\<forall>f. contents db' (sitem db dst f) = mem_map R f) \<and>
    contents db' (ssize db dst) = Some (PutInt64 (word_of_nat (card R))) \<and>
    (\<forall>dt k. contents db' (metakey db dt k) = contents db (metakey db dt k))"
proof -
  let ?p = "indexVarBuf db"
  define r where "r = (if op = UnionType then sUnionGeneric ord keys db
                   else if op = DiffType then sDiffGeneric ord keys db
                   else if op = InterType then sInterGeneric ord keys db else Inr [])"
  obtain v where v: "r = Inr v" "distinct v" "set v = R"
    using set_generic_ok [OF assms(2-5)] assms(8) unfolding r_def R store_op_def by auto
  have ok: "list_all member_ok v"
    using set_result_ok [OF assms(3,4)] v(3) R by (auto simp: list_all_iff)
  have len: "length v = card R"
    using v(2,3) distinct_card by fastforce
  let ?d = "map (\<lambda>e. WDel (fst e)) (range_entries \<lparr>rMin = Some (sEncodeStartKey ?p dst),
    rMax = Some (sEncodeStopKey ?p dst), rType = RangeROpen\<rparr> (ldb db)) @ [WDel (ssize db dst)]"
  let ?w = "map (\<lambda>(f, v). WPut (sitem db dst f) v) (map (\<lambda>x. (x, [])) v)"
  let ?t = "?d @ ?w @ [WPut (ssize db dst) (PutInt64 (word_of_nat (card R)))]"
  have "sDelete db [] dst = (int (length (range_entries \<lparr>rMin = Some (sEncodeStartKey ?p dst),
      rMax = Some (sEncodeStopKey ?p dst), rType = RangeROpen\<rparr> (ldb db))), ?d)"
    using assms(2) by (simp add: sDelete_def Let_def fold_wb_Delete)
  then have "sStoreGeneric ord dst op keys db = (Inr (word_of_nat (card R)), committed ?t db)"
    unfolding sStoreGeneric_def r_def [symmetric] v(1) Let_def
    using assms(1,6) by (simp add: sStore_loop_ok [OF assms(6) ok] len del: map_map)
  moreover have "wb_effect ?t (contents db) (sitem db dst f) = mem_map R f" for f
  proof -
    have "wb_effect ?t (contents db) (sitem db dst f) = wb_effect ?w (wb_effect ?d (contents db)) (sitem db dst f)"
      by (simp add: set_keys_neq [symmetric])
    also have "\<dots> = mem_map R f"
      using sets.delete_effect(1) [OF assms(2,7) refl, of f]
      unfolding wb_effect_put_items [OF sets.inj_ik] map_of_members v(3)
      by (cases "f \<in> R") (simp_all add: mem_map_def)
    finally show ?thesis .
  qed
  moreover have "wb_effect ?t (contents db) (metakey db dt k) = contents db (metakey db dt k)" for dt k
  proof -
    have e: "fst e \<noteq> metakey db dt k" if "e \<in> set (range_entries \<lparr>rMin = Some (sEncodeStartKey ?p dst),
        rMax = Some (sEncodeStopKey ?p dst), rType = RangeROpen\<rparr> (ldb db))" for e
    proof -
      have "\<exists>m. fst e = sEncodeSetKey ?p dst m"
        using that unfolding set_range [symmetric] by (simp add: range_filter)
      then show ?thesis
        using set_keys_neq(4) by metis
    qed
    show ?thesis
      by (intro wb_effect_other) (auto simp: set_keys_neq set_keys_neq [symmetric] dest: e)
  qed
  ultimately show ?thesis
    using assms(1) by simp
qed

section \<open>Properties\<close>

lemma demo_set_at [simp]: "set_at demo_db key {}"
  by (simp add: coll_at_def size_entry_def mem_map_def)

lemma member_ok_small [simp]: "member_ok [a]"
  by (simp add: member_ok_def MaxSetMemberSize_def)

text \<open>
  C5: Any sequence of \<open>SAdd\<close>, \<open>SRem\<close>, \<open>SIsMember\<close>, \<open>SMembers\<close>, \<open>SCard\<close>, \<open>SKeyExists\<close> and \<open>SClear\<close> on a
  set answers what the operations of a finite set answer: \<open>SAdd\<close> and \<open>SRem\<close> count the members that
  are new or removed, and \<open>SMembers\<close> lists the members in ascending order. Side conditions: the
  database is writable and has no replication, the members added and removed are within the
  size limits, no \<open>SAdd\<close> or \<open>SRem\<close> names a member twice (which miscounts), and fewer than \<open>2 ^ 63\<close>
  members are added.
\<close>

theorem set_is_finite_set:
  assumes "db_ok db" "standalone db" "key_size_ok key" "set_at db key A" "list_all set_op_ok cs"
    and "card A + sum_list (map op_members cs) < 2 ^ 63"
  shows "\<exists>db'. run (set_exec key) cs db = (fst (run fset_step cs A), db') \<and>
    set_at db' key (snd (run fset_step cs A))"
  using finset.run_refines [of key "card A" db A cs] assms
  by (auto simp: set_rel_def max_members_def)

theorem set_is_finite_set_witness:
  "\<exists>db'. run (set_exec [7]) [OpSAdd [[3], [1]], OpSAdd [[1], [2]], OpSRem [[3], [9]], OpSIsMember [3],
       OpSMembers, OpSCard] demo_db =
     ([SOutInt64 (Inr 2), SOutInt64 (Inr 1), SOutInt64 (Inr 1), SOutInt (Inr 0),
       SOutMembers (Inr [[1], [2]]), SOutInt64 (Inr 2)], db')"
proof -
  let ?cs = "[OpSAdd [[3], [1]], OpSAdd [[1], [2]], OpSRem [[3], [9]], OpSIsMember [3],
       OpSMembers, OpSCard] :: set_op list"
  have "fst (run fset_step ?cs {}) = [SOutInt64 (Inr 2), SOutInt64 (Inr 1), SOutInt64 (Inr 1),
      SOutInt (Inr 0), SOutMembers (Inr [[1], [2]]), SOutInt64 (Inr 2)]"
    by (simp add: insert_Diff_if Int_insert_left card_insert_if)
  moreover have "list_all set_op_ok ?cs"
    by simp
  ultimately show ?thesis
    using set_is_finite_set [of demo_db "[7]" "{}" ?cs] by auto
qed

text \<open>
  C27: \<open>SUnion\<close>, \<open>SDiff\<close> and \<open>SInter\<close> return every member of the union, the difference and the
  intersection of the sets exactly once, in whatever order Go iterates over its maps.
\<close>

theorem set_algebra:
  assumes "db_ok db" "holds db keys F" "keys \<noteq> []" "any_order ord"
  shows "\<exists>u d i. SUnion ord keys db = Inr u \<and> distinct u \<and> set u = (\<Union>k \<in> set keys. F k) \<and>
    SDiff ord keys db = Inr d \<and> distinct d \<and> set d = F (hd keys) - (\<Union>k \<in> set (tl keys). F k) \<and>
    SInter ord keys db = Inr i \<and> distinct i \<and> set i = (\<Inter>k \<in> set keys. F k)"
proof -
  note g = set_generic_ok [OF db_ok_kv_ok [OF assms(1)] assms(2-4)]
  obtain u where "SUnion ord keys db = Inr u" "distinct u" "set u = (\<Union>k \<in> set keys. F k)"
    using g(1) by (auto simp: SUnion_def set_result_def)
  moreover obtain d where "SDiff ord keys db = Inr d" "distinct d"
      "set d = F (hd keys) - (\<Union>k \<in> set (tl keys). F k)"
    using g(2) by (auto simp: SDiff_def set_result_def)
  moreover obtain i where "SInter ord keys db = Inr i" "distinct i" "set i = (\<Inter>k \<in> set keys. F k)"
    using g(3) by (auto simp: SInter_def set_result_def)
  ultimately show ?thesis by blast
qed

lemma demo_sets:
  "\<exists>db. run (set_exec [7]) [OpSAdd [[1], [2]]] demo_db = ([SOutInt64 (Inr 2)], db) \<and>
     db_ok db \<and> writable db \<and> set_at db [7] {[1], [2]} \<and> set_at db [8] {}"
proof -
  obtain db where db: "SAdd [7] [[1], [2]] demo_db = (Inr (word_of_nat (card ({[1], [2]} :: bytes set))), db)"
      "set_at db [7] ({} \<union> {[1], [2]})"
    using SAdd_ok [of demo_db "[7]" "{}" "[[1], [2]]"] by auto
  have a: "acts SetType {[7]} demo_db db"
    using SAdd_acts [of "[7]" demo_db "[[1], [2]]"] db(1) by simp
  have "set_at db [8] {}"
    using sets.coll_at_frame [OF a, of "[8]"] by (simp add: key16_def)
  then show ?thesis
    using db a acts_db_ok standalone_acts by (auto intro!: standalone_writable)
qed

theorem set_algebra_witness:
  "\<exists>db u d i. run (set_exec [7]) [OpSAdd [[1], [2]]] demo_db = ([SOutInt64 (Inr 2)], db) \<and>
     SUnion rev [[7], [8]] db = Inr u \<and> set u = {[1], [2]} \<and> SDiff rev [[7], [8]] db = Inr d \<and> set d = {[1], [2]} \<and>
     SInter rev [[7], [8]] db = Inr i \<and> i = []"
proof -
  obtain db where db: "run (set_exec [7]) [OpSAdd [[1], [2]]] demo_db = ([SOutInt64 (Inr 2)], db)" "db_ok db"
      "set_at db [7] {[1], [2]}" "set_at db [8] {}"
    using demo_sets by blast
  let ?F = "\<lambda>k :: bytes. if k = [7] then {[1], [2]} else {} :: bytes set"
  have "holds db [[7], [8]] ?F" "any_order rev"
    using db by (simp_all add: any_order_def)
  from set_algebra [OF db(2) this(1) _ this(2)] db(1) show ?thesis by auto
qed

text \<open>
  C28: \<open>SUnionStore\<close>, \<open>SDiffStore\<close> and \<open>SInterStore\<close> replace the destination, which may be one of
  the sources, by the result and return its size, and leave its time to live alone. If
  the result is empty the destination stays behind as an existing set of size \<open>0\<close>.
\<close>

theorem set_store:
  assumes "db_ok db" "writable db" "holds db keys F" "keys \<noteq> []" "any_order ord"
    and "key_size_ok dst" "set_at db dst D" "store_op op" "R = set_result op keys F" "card R < 2 ^ 63"
  shows "\<exists>db'. sStoreGeneric ord dst op keys db = (Inr (word_of_nat (card R)), db') \<and>
    STTL dst db' = STTL dst db \<and> SKeyExists dst db' = Inr 1 \<and> SCard dst db' = Inr (word_of_nat (card R)) \<and>
    (\<forall>x. SIsMember dst x db' = Inr (if x \<in> R then 1 else 0)) \<and> (R \<noteq> {} \<longrightarrow> set_at db' dst R)"
proof -
  obtain db' where d: "sStoreGeneric ord dst op keys db = (Inr (word_of_nat (card R)), db')"
      "indexVarBuf db' = indexVarBuf db" "now db' = now db"
      "\<forall>f. contents db' (sitem db dst f) = mem_map R f"
      "contents db' (ssize db dst) = Some (PutInt64 (word_of_nat (card R)))"
      "\<forall>dt k. contents db' (metakey db dt k) = contents db (metakey db dt k)"
    using sStoreGeneric_effect [OF assms(2) db_ok_kv_ok [OF assms(1)] assms(3-9)] by blast
  have "finite R"
  proof -
    have "finite (F k)" if "k \<in> set keys" for k
      using that assms(3) set_at_finite by (auto simp: holds_def list_all_iff)
    then show ?thesis
      using assms(4) unfolding assms(9) set_result_def by (cases keys) auto
  qed
  then have "R \<noteq> {} \<longrightarrow> set_at db' dst R"
    using d assms(10) by (auto simp: coll_at_def size_entry_def)
  moreover have "STTL dst db' = STTL dst db"
    using d(2,3,6) assms(6) by (simp add: STTL_def ttl_def split: sum.split)
  moreover have "SIsMember dst x db' = Inr (if x \<in> R then 1 else 0)" for x
    using d(2,4) by (simp add: SIsMember_def mem_map_def)
  ultimately show ?thesis
    using d assms(6) by (intro exI [of _ db']) (simp add: SKeyExists_def SCard_def)
qed

theorem set_store_witness:
  "\<exists>db db'. run (set_exec [7]) [OpSAdd [[1], [2]]] demo_db = ([SOutInt64 (Inr 2)], db) \<and>
     sStoreGeneric rev [7] InterType [[7], [8]] db = (Inr 0, db') \<and> SKeyExists [7] db' = Inr 1 \<and> SCard [7] db' = Inr 0"
proof -
  obtain db where db: "run (set_exec [7]) [OpSAdd [[1], [2]]] demo_db = ([SOutInt64 (Inr 2)], db)" "db_ok db"
      "writable db" "set_at db [7] {[1], [2]}" "set_at db [8] {}"
    using demo_sets by blast
  let ?F = "\<lambda>k :: bytes. if k = [7] then {[1], [2]} else {} :: bytes set"
  have h: "holds db [[7], [8]] ?F" "any_order rev" "store_op InterType" "key_size_ok [7]"
      "{} = set_result InterType [[7], [8]] ?F"
    using db by (simp_all add: any_order_def store_op_def set_result_def)
  from set_store [OF db(2,3) h(1) _ h(2,4) db(4) h(3,5)] db(1) show ?thesis by auto
qed

end
