(* ===== verification/Ledis_ZSet.thy ===== *)
theory Ledis_ZSet
  imports Ledis_KV "HOL-Library.AList"
begin

text \<open>
  Sorted sets, \<open>ledis/t_zset.go\<close>. Every member has two entries: the member key holds the score,
  and the score key, which sorts by score and then by member, holds nothing. A further entry
  holds the number of members. Scores are signed 64-bit integers; positions and counts are Go
  integers of 64 bits. The operations that combine sorted sets iterate over a Go map at the end,
  in the order given by the parameter \<open>ord\<close>.
\<close>

type_synonym ScorePair = "i64 \<times> bytes"

definition MinScore :: i64 where "MinScore = word_of_int (- (2 ^ 63) + 1)"
definition MaxScore :: i64 where "MaxScore = word_of_int (2 ^ 63 - 1)"

definition AggregateSum :: byte where "AggregateSum = 0"
definition AggregateMin :: byte where "AggregateMin = 1"
definition AggregateMax :: byte where "AggregateMax = 2"

definition zIncrSize :: "DB \<Rightarrow> wop list \<Rightarrow> bytes \<Rightarrow> i64 \<Rightarrow> (i64 \<times> wop list) res" where
  "zIncrSize db t key delta =
     (let sk = zEncodeSizeKey (indexVarBuf db) key in
      case Int64 (bucket_Get db sk) of
        Inl e \<Rightarrow> Inl e
      | Inr sz \<Rightarrow>
          let sz = sz + delta in
          if sint sz \<le> 0 then Inr (0, snd (rmExpire db (wb_Delete sk t) ZSetType key))
          else Inr (sz, wb_Put sk (PutInt64 sz) t))"

definition zSetItem :: "DB \<Rightarrow> wop list \<Rightarrow> bytes \<Rightarrow> i64 \<Rightarrow> bytes \<Rightarrow> (i64 \<times> wop list) res" where
  "zSetItem db t key score member =
     (if sint score \<le> sint MinScore \<or> sint MaxScore \<le> sint score then Inl ErrScoreOverflow
      else
        let p = indexVarBuf db; ek = zEncodeSetKey p key member; sk = zEncodeScoreKey p key member score in
        case bucket_Get db ek of
          Inl e \<Rightarrow> Inl e
        | Inr None \<Rightarrow> Inr (0, wb_Put sk [] (wb_Put ek (PutInt64 score) t))
        | Inr (Some v) \<Rightarrow>
            (case Int64 (Inr (Some v)) of
               Inl e \<Rightarrow> Inl e
             | Inr s \<Rightarrow>
                 Inr (1, wb_Put sk [] (wb_Put ek (PutInt64 score)
                           (wb_Delete (zEncodeScoreKey p key member s) t)))))"

definition zDelItem :: "DB \<Rightarrow> wop list \<Rightarrow> bytes \<Rightarrow> bytes \<Rightarrow> bool \<Rightarrow> (i64 \<times> wop list) res" where
  "zDelItem db t key member skipDelScore =
     (let p = indexVarBuf db; ek = zEncodeSetKey p key member in
      case bucket_Get db ek of
        Inl e \<Rightarrow> Inl e
      | Inr None \<Rightarrow> Inr (0, t)
      | Inr (Some v) \<Rightarrow>
          if skipDelScore then Inr (1, wb_Delete ek t)
          else (case Int64 (Inr (Some v)) of
                  Inl e \<Rightarrow> Inl e
                | Inr s \<Rightarrow> Inr (1, wb_Delete ek (wb_Delete (zEncodeScoreKey p key member s) t))))"

definition ZCard :: "bytes \<Rightarrow> DB \<Rightarrow> i64 res" where
  "ZCard key db =
     (case checkKeySize key of
        Inl e \<Rightarrow> Inl e
      | Inr u \<Rightarrow> Int64 (bucket_Get db (zEncodeSizeKey (indexVarBuf db) key)))"

definition zExpireAt :: "bytes \<Rightarrow> i64 \<Rightarrow> DB \<Rightarrow> int res \<times> DB" where
  "zExpireAt key when db =
     (case ZCard key db of
        Inl e \<Rightarrow> (Inl e, db)
      | Inr zcnt \<Rightarrow>
          if zcnt = 0 then (Inr 0, db)
          else (case expireAt db [] ZSetType key when of (t, db) \<Rightarrow> commit_ret t 1 db))"

fun ZAdd_loop :: "DB \<Rightarrow> bytes \<Rightarrow> ScorePair list \<Rightarrow> i64 \<Rightarrow> wop list \<Rightarrow> (i64 \<times> wop list) res" where
  "ZAdd_loop db key [] num t = Inr (num, t)"
| "ZAdd_loop db key ((score, member) # args) num t =
     (case checkZSetKMSize key member of
        Inl e \<Rightarrow> Inl e
      | Inr u \<Rightarrow>
          (case zSetItem db t key score member of
             Inl e \<Rightarrow> Inl e
           | Inr (n, t) \<Rightarrow> ZAdd_loop db key args (if n = 0 then num + 1 else num) t))"

definition ZAdd :: "bytes \<Rightarrow> ScorePair list \<Rightarrow> DB \<Rightarrow> i64 res \<times> DB" where
  "ZAdd key args db =
     (if args = [] then (Inr 0, db)
      else
        case ZAdd_loop db key args 0 [] of
          Inl e \<Rightarrow> (Inl e, db)
        | Inr (num, t) \<Rightarrow>
            (case zIncrSize db t key num of
               Inl e \<Rightarrow> (Inl e, db)
             | Inr (_, t) \<Rightarrow> commit_ret t num db))"

definition ZScore :: "bytes \<Rightarrow> bytes \<Rightarrow> DB \<Rightarrow> i64 res" where
  "ZScore key member db =
     (case checkZSetKMSize key member of
        Inl e \<Rightarrow> Inl e
      | Inr u \<Rightarrow>
          (case bucket_Get db (zEncodeSetKey (indexVarBuf db) key member) of
             Inl e \<Rightarrow> Inl e
           | Inr None \<Rightarrow> Inl ErrScoreMiss
           | Inr (Some v) \<Rightarrow> Int64 (Inr (Some v))))"

fun ZRem_loop :: "DB \<Rightarrow> bytes \<Rightarrow> bytes list \<Rightarrow> i64 \<Rightarrow> wop list \<Rightarrow> (i64 \<times> wop list) res" where
  "ZRem_loop db key [] num t = Inr (num, t)"
| "ZRem_loop db key (member # members) num t =
     (case checkZSetKMSize key member of
        Inl e \<Rightarrow> Inl e
      | Inr u \<Rightarrow>
          (case zDelItem db t key member False of
             Inl e \<Rightarrow> Inl e
           | Inr (n, t) \<Rightarrow> ZRem_loop db key members (if n = 1 then num + 1 else num) t))"

definition ZRem :: "bytes \<Rightarrow> bytes list \<Rightarrow> DB \<Rightarrow> i64 res \<times> DB" where
  "ZRem key members db =
     (if members = [] then (Inr 0, db)
      else
        case ZRem_loop db key members 0 [] of
          Inl e \<Rightarrow> (Inl e, db)
        | Inr (num, t) \<Rightarrow>
            (case zIncrSize db t key (- num) of
               Inl e \<Rightarrow> (Inl e, db)
             | Inr (_, t) \<Rightarrow> commit_ret t num db))"

text \<open>The error of \<open>zIncrSize\<close> is dropped here, with what it would have added to the batch.\<close>

definition ZIncrBy :: "bytes \<Rightarrow> i64 \<Rightarrow> bytes \<Rightarrow> DB \<Rightarrow> i64 res \<times> DB" where
  "ZIncrBy key delta member db =
     (case checkZSetKMSize key member of
        Inl e \<Rightarrow> (Inl e, db)
      | Inr u \<Rightarrow>
          let p = indexVarBuf db; ek = zEncodeSetKey p key member in
          case bucket_Get db ek of
            Inl e \<Rightarrow> (Inl e, db)
          | Inr v \<Rightarrow>
              (case (case v of
                       None \<Rightarrow> Inr (0, (case zIncrSize db [] key 1 of Inl e \<Rightarrow> [] | Inr (_, t) \<Rightarrow> t))
                     | Some w \<Rightarrow> (case Int64 (Inr (Some w)) of Inl e \<Rightarrow> Inl e | Inr s \<Rightarrow> Inr (s, []))) of
                 Inl e \<Rightarrow> (Inl e, db)
               | Inr (oldScore, t) \<Rightarrow>
                   let newScore = oldScore + delta in
                   if sint MaxScore \<le> sint newScore \<or> sint newScore \<le> sint MinScore
                   then (Inl ErrScoreOverflow, db)
                   else
                     let t = wb_Put ek (PutInt64 newScore) (wb_Put (zEncodeScoreKey p key member newScore) [] t);
                         t = (if v \<noteq> None then wb_Delete (zEncodeScoreKey p key member oldScore) t else t)
                     in commit_ret t newScore db))"

definition ZCount :: "bytes \<Rightarrow> i64 \<Rightarrow> i64 \<Rightarrow> DB \<Rightarrow> int res" where
  "ZCount key mn mx db =
     (case checkKeySize key of
        Inl e \<Rightarrow> Inl e
      | Inr u \<Rightarrow>
          Inr (int (length (rli_run (db_RangeLimitIterator db
            (Some (zEncodeStartScoreKey (indexVarBuf db) key mn))
            (Some (zEncodeStopScoreKey (indexVarBuf db) key mx)) RangeROpen 0 (-1))))))"

definition zrank :: "bytes \<Rightarrow> bytes \<Rightarrow> bool \<Rightarrow> DB \<Rightarrow> int res" where
  "zrank key member reverse db =
     (case checkZSetKMSize key member of
        Inl e \<Rightarrow> Inl e
      | Inr u \<Rightarrow>
          let p = indexVarBuf db in
          case it_Find (zEncodeSetKey p key member) (NewIterator (ldb db)) of
            (None, it) \<Rightarrow> Inr (-1)
          | (Some v, it) \<Rightarrow>
              (case Int64 (Inr (Some v)) of
                 Inl e \<Rightarrow> Inl e
               | Inr s \<Rightarrow>
                   let sk = zEncodeScoreKey p key member s;
                       es = rli_run
                         (if \<not> reverse
                          then NewRangeIterator it \<lparr>rMin = Some (zEncodeStartScoreKey p key MinScore),
                                 rMax = Some sk, rType = RangeClose\<rparr>
                          else NewRevRangeIterator it \<lparr>rMin = Some sk,
                                 rMax = Some (zEncodeStopScoreKey p key MaxScore), rType = RangeClose\<rparr>);
                       lastKey = (if es = [] then [] else fst (last es))
                   in case zDecodeScoreKey p lastKey of
                        Inl e \<Rightarrow> Inr (-1)
                      | Inr (_, m, _) \<Rightarrow> if m = member then Inr (int (length es) - 1) else Inr (-1)))"

definition zIterator :: "bytes \<Rightarrow> i64 \<Rightarrow> i64 \<Rightarrow> int \<Rightarrow> int \<Rightarrow> bool \<Rightarrow> DB \<Rightarrow> RangeLimitIterator" where
  "zIterator key mn mx offset cnt reverse db =
     (let minKey = zEncodeStartScoreKey (indexVarBuf db) key mn;
          maxKey = zEncodeStopScoreKey (indexVarBuf db) key mx
      in if \<not> reverse then db_RangeLimitIterator db (Some minKey) (Some maxKey) RangeClose offset cnt
         else db_RevRangeLimitIterator db (Some minKey) (Some maxKey) RangeClose offset cnt)"

text \<open>
  \<open>zRemRange\<close> adds to the caller's batch; an error leaves what it has added so far, which matters
  to \<open>zDelete\<close>, where the error is dropped.
\<close>

fun zRemRange_loop :: "DB \<Rightarrow> bytes \<Rightarrow> (bytes \<times> bytes) list \<Rightarrow> i64 \<Rightarrow> wop list \<Rightarrow> i64 res \<times> wop list" where
  "zRemRange_loop db key [] num t = (Inr num, t)"
| "zRemRange_loop db key ((sk, v) # es) num t =
     (case zDecodeScoreKey (indexVarBuf db) sk of
        Inl e \<Rightarrow> zRemRange_loop db key es num t
      | Inr (_, m, _) \<Rightarrow>
          (case zDelItem db t key m True of
             Inl e \<Rightarrow> (Inl e, t)
           | Inr (n, t) \<Rightarrow> zRemRange_loop db key es (if n = 1 then num + 1 else num) (wb_Delete sk t)))"

definition zRemRange ::
  "DB \<Rightarrow> wop list \<Rightarrow> bytes \<Rightarrow> i64 \<Rightarrow> i64 \<Rightarrow> int \<Rightarrow> int \<Rightarrow> i64 res \<times> wop list" where
  "zRemRange db t key mn mx offset cnt =
     (if MaxKeySize < length key then (Inl ErrKeySize, t)
      else
        case zRemRange_loop db key (rli_run (zIterator key mn mx offset cnt False db)) 0 t of
          (Inl e, t) \<Rightarrow> (Inl e, t)
        | (Inr num, t) \<Rightarrow>
            (case zIncrSize db t key (- num) of
               Inl e \<Rightarrow> (Inl e, t)
             | Inr (_, t) \<Rightarrow> (Inr num, t)))"

definition zDelete :: "DB \<Rightarrow> wop list \<Rightarrow> bytes \<Rightarrow> wop list" where
  "zDelete db t key = snd (zRemRange db t key MinScore MaxScore 0 (-1))"

fun zPairs :: "bytes \<Rightarrow> (bytes \<times> bytes) list \<Rightarrow> ScorePair list" where
  "zPairs p [] = []"
| "zPairs p ((k, v) # es) =
     (case zDecodeScoreKey p k of Inl e \<Rightarrow> zPairs p es | Inr (_, m, s) \<Rightarrow> (s, m) # zPairs p es)"

definition zRange :: "bytes \<Rightarrow> i64 \<Rightarrow> i64 \<Rightarrow> int \<Rightarrow> int \<Rightarrow> bool \<Rightarrow> DB \<Rightarrow> ScorePair list res" where
  "zRange key mn mx offset cnt reverse db =
     (if MaxKeySize < length key then Inl ErrKeySize
      else if offset < 0 then Inr []
      else
        let v = zPairs (indexVarBuf db)
                  (rli_run (if \<not> reverse \<or> (offset = 0 \<and> cnt < 0) then zIterator key mn mx offset cnt False db
                            else zIterator key mn mx offset cnt True db))
        in Inr (if reverse \<and> (offset = 0 \<and> cnt < 0) then rev v else v))"

definition zParseLimit :: "bytes \<Rightarrow> i64 \<Rightarrow> i64 \<Rightarrow> DB \<Rightarrow> (int \<times> int) res" where
  "zParseLimit key start stop db =
     (let rest = (\<lambda>start stop. if sint stop < sint start then Inr (-1, 0)
                               else Inr (sint start, sint (stop - start + 1)))
      in if sint start < 0 \<or> sint stop < 0
         then (case ZCard key db of
                 Inl e \<Rightarrow> Inl e
               | Inr llen \<Rightarrow>
                   let start = (if sint start < 0 then llen + start else start);
                       stop = (if sint stop < 0 then llen + stop else stop);
                       start = (if sint start < 0 then 0 else start)
                   in if sint llen \<le> sint start then Inr (-1, 0) else rest start stop)
         else rest start stop)"

definition ZClear :: "bytes \<Rightarrow> DB \<Rightarrow> i64 res \<times> DB" where
  "ZClear key db =
     (case zRemRange db [] key MinScore MaxScore 0 (-1) of
        (Inl e, t) \<Rightarrow> (Inl e, db)
      | (Inr rmCnt, t) \<Rightarrow> commit_ret t rmCnt db)"

fun ZMclear_loop :: "DB \<Rightarrow> bytes list \<Rightarrow> wop list \<Rightarrow> wop list res" where
  "ZMclear_loop db [] t = Inr t"
| "ZMclear_loop db (key # keys) t =
     (case zRemRange db t key MinScore MaxScore 0 (-1) of
        (Inl e, t) \<Rightarrow> Inl e
      | (Inr _, t) \<Rightarrow> ZMclear_loop db keys t)"

definition ZMclear :: "bytes list \<Rightarrow> DB \<Rightarrow> int res \<times> DB" where
  "ZMclear keys db =
     (case ZMclear_loop db keys [] of
        Inl e \<Rightarrow> (Inl e, db)
      | Inr t \<Rightarrow> commit_ret t (int (length keys)) db)"

definition ZRangeGeneric :: "bytes \<Rightarrow> i64 \<Rightarrow> i64 \<Rightarrow> bool \<Rightarrow> DB \<Rightarrow> ScorePair list res" where
  "ZRangeGeneric key start stop reverse db =
     (case zParseLimit key start stop db of
        Inl e \<Rightarrow> Inl e
      | Inr (offset, cnt) \<Rightarrow> zRange key MinScore MaxScore offset cnt reverse db)"

definition ZRange :: "bytes \<Rightarrow> i64 \<Rightarrow> i64 \<Rightarrow> DB \<Rightarrow> ScorePair list res" where
  "ZRange key start stop db = ZRangeGeneric key start stop False db"

definition ZRevRange :: "bytes \<Rightarrow> i64 \<Rightarrow> i64 \<Rightarrow> DB \<Rightarrow> ScorePair list res" where
  "ZRevRange key start stop db = ZRangeGeneric key start stop True db"

definition ZRangeByScoreGeneric :: "bytes \<Rightarrow> i64 \<Rightarrow> i64 \<Rightarrow> int \<Rightarrow> int \<Rightarrow> bool \<Rightarrow> DB \<Rightarrow> ScorePair list res" where
  "ZRangeByScoreGeneric key mn mx offset cnt reverse db = zRange key mn mx offset cnt reverse db"

definition ZRangeByScore :: "bytes \<Rightarrow> i64 \<Rightarrow> i64 \<Rightarrow> int \<Rightarrow> int \<Rightarrow> DB \<Rightarrow> ScorePair list res" where
  "ZRangeByScore key mn mx offset cnt db = ZRangeByScoreGeneric key mn mx offset cnt False db"

definition ZRevRangeByScore :: "bytes \<Rightarrow> i64 \<Rightarrow> i64 \<Rightarrow> int \<Rightarrow> int \<Rightarrow> DB \<Rightarrow> ScorePair list res" where
  "ZRevRangeByScore key mn mx offset cnt db = ZRangeByScoreGeneric key mn mx offset cnt True db"

definition ZRank :: "bytes \<Rightarrow> bytes \<Rightarrow> DB \<Rightarrow> int res" where
  "ZRank key member db = zrank key member False db"

definition ZRevRank :: "bytes \<Rightarrow> bytes \<Rightarrow> DB \<Rightarrow> int res" where
  "ZRevRank key member db = zrank key member True db"

definition ZRemRangeByRank :: "bytes \<Rightarrow> i64 \<Rightarrow> i64 \<Rightarrow> DB \<Rightarrow> i64 res \<times> DB" where
  "ZRemRangeByRank key start stop db =
     (case zParseLimit key start stop db of
        Inl e \<Rightarrow> (Inl e, db)
      | Inr (offset, cnt) \<Rightarrow>
          (case zRemRange db [] key MinScore MaxScore offset cnt of
             (Inl e, t) \<Rightarrow> (Inl e, db)
           | (Inr rmCnt, t) \<Rightarrow> commit_ret t rmCnt db))"

definition ZRemRangeByScore :: "bytes \<Rightarrow> i64 \<Rightarrow> i64 \<Rightarrow> DB \<Rightarrow> i64 res \<times> DB" where
  "ZRemRangeByScore key mn mx db =
     (case zRemRange db [] key mn mx 0 (-1) of
        (Inl e, t) \<Rightarrow> (Inl e, db)
      | (Inr rmCnt, t) \<Rightarrow> commit_ret t rmCnt db)"

definition ZExpire :: "bytes \<Rightarrow> i64 \<Rightarrow> DB \<Rightarrow> int res \<times> DB" where
  "ZExpire key duration db =
     (if sint duration \<le> 0 then (Inl ErrExpireValue, db)
      else zExpireAt key (now db + duration) db)"

definition ZExpireAt :: "bytes \<Rightarrow> i64 \<Rightarrow> DB \<Rightarrow> int res \<times> DB" where
  "ZExpireAt key when db =
     (if sint when \<le> sint (now db) then (Inl ErrExpireValue, db) else zExpireAt key when db)"

definition ZTTL :: "bytes \<Rightarrow> DB \<Rightarrow> i64 res" where
  "ZTTL key db = (case checkKeySize key of Inl e \<Rightarrow> Inl e | Inr u \<Rightarrow> ttl db ZSetType key)"

definition ZPersist :: "bytes \<Rightarrow> DB \<Rightarrow> i64 res \<times> DB" where
  "ZPersist key db =
     (case checkKeySize key of
        Inl e \<Rightarrow> (Inl e, db)
      | Inr u \<Rightarrow>
          (case rmExpire db [] ZSetType key of
             (Inl e, t) \<Rightarrow> (Inl e, db)
           | (Inr n, t) \<Rightarrow> commit_ret t n db))"

section \<open>Combining sorted sets\<close>

definition getAggregateFunc :: "byte \<Rightarrow> (i64 \<Rightarrow> i64 \<Rightarrow> i64) option" where
  "getAggregateFunc aggregate =
     (if aggregate = AggregateSum then Some (\<lambda>a b. a + b)
      else if aggregate = AggregateMax then Some (\<lambda>a b. if sint b < sint a then a else b)
      else if aggregate = AggregateMin then Some (\<lambda>a b. if sint b < sint a then b else a)
      else None)"

text \<open>The Go map \<open>destMap\<close> is an association list.\<close>

fun zUnion_members :: "(i64 \<Rightarrow> i64 \<Rightarrow> i64) \<Rightarrow> i64 \<Rightarrow> ScorePair list \<Rightarrow> (bytes \<times> i64) list \<Rightarrow> (bytes \<times> i64) list" where
  "zUnion_members f w [] dest = dest"
| "zUnion_members f w ((s, m) # ps) dest =
     zUnion_members f w ps
       (case map_of dest m of
          None \<Rightarrow> AList.update m (s * w) dest
        | Some score \<Rightarrow> AList.update m (f score (s * w)) dest)"

fun zUnion_loop :: "DB \<Rightarrow> (i64 \<Rightarrow> i64 \<Rightarrow> i64) \<Rightarrow> (bytes \<times> i64) list \<Rightarrow> (bytes \<times> i64) list \<Rightarrow> (bytes \<times> i64) list res" where
  "zUnion_loop db f [] dest = Inr dest"
| "zUnion_loop db f ((key, w) # srcs) dest =
     (case ZRange key 0 (-1) db of
        Inl e \<Rightarrow> Inl e
      | Inr ps \<Rightarrow> zUnion_loop db f srcs (zUnion_members f w ps dest))"

fun zInter_members :: "(i64 \<Rightarrow> i64 \<Rightarrow> i64) \<Rightarrow> i64 \<Rightarrow> (bytes \<times> i64) list \<Rightarrow> ScorePair list \<Rightarrow> (bytes \<times> i64) list \<Rightarrow> (bytes \<times> i64) list" where
  "zInter_members f w dest [] tmp = tmp"
| "zInter_members f w dest ((s, m) # ps) tmp =
     zInter_members f w dest ps
       (case map_of dest m of
          None \<Rightarrow> tmp
        | Some score \<Rightarrow> AList.update m (f score (s * w)) tmp)"

fun zInter_loop :: "DB \<Rightarrow> (i64 \<Rightarrow> i64 \<Rightarrow> i64) \<Rightarrow> (bytes \<times> i64) list \<Rightarrow> (bytes \<times> i64) list \<Rightarrow> (bytes \<times> i64) list res" where
  "zInter_loop db f [] dest = Inr dest"
| "zInter_loop db f ((key, w) # srcs) dest =
     (case ZRange key 0 (-1) db of
        Inl e \<Rightarrow> Inl e
      | Inr ps \<Rightarrow> zInter_loop db f srcs (zInter_members f w dest ps []))"

fun zStore_loop :: "DB \<Rightarrow> bytes \<Rightarrow> (bytes \<times> i64) list \<Rightarrow> wop list \<Rightarrow> wop list res" where
  "zStore_loop db destKey [] t = Inr t"
| "zStore_loop db destKey ((member, score) # dest) t =
     (case checkZSetKMSize destKey member of
        Inl e \<Rightarrow> Inl e
      | Inr u \<Rightarrow>
          (case zSetItem db t destKey score member of
             Inl e \<Rightarrow> Inl e
           | Inr (_, t) \<Rightarrow> zStore_loop db destKey dest t))"

text \<open>
  The checks at the start and the writes at the end are the same in both operations;
  the weights are all \<open>1\<close> if none are given.
\<close>

definition zStoreArgs ::
  "bytes list \<Rightarrow> i64 list option \<Rightarrow> byte \<Rightarrow> ((i64 \<Rightarrow> i64 \<Rightarrow> i64) \<times> i64 list) res" where
  "zStoreArgs srcKeys weights aggregate =
     (case getAggregateFunc aggregate of
        None \<Rightarrow> Inl ErrInvalidAggregate
      | Some f \<Rightarrow>
          if length srcKeys < 1 then Inl ErrInvalidSrcKeyNum
          else (case weights of
                  Some ws \<Rightarrow> if length srcKeys \<noteq> length ws then Inl ErrInvalidWeightNum else Inr (f, ws)
                | None \<Rightarrow> Inr (f, replicate (length srcKeys) 1)))"

definition zStoreMap ::
  "((bytes \<times> i64) list \<Rightarrow> (bytes \<times> i64) list) \<Rightarrow> bytes \<Rightarrow> (bytes \<times> i64) list \<Rightarrow> DB \<Rightarrow> i64 res \<times> DB" where
  "zStoreMap ord destKey dest db =
     (case zStore_loop db destKey (ord dest) (zDelete db [] destKey) of
        Inl e \<Rightarrow> (Inl e, db)
      | Inr t \<Rightarrow>
          let n = word_of_nat (length dest) in
          commit_ret (wb_Put (zEncodeSizeKey (indexVarBuf db) destKey) (PutInt64 n) t) n db)"

definition ZUnionStore ::
  "((bytes \<times> i64) list \<Rightarrow> (bytes \<times> i64) list) \<Rightarrow> bytes \<Rightarrow> bytes list \<Rightarrow> i64 list option \<Rightarrow> byte \<Rightarrow> DB \<Rightarrow> i64 res \<times> DB" where
  "ZUnionStore ord destKey srcKeys weights aggregate db =
     (case zStoreArgs srcKeys weights aggregate of
        Inl e \<Rightarrow> (Inl e, db)
      | Inr (f, ws) \<Rightarrow>
          (case zUnion_loop db f (zip srcKeys ws) [] of
             Inl e \<Rightarrow> (Inl e, db)
           | Inr dest \<Rightarrow> zStoreMap ord destKey dest db))"

definition ZInterStore ::
  "((bytes \<times> i64) list \<Rightarrow> (bytes \<times> i64) list) \<Rightarrow> bytes \<Rightarrow> bytes list \<Rightarrow> i64 list option \<Rightarrow> byte \<Rightarrow> DB \<Rightarrow> i64 res \<times> DB" where
  "ZInterStore ord destKey srcKeys weights aggregate db =
     (case zStoreArgs srcKeys weights aggregate of
        Inl e \<Rightarrow> (Inl e, db)
      | Inr (f, ws) \<Rightarrow>
          (case ZRange (hd srcKeys) 0 (-1) db of
             Inl e \<Rightarrow> (Inl e, db)
           | Inr ps \<Rightarrow>
               let dest = fold (\<lambda>(s, m). AList.update m (s * hd ws)) ps [] in
               case zInter_loop db f (zip (tl srcKeys) (tl ws)) dest of
                 Inl e \<Rightarrow> (Inl e, db)
               | Inr dest \<Rightarrow> zStoreMap ord destKey dest db))"

section \<open>Ranges of members\<close>

definition zLexBounds :: "bytes \<Rightarrow> bytes \<Rightarrow> bytes option \<Rightarrow> bytes option \<Rightarrow> bytes \<times> bytes" where
  "zLexBounds p key mn mx =
     ((case mn of None \<Rightarrow> zEncodeStartSetKey p key | Some m \<Rightarrow> zEncodeSetKey p key m),
      (case mx of None \<Rightarrow> zEncodeStopSetKey p key | Some m \<Rightarrow> zEncodeSetKey p key m))"

fun zLexMembers :: "bytes \<Rightarrow> (bytes \<times> bytes) list \<Rightarrow> bytes list" where
  "zLexMembers p [] = []"
| "zLexMembers p ((k, v) # es) =
     (case zDecodeSetKey p k of Inl e \<Rightarrow> zLexMembers p es | Inr (_, m) \<Rightarrow> m # zLexMembers p es)"

definition ZRangeByLex ::
  "bytes \<Rightarrow> bytes option \<Rightarrow> bytes option \<Rightarrow> byte \<Rightarrow> int \<Rightarrow> int \<Rightarrow> DB \<Rightarrow> bytes list res" where
  "ZRangeByLex key mn mx rangeType offset cnt db =
     (case zLexBounds (indexVarBuf db) key mn mx of
        (mn, mx) \<Rightarrow>
          Inr (zLexMembers (indexVarBuf db)
                 (rli_run (db_RangeLimitIterator db (Some mn) (Some mx) rangeType offset cnt))))"

definition ZRemRangeByLex :: "bytes \<Rightarrow> bytes option \<Rightarrow> bytes option \<Rightarrow> byte \<Rightarrow> DB \<Rightarrow> int res \<times> DB" where
  "ZRemRangeByLex key mn mx rangeType db =
     (case zLexBounds (indexVarBuf db) key mn mx of
        (mn, mx) \<Rightarrow>
          let es = rli_run (db_RangeLimitIterator db (Some mn) (Some mx) rangeType 0 (-1))
          in commit_ret (fold (\<lambda>e. wb_Delete (fst e)) es []) (int (length es)) db)"

definition ZLexCount :: "bytes \<Rightarrow> bytes option \<Rightarrow> bytes option \<Rightarrow> byte \<Rightarrow> DB \<Rightarrow> int res" where
  "ZLexCount key mn mx rangeType db =
     (case zLexBounds (indexVarBuf db) key mn mx of
        (mn, mx) \<Rightarrow> Inr (int (length (rli_run (db_RangeLimitIterator db (Some mn) (Some mx) rangeType 0 (-1))))))"

definition ZKeyExists :: "bytes \<Rightarrow> DB \<Rightarrow> int res" where
  "ZKeyExists key db =
     (case checkKeySize key of
        Inl e \<Rightarrow> Inl e
      | Inr u \<Rightarrow>
          (case bucket_Get db (zEncodeSizeKey (indexVarBuf db) key) of
             Inr (Some v) \<Rightarrow> Inr 1
           | Inr None \<Rightarrow> Inr 0
           | Inl e \<Rightarrow> Inl e))"

end
