(* ===== verification/Ledis_ZSet_Laws.thy ===== *)
theory Ledis_ZSet_Laws
  imports Ledis_Collection Ledis_ZSet "HOL-Library.Product_Lexorder"
begin

text \<open>
  What the operations on sorted sets do: the entries of a key represent a finite map from
  members to scores (\<open>zset_at\<close>), and the range of the score keys lists it by score and member.
\<close>

lemma zset_keys_neq:
  "zEncodeSizeKey p k \<noteq> zEncodeSetKey p k' f"
  "expEncodeMetaKey p dt k \<noteq> zEncodeSizeKey p k'" "expEncodeTimeKey p dt k w \<noteq> zEncodeSizeKey p k'"
  "expEncodeMetaKey p dt k \<noteq> zEncodeSetKey p k' f" "expEncodeTimeKey p dt k w \<noteq> zEncodeSetKey p k' f"
  by (auto simp: encoder_defs type_defs)

interpretation zsets: sized_collection ZSetType zEncodeSizeKey zEncodeSetKey zEncodeStartSetKey
  zEncodeStopSetKey "\<lambda>db key d t. zIncrSize db t key d"
  by unfold_locales
     (simp_all add: item_key_less zset_range zset_keys_neq zIncrSize_def Let_def split: sum.split)

abbreviation zitem :: "DB \<Rightarrow> bytes \<Rightarrow> bytes \<Rightarrow> bytes" where
  "zitem db key f \<equiv> zEncodeSetKey (indexVarBuf db) key f"

abbreviation zsize :: "DB \<Rightarrow> bytes \<Rightarrow> bytes" where
  "zsize db key \<equiv> zEncodeSizeKey (indexVarBuf db) key"

abbreviation zscore :: "DB \<Rightarrow> bytes \<Rightarrow> bytes \<Rightarrow> i64 \<Rightarrow> bytes" where
  "zscore db key f s \<equiv> zEncodeScoreKey (indexVarBuf db) key f s"

lemma score_keys_neq [simp]:
  "zEncodeScoreKey p k f s \<noteq> zEncodeSetKey p k' f'" "zEncodeScoreKey p k f s \<noteq> zEncodeSizeKey p k'"
  "zEncodeSetKey p k' f' \<noteq> zEncodeScoreKey p k f s" "zEncodeSizeKey p k' \<noteq> zEncodeScoreKey p k f s"
  "expEncodeMetaKey p dt k \<noteq> zEncodeScoreKey p k' f s" "expEncodeTimeKey p dt k w \<noteq> zEncodeScoreKey p k' f s"
  "zEncodeScoreKey p k' f s \<noteq> expEncodeMetaKey p dt k" "zEncodeScoreKey p k' f s \<noteq> expEncodeTimeKey p dt k w"
  "zEncodeSetKey p k' f = zEncodeSetKey p k' f' \<longleftrightarrow> f = f'"
  by (auto simp: encoder_defs type_defs)

lemma score_key_inj [simp]: "zEncodeScoreKey p k f s = zEncodeScoreKey p k f' s' \<longleftrightarrow> f = f' \<and> s = s'"
proof
  assume "zEncodeScoreKey p k f s = zEncodeScoreKey p k f' s'"
  then have "\<not> (sint s < sint s' \<or> s = s' \<and> f < f')" "\<not> (sint s' < sint s \<or> s' = s \<and> f' < f)"
    using score_key_less [of p k f s f' s'] score_key_less [of p k f' s' f s] by simp_all
  then show "f = f' \<and> s = s'"
    by (metis linorder_neqE signed_word_eqI)
qed simp

definition score_map :: "(bytes \<rightharpoonup> i64) \<Rightarrow> bytes \<rightharpoonup> bytes" where
  "score_map m f = map_option PutInt64 (m f)"

lemma score_map_dom [simp]: "dom (score_map m) = dom m"
  by (auto simp: score_map_def)

lemma score_map_None [simp]: "score_map m f = None \<longleftrightarrow> m f = None"
  by (simp add: score_map_def)

lemma score_map_upd: "(score_map m)(f \<mapsto> PutInt64 s) = score_map (m(f \<mapsto> s))"
  by (auto simp: score_map_def)

abbreviation zitems_at :: "DB \<Rightarrow> bytes \<Rightarrow> (bytes \<rightharpoonup> bytes) \<Rightarrow> bool" where
  "zitems_at \<equiv> coll_at zEncodeSizeKey zEncodeSetKey"

definition zscore_ok :: "i64 \<Rightarrow> bool" where
  "zscore_ok s \<longleftrightarrow> sint MinScore < sint s \<and> sint s < sint MaxScore"

definition zscores_ok :: "(bytes \<rightharpoonup> i64) \<Rightarrow> bool" where
  "zscores_ok m \<longleftrightarrow> (\<forall>f s. m f = Some s \<longrightarrow> zscore_ok s)"

definition zset_at :: "DB \<Rightarrow> bytes \<Rightarrow> (bytes \<rightharpoonup> i64) \<Rightarrow> bool" where
  "zset_at db key m \<longleftrightarrow> zitems_at db key (score_map m) \<and> zscores_ok m \<and>
     (\<forall>f s. contents db (zscore db key f s) = (if m f = Some s then Some [] else None))"

lemma zset_at_items: "zset_at db key m \<Longrightarrow> zitems_at db key (score_map m)"
  by (simp add: zset_at_def)

lemma zset_at_get: "zset_at db key m \<Longrightarrow> contents db (zitem db key f) = score_map m f"
  by (simp add: zset_at_def coll_at_def)

lemma zset_at_score:
  "zset_at db key m \<Longrightarrow> contents db (zscore db key f s) = (if m f = Some s then Some [] else None)"
  by (simp add: zset_at_def)

lemma zset_at_finite: "zset_at db key m \<Longrightarrow> finite (dom m)" "zset_at db key m \<Longrightarrow> card (dom m) < 2 ^ 63"
  by (simp_all add: zset_at_def coll_at_def)

definition zscore_at :: "DB \<Rightarrow> bytes \<Rightarrow> (bytes \<rightharpoonup> i64) \<Rightarrow> bool" where
  "zscore_at db key m \<longleftrightarrow> finite (dom m) \<and>
     (\<forall>f s. contents db (zscore db key f s) = (if m f = Some s then Some [] else None))"

lemma zset_at_scores: "zset_at db key m \<Longrightarrow> zscore_at db key m"
  using zset_at_finite(1) by (simp add: zscore_at_def zset_at_def)

section \<open>The order by score and member\<close>

definition zless :: "ScorePair \<Rightarrow> ScorePair \<Rightarrow> bool" where
  "zless a b \<longleftrightarrow> sint (fst a) < sint (fst b) \<or> fst a = fst b \<and> snd a < snd b"

definition zlist :: "(bytes \<rightharpoonup> i64) \<Rightarrow> ScorePair list" where
  "zlist m = map (\<lambda>(i, f). (word_of_int i, f)) (sorted_list_of_set ((\<lambda>f. (sint (the (m f)), f)) ` dom m))"

lemma set_zlist: "finite (dom m) \<Longrightarrow> set (zlist m) = {(s, f). m f = Some s}"
  by (force simp: zlist_def image_iff)

lemma length_zlist [simp]: "length (zlist m) = card (dom m)"
  by (simp add: zlist_def card_image inj_on_def)

lemma sorted_zlist:
  assumes "finite (dom m)"
  shows "sorted_wrt zless (zlist m)"
proof -
  let ?A = "(\<lambda>f. (sint (the (m f)), f)) ` dom m"
  have "sorted_wrt (<) (sorted_list_of_set ?A)"
    by simp
  then have "sorted_wrt (\<lambda>x y. zless (case x of (i, f) \<Rightarrow> (word_of_int i, f)) (case y of (i, f) \<Rightarrow> (word_of_int i, f)))
      (sorted_list_of_set ?A)"
    by (rule sorted_wrt_mono_rel [rotated])
       (use assms in \<open>auto simp: zless_def less_prod_def'\<close>)
  then show ?thesis
    by (simp add: zlist_def sorted_wrt_map)
qed

lemma zless_key: "zless a b \<longleftrightarrow> zEncodeScoreKey p k (snd a) (fst a) < zEncodeScoreKey p k (snd b) (fst b)"
  by (simp add: zless_def score_key_less)

lemma kv_ok_set_ext:
  assumes "kv_ok a" "kv_ok b" "set a = set b"
  shows "a = b"
proof (rule kv_ok_ext [OF assms(1,2)], rule ext)
  fix k
  show "kv_get a k = kv_get b k"
    using kv_get_iff_mem [OF assms(1), of k] kv_get_iff_mem [OF assms(2), of k] assms(3)
    by (cases "kv_get a k"; cases "kv_get b k") auto
qed

text \<open>An entry between two score keys of a sorted set is a score key of this sorted set.\<close>

lemma score_key_between:
  assumes "db_ok db" "key16 key" "contents db ek = Some v"
    and "zEncodeStartScoreKey (indexVarBuf db) key a \<le> ek" "ek \<le> zEncodeStopScoreKey (indexVarBuf db) key b"
  shows "\<exists>f s. ek = zscore db key f s"
proof -
  let ?p = "indexVarBuf db"
  have st: "zEncodeStopScoreKey ?p key b = (?p @ ZScoreType # keyLen16 key @ key) @
      (if sint b < 0 then zsetNScoreSep else zsetPScoreSep) # put_be64 b @ [zsetStopMemSep]"
    by (simp add: zEncodeStopScoreKey_def zEncodeScoreKey_def list_update_append)
  have sa: "zEncodeStartScoreKey ?p key a = (?p @ ZScoreType # keyLen16 key @ key) @
      (if sint a < 0 then zsetNScoreSep else zsetPScoreSep) # put_be64 a @ [zsetStartMemSep]"
    by (simp add: zEncodeStartScoreKey_def zEncodeScoreKey_def)
  obtain r where r: "ek = (?p @ ZScoreType # keyLen16 key @ key) @ r"
    using between_prefix assms(4,5) unfolding sa st by blast
  then obtain lk where lk: "lkey_ok lk" "ek = lkey_encode ?p lk"
    using assms(1,3) unfolding db_ok_def key_ok_def by (metis append.assoc)
  obtain xs where "lkey_encode ?p lk = ?p @ lkey_type lk # xs"
    using lkey_encode_type by blast
  then have "lkey_type lk = ZScoreType"
    using lk(2) r by simp
  then obtain k f s where k: "lk = ZScoreKey k f s" "key16 k"
    using lk(1) by (cases lk) (auto simp: type_defs)
  have "k = key"
    using lk(2) r k assms(2) by (auto simp: zEncodeScoreKey_def keyLen16_eq)
  with k lk show ?thesis by auto
qed

lemma score_entries:
  assumes "db_ok db" "key16 key" "zscore_at db key m"
    and "\<And>ek v. contents db ek = Some v \<Longrightarrow> Q ek \<Longrightarrow> \<exists>f s. ek = zscore db key f s"
  shows "filter (\<lambda>e. Q (fst e)) (ldb db) =
    map (\<lambda>(s, f). (zscore db key f s, [])) (filter (\<lambda>(s, f). Q (zscore db key f s)) (zlist m))"
proof (rule kv_ok_set_ext)
  have fin: "finite (dom m)" and sc: "contents db (zscore db key f s) = (if m f = Some s then Some [] else None)" for f s
    using assms(3) by (simp_all add: zscore_at_def)
  have ok: "kv_ok (ldb db)"
    using assms(1) by simp
  then show "kv_ok (filter (\<lambda>e. Q (fst e)) (ldb db))"
    by (rule kv_ok_filter)
  have "sorted_wrt (\<lambda>a b. zscore db key (snd a) (fst a) < zscore db key (snd b) (fst b)) (zlist m)"
    using sorted_zlist [OF fin] unfolding zless_key [of _ _ "indexVarBuf db" key] by simp
  then show "kv_ok (map (\<lambda>(s, f). (zscore db key f s, [])) (filter (\<lambda>(s, f). Q (zscore db key f s)) (zlist m)))"
    by (simp add: kv_ok_def sorted_wrt_map sorted_wrt_filter case_prod_unfold)
  show "set (filter (\<lambda>e. Q (fst e)) (ldb db)) =
      set (map (\<lambda>(s, f). (zscore db key f s, [])) (filter (\<lambda>(s, f). Q (zscore db key f s)) (zlist m)))"
      (is "?L = ?R")
  proof (rule set_eqI)
    fix e :: "bytes \<times> bytes"
    obtain ek v where e: "e = (ek, v)" by fastforce
    have "e \<in> ?L \<longleftrightarrow> Q ek \<and> contents db ek = Some v"
      using kv_get_iff_mem [OF ok] e by auto
    also have "\<dots> \<longleftrightarrow> (\<exists>f s. ek = zscore db key f s \<and> v = [] \<and> Q ek \<and> m f = Some s)"
      using assms(4) sc by (metis option.distinct(1) option.inject)
    also have "\<dots> \<longleftrightarrow> e \<in> ?R"
      using set_zlist [OF fin] e by auto
    finally show "e \<in> ?L \<longleftrightarrow> e \<in> ?R" .
  qed
qed

definition score_in :: "i64 \<Rightarrow> i64 \<Rightarrow> ScorePair \<Rightarrow> bool" where
  "score_in a b x \<longleftrightarrow> sint a \<le> sint (fst x) \<and> sint (fst x) \<le> sint b"

lemma score_range_entries:
  assumes "db_ok db" "key16 key" "zscore_at db key m"
  shows "filter (\<lambda>e. zEncodeStartScoreKey (indexVarBuf db) key a \<le> fst e \<and>
      fst e \<le> zEncodeStopScoreKey (indexVarBuf db) key b) (ldb db) =
    map (\<lambda>(s, f). (zscore db key f s, [])) (filter (score_in a b) (zlist m))"
proof -
  have "score_in a b = (\<lambda>(s, f). zEncodeStartScoreKey (indexVarBuf db) key a \<le> zscore db key f s \<and>
      zscore db key f s \<le> zEncodeStopScoreKey (indexVarBuf db) key b)"
    by (simp add: fun_eq_iff score_in_def score_range)
  then show ?thesis
    using score_entries [OF assms, where Q = "\<lambda>ek. zEncodeStartScoreKey (indexVarBuf db) key a \<le> ek \<and>
      ek \<le> zEncodeStopScoreKey (indexVarBuf db) key b"] score_key_between [OF assms(1,2)]
    by (metis (no_types, lifting) less_imp_le)
qed

lemma score_range_entries_open:
  assumes "db_ok db" "key16 key" "zscore_at db key m"
  shows "filter (\<lambda>e. zEncodeStartScoreKey (indexVarBuf db) key a \<le> fst e \<and>
      fst e < zEncodeStopScoreKey (indexVarBuf db) key b) (ldb db) =
    map (\<lambda>(s, f). (zscore db key f s, [])) (filter (score_in a b) (zlist m))"
proof -
  have "score_in a b = (\<lambda>(s, f). zEncodeStartScoreKey (indexVarBuf db) key a \<le> zscore db key f s \<and>
      zscore db key f s < zEncodeStopScoreKey (indexVarBuf db) key b)"
    by (simp add: fun_eq_iff score_in_def score_range)
  then show ?thesis
    using score_entries [OF assms, where Q = "\<lambda>ek. zEncodeStartScoreKey (indexVarBuf db) key a \<le> ek \<and>
      ek < zEncodeStopScoreKey (indexVarBuf db) key b"] score_key_between [OF assms(1,2)]
    by (metis (no_types, lifting) less_imp_le)
qed

section \<open>Reading\<close>

definition zmember_ok :: "bytes \<Rightarrow> bool" where
  "zmember_ok x \<longleftrightarrow> 0 < length x \<and> length x \<le> MaxZSetMemberSize"

lemma checkZSetKMSize_ok [simp]: "key_size_ok key \<Longrightarrow> zmember_ok x \<Longrightarrow> checkZSetKMSize key x = Inr ()"
  by (simp add: checkZSetKMSize_def key_size_ok_def zmember_ok_def)

lemma checkZSetKMSize_key16: "checkZSetKMSize key x = Inr u \<Longrightarrow> key16 key"
  by (auto simp: checkZSetKMSize_def key16_def MaxKeySize_def split: if_splits)

lemma ZCard_ok: "zset_at db key m \<Longrightarrow> key_size_ok key \<Longrightarrow> ZCard key db = Inr (word_of_nat (card (dom m)))"
  by (simp add: ZCard_def zset_at_def coll_at_def)

lemma ZKeyExists_ok:
  "zset_at db key m \<Longrightarrow> key_size_ok key \<Longrightarrow> ZKeyExists key db = Inr (if dom m = {} then 0 else 1)"
  by (auto simp: ZKeyExists_def zset_at_def coll_at_def size_entry_def)

lemma ZScore_ok:
  "zset_at db key m \<Longrightarrow> key_size_ok key \<Longrightarrow> zmember_ok f \<Longrightarrow>
     ZScore key f db = (case m f of None \<Rightarrow> Inl ErrScoreMiss | Some s \<Rightarrow> Inr s)"
  by (cases "m f") (simp_all add: ZScore_def zset_at_get score_map_def)

lemma ZCount_ok:
  assumes "db_ok db" "zset_at db key m" "key_size_ok key"
  shows "ZCount key a b db = Inr (int (length (filter (score_in a b) (zlist m))))"
  using assms score_range_entries_open [OF assms(1) _ zset_at_scores [OF assms(2)], of a b]
  by (simp add: ZCount_def range_filter)

lemma limit_entries_map: "limit_entries l (map g xs) = map g (limit_entries l xs)"
  by (simp add: limit_entries_def limited_def drop_map take_map)

lemma zIterator_run:
  assumes "db_ok db" "zscore_at db key m" "key16 key"
  shows "rli_run (zIterator key a b off n rv db) = map (\<lambda>(s, f). (zscore db key f s, []))
    (limit_entries \<lparr>Offset = off, Count = n\<rparr>
      ((if rv then rev else id) (filter (score_in a b) (zlist m))))"
  using assms
  by (simp add: zIterator_def Let_def range_filter score_range_entries limit_entries_map rev_map)

lemma zPairs_ok: "key16 key \<Longrightarrow> zPairs p (map (\<lambda>(s, f). (zEncodeScoreKey p key f s, [])) l) = l"
  by (induction l) auto

lemma zRange_ok:
  assumes "db_ok db" "zscore_at db key m" "key_size_ok key"
  shows "zRange key a b off n rv db =
    Inr (limit_entries \<lparr>Offset = off, Count = n\<rparr> ((if rv then rev else id) (filter (score_in a b) (zlist m))))"
proof -
  have "\<not> MaxKeySize < length key" "key16 key"
    using assms(3) by (simp_all add: key_size_ok_def)
  then show ?thesis
    using assms(1,2)
    by (auto simp: zRange_def zIterator_run zPairs_ok limit_entries_def limited_def Let_def)
qed

lemma score_in_all: "zset_at db key m \<Longrightarrow> filter (score_in MinScore MaxScore) (zlist m) = zlist m"
  using set_zlist [OF zset_at_finite(1) [of db key m]]
  by (auto simp: filter_id_conv zset_at_def score_in_def zscores_ok_def zscore_ok_def less_imp_le)

text \<open>\<open>zParseLimit\<close> gives the offset and the count of the range that \<open>range_of\<close> cuts out.\<close>

lemma range_of_limit:
  assumes "A = max 0 (list_index a xs)" "B = list_index b xs"
    and "c = B - A + 1 \<or> c < 0 \<and> int (length xs) \<le> B - A + 1"
  shows "range_of a b xs = (if B < A \<or> int (length xs) \<le> A then []
    else limit_entries \<lparr>Offset = A, Count = c\<rparr> xs)"
  using assms(3) unfolding range_of_def Let_def assms(1) [symmetric] assms(2) [symmetric]
  by (auto simp: limit_entries_def limited_def assms(1) min_def nat_le_iff)

lemma range_count:
  fixes a b :: i64
  assumes "0 \<le> sint a" "sint a \<le> sint b" "n < 2 ^ 63"
  shows "sint (b - a + 1) = sint b - sint a + 1 \<or> sint (b - a + 1) < 0 \<and> n \<le> sint b - sint a + 1"
proof -
  have e: "b - a + 1 = word_of_int (sint b - sint a + 1)"
    by simp
  show ?thesis
  proof (cases "sint b - sint a + 1 < 2 ^ 63")
    case True
    then show ?thesis
      using assms(1,2) sint64_of_int [of "sint b - sint a + 1"] unfolding e by simp
  next
    case False
    then have "sint b - sint a + 1 = 2 ^ 63"
      using assms sint64_bounds [of b] by simp
    then show ?thesis
      using assms(3) unfolding e by (simp only:) simp
  qed
qed

lemma zParseLimit_ok:
  assumes "zset_at db key m" "key_size_ok key" "length ys = card (dom m)"
  shows "\<exists>off c. zParseLimit key start stop db = Inr (off, c) \<and>
    limit_entries \<lparr>Offset = off, Count = c\<rparr> ys = range_of (sint start) (sint stop) ys"
proof -
  let ?n = "int (length ys)"
  let ?w = "\<lambda>i :: i64. if sint i < 0 then word_of_nat (card (dom m)) + i else i"
  define a where "a = (if sint (?w start) < 0 then 0 else ?w start)"
  define b where "b = ?w stop"
  have n: "?n < 2 ^ 63"
    using zset_at_finite(2) [OF assms(1)] assms(3) by simp
  have w: "sint (?w i) = list_index (sint i) ys" for i
    using sint64_add [of "word_of_nat (card (dom m))" i] sint64_of_nat [of "card (dom m)"] sint64_bounds [of i] n
    by (auto simp: list_index_def assms(3))
  have ab: "sint a = max 0 (list_index (sint start) ys)" "sint b = list_index (sint stop) ys"
    by (simp_all add: a_def b_def w max_def)
  have l: "sint (word_of_nat (card (dom m)) :: i64) = ?n"
    using sint64_of_nat n assms(3) by simp
  have none: "limit_entries \<lparr>Offset = -1, Count = 0\<rparr> ys = []"
    by (simp add: limit_entries_def)
  have drop: "limit_entries \<lparr>Offset = sint a, Count = c\<rparr> ys = []" if "?n \<le> sint a" for c
    using that by (simp add: limit_entries_def limited_def)
  note r = range_of_limit [OF ab, of "sint (b - a + 1)"]
  have eq: "limit_entries \<lparr>Offset = sint a, Count = sint (b - a + 1)\<rparr> ys = range_of (sint start) (sint stop) ys"
    if "sint a \<le> sint b"
    using r range_count [OF _ that n] ab(1) drop that by auto
  have p: "zParseLimit key start stop db =
      (if (sint start < 0 \<or> sint stop < 0) \<and> ?n \<le> sint a \<or> sint b < sint a then Inr (-1, 0)
       else Inr (sint a, sint (b - a + 1)))"
    unfolding zParseLimit_def ZCard_ok [OF assms(1,2)] Let_def sum.case a_def [symmetric] b_def [symmetric] l
    using a_def b_def by auto
  have empty: "range_of (sint start) (sint stop) ys = []" if "sint b < sint a \<or> ?n \<le> sint a"
    using range_of_limit [OF ab, of "sint b - sint a + 1"] that by simp
  show ?thesis
  proof (cases "(sint start < 0 \<or> sint stop < 0) \<and> ?n \<le> sint a \<or> sint b < sint a")
    case True
    then show ?thesis
      using p none empty by auto
  next
    case False
    then show ?thesis
      using p eq by auto
  qed
qed

lemma ZRangeGeneric_ok:
  assumes "db_ok db" "zset_at db key m" "key_size_ok key"
  shows "ZRangeGeneric key start stop rv db =
    Inr (range_of (sint start) (sint stop) ((if rv then rev else id) (zlist m)))"
proof -
  obtain off c where "zParseLimit key start stop db = Inr (off, c)"
      "limit_entries \<lparr>Offset = off, Count = c\<rparr> ((if rv then rev else id) (zlist m)) =
        range_of (sint start) (sint stop) ((if rv then rev else id) (zlist m))"
    using zParseLimit_ok [OF assms(2,3), of "(if rv then rev else id) (zlist m)" start stop] by (cases rv) auto
  then show ?thesis
    by (simp only: ZRangeGeneric_def sum.case prod.case zRange_ok [OF assms(1) zset_at_scores [OF assms(2)] assms(3)]
        score_in_all [OF assms(2)])
qed

text \<open>Ranks are positions in the order by score and member.\<close>

lemma filter_upto:
  fixes g :: "'a \<Rightarrow> 'b :: linorder"
  assumes "sorted_wrt (\<lambda>x y. g x < g y) xs" "i < length xs"
  shows "filter (\<lambda>x. g x \<le> g (xs ! i)) xs = take (Suc i) xs"
    and "filter (\<lambda>x. g (xs ! i) \<le> g x) xs = drop i xs"
    and "filter (\<lambda>x. g x < g (xs ! i)) xs = take i xs"
    and "filter (\<lambda>x. g (xs ! i) < g x) xs = drop (Suc i) xs"
proof -
  obtain us x vs where xs: "xs = us @ x # vs" "length us = i"
    using id_take_nth_drop [OF assms(2)] assms(2) by (metis length_take min.absorb4)
  have "filter (\<lambda>x'. g x' \<le> g x) us = us" "filter (\<lambda>x'. g x' \<le> g x) vs = []"
    "filter (\<lambda>x'. g x \<le> g x') us = []" "filter (\<lambda>x'. g x \<le> g x') vs = vs"
    "filter (\<lambda>x'. g x' < g x) us = us" "filter (\<lambda>x'. g x' < g x) vs = []"
    "filter (\<lambda>x'. g x < g x') us = []" "filter (\<lambda>x'. g x < g x') vs = vs"
    using assms(1) unfolding xs
    by (auto simp: sorted_wrt_append filter_id_conv filter_empty_conv not_le not_less less_imp_le)
  then show "filter (\<lambda>x. g x \<le> g (xs ! i)) xs = take (Suc i) xs"
    "filter (\<lambda>x. g (xs ! i) \<le> g x) xs = drop i xs"
    "filter (\<lambda>x. g x < g (xs ! i)) xs = take i xs" "filter (\<lambda>x. g (xs ! i) < g x) xs = drop (Suc i) xs"
    using xs(2) [symmetric] by (simp_all add: xs(1))
qed

lemma score_entries_upto:
  assumes "db_ok db" "key16 key" "zset_at db key m" "i < card (dom m)" "zlist m ! i = (s, f)"
  shows "filter (\<lambda>e. zEncodeStartScoreKey (indexVarBuf db) key MinScore \<le> fst e \<and> fst e \<le> zscore db key f s) (ldb db) =
      map (\<lambda>(s, f). (zscore db key f s, [])) (take (Suc i) (zlist m))"
    and "filter (\<lambda>e. zscore db key f s \<le> fst e \<and> fst e \<le> zEncodeStopScoreKey (indexVarBuf db) key MaxScore) (ldb db) =
      map (\<lambda>(s, f). (zscore db key f s, [])) (drop i (zlist m))"
proof -
  let ?p = "indexVarBuf db" and ?k = "\<lambda>x. zscore db key (snd x) (fst x)"
  let ?a = "zEncodeStartScoreKey ?p key MinScore" and ?b = "zEncodeStopScoreKey ?p key MaxScore"
  note fin = zset_at_finite(1) [OF assms(3)]
  have sorted: "sorted_wrt (\<lambda>a b. ?k a < ?k b) (zlist m)"
    using sorted_zlist [OF fin] unfolding zless_key [of _ _ ?p key] by simp
  have bounds: "\<forall>x \<in> set (zlist m). ?a \<le> ?k x \<and> ?k x \<le> ?b"
    using score_in_all [OF assms(3)] by (auto simp: filter_id_conv score_in_def score_range)
  have k: "?k (zlist m ! i) = zscore db key f s" "zlist m ! i \<in> set (zlist m)" "i < length (zlist m)"
    using assms(4,5) nth_mem [of i "zlist m"] by simp_all
  note u = filter_upto [OF sorted k(3), unfolded k(1)]
  note e = score_entries [OF assms(1,2) zset_at_scores [OF assms(3)]]
  have "filter (\<lambda>(s', f'). ?a \<le> zscore db key f' s' \<and> zscore db key f' s' \<le> zscore db key f s) (zlist m) =
      take (Suc i) (zlist m)"
    using bounds u(1) by (auto simp: case_prod_unfold cong: filter_cong)
  moreover have "\<exists>f' s'. ek = zscore db key f' s'"
    if "contents db ek = Some v" "?a \<le> ek \<and> ek \<le> zscore db key f s" for ek v
    using score_key_between [OF assms(1,2) that(1)] that(2) bounds k(1,2) by (metis order_trans)
  ultimately show "filter (\<lambda>e. ?a \<le> fst e \<and> fst e \<le> zscore db key f s) (ldb db) =
      map (\<lambda>(s, f). (zscore db key f s, [])) (take (Suc i) (zlist m))"
    using e [of "\<lambda>ek. ?a \<le> ek \<and> ek \<le> zscore db key f s"] by simp
  have "filter (\<lambda>(s', f'). zscore db key f s \<le> zscore db key f' s' \<and> zscore db key f' s' \<le> ?b) (zlist m) =
      drop i (zlist m)"
    using bounds u(2) by (auto simp: case_prod_unfold cong: filter_cong)
  moreover have "\<exists>f' s'. ek = zscore db key f' s'"
    if "contents db ek = Some v" "zscore db key f s \<le> ek \<and> ek \<le> ?b" for ek v
    using score_key_between [OF assms(1,2) that(1)] that(2) bounds k(1,2) by (metis order_trans)
  ultimately show "filter (\<lambda>e. zscore db key f s \<le> fst e \<and> fst e \<le> ?b) (ldb db) =
      map (\<lambda>(s, f). (zscore db key f s, [])) (drop i (zlist m))"
    using e [of "\<lambda>ek. zscore db key f s \<le> ek \<and> ek \<le> ?b"] by simp
qed

text \<open>The rank of a member is the number of members that sort before it, or after it in reverse.\<close>

definition rank_of :: "bool \<Rightarrow> bytes \<Rightarrow> (bytes \<rightharpoonup> i64) \<Rightarrow> int" where
  "rank_of rv f m =
     (case m f of
        None \<Rightarrow> -1
      | Some s \<Rightarrow> int (length (filter (\<lambda>x. if rv then zless (s, f) x else zless x (s, f)) (zlist m))))"

lemma zrank_ok:
  assumes "db_ok db" "zset_at db key m" "key_size_ok key" "zmember_ok f"
  shows "zrank key f rv db = Inr (rank_of rv f m)"
proof (cases "m f")
  case None
  then show ?thesis
    using assms by (simp add: zrank_def it_Find_get NewIterator_def zset_at_get rank_of_def score_map_def)
next
  case (Some s)
  let ?p = "indexVarBuf db" and ?it = "Seek (zitem db key f) (NewIterator (ldb db))"
  note fin = zset_at_finite(1) [OF assms(2)]
  have "(s, f) \<in> set (zlist m)"
    using Some set_zlist [OF fin] by simp
  then obtain i where i: "i < card (dom m)" "zlist m ! i = (s, f)"
    by (auto simp: in_set_conv_nth)
  have sorted: "sorted_wrt (\<lambda>a b. zscore db key (snd a) (fst a) < zscore db key (snd b) (fst b)) (zlist m)"
    using sorted_zlist [OF fin] unfolding zless_key [of _ _ ?p key] by simp
  have il: "i < length (zlist m)" using i(1) by simp
  have r: "filter (\<lambda>x. zless x (s, f)) (zlist m) = take i (zlist m)"
      "filter (zless (s, f)) (zlist m) = drop (Suc i) (zlist m)"
    using filter_upto(3,4) [OF sorted il] unfolding zless_key [of _ _ ?p key] i(2) by simp_all
  have it: "kv_ok (it_data ?it)" "it_data ?it = ldb db"
    using assms(1) by (simp_all add: NewIterator_def)
  have u: "rli_run (NewRangeIterator ?it \<lparr>rMin = Some (zEncodeStartScoreKey ?p key MinScore),
      rMax = Some (zscore db key f s), rType = RangeClose\<rparr>) =
      map (\<lambda>(s, f). (zscore db key f s, [])) (take (Suc i) (zlist m))"
    and d: "rli_run (NewRevRangeIterator ?it \<lparr>rMin = Some (zscore db key f s),
      rMax = Some (zEncodeStopScoreKey ?p key MaxScore), rType = RangeClose\<rparr>) =
      rev (map (\<lambda>(s, f). (zscore db key f s, [])) (drop i (zlist m)))"
    using rli_run_range [OF it(1)] score_entries_upto [OF assms(1) _ assms(2) i] assms(3) it(2)
    by (simp_all add: NewRangeIterator_def NewRevRangeIterator_def directed_def range_filter)
  have l: "last (take (Suc i) (zlist m)) = (s, f)" "hd (drop i (zlist m)) = (s, f)"
    using i il by (simp_all add: take_Suc_conv_app_nth hd_drop_conv_nth)
  have n: "take (Suc i) (zlist m) \<noteq> []" "drop i (zlist m) \<noteq> []"
    using il by (auto simp del: length_zlist)
  have "it_Find (zitem db key f) (NewIterator (ldb db)) = (Some (PutInt64 s), ?it)"
    using assms(1,2) Some by (simp add: it_Find_get NewIterator_def zset_at_get score_map_def)
  then show ?thesis
    using assms(3,4) Some n i(1) unfolding zrank_def Let_def
    by (cases rv) (simp_all add: u d r l last_map last_rev hd_map rank_of_def)
qed

end
