(* ===== verification/Ledis_ZSet_Write.thy ===== *)
theory Ledis_ZSet_Write
  imports Ledis_ZSet_Laws
begin

text \<open>
  The writes of sorted sets keep the two entries of every member and the number of members in
  step, as long as no operation names a member twice.
\<close>

definition zrep :: "DB \<Rightarrow> bytes \<Rightarrow> (bytes \<rightharpoonup> bytes) \<Rightarrow> (bytes \<rightharpoonup> i64) \<Rightarrow> bool" where
  "zrep db key M m \<longleftrightarrow> (\<forall>f. M (zitem db key f) = score_map m f) \<and>
     (\<forall>f s. M (zscore db key f s) = (if m f = Some s then Some [] else None))"

lemma zset_at_rep: "zset_at db key m \<Longrightarrow> zrep db key (contents db) m"
  by (simp add: zrep_def zset_at_def coll_at_def)

lemma zset_at_committed:
  assumes "writable db" "zrep db key (wb_effect t (contents db)) m" "finite (dom m)" "card (dom m) < 2 ^ 63"
    and "wb_effect t (contents db) (zsize db key) = size_entry (card (dom m))" "zscores_ok m"
  shows "zset_at (committed t db) key m"
  using assms by (simp add: zset_at_def zrep_def coll_at_def)

lemma zrep_same:
  assumes "zrep db key M m" "\<And>f. M' (zitem db key f) = M (zitem db key f)"
    and "\<And>f s. M' (zscore db key f s) = M (zscore db key f s)"
  shows "zrep db key M' m"
  using assms by (simp add: zrep_def)

text \<open>What the operations add to the batch for one member.\<close>

definition zput :: "DB \<Rightarrow> bytes \<Rightarrow> (bytes \<rightharpoonup> i64) \<Rightarrow> ScorePair \<Rightarrow> wop list" where
  "zput db key m x =
     (case m (snd x) of None \<Rightarrow> [] | Some s \<Rightarrow> [WDel (zscore db key (snd x) s)]) @
     [WPut (zitem db key (snd x)) (PutInt64 (fst x)), WPut (zscore db key (snd x) (fst x)) []]"

lemma zput_rep:
  "zrep db key M m' \<Longrightarrow> m' f \<in> {m f, None} \<Longrightarrow> zrep db key (wb_effect (zput db key m (s, f)) M) (m'(f \<mapsto> s))"
  by (cases "m f") (auto simp: zrep_def zput_def score_map_def)

lemma zputs_rep:
  "zrep db key M m' \<Longrightarrow> distinct (map snd args) \<Longrightarrow> \<forall>f \<in> snd ` set args. m' f \<in> {m f, None} \<Longrightarrow>
     zrep db key (wb_effect (concat (map (zput db key m) args)) M) (m' ++ map_of (map prod.swap args))"
proof (induction args arbitrary: M m')
  case (Cons a args)
  obtain s f where a: "a = (s, f)" by fastforce
  have z: "zrep db key (wb_effect (zput db key m (s, f)) M) (m'(f \<mapsto> s))"
    using Cons.prems a by (intro zput_rep) auto
  have "zrep db key (wb_effect (concat (map (zput db key m) args)) (wb_effect (zput db key m (s, f)) M))
      (m'(f \<mapsto> s) ++ map_of (map prod.swap args))"
    by (rule Cons.IH [OF z]) (use Cons.prems a in auto)
  moreover have "m'(f \<mapsto> s) ++ map_of (map prod.swap args) = m' ++ map_of (map prod.swap (a # args))"
    using Cons.prems(2) a by (simp add: map_add_upd_left dom_map_of_conv_image_fst image_image)
  ultimately show ?case
    by (simp only: a list.map concat.simps wb_effect_append)
qed simp

definition zdel :: "DB \<Rightarrow> bytes \<Rightarrow> (bytes \<rightharpoonup> i64) \<Rightarrow> bytes \<Rightarrow> wop list" where
  "zdel db key m f =
     (case m f of None \<Rightarrow> [] | Some s \<Rightarrow> [WDel (zscore db key f s), WDel (zitem db key f)])"

lemma zdel_rep:
  "zrep db key M m' \<Longrightarrow> m' f \<in> {m f, None} \<Longrightarrow> zrep db key (wb_effect (zdel db key m f) M) (m'(f := None))"
  by (cases "m f") (auto simp: zrep_def zdel_def score_map_def)

lemma zdels_rep:
  "zrep db key M m' \<Longrightarrow> \<forall>f \<in> set fs. m' f \<in> {m f, None} \<Longrightarrow>
     zrep db key (wb_effect (concat (map (zdel db key m) fs)) M) (m' |` (- set fs))"
proof (induction fs arbitrary: M m')
  case (Cons f fs)
  have z: "zrep db key (wb_effect (zdel db key m f) M) (m'(f := None))"
    using Cons.prems by (intro zdel_rep) auto
  have "zrep db key (wb_effect (concat (map (zdel db key m) fs)) (wb_effect (zdel db key m f) M))
      ((m'(f := None)) |` (- set fs))"
    by (rule Cons.IH [OF z]) (use Cons.prems in auto)
  moreover have "(m'(f := None)) |` (- set fs) = m' |` (- set (f # fs))"
    by (auto simp: restrict_map_def)
  ultimately show ?case by simp
qed (simp add: restrict_map_def)

section \<open>Adding members\<close>

lemma zSetItem_ok:
  assumes "zset_at db key m" "zscore_ok s"
  shows "zSetItem db t key s f = Inr (if m f = None then 0 else 1, t @ zput db key m (s, f))"
  using assms
  by (cases "m f") (auto simp: zSetItem_def zput_def zscore_ok_def zset_at_get score_map_def Let_def)

definition sp_ok :: "ScorePair \<Rightarrow> bool" where
  "sp_ok x \<longleftrightarrow> zmember_ok (snd x) \<and> zscore_ok (fst x)"

lemma ZAdd_loop_ok:
  assumes "zset_at db key m" "key_size_ok key"
  shows "list_all sp_ok args \<Longrightarrow> ZAdd_loop db key args n t =
    Inr (n + word_of_nat (new_items m (map snd args)), t @ concat (map (zput db key m) args))"
proof (induction args arbitrary: n t)
  case (Cons a args)
  then show ?case
    using assms by (cases a) (simp add: sp_ok_def new_items_def zSetItem_ok)
qed (simp add: new_items_def)

lemma zput_size: "wb_effect (concat (map (zput db key m) args)) M (zsize db key) = M (zsize db key)"
  by (induction args arbitrary: M) (auto simp: zput_def zset_keys_neq split: option.split)

text \<open>Changing the number of members leaves the entries of the members alone.\<close>

lemma zIncrSize_at:
  assumes "zset_at db key m" "int n = int (card (dom m)) + d" "n < 2 ^ 63"
  shows "\<exists>u. zIncrSize db t key (word_of_int d) = Inr (word_of_nat n, t @ u) \<and>
    (\<forall>M m. zrep db key M m \<longrightarrow> zrep db key (wb_effect u M) m) \<and>
    (\<forall>M. wb_effect u M (zsize db key) = size_entry n)"
proof -
  obtain u where u: "zIncrSize db t key (word_of_int d) = Inr (word_of_nat n, t @ u)"
      "\<forall>M f. wb_effect u M (zitem db key f) = M (zitem db key f)"
      "\<forall>M. wb_effect u M (zsize db key) = size_entry n"
    using zsets.IncrSize_at [OF zset_at_items [OF assms(1)], of n d t] assms(2,3) by auto
  have "wb_effect u M (zscore db key f s) = M (zscore db key f s)" for M f s
    by (rule zsets.IncrSize_other [OF u(1)]) simp_all
  then show ?thesis
    using u by (auto intro: zrep_same)
qed

lemma ZAdd_ok:
  assumes "writable db" "zset_at db key m" "key_size_ok key" "list_all sp_ok args"
    and "distinct (map snd args)" "card (dom m) + length args < 2 ^ 63"
  shows "\<exists>db'. ZAdd key args db = (Inr (word_of_nat (new_items m (map snd args))), db') \<and>
    zset_at db' key (m ++ map_of (map prod.swap args))"
proof (cases "args = []")
  case True
  then show ?thesis
    using assms(2) by (auto simp: ZAdd_def new_items_def)
next
  case False
  let ?m = "m ++ map_of (map prod.swap args)" and ?t = "concat (map (zput db key m) args)"
  let ?k = "new_items m (map snd args)"
  note fin = zset_at_finite [OF assms(2)]
  have dom: "dom ?m = dom m \<union> set (map snd args)"
    by (auto simp: dom_map_of_conv_image_fst image_image)
  have c: "card (dom ?m) = card (dom m) + ?k"
    by (rule card_add_items [OF fin(1) assms(5) dom])
  have "?k \<le> length args"
    unfolding new_items_def using length_filter_le [of _ "map snd args"] by simp
  then have n: "card (dom ?m) < 2 ^ 63"
    using c assms(6) by simp
  obtain u where u: "zIncrSize db ?t key (word_of_int (int ?k)) = Inr (word_of_nat (card (dom ?m)), ?t @ u)"
      "\<forall>M m. zrep db key M m \<longrightarrow> zrep db key (wb_effect u M) m"
      "\<forall>M. wb_effect u M (zsize db key) = size_entry (card (dom ?m))"
    using zIncrSize_at [OF assms(2) _ n, of "int ?k" ?t] c by auto
  have "ZAdd key args db = (Inr (word_of_nat ?k), committed (?t @ u) db)"
    using False assms(1) u(1) ZAdd_loop_ok [OF assms(2-4), of 0 "[]"] by (simp add: ZAdd_def)
  moreover have "zrep db key (wb_effect (?t @ u) (contents db)) ?m"
    using u(2) zputs_rep [OF zset_at_rep [OF assms(2)] assms(5), of m] by simp
  moreover have "zscores_ok ?m"
    using assms(2,4)
    by (fastforce simp: zset_at_def zscores_ok_def sp_ok_def list_all_iff map_add_Some_iff dest!: map_of_SomeD)
  ultimately show ?thesis
    using zset_at_committed [OF assms(1), of key "?t @ u" ?m] u(3) n fin(1)
    by (auto simp: finite_dom_map_of)
qed

section \<open>Removing members\<close>

lemma ZRem_loop_ok:
  assumes "zset_at db key m" "key_size_ok key"
  shows "list_all zmember_ok fs \<Longrightarrow> ZRem_loop db key fs n t =
    Inr (n + word_of_nat (old_items m fs), t @ concat (map (zdel db key m) fs))"
proof (induction fs arbitrary: n t)
  case (Cons f fs)
  then show ?case
    using assms by (cases "m f") (simp_all add: old_items_def zDelItem_def zdel_def zset_at_get score_map_def Let_def)
qed (simp add: old_items_def)

text \<open>The common end of the removals: some members are deleted and the number is adjusted.\<close>

lemma zremove_ok:
  assumes "writable db" "zset_at db key m" "distinct fs"
    and "\<And>M m'. zrep db key M m \<Longrightarrow> zrep db key (wb_effect t M) (m |` (- set fs))"
  shows "\<exists>u. zIncrSize db t key (- word_of_nat (old_items m fs)) = Inr (word_of_nat (card (dom m) - old_items m fs), t @ u) \<and>
    zset_at (committed (t @ u) db) key (m |` (- set fs))"
proof -
  let ?m = "m |` (- set fs)"
  note fin = zset_at_finite [OF assms(2)]
  have c: "card (dom ?m) + old_items m fs = card (dom m)"
    by (rule card_remove_items [OF fin(1) assms(3)])
  then have n: "card (dom ?m) < 2 ^ 63" "card (dom m) - old_items m fs = card (dom ?m)"
    using fin(2) by simp_all
  obtain u where u: "zIncrSize db t key (- word_of_nat (old_items m fs)) = Inr (word_of_nat (card (dom ?m)), t @ u)"
      "\<forall>M m. zrep db key M m \<longrightarrow> zrep db key (wb_effect u M) m"
      "\<forall>M. wb_effect u M (zsize db key) = size_entry (card (dom ?m))"
    using zIncrSize_at [OF assms(2) _ n(1), of "- int (old_items m fs)" t] c by auto
  have "zscores_ok ?m"
    using assms(2) by (auto simp: zset_at_def zscores_ok_def restrict_map_def)
  then have "zset_at (committed (t @ u) db) key ?m"
    using u(2,3) assms(4) [OF zset_at_rep [OF assms(2)]] n(1) fin(1)
    by (intro zset_at_committed [OF assms(1)]) auto
  with u(1) n(2) show ?thesis by auto
qed

lemma ZRem_ok:
  assumes "writable db" "zset_at db key m" "key_size_ok key" "list_all zmember_ok fs" "distinct fs"
  shows "\<exists>db'. ZRem key fs db = (Inr (word_of_nat (old_items m fs)), db') \<and> zset_at db' key (m |` (- set fs))"
proof (cases "fs = []")
  case True
  then show ?thesis
    using assms(2) by (auto simp: ZRem_def old_items_def restrict_map_def)
next
  case False
  let ?t = "concat (map (zdel db key m) fs)"
  obtain u where u: "zIncrSize db ?t key (- word_of_nat (old_items m fs)) =
        Inr (word_of_nat (card (dom m) - old_items m fs), ?t @ u)"
      "zset_at (committed (?t @ u) db) key (m |` (- set fs))"
    using zremove_ok [OF assms(1,2,5), of ?t] zdels_rep by blast
  then show ?thesis
    using False assms(1) ZRem_loop_ok [OF assms(2-4), of 0 "[]"] by (simp add: ZRem_def)
qed

text \<open>Removing a part of the members that are listed by score.\<close>

definition zdel2 :: "DB \<Rightarrow> bytes \<Rightarrow> ScorePair \<Rightarrow> wop list" where
  "zdel2 db key x = [WDel (zitem db key (snd x)), WDel (zscore db key (snd x) (fst x))]"

lemma zdel2_rep:
  "zrep db key M m' \<Longrightarrow> \<forall>x \<in> set xs. m' (snd x) \<in> {Some (fst x), None} \<Longrightarrow>
     zrep db key (wb_effect (concat (map (zdel2 db key) xs)) M) (m' |` (- snd ` set xs))"
proof (induction xs arbitrary: M m')
  case (Cons x xs)
  have z: "zrep db key (wb_effect (zdel2 db key x) M) (m'(snd x := None))"
    using Cons.prems by (auto simp: zrep_def zdel2_def score_map_def)
  have "zrep db key (wb_effect (concat (map (zdel2 db key) xs)) (wb_effect (zdel2 db key x) M))
      ((m'(snd x := None)) |` (- snd ` set xs))"
    by (rule Cons.IH [OF z]) (use Cons.prems in auto)
  moreover have "(m'(snd x := None)) |` (- snd ` set xs) = m' |` (- snd ` set (x # xs))"
    by (auto simp: restrict_map_def)
  ultimately show ?case by simp
qed (simp add: restrict_map_def)

lemma zRemRange_loop_ok:
  assumes "zset_at db key m" "key16 key"
  shows "\<forall>x \<in> set xs. m (snd x) = Some (fst x) \<Longrightarrow>
    zRemRange_loop db key (map (\<lambda>(s, f). (zscore db key f s, [])) xs) n t =
      (Inr (n + word_of_nat (length xs)), t @ concat (map (zdel2 db key) xs))"
proof (induction xs arbitrary: n t)
  case (Cons x xs)
  then show ?case
    using assms by (cases x) (simp add: zDelItem_def zset_at_get score_map_def zdel2_def Let_def)
qed simp

lemma limit_entries_sub:
  "set (limit_entries l xs) \<subseteq> set xs" "distinct xs \<Longrightarrow> distinct (limit_entries l xs)"
  by (auto simp: limit_entries_def limited_def dest: in_set_takeD in_set_dropD)

lemma zlist_distinct_members: "finite (dom m) \<Longrightarrow> distinct (map snd (zlist m))"
  by (auto simp: zlist_def case_prod_unfold comp_def distinct_map inj_on_def)

lemma zRemRange_ok:
  assumes "db_ok db" "writable db" "zset_at db key m" "key_size_ok key"
    and xs: "xs = limit_entries \<lparr>Offset = off, Count = c\<rparr> (filter (score_in a b) (zlist m))"
  shows "\<exists>t. zRemRange db [] key a b off c = (Inr (word_of_nat (length xs)), t) \<and>
    zset_at (committed t db) key (m |` (- snd ` set xs))"
proof -
  note fin = zset_at_finite [OF assms(3)]
  let ?t = "concat (map (zdel2 db key) xs)"
  have "set xs \<subseteq> set (zlist m)"
    using limit_entries_sub(1) [of _ "filter (score_in a b) (zlist m)"] xs by auto
  then have sub: "\<forall>x \<in> set xs. m (snd x) = Some (fst x)"
    using set_zlist [OF fin(1)] by auto
  have "distinct (map snd (filter (score_in a b) (zlist m)))"
    using zlist_distinct_members [OF fin(1)] by (rule distinct_map_filter)
  then have d: "distinct (map snd xs)"
    unfolding xs limit_entries_map [symmetric] by (rule limit_entries_sub(2))
  have o: "old_items m (map snd xs) = length xs"
    using sub by (simp add: old_items_def filter_map comp_def filter_id_conv [THEN iffD2])
  obtain u where u: "zIncrSize db ?t key (- word_of_nat (length xs)) =
        Inr (word_of_nat (card (dom m) - length xs), ?t @ u)"
      "zset_at (committed (?t @ u) db) key (m |` (- snd ` set xs))"
    using zremove_ok [OF assms(2,3) d, of ?t] zdel2_rep [of db key _ m xs] sub unfolding o by auto
  have "\<not> MaxKeySize < length key" "key16 key"
    using assms(4) by (simp_all add: key_size_ok_def)
  then have "zRemRange db [] key a b off c = (Inr (word_of_nat (length xs)), ?t @ u)"
    using u(1) zRemRange_loop_ok [OF assms(3) _ sub, of 0 "[]"] zIterator_run [OF assms(1) zset_at_scores [OF assms(3)], of a b off c False]
    by (simp add: zRemRange_def xs)
  then show ?thesis
    using u(2) by blast
qed

section \<open>Increments\<close>

lemma ZIncrBy_new:
  assumes "writable db" "zset_at db key m" "key_size_ok key" "zmember_ok f" "m f = None"
    and "zscore_ok delta" "card (dom m) + 1 < 2 ^ 63"
  shows "\<exists>db'. ZIncrBy key delta f db = (Inr delta, db') \<and> zset_at db' key (m(f \<mapsto> delta))"
proof -
  let ?m = "m(f \<mapsto> delta)"
  let ?t = "[WPut (zscore db key f delta) [], WPut (zitem db key f) (PutInt64 delta)]"
  note fin = zset_at_finite [OF assms(2)]
  have c: "card (dom ?m) = card (dom m) + 1"
    using fin(1) assms(5) by (simp add: card_insert_if domIff)
  obtain u where u: "zIncrSize db [] key 1 = Inr (word_of_nat (card (dom ?m)), u)"
      "\<forall>M m. zrep db key M m \<longrightarrow> zrep db key (wb_effect u M) m"
      "\<forall>M. wb_effect u M (zsize db key) = size_entry (card (dom ?m))"
    using zIncrSize_at [OF assms(2), of "card (dom ?m)" 1 "[]"] c assms(7) by auto
  have "ZIncrBy key delta f db = (Inr delta, committed (u @ ?t) db)"
    using assms u(1) by (simp add: ZIncrBy_def zset_at_get score_map_def zscore_ok_def Let_def)
  moreover have "zrep db key (wb_effect (u @ ?t) (contents db)) ?m"
    using u(2) [rule_format, OF zset_at_rep [OF assms(2)]] assms(5) by (auto simp: zrep_def score_map_def)
  moreover have "zscores_ok ?m"
    using assms(2,6) by (auto simp: zset_at_def zscores_ok_def)
  ultimately show ?thesis
    using zset_at_committed [OF assms(1), of key "u @ ?t" ?m] u(3) c assms(7) fin(1)
    by (auto simp: zset_keys_neq [symmetric])
qed

lemma ZIncrBy_batch:
  assumes "writable db" "zset_at db key m" "key_size_ok key" "zmember_ok f" "m f = Some s" "zscore_ok (s + delta)"
  shows "ZIncrBy key delta f db = (Inr (s + delta), committed
    [WPut (zscore db key f (s + delta)) [], WPut (zitem db key f) (PutInt64 (s + delta)), WDel (zscore db key f s)] db)"
  using assms by (simp add: ZIncrBy_def zset_at_get score_map_def zscore_ok_def Let_def)

lemma ZIncrBy_old:
  assumes "writable db" "zset_at db key m" "key_size_ok key" "zmember_ok f" "m f = Some s"
    and "zscore_ok (s + delta)" "delta \<noteq> 0"
  shows "\<exists>db'. ZIncrBy key delta f db = (Inr (s + delta), db') \<and> zset_at db' key (m(f \<mapsto> s + delta))"
proof -
  let ?m = "m(f \<mapsto> s + delta)"
  let ?t = "[WPut (zscore db key f (s + delta)) [], WPut (zitem db key f) (PutInt64 (s + delta)),
    WDel (zscore db key f s)]"
  note fin = zset_at_finite [OF assms(2)]
  have dom: "dom ?m = dom m"
    using assms(5) by auto
  have "zrep db key (wb_effect ?t (contents db)) ?m"
    using zset_at_rep [OF assms(2)] assms(5,7) by (auto simp: zrep_def score_map_def)
  moreover have "zscores_ok ?m"
    using assms(2,6) by (auto simp: zset_at_def zscores_ok_def)
  moreover have "contents db (zsize db key) = size_entry (card (dom m))"
    using assms(2) by (simp add: zset_at_def coll_at_def)
  ultimately have "zset_at (committed ?t db) key ?m"
    using fin by (intro zset_at_committed [OF assms(1)]) (simp_all add: dom del: dom_fun_upd)
  then show ?thesis
    using ZIncrBy_batch [OF assms(1-6)] by blast
qed

lemma ZIncrBy_overflow:
  assumes "zset_at db key m" "key_size_ok key" "zmember_ok f"
    and "\<not> zscore_ok ((case m f of None \<Rightarrow> 0 | Some s \<Rightarrow> s) + delta)"
  shows "ZIncrBy key delta f db = (Inl ErrScoreOverflow, db)"
proof (cases "m f")
  case None
  with assms show ?thesis
    by (auto simp: ZIncrBy_def zset_at_get score_map_def zscore_ok_def Let_def not_less)
next
  case (Some s)
  with assms show ?thesis
    by (auto simp: ZIncrBy_def zset_at_get score_map_def zscore_ok_def Let_def not_less)
qed

end
