(* ===== verification/Ledis_ZSet_Combine.thy ===== *)
theory Ledis_ZSet_Combine
  imports Ledis_ZSet_Write "HOL-Library.Multiset"
begin

text \<open>
  \<open>ZUnionStore\<close> and \<open>ZInterStore\<close>: the weighted scores of the sources are aggregated member by
  member, and the result replaces the destination.
\<close>

definition zunion1 :: "(i64 \<Rightarrow> i64 \<Rightarrow> i64) \<Rightarrow> i64 \<Rightarrow> (bytes \<rightharpoonup> i64) \<Rightarrow> (bytes \<rightharpoonup> i64) \<Rightarrow> bytes \<rightharpoonup> i64" where
  "zunion1 f w m R x =
     (case m x of
        None \<Rightarrow> R x
      | Some s \<Rightarrow> Some (case R x of None \<Rightarrow> s * w | Some r \<Rightarrow> f r (s * w)))"

definition zinter1 :: "(i64 \<Rightarrow> i64 \<Rightarrow> i64) \<Rightarrow> i64 \<Rightarrow> (bytes \<rightharpoonup> i64) \<Rightarrow> (bytes \<rightharpoonup> i64) \<Rightarrow> bytes \<rightharpoonup> i64" where
  "zinter1 f w m R x =
     (case m x of
        None \<Rightarrow> None
      | Some s \<Rightarrow> (case R x of None \<Rightarrow> None | Some r \<Rightarrow> Some (f r (s * w))))"

lemma map_of_swap_zlist: "finite (dom m) \<Longrightarrow> map_of (map prod.swap (zlist m)) = m"
proof
  fix x
  assume fin: "finite (dom m)"
  have "distinct (map fst (map prod.swap (zlist m)))"
    using zlist_distinct_members [OF fin] by (simp add: comp_def)
  then have "map_of (map prod.swap (zlist m)) x = Some s \<longleftrightarrow> m x = Some s" for s
    using set_zlist [OF fin] by (subst map_of_eq_Some_iff) auto
  then show "map_of (map prod.swap (zlist m)) x = m x"
    by (cases "m x"; cases "map_of (map prod.swap (zlist m)) x") auto
qed

lemma range_of_all: "range_of 0 (-1) xs = xs"
  by (auto simp: range_of_def list_index_def Let_def)

lemma ZRange_all:
  "db_ok db \<Longrightarrow> zset_at db key m \<Longrightarrow> key_size_ok key \<Longrightarrow> ZRange key 0 (-1) db = Inr (zlist m)"
  by (simp add: ZRange_def ZRangeGeneric_ok range_of_all)

lemma zUnion_members_ok:
  "distinct (map snd ps) \<Longrightarrow> distinct (map fst dest) \<Longrightarrow>
     map_of (zUnion_members f w ps dest) = zunion1 f w (map_of (map prod.swap ps)) (map_of dest) \<and>
     distinct (map fst (zUnion_members f w ps dest))"
proof (induction ps arbitrary: dest)
  case (Cons a ps)
  obtain s m where a: "a = (s, m)" by fastforce
  let ?d = "AList.update m (case map_of dest m of None \<Rightarrow> s * w | Some r \<Rightarrow> f r (s * w)) dest"
  have e: "zUnion_members f w (a # ps) dest = zUnion_members f w ps ?d"
    by (cases "map_of dest m") (simp_all add: a)
  have d: "distinct (map fst ?d)"
    using Cons.prems(2) by (rule distinct_update)
  have "map_of (map prod.swap ps) m = None"
    using Cons.prems(1) a by (simp add: map_of_eq_None_iff image_image)
  then have u: "zunion1 f w (map_of (map prod.swap ps)) (map_of ?d) = zunion1 f w (map_of (map prod.swap (a # ps))) (map_of dest)"
    by (auto simp: fun_eq_iff zunion1_def update_conv' a split: option.split)
  show ?case
    unfolding e u [symmetric] using Cons.IH [OF _ d] Cons.prems(1) by simp
qed (simp add: zunion1_def fun_eq_iff)

lemma zInter_members_ok:
  "distinct (map snd ps) \<Longrightarrow> distinct (map fst tmp) \<Longrightarrow>
     map_of (zInter_members f w dest ps tmp) = map_of tmp ++ zinter1 f w (map_of (map prod.swap ps)) (map_of dest) \<and>
     distinct (map fst (zInter_members f w dest ps tmp))"
proof (induction ps arbitrary: tmp)
  case (Cons a ps)
  obtain s m where a: "a = (s, m)" by fastforce
  have n: "map_of (map prod.swap ps) m = None"
    using Cons.prems(1) a by (simp add: map_of_eq_None_iff image_image)
  show ?case
  proof (cases "map_of dest m")
    case None
    then have i: "zinter1 f w (map_of (map prod.swap (a # ps))) (map_of dest) = zinter1 f w (map_of (map prod.swap ps)) (map_of dest)"
      by (auto simp: fun_eq_iff zinter1_def a split: option.split)
    have e: "zInter_members f w dest (a # ps) tmp = zInter_members f w dest ps tmp"
      using None by (simp add: a)
    show ?thesis
      unfolding e i using Cons.IH [OF _ Cons.prems(2)] Cons.prems(1) by simp
  next
    case (Some r)
    let ?t = "AList.update m (f r (s * w)) tmp"
    have e: "zInter_members f w dest (a # ps) tmp = zInter_members f w dest ps ?t"
      using Some by (simp add: a)
    have d: "distinct (map fst ?t)"
      using Cons.prems(2) by (rule distinct_update)
    have i: "map_of ?t ++ zinter1 f w (map_of (map prod.swap ps)) (map_of dest) =
        map_of tmp ++ zinter1 f w (map_of (map prod.swap (a # ps))) (map_of dest)"
      using n Some by (auto simp: fun_eq_iff zinter1_def map_add_def update_conv' a split: option.split)
    show ?thesis
      unfolding e i [symmetric] using Cons.IH [OF _ d] Cons.prems(1) by simp
  qed
qed (simp add: zinter1_def fun_eq_iff map_add_def)

text \<open>\<open>zholds db ks F\<close>: the keys hold the sorted sets that \<open>F\<close> gives.\<close>

definition zholds :: "DB \<Rightarrow> bytes list \<Rightarrow> (bytes \<Rightarrow> bytes \<rightharpoonup> i64) \<Rightarrow> bool" where
  "zholds db ks F \<longleftrightarrow> list_all (\<lambda>k. key_size_ok k \<and> zset_at db k (F k) \<and> (\<forall>x \<in> dom (F k). zmember_ok x)) ks"

lemma zUnion_loop_ok:
  "db_ok db \<Longrightarrow> zholds db (map fst srcs) F \<Longrightarrow> distinct (map fst dest) \<Longrightarrow>
     \<exists>r. zUnion_loop db f srcs dest = Inr r \<and> distinct (map fst r) \<and>
       map_of r = fold (\<lambda>(k, w). zunion1 f w (F k)) srcs (map_of dest)"
proof (induction srcs arbitrary: dest)
  case (Cons a srcs)
  obtain k w where a: "a = (k, w)" by fastforce
  have z: "zset_at db k (F k)" "key_size_ok k"
    using Cons.prems(2) by (simp_all add: zholds_def a)
  note fin = zset_at_finite(1) [OF z(1)]
  let ?d = "zUnion_members f w (zlist (F k)) dest"
  have d: "map_of ?d = zunion1 f w (F k) (map_of dest)" "distinct (map fst ?d)"
    using zUnion_members_ok [OF zlist_distinct_members [OF fin] Cons.prems(3), of f w]
    unfolding map_of_swap_zlist [OF fin] by simp_all
  show ?case
    using Cons.IH [OF Cons.prems(1) _ d(2)] Cons.prems(2) d(1) ZRange_all [OF Cons.prems(1) z]
    by (simp add: a zholds_def)
qed simp

lemma zInter_loop_ok:
  "db_ok db \<Longrightarrow> zholds db (map fst srcs) F \<Longrightarrow> distinct (map fst dest) \<Longrightarrow>
     \<exists>r. zInter_loop db f srcs dest = Inr r \<and> distinct (map fst r) \<and>
       map_of r = fold (\<lambda>(k, w). zinter1 f w (F k)) srcs (map_of dest)"
proof (induction srcs arbitrary: dest)
  case (Cons a srcs)
  obtain k w where a: "a = (k, w)" by fastforce
  have z: "zset_at db k (F k)" "key_size_ok k"
    using Cons.prems(2) by (simp_all add: zholds_def a)
  note fin = zset_at_finite(1) [OF z(1)]
  let ?d = "zInter_members f w dest (zlist (F k)) []"
  have d: "map_of ?d = zinter1 f w (F k) (map_of dest)" "distinct (map fst ?d)"
    using zInter_members_ok [OF zlist_distinct_members [OF fin], of "[]" f w dest]
    unfolding map_of_swap_zlist [OF fin] by simp_all
  show ?case
    using Cons.IH [OF Cons.prems(1) _ d(2)] Cons.prems(2) d(1) ZRange_all [OF Cons.prems(1) z]
    by (simp add: a zholds_def)
qed simp

section \<open>Storing the result\<close>

lemma zDelete_rep:
  assumes "db_ok db" "writable db" "zset_at db key m" "key_size_ok key"
  shows "zrep db key (wb_effect (zDelete db [] key) (contents db)) Map.empty"
proof -
  note fin = zset_at_finite(1) [OF assms(3)]
  have all: "limit_entries \<lparr>Offset = 0, Count = -1\<rparr> (filter (score_in MinScore MaxScore) (zlist m)) = zlist m"
    using score_in_all [OF assms(3)] by simp
  obtain t where t: "zRemRange db [] key MinScore MaxScore 0 (-1) = (Inr (word_of_nat (length (zlist m))), t)"
      "zset_at (committed t db) key (m |` (- snd ` set (zlist m)))"
    using zRemRange_ok [OF assms all [symmetric]] by blast
  have "m |` (- snd ` set (zlist m)) = Map.empty"
    using set_zlist [OF fin] by (force simp: restrict_map_def fun_eq_iff)
  then have "zrep (committed t db) key (contents (committed t db)) Map.empty"
    using zset_at_rep [OF t(2)] by simp
  then show ?thesis
    using assms(2) t(1) by (simp add: zDelete_def zrep_def)
qed

lemma zStore_loop_ok:
  assumes "zset_at db key m" "key_size_ok key"
  shows "list_all (\<lambda>x. sp_ok (prod.swap x)) dest \<Longrightarrow>
    zStore_loop db key dest t = Inr (t @ concat (map (zput db key m) (map prod.swap dest)))"
proof (induction dest arbitrary: t)
  case (Cons a dest)
  then show ?case
    using assms by (cases a) (simp add: sp_ok_def zSetItem_ok)
qed simp

lemma zStore_loop_overflow:
  assumes "zset_at db key m" "key_size_ok key"
  shows "list_all (\<lambda>x. zmember_ok (fst x)) dest \<Longrightarrow> \<not> list_all (\<lambda>x. zscore_ok (snd x)) dest \<Longrightarrow>
    zStore_loop db key dest t = Inl ErrScoreOverflow"
proof (induction dest arbitrary: t)
  case (Cons a dest)
  obtain f s where a: "a = (f, s)" by fastforce
  show ?case
  proof (cases "zscore_ok s")
    case True
    then show ?thesis
      using Cons assms by (simp add: a zSetItem_ok)
  next
    case False
    then have "zSetItem db t key s f = Inl ErrScoreOverflow"
      by (auto simp: zSetItem_def zscore_ok_def not_less)
    then show ?thesis
      using Cons.prems assms by (simp add: a)
  qed
qed simp

definition any_map_order :: "((bytes \<times> i64) list \<Rightarrow> (bytes \<times> i64) list) \<Rightarrow> bool" where
  "any_map_order ord \<longleftrightarrow> (\<forall>xs. mset (ord xs) = mset xs)"

lemma any_map_orderD:
  assumes "any_map_order ord" "distinct (map fst xs)"
  shows "set (ord xs) = set xs" "distinct (map fst (ord xs))" "map_of (ord xs) = map_of xs"
proof -
  have e: "mset (ord xs) = mset xs"
    using assms(1) by (simp add: any_map_order_def)
  then show s: "set (ord xs) = set xs"
    by (metis set_mset_mset)
  have "mset (map fst (ord xs)) = mset (map fst xs)"
    using e by (metis mset_map)
  then show d: "distinct (map fst (ord xs))"
    using assms(2) mset_eq_imp_distinct_iff by blast
  show "map_of (ord xs) = map_of xs"
  proof
    fix k
    show "map_of (ord xs) k = map_of xs k"
      using map_of_eq_Some_iff [OF d, of k] map_of_eq_Some_iff [OF assms(2), of k] s
      by (cases "map_of (ord xs) k"; cases "map_of xs k") auto
  qed
qed

lemma zStoreMap_ok:
  assumes "db_ok db" "writable db" "zset_at db key D" "key_size_ok key" "any_map_order ord"
    and "distinct (map fst dest)" "\<forall>x \<in> dom R. zmember_ok x" "map_of dest = R" "card (dom R) < 2 ^ 63"
  shows "if zscores_ok R
    then \<exists>db'. zStoreMap ord key dest db = (Inr (word_of_nat (card (dom R))), db') \<and>
      ZCard key db' = Inr (word_of_nat (card (dom R))) \<and> ZKeyExists key db' = Inr 1 \<and>
      zscore_at db' key R \<and> (R \<noteq> Map.empty \<longrightarrow> zset_at db' key R)
    else zStoreMap ord key dest db = (Inl ErrScoreOverflow, db)"
proof -
  note o = any_map_orderD [OF assms(5,6)]
  have R: "(x, s) \<in> set (ord dest) \<longleftrightarrow> R x = Some s" for x s
    using o(1) assms(6,8) by (metis map_of_eq_Some_iff)
  have len: "length dest = card (dom R)"
    using assms(6,8) distinct_card [OF assms(6)] by (simp add: dom_map_of_conv_image_fst [symmetric])
  have mem: "list_all (\<lambda>x. zmember_ok (fst x)) (ord dest)"
    using R assms(7) by (auto simp: list_all_iff)
  show ?thesis
  proof (cases "zscores_ok R")
    case False
    then have "\<not> list_all (\<lambda>x. zscore_ok (snd x)) (ord dest)"
      using R by (auto simp: zscores_ok_def list_all_iff) (metis snd_conv)
    then show ?thesis
      using False zStore_loop_overflow [OF assms(3,4) mem] by (simp add: zStoreMap_def)
  next
    case True
    let ?a = "map prod.swap (ord dest)"
    let ?t = "zDelete db [] key @ concat (map (zput db key D) ?a) @
      [WPut (zsize db key) (PutInt64 (word_of_nat (card (dom R))))]"
    have "list_all (\<lambda>x. sp_ok (prod.swap x)) (ord dest)"
      using True R mem by (auto simp: sp_ok_def zscores_ok_def list_all_iff)
    then have e: "zStoreMap ord key dest db = (Inr (word_of_nat (card (dom R))), committed ?t db)"
      using zStore_loop_ok [OF assms(3,4)] assms(2) by (simp add: zStoreMap_def len Let_def del: map_map)
    have "zrep db key (wb_effect (concat (map (zput db key D) ?a)) (wb_effect (zDelete db [] key) (contents db)))
        (Map.empty ++ map_of (map prod.swap ?a))"
      by (rule zputs_rep [OF zDelete_rep [OF assms(1-4)]]) (use o(2) in \<open>simp_all add: comp_def\<close>)
    then have "zrep db key (wb_effect ?t (contents db)) R"
      using o(3) assms(8) by (simp add: zrep_def zset_keys_neq [symmetric] comp_def)
    moreover have "contents (committed ?t db) (zsize db key) = Some (PutInt64 (word_of_nat (card (dom R))))"
      using assms(2) by simp
    moreover have "finite (dom R)"
      using assms(8) by (auto simp: finite_dom_map_of)
    ultimately show ?thesis
      using True e assms(2,4,9)
      by (auto simp: zrep_def zset_at_def zscore_at_def coll_at_def size_entry_def ZCard_def ZKeyExists_def)
  qed
qed

end
