(* ===== verification/Ledis_ZSet_Props.thy ===== *)
theory Ledis_ZSet_Props
  imports Ledis_ZSet_Combine
begin

text \<open>
  Sorted sets as a whole: the operations act on their own key only, and a sorted set behaves like
  a finite map from members to scores, listed by score, through any sequence of operations.
\<close>

section \<open>The operations act on their key\<close>

lemma zSetItem_own:
  "zSetItem db t key s f = Inr (n, u) \<Longrightarrow> key16 key \<Longrightarrow> key \<in> K \<Longrightarrow> own_batch (indexVarBuf db) ZSetType K t \<Longrightarrow>
     own_batch (indexVarBuf db) ZSetType K u"
  by (auto simp: zSetItem_def Let_def split: if_splits sum.splits option.splits)

lemma zDelItem_own:
  "zDelItem db t key f b = Inr (n, u) \<Longrightarrow> key16 key \<Longrightarrow> key \<in> K \<Longrightarrow> own_batch (indexVarBuf db) ZSetType K t \<Longrightarrow>
     own_batch (indexVarBuf db) ZSetType K u"
  by (auto simp: zDelItem_def Let_def split: if_splits sum.splits option.splits)

lemma ZAdd_loop_own:
  "ZAdd_loop db key args n t = Inr (k, u) \<Longrightarrow> own_batch (indexVarBuf db) ZSetType {key} t \<Longrightarrow>
     own_batch (indexVarBuf db) ZSetType {key} u"
proof (induction db key args n t rule: ZAdd_loop.induct)
  case (2 db key s f args n t)
  obtain j t' where j: "checkZSetKMSize key f = Inr ()" "zSetItem db t key s f = Inr (j, t')"
      "ZAdd_loop db key args (if j = 0 then n + 1 else n) t' = Inr (k, u)"
    using 2(2) by (auto split: sum.splits prod.splits)
  then have "own_batch (indexVarBuf db) ZSetType {key} t'"
    using zSetItem_own [OF j(2) checkZSetKMSize_key16 [OF j(1)]] 2(3) by simp
  with 2(1) [OF j(1,2) refl j(3)] show ?case by simp
qed simp

lemma ZAdd_acts: "acts ZSetType {key} db (snd (ZAdd key args db))"
  unfolding ZAdd_def
  by (intro acts_rules) (auto dest!: ZAdd_loop_own zsets.IncrSize_own)

lemma ZRem_loop_own:
  "ZRem_loop db key fs n t = Inr (k, u) \<Longrightarrow> own_batch (indexVarBuf db) ZSetType {key} t \<Longrightarrow>
     own_batch (indexVarBuf db) ZSetType {key} u"
proof (induction db key fs n t rule: ZRem_loop.induct)
  case (2 db key f fs n t)
  obtain j t' where j: "checkZSetKMSize key f = Inr ()" "zDelItem db t key f False = Inr (j, t')"
      "ZRem_loop db key fs (if j = 1 then n + 1 else n) t' = Inr (k, u)"
    using 2(2) by (auto split: sum.splits prod.splits)
  then have "own_batch (indexVarBuf db) ZSetType {key} t'"
    using zDelItem_own [OF j(2) checkZSetKMSize_key16 [OF j(1)]] 2(3) by simp
  with 2(1) [OF j(1,2) refl j(3)] show ?case by simp
qed simp

lemma ZRem_acts: "acts ZSetType {key} db (snd (ZRem key fs db))"
  unfolding ZRem_def
  by (intro acts_rules) (auto dest!: ZRem_loop_own zsets.IncrSize_own)

lemma ZIncrBy_acts: "acts ZSetType {key} db (snd (ZIncrBy key delta f db))"
  unfolding ZIncrBy_def
  by (intro acts_rules)
     (auto dest!: checkZSetKMSize_key16 zsets.IncrSize_own simp: Let_def split: option.splits sum.splits)

lemma zIterator_entries:
  assumes "db_ok db" "key16 key" "e \<in> set (rli_run (zIterator key a b off c rv db))"
  shows "\<exists>f s. fst e = zscore db key f s"
proof -
  have "e \<in> set (ldb db)" and r: "zEncodeStartScoreKey (indexVarBuf db) key a \<le> fst e"
    "fst e \<le> zEncodeStopScoreKey (indexVarBuf db) key b"
    using assms(1,3) limit_entries_sub(1)
    by (cases rv; fastforce simp: zIterator_def Let_def range_filter)+
  then have "contents db (fst e) = Some (snd e)"
    using assms(1) by (intro kv_get_dom) simp_all
  then show ?thesis
    using score_key_between [OF assms(1,2) _ r] by blast
qed

lemma zRemRange_loop_own:
  "\<forall>e \<in> set es. \<exists>f s. fst e = zscore db key f s \<Longrightarrow> key16 key \<Longrightarrow> key \<in> K \<Longrightarrow>
     own_batch (indexVarBuf db) ZSetType K t \<Longrightarrow> own_batch (indexVarBuf db) ZSetType K (snd (zRemRange_loop db key es n t))"
proof (induction es arbitrary: n t)
  case (Cons e es)
  obtain f s v where e: "e = (zscore db key f s, v)"
    using Cons.prems(1) by (cases e) auto
  show ?case
  proof (cases "zDelItem db t key f True")
    case (Inl x)
    then show ?thesis
      using Cons.prems by (simp add: e)
  next
    case (Inr x)
    obtain j t' where x: "x = (j, t')" by fastforce
    have "own_batch (indexVarBuf db) ZSetType K (wb_Delete (zscore db key f s) t')"
      using zDelItem_own [OF Inr [unfolded x] Cons.prems(2-4)] Cons.prems(2,3) by simp
    then show ?thesis
      using Cons.IH [OF _ Cons.prems(2,3)] Cons.prems(1,2) Inr x by (simp add: e)
  qed
qed simp

lemma zRemRange_own:
  assumes "db_ok db" "key \<in> K" "own_batch (indexVarBuf db) ZSetType K t"
  shows "own_batch (indexVarBuf db) ZSetType K (snd (zRemRange db t key a b off c))"
proof (cases "MaxKeySize < length key")
  case False
  then have k: "key16 key"
    by (simp add: key16_def MaxKeySize_def)
  let ?l = "zRemRange_loop db key (rli_run (zIterator key a b off c False db)) 0 t"
  have "own_batch (indexVarBuf db) ZSetType K (snd ?l)"
    using zIterator_entries [OF assms(1) k] by (intro zRemRange_loop_own k assms(2,3)) blast
  then show ?thesis
    using False assms(2)
    by (auto simp: zRemRange_def dest: zsets.IncrSize_own_in split: prod.splits sum.splits)
qed (use assms in \<open>simp add: zRemRange_def\<close>)

lemma zRemRange_own_pair:
  "zRemRange db t key a b off c = (r, u) \<Longrightarrow> db_ok db \<Longrightarrow> key \<in> K \<Longrightarrow> own_batch (indexVarBuf db) ZSetType K t \<Longrightarrow>
     own_batch (indexVarBuf db) ZSetType K u"
  using zRemRange_own [of db key K t a b off c] by simp

lemma ZClear_acts: "db_ok db \<Longrightarrow> acts ZSetType {key} db (snd (ZClear key db))"
  and ZRemRangeByRank_acts: "db_ok db \<Longrightarrow> acts ZSetType {key} db (snd (ZRemRangeByRank key i j db))"
  and ZRemRangeByScore_acts: "db_ok db \<Longrightarrow> acts ZSetType {key} db (snd (ZRemRangeByScore key a b db))"
  unfolding ZClear_def ZRemRangeByRank_def ZRemRangeByScore_def
  by (intro acts_rules; auto dest!: zRemRange_own_pair [where K = "{key}"] intro!: acts_rules)+

lemma ZMclear_loop_own:
  "ZMclear_loop db keys t = Inr u \<Longrightarrow> db_ok db \<Longrightarrow> set keys \<subseteq> K \<Longrightarrow>
     own_batch (indexVarBuf db) ZSetType K t \<Longrightarrow> own_batch (indexVarBuf db) ZSetType K u"
  by (induction db keys t rule: ZMclear_loop.induct)
     (auto dest: zRemRange_own_pair [where K = K] split: sum.splits prod.splits)

lemma ZMclear_acts: "db_ok db \<Longrightarrow> acts ZSetType (set keys) db (snd (ZMclear keys db))"
  unfolding ZMclear_def
  by (intro acts_rules) (auto dest: ZMclear_loop_own)

lemma zStore_loop_own:
  "zStore_loop db key dest t = Inr u \<Longrightarrow> own_batch (indexVarBuf db) ZSetType {key} t \<Longrightarrow>
     own_batch (indexVarBuf db) ZSetType {key} u"
proof (induction db key dest t rule: zStore_loop.induct)
  case (2 db key f s dest t)
  obtain j t' where j: "checkZSetKMSize key f = Inr ()" "zSetItem db t key s f = Inr (j, t')"
      "zStore_loop db key dest t' = Inr u"
    using 2(2) by (auto split: sum.splits prod.splits)
  then have "own_batch (indexVarBuf db) ZSetType {key} t'"
    using zSetItem_own [OF j(2) checkZSetKMSize_key16 [OF j(1)]] 2(3) by simp
  with 2(1) [OF j(1,2) refl j(3)] show ?case by simp
qed simp

lemma zStoreMap_acts: "db_ok db \<Longrightarrow> acts ZSetType {key} db (snd (zStoreMap ord key dest db))"
  unfolding zStoreMap_def
  by (intro acts_rules) (auto dest!: zStore_loop_own simp: zDelete_def zRemRange_own)

lemma ZUnionStore_acts: "db_ok db \<Longrightarrow> acts ZSetType {key} db (snd (ZUnionStore ord key srcs ws agg db))"
  and ZInterStore_acts: "db_ok db \<Longrightarrow> acts ZSetType {key} db (snd (ZInterStore ord key srcs ws agg db))"
  unfolding ZUnionStore_def ZInterStore_def
  by (intro acts_rules; simp add: zStoreMap_acts)+

lemma zExpireAt_acts: "acts ZSetType {key} db (snd (zExpireAt key when db))"
  unfolding zExpireAt_def by (intro acts_rules) simp_all

lemma ZExpire_acts: "acts ZSetType {key} db (snd (ZExpire key d db))"
  and ZExpireAt_acts: "acts ZSetType {key} db (snd (ZExpireAt key d db))"
  by (simp_all add: ZExpire_def ZExpireAt_def zExpireAt_acts acts.none)

lemma ZPersist_acts: "acts ZSetType {key} db (snd (ZPersist key db))"
  unfolding ZPersist_def
  by (intro acts_rules) (auto intro!: acts_rules dest: rmExpire_own_pair [where K = "{key}"])

lemma zset_at_frame:
  assumes "acts dt K db db'" "dt \<noteq> ZSetType \<or> key \<notin> K" "key16 key"
  shows "zset_at db' key m \<longleftrightarrow> zset_at db key m"
proof -
  have "own (indexVarBuf db) dt K \<inter> own (indexVarBuf db) ZSetType {key} = {}"
    using assms(2) by (intro own_disjoint) auto
  moreover have "zscore db key f s \<in> own (indexVarBuf db) ZSetType {key}" for f s
    using assms(3) by simp
  ultimately have "contents db' (zscore db key f s) = contents db (zscore db key f s)" for f s
    using acts_frame [OF assms(1)] by blast
  then show ?thesis
    using zsets.coll_at_frame [OF assms] assms(1) by (simp add: zset_at_def)
qed

section \<open>A sorted set is a finite map listed by score\<close>

datatype zset_op =
    OpZAdd "ScorePair list" | OpZRem "bytes list" | OpZIncrBy i64 bytes | OpZScore bytes | OpZCard | OpZKeyExists
  | OpZCount i64 i64 | OpZRank bytes | OpZRevRank bytes | OpZRange i64 i64 | OpZRevRange i64 i64
  | OpZRangeByScore i64 i64 int int | OpZRevRangeByScore i64 i64 int int
  | OpZRemRangeByRank i64 i64 | OpZRemRangeByScore i64 i64 | OpZClear

datatype zset_out = ZOutInt "int res" | ZOutInt64 "i64 res" | ZOutPairs "ScorePair list res"

fun zset_exec :: "bytes \<Rightarrow> zset_op \<Rightarrow> DB \<Rightarrow> zset_out \<times> DB" where
  "zset_exec key (OpZAdd args) db = (case ZAdd key args db of (r, db) \<Rightarrow> (ZOutInt64 r, db))"
| "zset_exec key (OpZRem fs) db = (case ZRem key fs db of (r, db) \<Rightarrow> (ZOutInt64 r, db))"
| "zset_exec key (OpZIncrBy d f) db = (case ZIncrBy key d f db of (r, db) \<Rightarrow> (ZOutInt64 r, db))"
| "zset_exec key (OpZScore f) db = (ZOutInt64 (ZScore key f db), db)"
| "zset_exec key OpZCard db = (ZOutInt64 (ZCard key db), db)"
| "zset_exec key OpZKeyExists db = (ZOutInt (ZKeyExists key db), db)"
| "zset_exec key (OpZCount a b) db = (ZOutInt (ZCount key a b db), db)"
| "zset_exec key (OpZRank f) db = (ZOutInt (ZRank key f db), db)"
| "zset_exec key (OpZRevRank f) db = (ZOutInt (ZRevRank key f db), db)"
| "zset_exec key (OpZRange i j) db = (ZOutPairs (ZRange key i j db), db)"
| "zset_exec key (OpZRevRange i j) db = (ZOutPairs (ZRevRange key i j db), db)"
| "zset_exec key (OpZRangeByScore a b off n) db = (ZOutPairs (ZRangeByScore key a b off n db), db)"
| "zset_exec key (OpZRevRangeByScore a b off n) db = (ZOutPairs (ZRevRangeByScore key a b off n db), db)"
| "zset_exec key (OpZRemRangeByRank i j) db = (case ZRemRangeByRank key i j db of (r, db) \<Rightarrow> (ZOutInt64 r, db))"
| "zset_exec key (OpZRemRangeByScore a b) db = (case ZRemRangeByScore key a b db of (r, db) \<Rightarrow> (ZOutInt64 r, db))"
| "zset_exec key OpZClear db = (case ZClear key db of (r, db) \<Rightarrow> (ZOutInt64 r, db))"

text \<open>
  The abstract sorted set. \<open>zlist\<close> lists the members by score and then by name, \<open>range_of\<close> cuts out
  the positions between two indices, negative ones counting from the end.
\<close>

definition zremove :: "ScorePair list \<Rightarrow> (bytes \<rightharpoonup> i64) \<Rightarrow> zset_out \<times> (bytes \<rightharpoonup> i64)" where
  "zremove xs m = (ZOutInt64 (Inr (word_of_nat (length xs))), m |` (- snd ` set xs))"

fun zmap_step :: "zset_op \<Rightarrow> (bytes \<rightharpoonup> i64) \<Rightarrow> zset_out \<times> (bytes \<rightharpoonup> i64)" where
  "zmap_step (OpZAdd args) m =
     (ZOutInt64 (Inr (word_of_nat (new_items m (map snd args)))), m ++ map_of (map prod.swap args))"
| "zmap_step (OpZRem fs) m = (ZOutInt64 (Inr (word_of_nat (old_items m fs))), m |` (- set fs))"
| "zmap_step (OpZIncrBy d f) m =
     (let s = (case m f of None \<Rightarrow> 0 | Some s \<Rightarrow> s) + d in
      if zscore_ok s then (ZOutInt64 (Inr s), m(f \<mapsto> s)) else (ZOutInt64 (Inl ErrScoreOverflow), m))"
| "zmap_step (OpZScore f) m = (ZOutInt64 (case m f of None \<Rightarrow> Inl ErrScoreMiss | Some s \<Rightarrow> Inr s), m)"
| "zmap_step OpZCard m = (ZOutInt64 (Inr (word_of_nat (card (dom m)))), m)"
| "zmap_step OpZKeyExists m = (ZOutInt (Inr (if dom m = {} then 0 else 1)), m)"
| "zmap_step (OpZCount a b) m = (ZOutInt (Inr (int (length (filter (score_in a b) (zlist m))))), m)"
| "zmap_step (OpZRank f) m = (ZOutInt (Inr (rank_of False f m)), m)"
| "zmap_step (OpZRevRank f) m = (ZOutInt (Inr (rank_of True f m)), m)"
| "zmap_step (OpZRange i j) m = (ZOutPairs (Inr (range_of (sint i) (sint j) (zlist m))), m)"
| "zmap_step (OpZRevRange i j) m = (ZOutPairs (Inr (range_of (sint i) (sint j) (rev (zlist m)))), m)"
| "zmap_step (OpZRangeByScore a b off n) m =
     (ZOutPairs (Inr (limit_entries \<lparr>Offset = off, Count = n\<rparr> (filter (score_in a b) (zlist m)))), m)"
| "zmap_step (OpZRevRangeByScore a b off n) m =
     (ZOutPairs (Inr (limit_entries \<lparr>Offset = off, Count = n\<rparr> (rev (filter (score_in a b) (zlist m))))), m)"
| "zmap_step (OpZRemRangeByRank i j) m = zremove (range_of (sint i) (sint j) (zlist m)) m"
| "zmap_step (OpZRemRangeByScore a b) m = zremove (filter (score_in a b) (zlist m)) m"
| "zmap_step OpZClear m = (ZOutInt64 (Inr (word_of_nat (card (dom m)))), Map.empty)"

text \<open>
  Commands within the size limits that name no member twice; an increment by \<open>0\<close> is the subject
  of a property of its own.
\<close>

fun zset_op_ok :: "zset_op \<Rightarrow> bool" where
  "zset_op_ok (OpZAdd args) \<longleftrightarrow> list_all sp_ok args \<and> distinct (map snd args)"
| "zset_op_ok (OpZRem fs) \<longleftrightarrow> list_all zmember_ok fs \<and> distinct fs"
| "zset_op_ok (OpZIncrBy d f) \<longleftrightarrow> zmember_ok f \<and> d \<noteq> 0"
| "zset_op_ok (OpZScore f) \<longleftrightarrow> zmember_ok f"
| "zset_op_ok (OpZRank f) \<longleftrightarrow> zmember_ok f"
| "zset_op_ok (OpZRevRank f) \<longleftrightarrow> zmember_ok f"
| "zset_op_ok _ \<longleftrightarrow> True"

fun op_scores :: "zset_op \<Rightarrow> nat" where
  "op_scores (OpZAdd args) = length args"
| "op_scores (OpZIncrBy d f) = 1"
| "op_scores _ = 0"

definition max_scores :: nat where "max_scores = 2 ^ 63 - 1"

definition zset_rel :: "bytes \<Rightarrow> nat \<Rightarrow> DB \<Rightarrow> (bytes \<rightharpoonup> i64) \<Rightarrow> bool" where
  "zset_rel key n db m \<longleftrightarrow> key_size_ok key \<and> standalone db \<and> db_ok db \<and> zset_at db key m \<and> card (dom m) \<le> n"

lemma zset_exec_acts: "db_ok db \<Longrightarrow> acts ZSetType {key} db (snd (zset_exec key c db))"
  using ZAdd_acts ZRem_acts ZIncrBy_acts ZRemRangeByRank_acts ZRemRangeByScore_acts ZClear_acts
  by (cases c) (auto split: prod.splits intro: acts.none simp: case_prod_beta)

lemma zmap_step_card:
  assumes "finite (dom m)"
  shows "card (dom (snd (zmap_step c m))) \<le> card (dom m) + op_scores c"
proof (cases c)
  case (OpZAdd args)
  have "card (set (map snd args)) \<le> length args"
    using card_length [of "map snd args"] by simp
  then show ?thesis
    using card_Un_le [of "snd ` set args" "dom m"] OpZAdd by (simp add: dom_map_of_conv_image_fst image_image)
next
  case (OpZRem fs)
  then show ?thesis
    using card_mono [OF assms, of "dom m \<inter> - set fs"] by simp
next
  case (OpZRemRangeByRank i j)
  then show ?thesis
    using card_mono [OF assms, of "dom m \<inter> - snd ` set (range_of (sint i) (sint j) (zlist m))"]
    by (simp add: zremove_def)
next
  case (OpZRemRangeByScore a b)
  then show ?thesis
    using card_mono [OF assms, of "dom m \<inter> - snd ` set (filter (score_in a b) (zlist m))"]
    by (simp add: zremove_def)
qed (use assms in \<open>auto simp: card_insert_if Let_def\<close>)

lemma zset_incr_ok:
  assumes "writable db" "zset_at db key m" "key_size_ok key" "zmember_ok f" "d \<noteq> 0" "card (dom m) + 1 < 2 ^ 63"
  shows "\<exists>db'. zset_exec key (OpZIncrBy d f) db = (fst (zmap_step (OpZIncrBy d f) m), db') \<and>
    zset_at db' key (snd (zmap_step (OpZIncrBy d f) m))"
proof (cases "zscore_ok ((case m f of None \<Rightarrow> 0 | Some s \<Rightarrow> s) + d)")
  case False
  then show ?thesis
    using ZIncrBy_overflow [OF assms(2-4) False] assms(2) by simp
next
  case True
  show ?thesis
  proof (cases "m f")
    case None
    then show ?thesis
      using ZIncrBy_new [OF assms(1-4) None _ assms(6), of d] True by auto
  next
    case (Some s)
    then show ?thesis
      using ZIncrBy_old [OF assms(1-4) Some _ assms(5)] True by (auto simp: Let_def)
  qed
qed

lemma zset_remrank_ok:
  assumes "db_ok db" "writable db" "zset_at db key m" "key_size_ok key"
  shows "\<exists>db'. zset_exec key (OpZRemRangeByRank i j) db = (fst (zmap_step (OpZRemRangeByRank i j) m), db') \<and>
    zset_at db' key (snd (zmap_step (OpZRemRangeByRank i j) m))"
proof -
  obtain off c where p: "zParseLimit key i j db = Inr (off, c)"
      "limit_entries \<lparr>Offset = off, Count = c\<rparr> (zlist m) = range_of (sint i) (sint j) (zlist m)"
    using zParseLimit_ok [OF assms(3,4), of "zlist m" i j] by auto
  then have "range_of (sint i) (sint j) (zlist m) =
      limit_entries \<lparr>Offset = off, Count = c\<rparr> (filter (score_in MinScore MaxScore) (zlist m))"
    using score_in_all [OF assms(3)] by simp
  from zRemRange_ok [OF assms this] p(1) assms(2) show ?thesis
    by (auto simp: ZRemRangeByRank_def zremove_def)
qed

lemma zset_remscore_ok:
  assumes "db_ok db" "writable db" "zset_at db key m" "key_size_ok key"
  shows "\<exists>db'. zset_exec key (OpZRemRangeByScore a b) db = (fst (zmap_step (OpZRemRangeByScore a b) m), db') \<and>
    zset_at db' key (snd (zmap_step (OpZRemRangeByScore a b) m))"
  using zRemRange_ok [OF assms, of "filter (score_in a b) (zlist m)" 0 "-1" a b] assms(2)
  by (auto simp: ZRemRangeByScore_def zremove_def)

lemma zset_clear_ok:
  assumes "db_ok db" "writable db" "zset_at db key m" "key_size_ok key"
  shows "\<exists>db'. ZClear key db = (Inr (word_of_nat (card (dom m))), db') \<and> zset_at db' key Map.empty"
proof -
  have "m |` (- snd ` set (zlist m)) = Map.empty"
    using set_zlist [OF zset_at_finite(1) [OF assms(3)]] by (force simp: restrict_map_def fun_eq_iff)
  then show ?thesis
    using zRemRange_ok [OF assms, of "zlist m" 0 "-1" MinScore MaxScore] score_in_all [OF assms(3)] assms(2)
    by (auto simp: ZClear_def)
qed

lemma zset_exec_ok:
  assumes "standalone db" "db_ok db" "key_size_ok key" "zset_at db key m" "zset_op_ok c"
    and "card (dom m) + op_scores c < 2 ^ 63"
  shows "\<exists>db'. zset_exec key c db = (fst (zmap_step c m), db') \<and> zset_at db' key (snd (zmap_step c m))"
proof -
  note w = standalone_writable [OF assms(1)] and z = zset_at_scores [OF assms(4)]
  show ?thesis
  proof (cases c)
    case (OpZAdd args)
    then show ?thesis
      using ZAdd_ok [OF w assms(4,3), of args] assms(5,6) by auto
  next
    case (OpZRem fs)
    then show ?thesis
      using ZRem_ok [OF w assms(4,3), of fs] assms(5) by auto
  next
    case (OpZIncrBy d f)
    then show ?thesis
      using zset_incr_ok [OF w assms(4,3), of f d] assms(5,6) by simp
  next
    case (OpZRemRangeByRank i j)
    then show ?thesis
      using zset_remrank_ok [OF assms(2) w assms(4,3)] by simp
  next
    case (OpZRemRangeByScore a b)
    then show ?thesis
      using zset_remscore_ok [OF assms(2) w assms(4,3)] by simp
  next
    case OpZClear
    then show ?thesis
      using zset_clear_ok [OF assms(2) w assms(4,3)] by auto
  qed (use assms z in \<open>auto simp: ZScore_ok ZCard_ok ZKeyExists_ok ZCount_ok ZRank_def ZRevRank_def zrank_ok ZRange_def ZRevRange_def
      ZRangeGeneric_ok ZRangeByScore_def ZRevRangeByScore_def ZRangeByScoreGeneric_def zRange_ok\<close>)
qed

interpretation zmap: step_refinement "zset_exec key" zmap_step "zset_rel key" zset_op_ok op_scores max_scores
  for key
proof
  fix n db m c
  assume r: "zset_rel key n db m" "zset_op_ok c" and n: "n + op_scores c \<le> max_scores"
  then have h: "standalone db" "db_ok db" "key_size_ok key" "zset_at db key m" "card (dom m) \<le> n"
    by (simp_all add: zset_rel_def)
  have "card (dom m) + op_scores c < 2 ^ 63"
    using h(5) n by (simp add: max_scores_def)
  from zset_exec_ok [OF h(1-4) r(2) this] obtain db' where e:
      "zset_exec key c db = (fst (zmap_step c m), db')" "zset_at db' key (snd (zmap_step c m))"
    by blast
  moreover have "acts ZSetType {key} db db'"
    using zset_exec_acts [OF h(2), of key c] e(1) by simp
  moreover have "card (dom (snd (zmap_step c m))) \<le> n + op_scores c"
    using zmap_step_card [OF zset_at_finite(1) [OF h(4)], of c] h(5) by simp
  ultimately show "\<exists>db'. zset_exec key c db = (fst (zmap_step c m), db') \<and>
      zset_rel key (n + op_scores c) db' (snd (zmap_step c m))"
    using standalone_acts acts_db_ok h by (auto simp: zset_rel_def)
qed

section \<open>Ranges of members\<close>

definition in_lex :: "bytes option \<Rightarrow> bytes option \<Rightarrow> bytes \<Rightarrow> bool" where
  "in_lex mn mx f \<longleftrightarrow> (case mn of None \<Rightarrow> True | Some a \<Rightarrow> a \<le> f) \<and> (case mx of None \<Rightarrow> True | Some b \<Rightarrow> f \<le> b)"

lemma zitem_le: "zEncodeSetKey p k f \<le> zEncodeSetKey p k g \<longleftrightarrow> f \<le> g"
  using item_key_less(4) [of p k g f] by (simp add: not_less [symmetric])

lemma lex_bounds:
  assumes "zLexBounds p key mn mx = (lo, hi)"
  shows "lo \<le> zEncodeSetKey p key f \<and> zEncodeSetKey p key f \<le> hi \<longleftrightarrow> in_lex mn mx f"
    and "lo \<le> ek \<Longrightarrow> zEncodeStartSetKey p key \<le> ek" "ek \<le> hi \<Longrightarrow> ek \<le> zEncodeStopSetKey p key"
proof -
  have r: "zEncodeStartSetKey p key \<le> zEncodeSetKey p key g" "zEncodeSetKey p key g < zEncodeStopSetKey p key" for g
    using zset_range [of p key "zEncodeSetKey p key g"] by blast+
  show "lo \<le> zEncodeSetKey p key f \<and> zEncodeSetKey p key f \<le> hi \<longleftrightarrow> in_lex mn mx f"
    using assms r [of f] by (auto simp: zLexBounds_def in_lex_def zitem_le split: option.splits)
  show "lo \<le> ek \<Longrightarrow> zEncodeStartSetKey p key \<le> ek" "ek \<le> hi \<Longrightarrow> ek \<le> zEncodeStopSetKey p key"
    using assms r(1) less_imp_le [OF r(2)] by (auto simp: zLexBounds_def split: option.splits intro: order_trans)
qed

lemma member_key_between:
  assumes "db_ok db" "key16 key" "contents db ek = Some v"
    and "zEncodeStartSetKey (indexVarBuf db) key \<le> ek" "ek \<le> zEncodeStopSetKey (indexVarBuf db) key"
  shows "\<exists>f. ek = zitem db key f"
proof -
  let ?p = "indexVarBuf db"
  obtain r where r: "ek = (?p @ ZSetType # keyLen16 key @ key) @ r"
    using between_prefix assms(4,5) unfolding start_keys stop_keys by blast
  then obtain lk where lk: "lkey_ok lk" "ek = lkey_encode ?p lk"
    using assms(1,3) unfolding db_ok_def key_ok_def by (metis append.assoc)
  obtain xs where "lkey_encode ?p lk = ?p @ lkey_type lk # xs"
    using lkey_encode_type by blast
  then have "lkey_type lk = ZSetType"
    using lk(2) r by simp
  then obtain k f where k: "lk = ZSetKey k f" "key16 k"
    using lk(1) by (cases lk) (auto simp: type_defs)
  have "k = key"
    using lk(2) r k assms(2) by (auto simp: zEncodeSetKey_def keyLen16_eq)
  with k lk show ?thesis by auto
qed

lemma lex_entries:
  assumes "db_ok db" "key16 key" "zset_at db key m" "zLexBounds (indexVarBuf db) key mn mx = (lo, hi)"
  shows "filter (\<lambda>e. lo \<le> fst e \<and> fst e \<le> hi) (ldb db) =
    map (\<lambda>(f, v). (zitem db key f, v)) (filter (\<lambda>(f, v). in_lex mn mx f) (map_entries (score_map m)))"
proof -
  let ?p = "indexVarBuf db"
  have ok: "kv_ok (ldb db)"
    using assms(1) by simp
  have "e \<in> set (ldb db) \<Longrightarrow> lo \<le> fst e \<and> fst e \<le> hi \<longleftrightarrow>
      (lo \<le> fst e \<and> fst e \<le> hi) \<and> zEncodeStartSetKey ?p key \<le> fst e \<and> fst e < zEncodeStopSetKey ?p key" for e
  proof -
    assume e: "e \<in> set (ldb db)"
    have "\<exists>f. fst e = zitem db key f" if "lo \<le> fst e" "fst e \<le> hi"
      using member_key_between [OF assms(1,2) kv_get_dom [OF ok e]] lex_bounds(2,3) [OF assms(4)] that by blast
    then show ?thesis
      using zset_range [of ?p key "fst e"] by blast
  qed
  then have "filter (\<lambda>e. lo \<le> fst e \<and> fst e \<le> hi) (ldb db) = filter (\<lambda>e. lo \<le> fst e \<and> fst e \<le> hi)
      (filter (\<lambda>e. zEncodeStartSetKey ?p key \<le> fst e \<and> fst e < zEncodeStopSetKey ?p key) (ldb db))"
    unfolding filter_filter by (intro filter_cong) auto
  also have "\<dots> = filter (\<lambda>e. lo \<le> fst e \<and> fst e \<le> hi) (map (\<lambda>(f, v). (zitem db key f, v)) (map_entries (score_map m)))"
    using zsets.range_query [OF ok zset_at_items [OF assms(3)]] by (simp add: range_filter)
  also have "\<dots> = map (\<lambda>(f, v). (zitem db key f, v)) (filter (\<lambda>(f, v). in_lex mn mx f) (map_entries (score_map m)))"
    using lex_bounds(1) [OF assms(4)] by (simp add: filter_map comp_def case_prod_unfold)
  finally show ?thesis .
qed

lemma zLexMembers_ok: "key16 key \<Longrightarrow> zLexMembers p (map (\<lambda>(f, v). (zEncodeSetKey p key f, v)) es) = map fst es"
  by (induction es) auto

definition lex_members :: "bytes option \<Rightarrow> bytes option \<Rightarrow> (bytes \<rightharpoonup> i64) \<Rightarrow> bytes list" where
  "lex_members mn mx m = filter (in_lex mn mx) (sorted_list_of_set (dom m))"

lemma lex_members_entries:
  "finite (dom m) \<Longrightarrow> map fst (filter (\<lambda>(f, v). in_lex mn mx f) (map_entries (score_map m))) = lex_members mn mx m"
  using map_entries_keys [of "score_map m"]
  by (simp add: lex_members_def filter_map comp_def case_prod_unfold flip: map_entries_keys score_map_dom)

lemma ZRemRangeByLex_acts:
  assumes "db_ok db" "key16 key"
  shows "acts ZSetType {key} db (snd (ZRemRangeByLex key mn mx ty db))"
proof -
  have "own_batch (indexVarBuf db) ZSetType {key} (map (\<lambda>e. WDel (fst e))
      (range_entries \<lparr>rMin = Some lo, rMax = Some hi, rType = ty\<rparr> (ldb db)))"
    if b: "zLexBounds (indexVarBuf db) key mn mx = (lo, hi)" for lo hi
  proof -
    have "fst e \<in> own (indexVarBuf db) ZSetType {key}"
      if "e \<in> set (range_entries \<lparr>rMin = Some lo, rMax = Some hi, rType = ty\<rparr> (ldb db))" for e
    proof -
      have "e \<in> set (ldb db)" "lo \<le> fst e" "fst e \<le> hi"
        using that by (auto simp: range_entries_def above_min_def below_max_def split: if_splits)
      then have "\<exists>f. fst e = zitem db key f"
        using member_key_between [OF assms kv_get_dom [OF db_ok_kv_ok [OF assms(1)]]] lex_bounds(2,3) [OF b] by blast
      then show ?thesis
        using assms(2) by auto
    qed
    then show ?thesis
      by (auto simp: own_batch_def)
  qed
  then show ?thesis
    using assms(1) unfolding ZRemRangeByLex_def by (intro acts_rules) (simp_all add: fold_wb_Delete)
qed

lemma ZRemRangeByLex_effect:
  assumes "db_ok db" "writable db" "key16 key" "zset_at db key m"
  shows "\<exists>db'. ZRemRangeByLex key mn mx RangeClose db = (Inr (int (length (lex_members mn mx m))), db') \<and>
    indexVarBuf db' = indexVarBuf db \<and> contents db' (zsize db key) = contents db (zsize db key) \<and>
    (\<forall>f. contents db' (zitem db key f) = (if in_lex mn mx f then None else score_map m f)) \<and> zscore_at db' key m"
proof -
  obtain lo hi where b: "zLexBounds (indexVarBuf db) key mn mx = (lo, hi)"
    by fastforce
  note fin = zset_at_finite(1) [OF assms(4)]
  let ?es = "filter (\<lambda>(f, v). in_lex mn mx f) (map_entries (score_map m))"
  let ?t = "map (\<lambda>x. WDel (zitem db key (fst x))) ?es"
  have len: "length ?es = length (lex_members mn mx m)"
    using lex_members_entries [OF fin, of mn mx] by (metis length_map)
  have "ZRemRangeByLex key mn mx RangeClose db = (Inr (int (length (lex_members mn mx m))), committed ?t db)"
    using assms(1,2) lex_entries [OF assms(1,3,4) b] len
    by (simp add: ZRemRangeByLex_def b range_filter fold_wb_Delete Let_def case_prod_unfold comp_def)
  moreover have "wb_effect ?t (contents db) (zitem db key f) = (if in_lex mn mx f then None else score_map m f)" for f
  proof -
    have "set ?es = {(f, v). in_lex mn mx f \<and> score_map m f = Some v}"
      using set_map_entries [of "score_map m"] fin by auto
    then have "zitem db key f \<in> (\<lambda>x. zitem db key (fst x)) ` set ?es \<longleftrightarrow> in_lex mn mx f \<and> score_map m f \<noteq> None"
      by (auto simp: image_iff score_map_def)
    then show ?thesis
      using zset_at_get [OF assms(4), of f] by (auto simp: wb_effect_WDel_map)
  qed
  moreover have "wb_effect ?t (contents db) ek = contents db ek" if "\<And>f. ek \<noteq> zitem db key f" for ek
    using that by (auto simp: wb_effect_WDel_map)
  ultimately show ?thesis
    using assms(2) zset_at_scores [OF assms(4)] zset_keys_neq(1) by (auto simp: zscore_at_def)
qed

section \<open>Properties\<close>

lemma demo_zset_at [simp]: "zset_at demo_db key Map.empty"
  by (simp add: zset_at_def coll_at_def size_entry_def zscores_ok_def score_map_def)

lemma zmember_ok_small [simp]: "zmember_ok [a]"
  by (simp add: zmember_ok_def MaxZSetMemberSize_def)

lemma zlist_empty: "zlist Map.empty = []"
  by (simp add: zlist_def)

lemma zscore_ok_small [simp]: "zscore_ok 1" "zscore_ok 2" "zscore_ok 3" "zscore_ok 5"
  by (simp_all add: zscore_ok_def MinScore_def MaxScore_def)

text \<open>
  C6: Any sequence of \<open>ZAdd\<close>, \<open>ZRem\<close>, \<open>ZIncrBy\<close>, \<open>ZScore\<close>, \<open>ZCard\<close>, \<open>ZKeyExists\<close>, \<open>ZCount\<close>, \<open>ZRank\<close>,
  \<open>ZRevRank\<close>, \<open>ZRange\<close>, \<open>ZRevRange\<close>, \<open>ZRangeByScore\<close>, \<open>ZRevRangeByScore\<close>, \<open>ZRemRangeByRank\<close>,
  \<open>ZRemRangeByScore\<close> and \<open>ZClear\<close> on a sorted set answers what a finite map from members to scores
  answers that is listed by score and then by member: ranks are positions in this list, ranges
  are cut out of it, and an increment that leaves the allowed scores is refused. Side
  conditions: the database is writable and has no replication, scores and members are within
  the limits, no \<open>ZAdd\<close> or \<open>ZRem\<close> names a member twice (which miscounts), no increment is \<open>0\<close> (which
  loses the score key), and fewer than \<open>2 ^ 63\<close> members are added. The operations by
  lexicographic range are not among these.
\<close>

theorem zset_is_score_map:
  assumes "db_ok db" "standalone db" "key_size_ok key" "zset_at db key m" "list_all zset_op_ok cs"
    and "card (dom m) + sum_list (map op_scores cs) < 2 ^ 63"
  shows "\<exists>db'. run (zset_exec key) cs db = (fst (run zmap_step cs m), db') \<and>
    zset_at db' key (snd (run zmap_step cs m))"
  using zmap.run_refines [of key "card (dom m)" db m cs] assms
  by (auto simp: zset_rel_def max_scores_def)

lemma demo_zlist: "zlist [[8] \<mapsto> 3, [9] \<mapsto> 1] = [(1, [9]), (3, [8])]"
proof -
  have d: "(\<lambda>f. (sint (the ([[8] \<mapsto> 3, [9] \<mapsto> 1 :: i64] f)), f)) ` dom [[8] \<mapsto> 3, [9] \<mapsto> 1 :: i64] = {(1, [9]), (3, [8 :: byte])}"
    by auto
  show ?thesis
    unfolding zlist_def d by simp
qed

theorem zset_is_score_map_witness:
  "\<exists>db'. run (zset_exec [7]) [OpZAdd [(3, [8]), (1, [9])], OpZRange 0 (-1), OpZRevRank [8], OpZIncrBy 2 [9],
       OpZScore [9], OpZClear, OpZCard] demo_db =
     ([ZOutInt64 (Inr 2), ZOutPairs (Inr [(1, [9]), (3, [8])]), ZOutInt (Inr 0), ZOutInt64 (Inr 3),
       ZOutInt64 (Inr 3), ZOutInt64 (Inr 2), ZOutInt64 (Inr 0)], db')"
proof -
  let ?cs = "[OpZAdd [(3, [8]), (1, [9])], OpZRange 0 (-1), OpZRevRank [8], OpZIncrBy 2 [9],
       OpZScore [9], OpZClear, OpZCard] :: zset_op list"
  let ?m = "[[8] \<mapsto> 3, [9] \<mapsto> 1] :: bytes \<rightharpoonup> i64"
  have m: "(Map.empty([9] \<mapsto> 1))([8] \<mapsto> 3) = ?m"
    by (simp add: fun_eq_iff)
  have "rank_of True [8] ?m = 0"
    by (simp add: rank_of_def demo_zlist zless_def)
  then have "fst (run zmap_step ?cs Map.empty) = [ZOutInt64 (Inr 2), ZOutPairs (Inr [(1, [9]), (3, [8])]),
      ZOutInt (Inr 0), ZOutInt64 (Inr 3), ZOutInt64 (Inr 3), ZOutInt64 (Inr 2), ZOutInt64 (Inr 0)]"
    using m by (simp add: new_items_def demo_zlist range_of_all Let_def)
  moreover have "list_all zset_op_ok ?cs"
    by (simp add: sp_ok_def)
  ultimately show ?thesis
    using zset_is_score_map [of demo_db "[7]" Map.empty ?cs] by auto
qed

text \<open>
  C29: \<open>ZIncrBy\<close> by \<open>0\<close> on an existing member writes the score key and then deletes it, because the
  old score key is the new one: the member keeps its score and is still counted, but no
  range by score lists it any more.
\<close>

theorem zset_increment_zero:
  assumes "db_ok db" "writable db" "key_size_ok key" "zmember_ok f" "zset_at db key m" "m f = Some s"
  shows "\<exists>db'. ZIncrBy key 0 f db = (Inr s, db') \<and> ZScore key f db' = Inr s \<and> ZCard key db' = ZCard key db \<and>
    ZRangeByScore key a b 0 (-1) db' = Inr (filter (score_in a b) (zlist (m(f := None))))"
proof -
  let ?t = "[WPut (zscore db key f s) [], WPut (zitem db key f) (PutInt64 s), WDel (zscore db key f s)]"
  let ?db = "committed ?t db"
  have ok: "zscore_ok s"
    using assms(5,6) by (auto simp: zset_at_def zscores_ok_def)
  have e: "ZIncrBy key 0 f db = (Inr s, ?db)"
    using ZIncrBy_batch [OF assms(2,5,3,4,6), of 0] ok by simp
  have "db_ok ?db"
    using acts_db_ok [OF ZIncrBy_acts [of key db 0 f] assms(1)] e by simp
  moreover have "zscore_at ?db key (m(f := None))"
    using zset_at_scores [OF assms(5)] assms(2,6) by (auto simp: zscore_at_def)
  ultimately have "ZRangeByScore key a b 0 (-1) ?db = Inr (filter (score_in a b) (zlist (m(f := None))))"
    using zRange_ok [of ?db key "m(f := None)"] assms(3)
    by (simp add: ZRangeByScore_def ZRangeByScoreGeneric_def)
  moreover have "ZScore key f ?db = Inr s" "ZCard key ?db = ZCard key db"
    using assms(2-4) by (simp_all add: ZScore_def ZCard_def zset_keys_neq [symmetric])
  ultimately show ?thesis
    using e by blast
qed

lemma demo_zset:
  "\<exists>db. ZAdd [7] [(3, [8]), (1, [9])] demo_db = (Inr 2, db) \<and> db_ok db \<and> writable db \<and> standalone db \<and>
     zset_at db [7] [[8] \<mapsto> 3, [9] \<mapsto> 1]"
proof -
  obtain db where db: "ZAdd [7] [(3, [8]), (1, [9])] demo_db = (Inr 2, db)"
      "zset_at db [7] ((Map.empty([9] \<mapsto> 1))([8] \<mapsto> 3))"
    using ZAdd_ok [of demo_db "[7]" Map.empty "[(3, [8]), (1, [9])]"] by (auto simp: sp_ok_def new_items_def)
  have m: "(Map.empty([9] \<mapsto> 1))([8] \<mapsto> 3) = ([[8] \<mapsto> 3, [9] \<mapsto> 1] :: bytes \<rightharpoonup> i64)"
    by (simp add: fun_eq_iff)
  have "acts ZSetType {[7]} demo_db db"
    using ZAdd_acts [of "[7]" demo_db "[(3, [8]), (1, [9])]"] db(1) by simp
  then show ?thesis
    using db m acts_db_ok standalone_acts by (auto intro!: standalone_writable)
qed

theorem zset_increment_zero_witness:
  "\<exists>db db'. ZAdd [7] [(3, [8]), (1, [9])] demo_db = (Inr 2, db) \<and> ZIncrBy [7] 0 [8] db = (Inr 3, db') \<and>
     ZScore [7] [8] db' = Inr 3 \<and> ZRangeByScore [7] 2 5 0 (-1) db' = Inr []"
proof -
  obtain db where db: "ZAdd [7] [(3, [8]), (1, [9])] demo_db = (Inr 2, db)" "db_ok db" "writable db"
      "zset_at db [7] [[8] \<mapsto> 3, [9] \<mapsto> 1]"
    using demo_zset by blast
  have m: "([[8] \<mapsto> 3, [9] \<mapsto> 1])([8] := None) = ([[9] \<mapsto> 1] :: bytes \<rightharpoonup> i64)"
    by (simp add: fun_eq_iff)
  have "filter (score_in 2 5) (zlist [[9] \<mapsto> 1]) = []"
    by (simp add: zlist_def score_in_def)
  then show ?thesis
    using zset_increment_zero [OF db(2,3) _ _ db(4), of "[8]" 3 2 5] db(1) unfolding m by auto
qed

text \<open>
  C30: \<open>ZRangeByLex\<close> and \<open>ZLexCount\<close> list and count the members between two bounds, in ascending
  order, the bounds included (closed ranges). \<open>ZRemRangeByLex\<close> deletes and counts their member entries only: they have no score any
  more, but they still count in \<open>ZCard\<close> and every range by score still lists them.
\<close>

theorem zset_lex:
  assumes "db_ok db" "writable db" "key_size_ok key" "zset_at db key m"
  shows "ZRangeByLex key mn mx RangeClose off n db =
      Inr (limit_entries \<lparr>Offset = off, Count = n\<rparr> (lex_members mn mx m)) \<and>
    ZLexCount key mn mx RangeClose db = Inr (int (length (lex_members mn mx m))) \<and>
    (\<exists>db'. ZRemRangeByLex key mn mx RangeClose db = (Inr (int (length (lex_members mn mx m))), db') \<and>
      ZCard key db' = ZCard key db \<and>
      (\<forall>f. zmember_ok f \<longrightarrow> ZScore key f db' = (if in_lex mn mx f then Inl ErrScoreMiss else ZScore key f db)) \<and>
      ZRangeByScore key a b 0 (-1) db' = ZRangeByScore key a b 0 (-1) db)"
proof (intro conjI)
  obtain lo hi where b: "zLexBounds (indexVarBuf db) key mn mx = (lo, hi)"
    by fastforce
  have k: "key16 key"
    using assms(3) by simp
  note fin = zset_at_finite(1) [OF assms(4)]
  note l = lex_entries [OF assms(1) k assms(4) b] lex_members_entries [OF fin, of mn mx]
  show "ZRangeByLex key mn mx RangeClose off n db =
      Inr (limit_entries \<lparr>Offset = off, Count = n\<rparr> (lex_members mn mx m))"
    using assms(1) k
    by (simp add: ZRangeByLex_def b range_filter l(1) limit_entries_map zLexMembers_ok flip: l(2))
  show "ZLexCount key mn mx RangeClose db = Inr (int (length (lex_members mn mx m)))"
    using assms(1) by (simp add: ZLexCount_def b range_filter l(1) flip: l(2))
  obtain db' where d: "ZRemRangeByLex key mn mx RangeClose db = (Inr (int (length (lex_members mn mx m))), db')"
      "indexVarBuf db' = indexVarBuf db" "contents db' (zsize db key) = contents db (zsize db key)"
      "\<forall>f. contents db' (zitem db key f) = (if in_lex mn mx f then None else score_map m f)" "zscore_at db' key m"
    using ZRemRangeByLex_effect [OF assms(1,2) k assms(4), of mn mx] by blast
  have "db_ok db'"
    using acts_db_ok [OF ZRemRangeByLex_acts [OF assms(1) k, of mn mx RangeClose] assms(1)] d(1) by simp
  then have "ZRangeByScore key a b 0 (-1) db' = ZRangeByScore key a b 0 (-1) db"
    using zRange_ok [OF _ d(5) assms(3)] zRange_ok [OF assms(1) zset_at_scores [OF assms(4)] assms(3)]
    by (simp add: ZRangeByScore_def ZRangeByScoreGeneric_def)
  moreover have "ZScore key f db' = (if in_lex mn mx f then Inl ErrScoreMiss else ZScore key f db)" if "zmember_ok f" for f
    using that assms(3) d(2,4) zset_at_get [OF assms(4), of f] by (simp add: ZScore_def)
  moreover have "ZCard key db' = ZCard key db"
    using d(2,3) assms(3) by (simp add: ZCard_def)
  ultimately show "\<exists>db'. ZRemRangeByLex key mn mx RangeClose db = (Inr (int (length (lex_members mn mx m))), db') \<and>
      ZCard key db' = ZCard key db \<and>
      (\<forall>f. zmember_ok f \<longrightarrow> ZScore key f db' = (if in_lex mn mx f then Inl ErrScoreMiss else ZScore key f db)) \<and>
      ZRangeByScore key a b 0 (-1) db' = ZRangeByScore key a b 0 (-1) db"
    using d(1) by blast
qed

theorem zset_lex_witness:
  "\<exists>db db'. ZAdd [7] [(3, [8]), (1, [9])] demo_db = (Inr 2, db) \<and> ZRangeByLex [7] (Some [9]) None RangeClose 0 (-1) db = Inr [[9]] \<and>
     ZRemRangeByLex [7] (Some [9]) None RangeClose db = (Inr 1, db') \<and> ZScore [7] [9] db' = Inl ErrScoreMiss \<and>
     ZCard [7] db' = Inr 2 \<and> ZRangeByScore [7] 1 2 0 (-1) db' = Inr [(1, [9])]"
proof -
  obtain db where db: "ZAdd [7] [(3, [8]), (1, [9])] demo_db = (Inr 2, db)" "db_ok db" "writable db"
      "zset_at db [7] [[8] \<mapsto> 3, [9] \<mapsto> 1]"
    using demo_zset by blast
  have l: "lex_members (Some [9]) None [[8] \<mapsto> 3, [9] \<mapsto> 1] = [[9]]"
    by (simp add: lex_members_def in_lex_def)
  have "ZRangeByScore [7] 1 2 0 (-1) db = Inr [(1, [9])]" "ZCard [7] db = Inr 2"
    using zRange_ok [OF db(2) zset_at_scores [OF db(4)], of 1 2 0 "-1" False] ZCard_ok [OF db(4)]
    by (simp_all add: ZRangeByScore_def ZRangeByScoreGeneric_def demo_zlist score_in_def)
  then show ?thesis
    using zset_lex [OF db(2,3) _ db(4), of "Some [9]" None 0 "-1" 1 2] db(1) unfolding l
    by (auto simp: in_lex_def)
qed

section \<open>Union and intersection\<close>

definition zunion_of :: "(i64 \<Rightarrow> i64 \<Rightarrow> i64) \<Rightarrow> (bytes \<times> i64) list \<Rightarrow> (bytes \<Rightarrow> bytes \<rightharpoonup> i64) \<Rightarrow> bytes \<rightharpoonup> i64" where
  "zunion_of f srcs F = fold (\<lambda>(k, w). zunion1 f w (F k)) srcs Map.empty"

definition zinter_of :: "(i64 \<Rightarrow> i64 \<Rightarrow> i64) \<Rightarrow> (bytes \<times> i64) list \<Rightarrow> (bytes \<Rightarrow> bytes \<rightharpoonup> i64) \<Rightarrow> bytes \<rightharpoonup> i64" where
  "zinter_of f srcs F =
     fold (\<lambda>(k, w). zinter1 f w (F k)) (tl srcs) (\<lambda>x. map_option (\<lambda>s. s * snd (hd srcs)) (F (fst (hd srcs)) x))"

lemma zunion1_dom: "dom (zunion1 f w m R) = dom m \<union> dom R"
  by (auto simp: zunion1_def split: option.splits)

lemma zinter1_dom: "dom (zinter1 f w m R) = dom m \<inter> dom R"
  by (auto simp: zinter1_def split: option.splits)

lemma zunion_fold_dom: "dom (fold (\<lambda>(k, w). zunion1 f w (F k)) srcs R) = dom R \<union> (\<Union>x \<in> set srcs. dom (F (fst x)))"
  by (induction srcs arbitrary: R) (simp_all add: zunion1_dom case_prod_unfold Un_ac)

lemma zinter_fold_dom: "dom (fold (\<lambda>(k, w). zinter1 f w (F k)) srcs R) = dom R \<inter> (\<Inter>x \<in> set srcs. dom (F (fst x)))"
  by (induction srcs arbitrary: R) (simp_all add: zinter1_dom case_prod_unfold Int_ac)

lemma weighted_ok:
  "distinct (map snd ps) \<Longrightarrow> distinct (map fst dest) \<Longrightarrow> distinct (map fst (fold (\<lambda>(s, m). AList.update m (s * w)) ps dest)) \<and>
     map_of (fold (\<lambda>(s, m). AList.update m (s * w)) ps dest) =
       map_of dest ++ (\<lambda>x. map_option (\<lambda>s. s * w) (map_of (map prod.swap ps) x))"
proof (induction ps arbitrary: dest)
  case (Cons a ps)
  obtain s m where a: "a = (s, m)" by fastforce
  let ?d = "AList.update m (s * w) dest"
  have d: "distinct (map fst ?d)"
    using Cons.prems(2) by (rule distinct_update)
  have "map_of (map prod.swap ps) m = None"
    using Cons.prems(1) a by (simp add: map_of_eq_None_iff image_image)
  then have u: "map_of ?d ++ (\<lambda>x. map_option (\<lambda>s. s * w) (map_of (map prod.swap ps) x)) =
      map_of dest ++ (\<lambda>x. map_option (\<lambda>s. s * w) (map_of (map prod.swap (a # ps)) x))"
    by (auto simp: fun_eq_iff update_conv' a map_add_def split: option.split)
  have e: "fold (\<lambda>(s, m). AList.update m (s * w)) (a # ps) dest = fold (\<lambda>(s, m). AList.update m (s * w)) ps ?d"
    by (simp add: a)
  show ?case
    unfolding e u [symmetric] using Cons.IH [OF _ d] Cons.prems(1) by simp
qed (simp add: map_add_def fun_eq_iff)

text \<open>\<open>zstored dst R db o\<close>: the outcome \<open>o\<close> of storing the map \<open>R\<close> under the destination.\<close>

definition zstored :: "bytes \<Rightarrow> (bytes \<rightharpoonup> i64) \<Rightarrow> DB \<Rightarrow> i64 res \<times> DB \<Rightarrow> bool" where
  "zstored dst R db out \<longleftrightarrow>
     (if zscores_ok R
      then \<exists>db'. out = (Inr (word_of_nat (card (dom R))), db') \<and> ZCard dst db' = Inr (word_of_nat (card (dom R))) \<and>
        ZKeyExists dst db' = Inr 1 \<and> zscore_at db' dst R \<and> (R \<noteq> Map.empty \<longrightarrow> zset_at db' dst R)
      else out = (Inl ErrScoreOverflow, db))"

lemma zholds_member: "zholds db ks F \<Longrightarrow> k \<in> set ks \<Longrightarrow> x \<in> dom (F k) \<Longrightarrow> zmember_ok x"
  by (auto simp: zholds_def list_all_iff)

lemma zStoreMap_stored:
  assumes "db_ok db" "writable db" "zset_at db dst D" "key_size_ok dst" "any_map_order ord"
    and "distinct (map fst dest)" "\<forall>x \<in> dom R. zmember_ok x" "map_of dest = R" "card (dom R) < 2 ^ 63"
  shows "zstored dst R db (zStoreMap ord dst dest db)"
  using zStoreMap_ok [OF assms] by (simp add: zstored_def)

text \<open>
  C31: \<open>ZUnionStore\<close> and \<open>ZInterStore\<close> compute the union and the intersection of the sources, where
  the score of a member is the sum, the minimum or the maximum of its weighted scores, with
  the wrap-around of 64 bits, and replace the destination, which may be one of the sources,
  by the result, in whatever order Go iterates over its map. If a score of the result leaves
  the allowed range, nothing is written. An empty result leaves an existing sorted set of
  size \<open>0\<close> behind.
\<close>

theorem zset_union_inter:
  assumes "db_ok db" "writable db" "zholds db srcKeys F" "srcKeys \<noteq> []" "length ws = length srcKeys"
    and "getAggregateFunc agg = Some f" "any_map_order ord" "key_size_ok dst" "zset_at db dst D"
    and "card (dom (zunion_of f (zip srcKeys ws) F)) < 2 ^ 63"
  shows "zstored dst (zunion_of f (zip srcKeys ws) F) db (ZUnionStore ord dst srcKeys (Some ws) agg db) \<and>
    zstored dst (zinter_of f (zip srcKeys ws) F) db (ZInterStore ord dst srcKeys (Some ws) agg db)"
proof
  let ?srcs = "zip srcKeys ws"
  let ?U = "zunion_of f ?srcs F" and ?I = "zinter_of f ?srcs F"
  have args: "zStoreArgs srcKeys (Some ws) agg = Inr (f, ws)"
    using assms(4-6) by (simp add: zStoreArgs_def Suc_le_eq)
  have k: "map fst ?srcs = srcKeys" "zholds db (map fst ?srcs) F"
    using assms(3,5) by simp_all
  have U: "dom ?U = (\<Union>k \<in> set srcKeys. dom (F k))"
    unfolding zunion_of_def zunion_fold_dom by (subst k(1) [symmetric]) (simp del: map_fst_zip)
  obtain r where r: "zUnion_loop db f ?srcs [] = Inr r" "distinct (map fst r)" "map_of r = ?U"
    using zUnion_loop_ok [OF assms(1) k(2), of "[]" f] by (auto simp: zunion_of_def)
  have "zstored dst ?U db (zStoreMap ord dst r db)"
    by (rule zStoreMap_stored [OF assms(1,2,9,8,7) r(2) _ r(3) assms(10)]) (use U zholds_member [OF assms(3)] in auto)
  then show "zstored dst ?U db (ZUnionStore ord dst srcKeys (Some ws) agg db)"
    by (simp add: ZUnionStore_def args r(1))
  obtain k0 ks w0 ws' where s: "srcKeys = k0 # ks" "ws = w0 # ws'" "?srcs = (k0, w0) # zip ks ws'"
    using assms(4,5) by (cases srcKeys; cases ws) auto
  have z: "zset_at db k0 (F k0)" "key_size_ok k0" "zholds db (map fst (zip ks ws')) F"
    using assms(3,5) s by (simp_all add: zholds_def)
  note fin = zset_at_finite(1) [OF z(1)]
  let ?d = "fold (\<lambda>(s, m). AList.update m (s * w0)) (zlist (F k0)) []"
  have d: "distinct (map fst ?d)" "map_of ?d = (\<lambda>x. map_option (\<lambda>s. s * w0) (F k0 x))"
    using weighted_ok [OF zlist_distinct_members [OF fin], of "[]" w0] unfolding map_of_swap_zlist [OF fin] by simp_all
  obtain q where q: "zInter_loop db f (zip ks ws') ?d = Inr q" "distinct (map fst q)" "map_of q = ?I"
    using zInter_loop_ok [OF assms(1) z(3) d(1), of f] unfolding d(2) by (auto simp: zinter_of_def s(3))
  have "dom ?I \<subseteq> dom (F k0)"
    unfolding zinter_of_def zinter_fold_dom by (auto simp: s(3))
  moreover have "dom (F k0) \<subseteq> dom ?U"
    by (subst U) (simp add: s(1))
  moreover have "finite (dom ?U)"
    unfolding r(3) [symmetric] by (rule finite_dom_map_of)
  ultimately have c: "card (dom ?I) < 2 ^ 63" "dom ?I \<subseteq> dom (F k0)"
    using assms(10) card_mono [of "dom ?U" "dom ?I"] by (meson le_less_trans order_trans)+
  have "zstored dst ?I db (zStoreMap ord dst q db)"
    by (rule zStoreMap_stored [OF assms(1,2,9,8,7) q(2) _ q(3) c(1)])
       (use c(2) zholds_member [OF assms(3), of k0] s(1) in auto)
  then show "zstored dst ?I db (ZInterStore ord dst srcKeys (Some ws) agg db)"
    using q(1) by (simp add: ZInterStore_def args [unfolded s(1,2)] s(1,2) ZRange_all [OF assms(1) z(1,2)])
qed

theorem zset_union_inter_witness:
  "\<exists>db db'. ZAdd [7] [(3, [8]), (1, [9])] demo_db = (Inr 2, db) \<and>
     ZUnionStore rev [6] [[7], [7]] (Some [1, 2]) AggregateSum db = (Inr 2, db') \<and> zset_at db' [6] [[8] \<mapsto> 9, [9] \<mapsto> 3]"
proof -
  obtain db where db: "ZAdd [7] [(3, [8]), (1, [9])] demo_db = (Inr 2, db)" "db_ok db" "writable db"
      "zset_at db [7] [[8] \<mapsto> 3, [9] \<mapsto> 1]"
    using demo_zset by blast
  let ?F = "\<lambda>_ :: bytes. [[8] \<mapsto> 3, [9] \<mapsto> 1] :: bytes \<rightharpoonup> i64"
  have a: "acts ZSetType {[7]} demo_db db"
    using ZAdd_acts [of "[7]" demo_db "[(3, [8]), (1, [9])]"] db(1) by simp
  have "zset_at db [6] Map.empty"
    using zset_at_frame [OF a, of "[6]" Map.empty] by (simp add: key16_def)
  moreover have "zholds db [[7], [7]] ?F" "any_map_order rev" "getAggregateFunc AggregateSum = Some (\<lambda>a b. a + b)"
    using db(4) by (auto simp: zholds_def any_map_order_def getAggregateFunc_def)
  moreover have u: "zunion_of (\<lambda>a b. a + b) (zip [[7], [7]] [1, 2]) ?F = [[8] \<mapsto> 9, [9] \<mapsto> 3]"
    by (auto simp: zunion_of_def zunion1_def fun_eq_iff)
  moreover have "zscores_ok [[8] \<mapsto> 9, [9] \<mapsto> 3]"
    by (simp add: zscores_ok_def zscore_ok_def MinScore_def MaxScore_def)
  ultimately show ?thesis
    using zset_union_inter [OF db(2,3), of "[[7], [7]]" ?F "[1, 2]" AggregateSum "\<lambda>a b. a + b" rev "[6]" Map.empty] db(1)
    by (auto simp: zstored_def)
qed

end
