(* ===== verification/Ledis_Scan.thy ===== *)
theory Ledis_Scan
  imports Ledis_Hash_Props Ledis_Set_Props Ledis_ZSet_Props
begin

text \<open>
  Cursor based scans (\<open>ledis/scan.go\<close>): the names of the data of one type, and the items of one
  hash, set or sorted set, from a cursor on, forwards or backwards, filtered by a regular
  expression. Compiling a regular expression is a parameter \<open>compile\<close>: it answers an error or
  the predicate that \<open>Regexp.Match\<close> computes, and nothing is assumed of it. A cursor that is nil
  and an empty one are encoded alike, so a cursor is a byte string. The loops start from
  \<open>make([]T, 0, count)\<close>, whose allocation is taken to succeed.
\<close>

type_synonym DataType = byte

definition KV :: DataType where "KV = 0"
definition LIST :: DataType where "LIST = 1"
definition HASH :: DataType where "HASH = 2"
definition SET :: DataType where "SET = 3"
definition ZSET :: DataType where "ZSET = 4"

lemmas data_types = KV_def LIST_def HASH_def SET_def ZSET_def

definition getDataStoreType :: "DataType \<Rightarrow> byte res" where
  "getDataStoreType dataType =
     (if dataType = KV then Inr KVType
      else if dataType = LIST then Inr LMetaType
      else if dataType = HASH then Inr HSizeType
      else if dataType = SET then Inr SSizeType
      else if dataType = ZSET then Inr ZSizeType
      else Inl ErrDataType)"

type_synonym regexp = "bytes \<Rightarrow> bool"
type_synonym compiler = "bytes \<Rightarrow> regexp res"

definition buildMatchRegexp :: "compiler \<Rightarrow> bytes \<Rightarrow> regexp option res" where
  "buildMatchRegexp compile match =
     (if 0 < length match
      then (case compile match of Inl e \<Rightarrow> Inl e | Inr r \<Rightarrow> Inr (Some r))
      else Inr None)"

definition buildScanIterator :: "DB \<Rightarrow> bytes \<Rightarrow> bytes \<Rightarrow> bool \<Rightarrow> bool \<Rightarrow> RangeLimitIterator" where
  "buildScanIterator db minKey maxKey inclusive reverse =
     (let tp = (if \<not> reverse then (if inclusive then RangeROpen else RangeOpen)
                else (if inclusive then RangeLOpen else RangeOpen));
          r = \<lparr>rMin = Some minKey, rMax = Some maxKey, rType = tp\<rparr>
      in if \<not> reverse then NewRangeIterator (NewIterator (ldb db)) r
         else NewRevRangeIterator (NewIterator (ldb db)) r)"

section \<open>Names of data\<close>

definition encodeScanKey :: "bytes \<Rightarrow> byte \<Rightarrow> bytes \<Rightarrow> bytes res" where
  "encodeScanKey p storeDataType key =
     (if storeDataType = KVType then Inr (encodeKVKey p key)
      else if storeDataType = LMetaType then Inr (lEncodeMetaKey p key)
      else if storeDataType = HSizeType then Inr (hEncodeSizeKey p key)
      else if storeDataType = ZSizeType then Inr (zEncodeSizeKey p key)
      else if storeDataType = SSizeType then Inr (sEncodeSizeKey p key)
      else Inl ErrDataType)"

definition decodeScanKey :: "bytes \<Rightarrow> byte \<Rightarrow> bytes \<Rightarrow> bytes res" where
  "decodeScanKey p storeDataType ek =
     (if storeDataType = KVType then decodeKVKey p ek
      else if storeDataType = LMetaType then lDecodeMetaKey p ek
      else if storeDataType = HSizeType then hDecodeSizeKey p ek
      else if storeDataType = ZSizeType then zDecodeSizeKey p ek
      else if storeDataType = SSizeType then sDecodeSizeKey p ek
      else Inl ErrDataType)"

definition encodeScanMinKey :: "bytes \<Rightarrow> byte \<Rightarrow> bytes \<Rightarrow> bytes res" where
  "encodeScanMinKey p storeDataType key = encodeScanKey p storeDataType key"

definition encodeScanMaxKey :: "bytes \<Rightarrow> byte \<Rightarrow> bytes \<Rightarrow> bytes res" where
  "encodeScanMaxKey p storeDataType key =
     (if 0 < length key then encodeScanKey p storeDataType key
      else
        case encodeScanKey p storeDataType [] of
          Inl e \<Rightarrow> Inl e
        | Inr k \<Rightarrow> Inr (k[length k - 1 := storeDataType + 1]))"

definition buildScanKeyRange :: "bytes \<Rightarrow> byte \<Rightarrow> bytes \<Rightarrow> bool \<Rightarrow> (bytes \<times> bytes) res" where
  "buildScanKeyRange p storeDataType key reverse =
     (case encodeScanMinKey p storeDataType (if \<not> reverse then key else []) of
        Inl e \<Rightarrow> Inl e
      | Inr minKey \<Rightarrow>
          (case encodeScanMaxKey p storeDataType (if \<not> reverse then [] else key) of
             Inl e \<Rightarrow> Inl e
           | Inr maxKey \<Rightarrow> Inr (minKey, maxKey)))"

definition checkScanCount :: "int \<Rightarrow> int" where
  "checkScanCount cnt = (if cnt \<le> 0 then defaultScanCount else cnt)"

definition regexp_rejects :: "regexp option \<Rightarrow> bytes \<Rightarrow> bool" where
  "regexp_rejects r k = (case r of None \<Rightarrow> False | Some m \<Rightarrow> \<not> m k)"

fun scan_loop :: "bytes \<Rightarrow> byte \<Rightarrow> regexp option \<Rightarrow> int \<Rightarrow> (bytes \<times> bytes) list \<Rightarrow> int \<Rightarrow> bytes list" where
  "scan_loop p ty r cnt [] i = []"
| "scan_loop p ty r cnt ((ek, v) # es) i =
     (if \<not> i < cnt then []
      else
        case decodeScanKey p ty ek of
          Inl e \<Rightarrow> scan_loop p ty r cnt es i
        | Inr k \<Rightarrow>
            if regexp_rejects r k then scan_loop p ty r cnt es i
            else k # scan_loop p ty r cnt es (i + 1))"

definition scanGeneric ::
  "compiler \<Rightarrow> byte \<Rightarrow> bytes \<Rightarrow> int \<Rightarrow> bool \<Rightarrow> bytes \<Rightarrow> bool \<Rightarrow> DB \<Rightarrow> bytes list res" where
  "scanGeneric compile storeDataType key cnt inclusive match reverse db =
     (case buildMatchRegexp compile match of
        Inl e \<Rightarrow> Inl e
      | Inr r \<Rightarrow>
          (case buildScanKeyRange (indexVarBuf db) storeDataType key reverse of
             Inl e \<Rightarrow> Inl e
           | Inr (minKey, maxKey) \<Rightarrow>
               Inr (scan_loop (indexVarBuf db) storeDataType r (checkScanCount cnt)
                      (rli_run (buildScanIterator db minKey maxKey inclusive reverse)) 0)))"

definition Scan :: "compiler \<Rightarrow> DataType \<Rightarrow> bytes \<Rightarrow> int \<Rightarrow> bool \<Rightarrow> bytes \<Rightarrow> DB \<Rightarrow> bytes list res" where
  "Scan compile dataType cursor cnt inclusive match db =
     (case getDataStoreType dataType of
        Inl e \<Rightarrow> Inl e
      | Inr ty \<Rightarrow> scanGeneric compile ty cursor cnt inclusive match False db)"

definition RevScan :: "compiler \<Rightarrow> DataType \<Rightarrow> bytes \<Rightarrow> int \<Rightarrow> bool \<Rightarrow> bytes \<Rightarrow> DB \<Rightarrow> bytes list res" where
  "RevScan compile dataType cursor cnt inclusive match db =
     (case getDataStoreType dataType of
        Inl e \<Rightarrow> Inl e
      | Inr ty \<Rightarrow> scanGeneric compile ty cursor cnt inclusive match True db)"

section \<open>Items of a datum\<close>

definition encodeDataScanKey :: "bytes \<Rightarrow> byte \<Rightarrow> bytes \<Rightarrow> bytes \<Rightarrow> bytes res" where
  "encodeDataScanKey p storeDataType key cursor =
     (if storeDataType = HashType then Inr (hEncodeHashKey p key cursor)
      else if storeDataType = ZSetType then Inr (zEncodeSetKey p key cursor)
      else if storeDataType = SetType then Inr (sEncodeSetKey p key cursor)
      else Inl ErrDataType)"

definition encodeDataScanMinKey :: "bytes \<Rightarrow> byte \<Rightarrow> bytes \<Rightarrow> bytes \<Rightarrow> bytes res" where
  "encodeDataScanMinKey p storeDataType key cursor = encodeDataScanKey p storeDataType key cursor"

definition encodeDataScanMaxKey :: "bytes \<Rightarrow> byte \<Rightarrow> bytes \<Rightarrow> bytes \<Rightarrow> bytes res" where
  "encodeDataScanMaxKey p storeDataType key cursor =
     (if 0 < length cursor then encodeDataScanKey p storeDataType key cursor
      else
        case encodeDataScanKey p storeDataType key [] of
          Inl e \<Rightarrow> Inl e
        | Inr k \<Rightarrow> Inr (k[length k - 1 := k ! (length k - 1) + 1]))"

definition buildDataScanKeyRange ::
  "bytes \<Rightarrow> byte \<Rightarrow> bytes \<Rightarrow> bytes \<Rightarrow> bool \<Rightarrow> (bytes \<times> bytes) res" where
  "buildDataScanKeyRange p storeDataType key cursor reverse =
     (case encodeDataScanMinKey p storeDataType key (if \<not> reverse then cursor else []) of
        Inl e \<Rightarrow> Inl e
      | Inr minKey \<Rightarrow>
          (case encodeDataScanMaxKey p storeDataType key (if \<not> reverse then [] else cursor) of
             Inl e \<Rightarrow> Inl e
           | Inr maxKey \<Rightarrow> Inr (minKey, maxKey)))"

definition buildDataScanIterator ::
  "DB \<Rightarrow> byte \<Rightarrow> bytes \<Rightarrow> bytes \<Rightarrow> bool \<Rightarrow> bool \<Rightarrow> RangeLimitIterator res" where
  "buildDataScanIterator db storeDataType key cursor inclusive reverse =
     (case checkKeySize key of
        Inl e \<Rightarrow> Inl e
      | Inr u \<Rightarrow>
          (case buildDataScanKeyRange (indexVarBuf db) storeDataType key cursor reverse of
             Inl e \<Rightarrow> Inl e
           | Inr (minKey, maxKey) \<Rightarrow> Inr (buildScanIterator db minKey maxKey inclusive reverse)))"

fun hScan_loop :: "bytes \<Rightarrow> regexp option \<Rightarrow> int \<Rightarrow> (bytes \<times> bytes) list \<Rightarrow> int \<Rightarrow> FVPair list res" where
  "hScan_loop p r cnt [] i = Inr []"
| "hScan_loop p r cnt ((ek, v) # es) i =
     (if \<not> i < cnt then Inr []
      else
        case hDecodeHashKey p ek of
          Inl e \<Rightarrow> Inl e
        | Inr (_, f) \<Rightarrow>
            if regexp_rejects r f then hScan_loop p r cnt es i
            else
              case hScan_loop p r cnt es (i + 1) of
                Inl e \<Rightarrow> Inl e
              | Inr fvs \<Rightarrow> Inr ((f, v) # fvs))"

fun sScan_loop :: "bytes \<Rightarrow> regexp option \<Rightarrow> int \<Rightarrow> (bytes \<times> bytes) list \<Rightarrow> int \<Rightarrow> bytes list res" where
  "sScan_loop p r cnt [] i = Inr []"
| "sScan_loop p r cnt ((ek, v) # es) i =
     (if \<not> i < cnt then Inr []
      else
        case sDecodeSetKey p ek of
          Inl e \<Rightarrow> Inl e
        | Inr (_, m) \<Rightarrow>
            if regexp_rejects r m then sScan_loop p r cnt es i
            else
              case sScan_loop p r cnt es (i + 1) of
                Inl e \<Rightarrow> Inl e
              | Inr ms \<Rightarrow> Inr (m # ms))"

fun zScan_loop :: "bytes \<Rightarrow> regexp option \<Rightarrow> int \<Rightarrow> (bytes \<times> bytes) list \<Rightarrow> int \<Rightarrow> ScorePair list res" where
  "zScan_loop p r cnt [] i = Inr []"
| "zScan_loop p r cnt ((ek, v) # es) i =
     (if \<not> i < cnt then Inr []
      else
        case zDecodeSetKey p ek of
          Inl e \<Rightarrow> Inl e
        | Inr (_, m) \<Rightarrow>
            if regexp_rejects r m then zScan_loop p r cnt es i
            else
              case Int64 (Inr (Some v)) of
                Inl e \<Rightarrow> Inl e
              | Inr score \<Rightarrow>
                  (case zScan_loop p r cnt es (i + 1) of
                     Inl e \<Rightarrow> Inl e
                   | Inr ps \<Rightarrow> Inr ((score, m) # ps)))"

definition hScanGeneric ::
  "compiler \<Rightarrow> bytes \<Rightarrow> bytes \<Rightarrow> int \<Rightarrow> bool \<Rightarrow> bytes \<Rightarrow> bool \<Rightarrow> DB \<Rightarrow> FVPair list res" where
  "hScanGeneric compile key cursor cnt inclusive match reverse db =
     (case buildMatchRegexp compile match of
        Inl e \<Rightarrow> Inl e
      | Inr r \<Rightarrow>
          (case buildDataScanIterator db HashType key cursor inclusive reverse of
             Inl e \<Rightarrow> Inl e
           | Inr it \<Rightarrow> hScan_loop (indexVarBuf db) r (checkScanCount cnt) (rli_run it) 0))"

definition HScan :: "compiler \<Rightarrow> bytes \<Rightarrow> bytes \<Rightarrow> int \<Rightarrow> bool \<Rightarrow> bytes \<Rightarrow> DB \<Rightarrow> FVPair list res" where
  "HScan compile key cursor cnt inclusive match db =
     hScanGeneric compile key cursor cnt inclusive match False db"

definition HRevScan :: "compiler \<Rightarrow> bytes \<Rightarrow> bytes \<Rightarrow> int \<Rightarrow> bool \<Rightarrow> bytes \<Rightarrow> DB \<Rightarrow> FVPair list res" where
  "HRevScan compile key cursor cnt inclusive match db =
     hScanGeneric compile key cursor cnt inclusive match True db"

definition sScanGeneric ::
  "compiler \<Rightarrow> bytes \<Rightarrow> bytes \<Rightarrow> int \<Rightarrow> bool \<Rightarrow> bytes \<Rightarrow> bool \<Rightarrow> DB \<Rightarrow> bytes list res" where
  "sScanGeneric compile key cursor cnt inclusive match reverse db =
     (case buildMatchRegexp compile match of
        Inl e \<Rightarrow> Inl e
      | Inr r \<Rightarrow>
          (case buildDataScanIterator db SetType key cursor inclusive reverse of
             Inl e \<Rightarrow> Inl e
           | Inr it \<Rightarrow> sScan_loop (indexVarBuf db) r (checkScanCount cnt) (rli_run it) 0))"

definition SScan :: "compiler \<Rightarrow> bytes \<Rightarrow> bytes \<Rightarrow> int \<Rightarrow> bool \<Rightarrow> bytes \<Rightarrow> DB \<Rightarrow> bytes list res" where
  "SScan compile key cursor cnt inclusive match db =
     sScanGeneric compile key cursor cnt inclusive match False db"

definition SRevScan :: "compiler \<Rightarrow> bytes \<Rightarrow> bytes \<Rightarrow> int \<Rightarrow> bool \<Rightarrow> bytes \<Rightarrow> DB \<Rightarrow> bytes list res" where
  "SRevScan compile key cursor cnt inclusive match db =
     sScanGeneric compile key cursor cnt inclusive match True db"

definition zScanGeneric ::
  "compiler \<Rightarrow> bytes \<Rightarrow> bytes \<Rightarrow> int \<Rightarrow> bool \<Rightarrow> bytes \<Rightarrow> bool \<Rightarrow> DB \<Rightarrow> ScorePair list res" where
  "zScanGeneric compile key cursor cnt inclusive match reverse db =
     (case buildMatchRegexp compile match of
        Inl e \<Rightarrow> Inl e
      | Inr r \<Rightarrow>
          (case buildDataScanIterator db ZSetType key cursor inclusive reverse of
             Inl e \<Rightarrow> Inl e
           | Inr it \<Rightarrow> zScan_loop (indexVarBuf db) r (checkScanCount cnt) (rli_run it) 0))"

definition ZScan :: "compiler \<Rightarrow> bytes \<Rightarrow> bytes \<Rightarrow> int \<Rightarrow> bool \<Rightarrow> bytes \<Rightarrow> DB \<Rightarrow> ScorePair list res" where
  "ZScan compile key cursor cnt inclusive match db =
     zScanGeneric compile key cursor cnt inclusive match False db"

definition ZRevScan :: "compiler \<Rightarrow> bytes \<Rightarrow> bytes \<Rightarrow> int \<Rightarrow> bool \<Rightarrow> bytes \<Rightarrow> DB \<Rightarrow> ScorePair list res" where
  "ZRevScan compile key cursor cnt inclusive match db =
     zScanGeneric compile key cursor cnt inclusive match True db"

end
