(* ===== verification/Ledis_Scan_Laws.thy ===== *)
theory Ledis_Scan_Laws
  imports Ledis_Scan
begin

text \<open>
  Scans list what is there: the names of a type in order (\<open>data_names\<close>), and the items of a
  collection in order, restricted to the side of the cursor (\<open>past_cursor\<close>), to the names the
  regular expression accepts and to the count.
\<close>

section \<open>Ranges\<close>

definition scan_types :: "byte set" where
  "scan_types = {KVType, LMetaType, HSizeType, ZSizeType, SSizeType}"

lemmas type_bytes = KVType_def LMetaType_def HSizeType_def ZSizeType_def SSizeType_def

lemma encodeScanKey_simp [simp]: "ty \<in> scan_types \<Longrightarrow> encodeScanKey p ty k = Inr (p @ ty # k)"
  by (auto simp: encodeScanKey_def scan_types_def type_bytes encodeKVKey_def lEncodeMetaKey_def
      hEncodeSizeKey_def zEncodeSizeKey_def sEncodeSizeKey_def)

lemma split_at_prefix: "p = take (length p) ek \<Longrightarrow> length p < length ek \<Longrightarrow>
    ek = p @ ek ! length p # drop (Suc (length p)) ek"
  by (metis id_take_nth_drop)

lemma decodeScanKey_simp:
  assumes "ty \<in> scan_types"
  shows "decodeScanKey p ty ek = Inr k \<longleftrightarrow> ek = p @ ty # k"
proof
  assume "decodeScanKey p ty ek = Inr k"
  with assms show "ek = p @ ty # k"
    by (auto simp: decodeScanKey_def scan_types_def type_bytes decodeKVKey_def lDecodeMetaKey_def
        hDecodeSizeKey_def zDecodeSizeKey_def sDecodeSizeKey_def checkKeyIndex_def
        split: if_splits sum.splits dest: split_at_prefix)
next
  assume "ek = p @ ty # k"
  then have "encodeScanKey p ty k = Inr ek"
    using assms by simp
  then show "decodeScanKey p ty ek = Inr k"
    using assms by (auto simp: decodeScanKey_def encodeScanKey_def scan_types_def type_bytes split: if_splits)
qed

text \<open>The side of the cursor a scan goes to.\<close>

definition past_cursor :: "bytes \<Rightarrow> bool \<Rightarrow> bool \<Rightarrow> bytes \<Rightarrow> bool" where
  "past_cursor cursor inclusive reverse k =
     (if \<not> reverse then cursor < k \<or> inclusive \<and> cursor = k
      else k \<noteq> [] \<and> (cursor = [] \<or> k < cursor \<or> inclusive \<and> cursor = k))"

lemma run_scan:
  assumes "kv_ok (ldb db)"
  shows "rli_run (buildScanIterator db mn mx inclusive reverse) =
    (if \<not> reverse then filter (\<lambda>e. (mn < fst e \<or> inclusive \<and> mn = fst e) \<and> fst e < mx) (ldb db)
     else rev (filter (\<lambda>e. mn < fst e \<and> (fst e < mx \<or> inclusive \<and> mx = fst e)) (ldb db)))"
proof -
  have "rli_run (NewRevRangeIterator (NewIterator (ldb db)) r) = rev (range_entries r (ldb db))" for r
    using assms rli_run_range [of "NewIterator (ldb db)"]
    by (simp add: NewRevRangeIterator_def directed_def NewIterator_def)
  with assms show ?thesis
    by (auto simp: buildScanIterator_def Let_def range_entries_def above_min_def below_max_def range_types
        intro!: filter_cong)
qed

text \<open>
  A family of keys \<open>g\<close> that fills the range from \<open>g []\<close> to \<open>stop\<close> in the order of the names, and
  the iterators over a part of it.
\<close>

definition family :: "(bytes \<Rightarrow> bytes) \<Rightarrow> kvstore \<Rightarrow> bytes set" where
  "family g s = {k. kv_get s (g k) \<noteq> None}"

definition family_entries :: "(bytes \<Rightarrow> bytes) \<Rightarrow> kvstore \<Rightarrow> bytes list \<Rightarrow> (bytes \<times> bytes) list" where
  "family_entries g s ks = map (\<lambda>k. (g k, the (kv_get s (g k)))) ks"

definition scan_names :: "bytes set \<Rightarrow> bytes \<Rightarrow> bool \<Rightarrow> bool \<Rightarrow> bytes list" where
  "scan_names A cursor inclusive reverse =
     (let ks = filter (past_cursor cursor inclusive reverse) (sorted_list_of_set A)
      in if reverse then rev ks else ks)"

locale scan_range =
  fixes g :: "bytes \<Rightarrow> bytes" and stop :: bytes
  assumes g_less: "g a < g b \<longleftrightarrow> a < b"
    and g_range: "g [] \<le> ek \<and> ek < stop \<longleftrightarrow> (\<exists>k. ek = g k)"
begin

lemma g_eq: "g a = g b \<longleftrightarrow> a = b"
  using g_less [of a b] g_less [of b a] by (metis less_irrefl linorder_neqE)

lemma g_ge: "g [] \<le> g k"
  using g_less [of k "[]"] by (simp add: not_less [symmetric])

lemma finite_family: "finite (family g s)"
proof -
  have "g ` family g s \<subseteq> fst ` set s"
    by (auto simp: family_def kv_get_def map_of_eq_None_iff)
  then have "finite (g ` family g s)"
    by (rule finite_subset) simp
  then show ?thesis
    by (rule finite_imageD) (simp add: inj_on_def g_eq)
qed

lemma filter_family:
  assumes "kv_ok s"
  shows "filter (\<lambda>e. \<exists>k. fst e = g k \<and> P k) s = family_entries g s (filter P (sorted_list_of_set (family g s)))"
    (is "?l = ?r")
proof (rule kv_ok_ext)
  let ?ks = "filter P (sorted_list_of_set (family g s))"
  show "kv_ok ?l"
    using assms by (rule kv_ok_filter)
  have "sorted_wrt (<) ?ks"
    by (rule sorted_wrt_filter) (rule strict_sorted_list_of_set)
  then show "kv_ok ?r"
    by (simp add: kv_ok_def family_entries_def sorted_wrt_map g_less)
  show "kv_get ?l = kv_get ?r"
  proof
    fix ek
    have r: "kv_get (family_entries g s ks) (g k) = (if k \<in> set ks then Some (the (kv_get s (g k))) else None)" for k ks
      by (induction ks) (auto simp: family_entries_def kv_get_def g_eq)
    have r': "kv_get (family_entries g s ks) ek = None" if "\<nexists>k. ek = g k" for ks
      using that by (induction ks) (auto simp: family_entries_def kv_get_def)
    have l: "kv_get ?l ek = (if \<exists>k. ek = g k \<and> P k then kv_get s ek else None)"
      using kv_get_filter [of "\<lambda>ek. \<exists>k. ek = g k \<and> P k" s ek] .
    show "kv_get ?l ek = kv_get ?r ek"
      using r [of ?ks] r' [of ?ks] finite_family [of s] unfolding l
      by (cases "\<exists>k. ek = g k") (auto simp: g_eq family_def)
  qed
qed

lemma scan_iterator:
  assumes "kv_ok (ldb db)" "stop \<notin> fst ` set (ldb db)"
  shows "rli_run (buildScanIterator db (g cursor) stop inclusive False) =
      family_entries g (ldb db) (scan_names (family g (ldb db)) cursor inclusive False)"
    "rli_run (buildScanIterator db (g []) (if cursor = [] then stop else g cursor) inclusive True) =
      family_entries g (ldb db) (scan_names (family g (ldb db)) cursor inclusive True)"
proof -
  have f: "(g cursor < ek \<or> inclusive \<and> g cursor = ek) \<and> ek < stop \<longleftrightarrow>
      (\<exists>k. ek = g k \<and> past_cursor cursor inclusive False k)" for ek
    using g_range [of ek] g_ge [of cursor] by (auto simp: past_cursor_def g_less g_eq)
  have r: "g [] < fst e \<and> (fst e < (if cursor = [] then stop else g cursor) \<or>
      inclusive \<and> (if cursor = [] then stop else g cursor) = fst e) \<longleftrightarrow>
      (\<exists>k. fst e = g k \<and> past_cursor cursor inclusive True k)" if "e \<in> set (ldb db)" for e
  proof (cases "\<exists>k. fst e = g k")
    case True
    then obtain k where k: "fst e = g k" by blast
    then have "g k < stop"
      using g_range by blast
    with k show ?thesis
      by (cases k) (auto simp: past_cursor_def g_less g_eq)
  next
    case False
    moreover have "fst e \<noteq> stop"
      using assms(2) that by force
    moreover have "g cursor < stop"
      using g_range by blast
    ultimately show ?thesis
      using g_range [of "fst e"] by (auto split: if_splits)
  qed
  show "rli_run (buildScanIterator db (g cursor) stop inclusive False) =
      family_entries g (ldb db) (scan_names (family g (ldb db)) cursor inclusive False)"
    using filter_family [OF assms(1)] by (simp add: run_scan [OF assms(1)] f scan_names_def)
  have "filter (\<lambda>e. g [] < fst e \<and> (fst e < (if cursor = [] then stop else g cursor) \<or>
      inclusive \<and> (if cursor = [] then stop else g cursor) = fst e)) (ldb db) =
      filter (\<lambda>e. \<exists>k. fst e = g k \<and> past_cursor cursor inclusive True k) (ldb db)"
    using r by (rule filter_cong [OF refl])
  then show "rli_run (buildScanIterator db (g []) (if cursor = [] then stop else g cursor) inclusive True) =
      family_entries g (ldb db) (scan_names (family g (ldb db)) cursor inclusive True)"
    using filter_family [OF assms(1)]
    by (simp only: run_scan [OF assms(1)] scan_names_def Let_def family_entries_def rev_map if_True not_True_eq_False if_False)
qed

end

section \<open>The ranges of the source\<close>

lemma names_scan_range:
  assumes "ty \<in> scan_types"
  shows "scan_range (\<lambda>k. p @ ty # k) (p @ [ty + 1])"
proof
  have "ty < ty + 1"
    using assms by (auto simp: scan_types_def type_bytes)
  then show "p @ [ty] \<le> ek \<and> ek < p @ [ty + 1] \<longleftrightarrow> (\<exists>k. ek = p @ ty # k)" for ek
    by (rule prefix_range)
qed simp

interpretation kv_names: scan_range "\<lambda>k. p @ KVType # k" "p @ [KVType + 1]" for p
  by (rule names_scan_range) (simp add: scan_types_def)

interpretation list_names: scan_range "\<lambda>k. p @ LMetaType # k" "p @ [LMetaType + 1]" for p
  by (rule names_scan_range) (simp add: scan_types_def)

interpretation hash_names: scan_range "\<lambda>k. p @ HSizeType # k" "p @ [HSizeType + 1]" for p
  by (rule names_scan_range) (simp add: scan_types_def)

interpretation set_names: scan_range "\<lambda>k. p @ SSizeType # k" "p @ [SSizeType + 1]" for p
  by (rule names_scan_range) (simp add: scan_types_def)

interpretation zset_names: scan_range "\<lambda>k. p @ ZSizeType # k" "p @ [ZSizeType + 1]" for p
  by (rule names_scan_range) (simp add: scan_types_def)

context sized_collection
begin

lemma start_ik: "start p k = ik p k []"
proof -
  have "start p k \<le> ik p k []" "ik p k [] < stop p k"
    using ik_range by blast+
  then obtain f where f: "start p k = ik p k f"
    using ik_range [of p k "start p k"] by force
  then have "\<not> [] < f"
    using \<open>start p k \<le> ik p k []\<close> ik_less [of p k "[]" f] by auto
  with f show ?thesis
    by (cases f) auto
qed

end

sublocale sized_collection \<subseteq> items: scan_range "ik p k" "stop p k" for p k
  using ik_less ik_range by unfold_locales (auto simp: start_ik [symmetric])

section \<open>Loops\<close>

definition page :: "int \<Rightarrow> regexp option \<Rightarrow> bytes list \<Rightarrow> bytes list" where
  "page cnt r ks = take (nat (checkScanCount cnt)) (filter (\<lambda>k. \<not> regexp_rejects r k) ks)"

lemma nat_diff_Suc: "i < (c :: int) \<Longrightarrow> nat (c - i) = Suc (nat (c - (i + 1)))"
  by simp

lemma scan_loop_page:
  "ty \<in> scan_types \<Longrightarrow> scan_loop p ty r c (family_entries (\<lambda>k. p @ ty # k) s ks) i =
     take (nat (c - i)) (filter (\<lambda>k. \<not> regexp_rejects r k) ks)"
proof (induction ks arbitrary: i)
  case (Cons k ks)
  have "decodeScanKey p ty (p @ ty # k) = Inr k"
    using Cons.prems by (simp add: decodeScanKey_simp)
  with Cons show ?case
    by (cases "i < c") (auto simp: family_entries_def nat_diff_Suc)
qed (simp add: family_entries_def)

text \<open>What the item scans read off an entry.\<close>

lemma hScan_loop_page:
  "key16 key \<Longrightarrow> hScan_loop p r c (family_entries (hEncodeHashKey p key) s ks) i =
     Inr (map (\<lambda>f. (f, the (kv_get s (hEncodeHashKey p key f))))
       (take (nat (c - i)) (filter (\<lambda>k. \<not> regexp_rejects r k) ks)))"
proof (induction ks arbitrary: i)
  case (Cons k ks)
  then show ?case
    by (cases "i < c") (auto simp: family_entries_def nat_diff_Suc)
qed (simp add: family_entries_def)

lemma sScan_loop_page:
  "key16 key \<Longrightarrow> sScan_loop p r c (family_entries (sEncodeSetKey p key) s ks) i =
     Inr (take (nat (c - i)) (filter (\<lambda>k. \<not> regexp_rejects r k) ks))"
proof (induction ks arbitrary: i)
  case (Cons k ks)
  then show ?case
    by (cases "i < c") (auto simp: family_entries_def nat_diff_Suc)
qed (simp add: family_entries_def)

lemma zScan_loop_page:
  "key16 key \<Longrightarrow> \<forall>k \<in> set ks. kv_get s (zEncodeSetKey p key k) = Some (PutInt64 (sc k)) \<Longrightarrow>
     zScan_loop p r c (family_entries (zEncodeSetKey p key) s ks) i =
     Inr (map (\<lambda>f. (sc f, f)) (take (nat (c - i)) (filter (\<lambda>k. \<not> regexp_rejects r k) ks)))"
proof (induction ks arbitrary: i)
  case (Cons k ks)
  then show ?case
    by (cases "i < c") (auto simp: family_entries_def nat_diff_Suc)
qed (simp add: family_entries_def)

section \<open>No entry at the end of a range\<close>

lemma no_entry:
  assumes "db_ok db" "\<And>lk. lkey_ok lk \<Longrightarrow> ek \<noteq> lkey_encode (indexVarBuf db) lk" "ek = indexVarBuf db @ r"
  shows "ek \<notin> fst ` set (ldb db)"
  using assms db_entry(2) [OF assms(1)] unfolding key_ok_def by blast

lemma short_key_no_entry:
  assumes "db_ok db" "ty \<in> scan_types"
  shows "indexVarBuf db @ [ty + 1] \<notin> fst ` set (ldb db)"
proof (rule no_entry [OF assms(1) _ refl])
  fix lk
  show "indexVarBuf db @ [ty + 1] \<noteq> lkey_encode (indexVarBuf db) lk"
    using assms(2) by (cases lk) (auto simp: scan_types_def type_defs encoder_defs keyLen16_def)
qed

lemma stop_no_entry:
  assumes "db_ok db" "key16 key"
  shows "hEncodeStopKey (indexVarBuf db) key \<notin> fst ` set (ldb db)"
    "sEncodeStopKey (indexVarBuf db) key \<notin> fst ` set (ldb db)"
    "zEncodeStopSetKey (indexVarBuf db) key \<notin> fst ` set (ldb db)"
proof -
  have "lkey_ok lk \<Longrightarrow> hEncodeStopKey (indexVarBuf db) key \<noteq> lkey_encode (indexVarBuf db) lk \<and>
      sEncodeStopKey (indexVarBuf db) key \<noteq> lkey_encode (indexVarBuf db) lk \<and>
      zEncodeStopSetKey (indexVarBuf db) key \<noteq> lkey_encode (indexVarBuf db) lk" for lk
    using assms(2) by (cases lk) (auto simp: stop_keys encoder_defs type_defs sep_defs keyLen16_eq)
  then show "hEncodeStopKey (indexVarBuf db) key \<notin> fst ` set (ldb db)"
    "sEncodeStopKey (indexVarBuf db) key \<notin> fst ` set (ldb db)"
    "zEncodeStopSetKey (indexVarBuf db) key \<notin> fst ` set (ldb db)"
    by (intro no_entry [OF assms(1)]; simp add: stop_keys)+
qed

section \<open>Scanning names\<close>

definition names_of :: "DB \<Rightarrow> byte \<Rightarrow> bytes set" where
  "names_of db ty = family (\<lambda>k. indexVarBuf db @ ty # k) (ldb db)"

lemma scanGeneric_page:
  assumes "db_ok db" "ty \<in> scan_types" "buildMatchRegexp compile match = Inr r"
  shows "scanGeneric compile ty cursor cnt inclusive match reverse db =
    Inr (page cnt r (scan_names (names_of db ty) cursor inclusive reverse))"
proof -
  note it = scan_range.scan_iterator [OF names_scan_range [OF assms(2)] db_ok_kv_ok [OF assms(1)]
      short_key_no_entry [OF assms(1,2)]]
  have "buildScanKeyRange (indexVarBuf db) ty cursor reverse = Inr (indexVarBuf db @ ty # (if reverse then [] else cursor),
      if reverse \<and> cursor \<noteq> [] then indexVarBuf db @ ty # cursor else indexVarBuf db @ [ty + 1])"
    using assms(2) by (auto simp: buildScanKeyRange_def encodeScanMinKey_def encodeScanMaxKey_def)
  then show ?thesis
    using it [of cursor inclusive] scan_loop_page [OF assms(2)] assms(3)
    by (cases reverse; cases "cursor = []") (auto simp: scanGeneric_def page_def names_of_def)
qed

lemma getDataStoreType_scan: "getDataStoreType d = Inr ty \<Longrightarrow> ty \<in> scan_types"
  by (auto simp: getDataStoreType_def scan_types_def split: if_splits)

text \<open>
  In a list sorted by a strict order, what comes after the last element of a page is the rest of
  the list.
\<close>

lemma filter_after_take:
  assumes "transp R" "irreflp R" "asymp R" "sorted_wrt R xs" "0 < m" "xs \<noteq> []"
  shows "filter (R (last (take m xs))) xs = drop m xs"
proof -
  let ?a = "take m xs" and ?b = "drop m xs"
  have ab: "xs = ?a @ ?b" "?a \<noteq> []"
    using assms(5,6) by simp_all
  have s: "sorted_wrt R (?a @ ?b)"
    using assms(4) by simp
  have "\<not> R (last ?a) x" if "x \<in> set ?a" for x
  proof (cases "x = last ?a")
    case False
    have "?a = butlast ?a @ [last ?a]"
      using ab(2) by simp
    then have "R x (last ?a)"
      using False that assms(4) sorted_wrt_take [OF assms(4), of m]
      by (metis UnE append_butlast_last_id empty_iff empty_set insert_iff list.simps(15) set_append sorted_wrt_append)
    then show ?thesis
      using assms(3) by (auto dest: asympD)
  qed (use assms(2) in \<open>auto dest: irreflpD\<close>)
  moreover have "R (last ?a) x" if "x \<in> set ?b" for x
    using s that ab(2) unfolding sorted_wrt_append by (meson last_in_set)
  ultimately have "filter (R (last ?a)) ?a = []" "filter (R (last ?a)) ?b = ?b"
    by (auto simp: filter_empty_conv filter_id_conv)
  then show ?thesis
    by (metis ab(1) append_Nil filter_append)
qed

lemma past_cursor_trans:
  "past_cursor cursor inclusive False c \<Longrightarrow> c < k \<Longrightarrow> past_cursor cursor inclusive False k"
  "past_cursor cursor inclusive True c \<Longrightarrow> k < c \<Longrightarrow> k \<noteq> [] \<Longrightarrow> past_cursor cursor inclusive True k"
  by (auto simp: past_cursor_def)

lemma filter_past:
  assumes "past_cursor cursor inclusive reverse c"
  shows "filter (past_cursor c False reverse) (filter P S) =
    filter (if reverse then (>) c else (<) c) (filter P (filter (past_cursor cursor inclusive reverse) S))"
proof -
  have "past_cursor c False reverse k \<longleftrightarrow>
      (if reverse then (>) c else (<) c) k \<and> past_cursor cursor inclusive reverse k" for k
    using assms by (cases k; cases reverse) (auto simp: past_cursor_def)
  then show ?thesis
    unfolding filter_filter by (intro filter_cong) auto
qed

lemma scan_names_filter:
  "filter P (scan_names A cursor inclusive reverse) =
     (if reverse then rev else id) (filter P (filter (past_cursor cursor inclusive reverse) (sorted_list_of_set A)))"
  by (simp add: scan_names_def Let_def rev_filter)

lemma scan_names_resume:
  assumes "0 < m" "filter P (scan_names A cursor inclusive reverse) \<noteq> []"
  defines "ks \<equiv> filter P (scan_names A cursor inclusive reverse)"
  shows "filter P (scan_names A (last (take m ks)) False reverse) = drop m ks"
proof -
  let ?R = "\<lambda>c. if reverse then (>) c else (<) c"
  obtain c where c: "c = last (take m ks)" by blast
  have "ks \<noteq> []"
    using assms(2) by (simp add: ks_def)
  then have "c \<in> set (take m ks)"
    using assms(1) unfolding c by (intro last_in_set) simp
  then have "past_cursor cursor inclusive reverse c"
    by (auto simp: ks_def scan_names_def Let_def dest!: in_set_takeD split: if_splits)
  from filter_past [OF this, of P "sorted_list_of_set A"]
  have "filter P (scan_names A c False reverse) = filter (?R c) ks"
    unfolding ks_def scan_names_filter
    by (cases reverse) (simp_all add: rev_filter filter_filter conj_commute)
  moreover have "sorted_wrt ?R ks"
    unfolding ks_def scan_names_filter
    by (cases reverse) (simp_all add: sorted_wrt_rev sorted_wrt_filter strict_sorted_list_of_set)
  then have "filter (?R c) ks = drop m ks"
    unfolding c using assms(1) \<open>ks \<noteq> []\<close>
    by (cases reverse) (simp_all add: filter_after_take filter_after_take [of "(>)"])
  ultimately show ?thesis
    unfolding c by simp
qed

lemma scan_resume:
  assumes "db_ok db" "ty \<in> scan_types" "buildMatchRegexp compile match = Inr r" "0 < m" "0 < n"
    and ks: "scanGeneric compile ty cursor m inclusive match reverse db = Inr ks" "ks \<noteq> []"
  shows "\<exists>ks'. scanGeneric compile ty (last ks) n False match reverse db = Inr ks' \<and>
    scanGeneric compile ty cursor (m + n) inclusive match reverse db = Inr (ks @ ks')"
proof -
  let ?l = "filter (\<lambda>k. \<not> regexp_rejects r k) (scan_names (names_of db ty) cursor inclusive reverse)"
  note g = scanGeneric_page [OF assms(1-3)]
  have k: "ks = take (nat m) ?l"
    using ks(1) assms(4) by (simp add: g page_def checkScanCount_def)
  with ks(2) have "?l \<noteq> []" by auto
  then have "page n r (scan_names (names_of db ty) (last ks) False reverse) = take (nat n) (drop (nat m) ?l)"
    using scan_names_resume [of "nat m" "\<lambda>k. \<not> regexp_rejects r k"] assms(4,5) k
    by (simp add: page_def checkScanCount_def)
  then show ?thesis
    using k assms(4,5) by (simp add: g page_def checkScanCount_def nat_add_distrib take_add)
qed

text \<open>
  C12: \<open>SCAN\<close> and its reverse answer the names of the type asked for, in ascending or descending
  order, that lie past the cursor and match the pattern, at most the count (10 if it is not
  positive). Going on from the last name of a non-empty answer gives exactly the names that
  follow, so that paging through a database lists every name once.
\<close>

theorem scan_lists_names:
  assumes "db_ok db" "getDataStoreType d = Inr ty" "buildMatchRegexp compile match = Inr r"
  shows "Scan compile d cursor cnt inclusive match db =
      Inr (page cnt r (scan_names (names_of db ty) cursor inclusive False)) \<and>
    RevScan compile d cursor cnt inclusive match db =
      Inr (page cnt r (scan_names (names_of db ty) cursor inclusive True)) \<and>
    (\<forall>m n ks. 0 < m \<and> 0 < n \<and> ks \<noteq> [] \<longrightarrow>
      (Scan compile d cursor m inclusive match db = Inr ks \<longrightarrow>
        (\<exists>ks'. Scan compile d (last ks) n False match db = Inr ks' \<and>
          Scan compile d cursor (m + n) inclusive match db = Inr (ks @ ks'))) \<and>
      (RevScan compile d cursor m inclusive match db = Inr ks \<longrightarrow>
        (\<exists>ks'. RevScan compile d (last ks) n False match db = Inr ks' \<and>
          RevScan compile d cursor (m + n) inclusive match db = Inr (ks @ ks'))))"
  using scanGeneric_page [OF assms(1) getDataStoreType_scan [OF assms(2)] assms(3)]
    scan_resume [OF assms(1) getDataStoreType_scan [OF assms(2)] assms(3)] assms(2)
  by (simp add: Scan_def RevScan_def)

text \<open>Two values are stored, then listed one at a time.\<close>

theorem scan_lists_names_witness:
  "\<exists>db. names_of db KVType = {[1], [2]} \<and>
    Scan (\<lambda>_. Inl ErrEOF) KV [] 1 False [] db = Inr [[1]] \<and>
    Scan (\<lambda>_. Inl ErrEOF) KV [1] 1 False [] db = Inr [[2]] \<and>
    RevScan (\<lambda>_. Inl ErrEOF) KV [] 5 True [] db = Inr [[2], [1]]"
proof -
  let ?db = "committed [WPut [0, 1, 1] [7], WPut [0, 1, 2] [8]] demo_db"
  have w: "ldb ?db = [([0, 1, 1], [7]), ([0, 1, 2], [8])]"
    using Commit_writable [of demo_db "[WPut [0, 1, 1] [7], WPut [0, 1, 2] [8]]"]
    by (simp add: wb_write_def kv_put_def)
  have ok: "db_ok ?db"
    using key_ok_lkey [of "KVKey [1]" "[0]"] key_ok_lkey [of "KVKey [2]" "[0]"]
    by (intro db_ok_committed) (simp_all add: op_ok_def encodeKVKey_def KVType_def)
  have n: "names_of ?db KVType = {[1], [2]}"
    by (auto simp: names_of_def family_def w KVType_def kv_get_def)
  note s = scan_lists_names [OF ok, of KV KVType "\<lambda>_. Inl ErrEOF" "[]" None]
  show ?thesis
    using s [of "[]" 1 False] s [of "[1]" 1 False] s [of "[]" 5 True] n
    by (intro exI [of _ ?db])
       (simp add: getDataStoreType_def buildMatchRegexp_def page_def scan_names_def past_cursor_def checkScanCount_def regexp_rejects_def)
qed

section \<open>Scanning items\<close>

lemma family_coll: "coll_at sk ik db key m \<Longrightarrow> family (ik (indexVarBuf db) key) (ldb db) = dom m"
  by (auto simp: family_def coll_at_def)

text \<open>The iterator of an item scan, for the three collections at once.\<close>

lemma item_iterator:
  assumes "db_ok db" "key_size_ok key"
  shows "\<exists>it. buildDataScanIterator db HashType key cursor inclusive reverse = Inr it \<and> rli_run it =
      family_entries (hEncodeHashKey (indexVarBuf db) key) (ldb db)
        (scan_names (family (hEncodeHashKey (indexVarBuf db) key) (ldb db)) cursor inclusive reverse)"
    "\<exists>it. buildDataScanIterator db SetType key cursor inclusive reverse = Inr it \<and> rli_run it =
      family_entries (sEncodeSetKey (indexVarBuf db) key) (ldb db)
        (scan_names (family (sEncodeSetKey (indexVarBuf db) key) (ldb db)) cursor inclusive reverse)"
    "\<exists>it. buildDataScanIterator db ZSetType key cursor inclusive reverse = Inr it \<and> rli_run it =
      family_entries (zEncodeSetKey (indexVarBuf db) key) (ldb db)
        (scan_names (family (zEncodeSetKey (indexVarBuf db) key) (ldb db)) cursor inclusive reverse)"
proof -
  let ?p = "indexVarBuf db"
  note k = db_ok_kv_ok [OF assms(1)] and st = stop_no_entry [OF assms(1) key_size_key16 [OF assms(2)]]
  have mx: "\<forall>ty g stop. (ty = HashType \<and> g = hEncodeHashKey ?p key \<and> stop = hEncodeStopKey ?p key \<or>
      ty = SetType \<and> g = sEncodeSetKey ?p key \<and> stop = sEncodeStopKey ?p key \<or>
      ty = ZSetType \<and> g = zEncodeSetKey ?p key \<and> stop = zEncodeStopSetKey ?p key) \<longrightarrow>
      buildDataScanKeyRange ?p ty key cursor reverse =
        Inr (g (if reverse then [] else cursor), if reverse \<and> cursor \<noteq> [] then g cursor else stop)"
    by (auto simp: buildDataScanKeyRange_def encodeDataScanMinKey_def encodeDataScanMaxKey_def
        encodeDataScanKey_def type_defs stop_keys encoder_defs list_update_append nth_append)
  show "\<exists>it. buildDataScanIterator db HashType key cursor inclusive reverse = Inr it \<and> rli_run it =
      family_entries (hEncodeHashKey ?p key) (ldb db)
        (scan_names (family (hEncodeHashKey ?p key) (ldb db)) cursor inclusive reverse)"
    using hash.items.scan_iterator [OF k st(1), of cursor inclusive] mx assms(2)
    by (cases reverse; cases "cursor = []") (auto simp: buildDataScanIterator_def)
  show "\<exists>it. buildDataScanIterator db SetType key cursor inclusive reverse = Inr it \<and> rli_run it =
      family_entries (sEncodeSetKey ?p key) (ldb db)
        (scan_names (family (sEncodeSetKey ?p key) (ldb db)) cursor inclusive reverse)"
    using sets.items.scan_iterator [OF k st(2), of cursor inclusive] mx assms(2)
    by (cases reverse; cases "cursor = []") (auto simp: buildDataScanIterator_def)
  show "\<exists>it. buildDataScanIterator db ZSetType key cursor inclusive reverse = Inr it \<and> rli_run it =
      family_entries (zEncodeSetKey ?p key) (ldb db)
        (scan_names (family (zEncodeSetKey ?p key) (ldb db)) cursor inclusive reverse)"
    using zsets.items.scan_iterator [OF k st(3), of cursor inclusive] mx assms(2)
    by (cases reverse; cases "cursor = []") (auto simp: buildDataScanIterator_def)
qed

lemma hScanGeneric_page:
  assumes "db_ok db" "key_size_ok key" "buildMatchRegexp compile match = Inr r" "hash_at db key m"
  shows "hScanGeneric compile key cursor cnt inclusive match reverse db =
    Inr (map (\<lambda>f. (f, the (m f))) (page cnt r (scan_names (dom m) cursor inclusive reverse)))"
  using item_iterator(1) [OF assms(1,2), of cursor inclusive reverse] hScan_loop_page [OF key_size_key16 [OF assms(2)]]
    assms(3,4) family_coll [OF assms(4)]
  by (auto simp: hScanGeneric_def page_def coll_at_def)

lemma sScanGeneric_page:
  assumes "db_ok db" "key_size_ok key" "buildMatchRegexp compile match = Inr r" "set_at db key A"
  shows "sScanGeneric compile key cursor cnt inclusive match reverse db =
    Inr (page cnt r (scan_names A cursor inclusive reverse))"
  using item_iterator(2) [OF assms(1,2), of cursor inclusive reverse] sScan_loop_page [OF key_size_key16 [OF assms(2)]]
    assms(3) family_coll [OF assms(4)]
  by (auto simp: sScanGeneric_def page_def)

lemma scan_names_sub: "finite A \<Longrightarrow> set (scan_names A cursor inclusive reverse) \<subseteq> A"
  by (auto simp: scan_names_def Let_def)

lemma zScanGeneric_page:
  assumes "db_ok db" "key_size_ok key" "buildMatchRegexp compile match = Inr r" "zset_at db key m"
  shows "zScanGeneric compile key cursor cnt inclusive match reverse db =
    Inr (map (\<lambda>f. (the (m f), f)) (page cnt r (scan_names (dom m) cursor inclusive reverse)))"
proof -
  have f: "family (zEncodeSetKey (indexVarBuf db) key) (ldb db) = dom m"
    using family_coll [OF zset_at_items [OF assms(4)]] by simp
  have "contents db (zitem db key k) = Some (PutInt64 (the (m k)))"
    if "k \<in> set (scan_names (dom m) cursor inclusive reverse)" for k
    using that scan_names_sub [OF zset_at_finite(1) [OF assms(4)], of cursor inclusive reverse]
      zset_at_get [OF assms(4), of k] by (auto simp: score_map_def)
  then show ?thesis
    using item_iterator(3) [OF assms(1,2), of cursor inclusive reverse]
      zScan_loop_page [OF key_size_key16 [OF assms(2)], where sc = "\<lambda>k. the (m k)" and s = "ldb db"
        and p = "indexVarBuf db" and ks = "scan_names (dom m) cursor inclusive reverse"] assms(3) f
    by (auto simp: zScanGeneric_def page_def)
qed

text \<open>
  C32: \<open>HSCAN\<close>, \<open>SSCAN\<close>, \<open>ZSCAN\<close> and their reverses answer the fields with their values, the
  members, the members with their scores, that lie past the cursor and match the pattern, in
  ascending or descending order, at most the count.
\<close>

theorem scan_lists_items:
  assumes "db_ok db" "key_size_ok key" "buildMatchRegexp compile match = Inr r"
  shows "(hash_at db key h \<longrightarrow>
      HScan compile key cursor cnt inclusive match db =
        Inr (map (\<lambda>f. (f, the (h f))) (page cnt r (scan_names (dom h) cursor inclusive False))) \<and>
      HRevScan compile key cursor cnt inclusive match db =
        Inr (map (\<lambda>f. (f, the (h f))) (page cnt r (scan_names (dom h) cursor inclusive True)))) \<and>
    (set_at db key A \<longrightarrow>
      SScan compile key cursor cnt inclusive match db = Inr (page cnt r (scan_names A cursor inclusive False)) \<and>
      SRevScan compile key cursor cnt inclusive match db = Inr (page cnt r (scan_names A cursor inclusive True))) \<and>
    (zset_at db key z \<longrightarrow>
      ZScan compile key cursor cnt inclusive match db =
        Inr (map (\<lambda>f. (the (z f), f)) (page cnt r (scan_names (dom z) cursor inclusive False))) \<and>
      ZRevScan compile key cursor cnt inclusive match db =
        Inr (map (\<lambda>f. (the (z f), f)) (page cnt r (scan_names (dom z) cursor inclusive True))))"
  using hScanGeneric_page [OF assms] sScanGeneric_page [OF assms] zScanGeneric_page [OF assms]
  by (simp add: HScan_def HRevScan_def SScan_def SRevScan_def ZScan_def ZRevScan_def)

text \<open>A hash with two fields, scanned for the fields that start with 2, and an empty sorted set.\<close>

theorem scan_lists_items_witness:
  "\<exists>db. HMset [7] [([1], [5]), ([2], [6])] demo_db = (Inr (), db) \<and>
    HScan (\<lambda>m. Inr (\<lambda>k. take 1 k = m)) [7] [] 10 False [2] db = Inr [([2], [6])] \<and>
    HRevScan (\<lambda>m. Inr (\<lambda>k. take 1 k = m)) [7] [2] 10 False [1] db = Inr [([1], [5])]"
proof -
  let ?m = "[[1] \<mapsto> [5], [2] \<mapsto> [6]] :: bytes \<rightharpoonup> bytes" and ?c = "\<lambda>m. Inr (\<lambda>k. take 1 k = m) :: regexp res"
  obtain db where db: "HMset [7] [([1], [5]), ([2], [6])] demo_db = (Inr (), db)" "hash_at db [7] ?m"
    using HMset_ok [of demo_db "[7]" Map.empty "[([1], [5]), ([2], [6])]"]
    by (auto simp: fv_ok_def MaxValueSize_def fun_upd_twist)
  have "acts HashType {[7]} demo_db db"
    using HMset_acts [of "[7]" demo_db "[([1], [5]), ([2], [6])]"] db(1) by simp
  then have "db_ok db"
    using acts_db_ok by auto
  moreover have "dom ?m = {[1], [2]}" by auto
  ultimately show ?thesis
    using scan_lists_items [of db "[7]" ?c "[2]" _ ?m "[]" 10 False] db
      scan_lists_items [of db "[7]" ?c "[1]" _ ?m "[2]" 10 False]
    by (simp add: buildMatchRegexp_def page_def scan_names_def past_cursor_def checkScanCount_def
        regexp_rejects_def key_size_ok_def MaxKeySize_def)
qed

end
