(* ===== verification/Ledis_KV_Acts.thy ===== *)
theory Ledis_KV_Acts
  imports Ledis_Own Ledis_KV_Bits
begin

text \<open>The operations on values act on the values they name.\<close>

lemma incr_acts: "acts KVType {key} db (snd (incr key d db))"
  unfolding incr_def by (intro acts_rules) simp_all

lemma Incr_acts: "acts KVType {key} db (snd (Incr key db))"
  and IncrBy_acts: "acts KVType {key} db (snd (IncrBy key d db))"
  and Decr_acts: "acts KVType {key} db (snd (Decr key db))"
  and DecrBy_acts: "acts KVType {key} db (snd (DecrBy key d db))"
  by (simp_all add: Incr_def IncrBy_def Decr_def DecrBy_def incr_acts)

lemma Set_acts: "acts KVType {key} db (snd (Set key v db))"
  unfolding Set_def by (intro acts_rules) simp_all

lemma GetSet_acts: "acts KVType {key} db (snd (GetSet key v db))"
  unfolding GetSet_def by (intro acts_rules) simp_all

lemma SetNX_acts: "acts KVType {key} db (snd (SetNX key v db))"
  unfolding SetNX_def
  by (intro acts_rules) (auto intro: acts.none acts_Commit split: sum.split option.split)

lemma MSet_loop_own:
  "MSet_loop p args t = Inr u \<Longrightarrow> fst ` set args \<subseteq> K \<Longrightarrow> own_batch p KVType K t \<Longrightarrow> own_batch p KVType K u"
  by (induction p args t rule: MSet_loop.induct) (auto split: sum.splits)

lemma MSet_acts: "acts KVType (fst ` set args) db (snd (MSet args db))"
  unfolding MSet_def by (intro acts_rules) (auto dest: MSet_loop_own)

lemma SetEX_acts: "acts KVType {key} db (snd (SetEX key d v db))"
  unfolding SetEX_def by (intro acts_rules) simp_all

lemma setExpireAt_acts: "acts KVType {key} db (snd (setExpireAt key when db))"
  unfolding setExpireAt_def by (intro acts_rules) simp_all

lemma Expire_acts: "acts KVType {key} db (snd (Expire key d db))"
  and ExpireAt_acts: "acts KVType {key} db (snd (ExpireAt key d db))"
  by (simp_all add: Expire_def ExpireAt_def setExpireAt_acts acts.none)

lemma Persist_acts: "acts KVType {key} db (snd (Persist key db))"
  unfolding Persist_def
  by (intro acts_rules) (auto intro!: acts_rules dest: rmExpire_own_pair [where K = "{key}"])

lemma Del_loop_own:
  "set ks \<subseteq> K \<Longrightarrow> own_batch (indexVarBuf db) KVType K t \<Longrightarrow> own_batch (indexVarBuf db) KVType K (Del_loop db ks t)"
  by (induction db ks t rule: Del_loop.induct) auto

lemma Del_acts: "acts KVType (set ks) db (snd (Del ks db))"
  unfolding Del_def by (intro acts_rules) (auto intro: Del_loop_own)

lemma SetRange_acts: "acts KVType {key} db (snd (SetRange key off v db))"
  unfolding SetRange_def by (intro acts_rules) simp_all

lemma Append_acts: "acts KVType {key} db (snd (Append key v db))"
proof -
  have "acts KVType {key} db db'" if "Commit [WPut (kvkey db key) x] db = (r, db')" for x r db'
    using acts_Commit [of db KVType "{key}" "[WPut (kvkey db key) x]"] that by simp
  then show ?thesis
    unfolding Append_def by (intro acts_rules) auto
qed

lemma BitOP_acts: "acts KVType {key} db (snd (BitOP opn key srcs db))"
  unfolding BitOP_def by (intro acts_rules) simp_all

lemma SetBit_acts: "acts KVType {key} db (snd (SetBit key off on db))"
  unfolding SetBit_def by (intro acts_rules) simp_all

end
