(* ===== verification/Ledis_Flush.thy ===== *)
theory Ledis_Flush
  imports Ledis_Scan_Laws Ledis_KV_Acts
begin

text \<open>
  Dropping data: the check that removes data whose time has come (\<open>ledis/t_ttl.go\<close>, \<open>check\<close>, with
  the callbacks \<open>newTTLChecker\<close> registers), the removal of all data of a type and of a database
  (\<open>ledis/ledis_db.go\<close>, \<open>flushType\<close> and \<open>FlushAll\<close>), and of the whole store (\<open>ledis/ledis.go\<close>,
  \<open>FlushAll\<close>). The loop of \<open>flushType\<close> runs until a scan finds nothing, which it need not do; it
  has a bound \<open>fuel\<close> on the number of rounds, and no answer if this is used up.
\<close>

section \<open>Callbacks\<close>

type_synonym onExpired = "DB \<Rightarrow> wop list \<Rightarrow> bytes \<Rightarrow> wop list res"

definition lDelete_cb :: onExpired where
  "lDelete_cb db t key = (case lDelete db t key of Inl e \<Rightarrow> Inl e | Inr (n, t) \<Rightarrow> Inr t)"

definition cbs :: "byte \<Rightarrow> onExpired option" where
  "cbs dataType =
     (if dataType = KVType then Some (\<lambda>db t key. Inr (snd (db_delete db t key)))
      else if dataType = ListType then Some lDelete_cb
      else if dataType = HashType then Some (\<lambda>db t key. Inr (snd (hDelete db t key)))
      else if dataType = ZSetType then Some (\<lambda>db t key. Inr (zDelete db t key))
      else if dataType = SetType then Some (\<lambda>db t key. Inr (snd (sDelete db t key)))
      else None)"

section \<open>The check of times to live\<close>

text \<open>
  The iterator reads the database as it was when the check began, \<open>dbGet\<close> the current one. The
  batch is empty at each round, since unlocking it rolls it back; the outcome of its commit is
  not looked at. \<open>c.txs\<close> has \<open>maxDataType\<close> slots, so that a larger type is an index error.
\<close>

fun check_loop :: "i64 \<Rightarrow> (bytes \<times> bytes) list \<Rightarrow> i64 \<Rightarrow> DB \<Rightarrow> i64 res \<times> DB" where
  "check_loop now' [] nc' db = (Inr nc', db)"
| "check_loop now' ((tk, mk) # es) nc' db =
     (case expDecodeTimeKey (indexVarBuf db) tk of
        Inl e \<Rightarrow> check_loop now' es nc' db
      | Inr (dt, k, nt) \<Rightarrow>
          if sint now' < sint nt then (Inr nt, db)
          else if maxDataType \<le> dt then (Inl GoPanic, db)
          else
            case cbs dt of
              None \<Rightarrow> check_loop now' es nc' db
            | Some cb \<Rightarrow>
                (case Int64 (bucket_Get db mk) of
                   Inl e \<Rightarrow> check_loop now' es nc' db
                 | Inr exp \<Rightarrow>
                     if sint exp \<le> sint now'
                     then
                       (case cb db [] k of
                          Inl e \<Rightarrow> (Inl e, db)
                        | Inr t \<Rightarrow>
                            check_loop now' es nc' (snd (Commit (wb_Delete mk (wb_Delete tk t)) db)))
                     else check_loop now' es nc' db))"

definition check :: "DB \<Rightarrow> unit res \<times> DB" where
  "check db =
     (if sint (now db) < sint (nc db) then (Inr (), db)
      else
        let nc' = now db + 3600;
            minKey = expEncodeTimeKey (indexVarBuf db) NoneType [] 0;
            maxKey = expEncodeTimeKey (indexVarBuf db) maxDataType [] nc';
            it = db_RangeLimitIterator db (Some minKey) (Some maxKey) RangeROpen 0 (-1)
        in case check_loop (now db) (rli_run it) nc' db of
             (Inl e, db) \<Rightarrow> (Inl e, db)
           | (Inr nc', db) \<Rightarrow> (Inr (), setNextCheckTime nc' True db))"

definition IsReadOnly :: "'a Ledis_scheme \<Rightarrow> bool \<times> 'a Ledis_scheme" where
  "IsReadOnly l =
     (if readonly l then (True, l)
      else case rpl l of
             Some r \<Rightarrow>
               (case r_CommitIDBehind r of
                  (Inr b, r) \<Rightarrow> (b, l\<lparr>rpl := Some r\<rparr>)
                | (Inl e, r) \<Rightarrow> (False, l\<lparr>rpl := Some r\<rparr>))
           | None \<Rightarrow> (False, l))"

text \<open>What \<open>checkTTL\<close> does at a tick, for one database.\<close>

definition checkTTL_tick :: "DB \<Rightarrow> unit res \<times> DB" where
  "checkTTL_tick db =
     (case IsReadOnly db of (b, db) \<Rightarrow> if b then (Inr (), db) else check db)"

section \<open>Flushing\<close>

definition deleteFunc :: "byte \<Rightarrow> (onExpired \<times> byte) option" where
  "deleteFunc dataType =
     (if dataType = KVType then Some (\<lambda>db t key. Inr (snd (db_delete db t key)), KVType)
      else if dataType = ListType then Some (lDelete_cb, LMetaType)
      else if dataType = HashType then Some (\<lambda>db t key. Inr (snd (hDelete db t key)), HSizeType)
      else if dataType = ZSetType then Some (\<lambda>db t key. Inr (zDelete db t key), ZSizeType)
      else if dataType = SetType then Some (\<lambda>db t key. Inr (snd (sDelete db t key)), SSizeType)
      else None)"

fun flush_keys :: "onExpired \<Rightarrow> byte \<Rightarrow> DB \<Rightarrow> bytes list \<Rightarrow> wop list \<Rightarrow> wop list res" where
  "flush_keys del dataType db [] t = Inr t"
| "flush_keys del dataType db (key # keys) t =
     (case del db t key of
        Inl e \<Rightarrow> Inl e
      | Inr t \<Rightarrow> flush_keys del dataType db keys (snd (rmExpire db t dataType key)))"

definition flush_scan :: "compiler \<Rightarrow> byte \<Rightarrow> DB \<Rightarrow> bytes list res" where
  "flush_scan compile metaDataType db = scanGeneric compile metaDataType [] 1024 False [] False db"

text \<open>
  \<open>r\<close> is what the last scan returned; the batch \<open>t\<close> keeps the records of the earlier rounds,
  since a commit does not empty it.
\<close>

fun flushType_loop ::
  "nat \<Rightarrow> compiler \<Rightarrow> onExpired \<Rightarrow> byte \<Rightarrow> byte \<Rightarrow> wop list \<Rightarrow> bytes list res \<Rightarrow> int \<Rightarrow> DB \<Rightarrow> (int res \<times> DB) option" where
  "flushType_loop 0 compile del dataType metaDataType t r dropped db = None"
| "flushType_loop (Suc fuel) compile del dataType metaDataType t r dropped db =
     (if r = Inr [] then Some (Inr dropped, db)
      else
        let keys = (case r of Inl e \<Rightarrow> [] | Inr keys \<Rightarrow> keys) in
        case flush_keys del dataType db keys t of
          Inl e \<Rightarrow> Some (Inl e, db)
        | Inr t \<Rightarrow>
            (case Commit t db of
               (Inl e, db) \<Rightarrow> Some (Inl e, db)
             | (Inr u, db) \<Rightarrow>
                 flushType_loop fuel compile del dataType metaDataType t
                   (flush_scan compile metaDataType db) (dropped + int (length keys)) db))"

definition flushType :: "nat \<Rightarrow> compiler \<Rightarrow> byte \<Rightarrow> DB \<Rightarrow> (int res \<times> DB) option" where
  "flushType fuel compile dataType db =
     (case deleteFunc dataType of
        None \<Rightarrow> Some (Inl (ErrOther ''invalid data type''), db)
      | Some (del, metaDataType) \<Rightarrow>
          flushType_loop fuel compile del dataType metaDataType []
            (flush_scan compile metaDataType db) 0 db)"

definition flush :: "nat \<Rightarrow> compiler \<Rightarrow> DB \<Rightarrow> (int res \<times> DB) option" where
  "flush fuel compile db = flushType fuel compile KVType db"

definition lFlush :: "nat \<Rightarrow> compiler \<Rightarrow> DB \<Rightarrow> (int res \<times> DB) option" where
  "lFlush fuel compile db = flushType fuel compile ListType db"

definition hFlush :: "nat \<Rightarrow> compiler \<Rightarrow> DB \<Rightarrow> (int res \<times> DB) option" where
  "hFlush fuel compile db = flushType fuel compile HashType db"

definition zFlush :: "nat \<Rightarrow> compiler \<Rightarrow> DB \<Rightarrow> (int res \<times> DB) option" where
  "zFlush fuel compile db = flushType fuel compile ZSetType db"

definition sFlush :: "nat \<Rightarrow> compiler \<Rightarrow> DB \<Rightarrow> (int res \<times> DB) option" where
  "sFlush fuel compile db = flushType fuel compile SetType db"

fun FlushAll_loop :: "(DB \<Rightarrow> (int res \<times> DB) option) list \<Rightarrow> int \<Rightarrow> DB \<Rightarrow> (int res \<times> DB) option" where
  "FlushAll_loop [] dropped db = Some (Inr dropped, db)"
| "FlushAll_loop (f # fs) dropped db =
     (case f db of
        None \<Rightarrow> None
      | Some (Inl e, db) \<Rightarrow> Some (Inl e, db)
      | Some (Inr n, db) \<Rightarrow> FlushAll_loop fs (dropped + n) db)"

definition FlushAll :: "nat \<Rightarrow> compiler \<Rightarrow> DB \<Rightarrow> (int res \<times> DB) option" where
  "FlushAll fuel compile db =
     FlushAll_loop [flush fuel compile, lFlush fuel compile, hFlush fuel compile,
       zFlush fuel compile, sFlush fuel compile] 0 db"

section \<open>Clearing the store\<close>

fun flushAll_loop :: "bytes list \<Rightarrow> nat \<Rightarrow> wop list \<Rightarrow> 'a Ledis_scheme \<Rightarrow> wop list res \<times> 'a Ledis_scheme" where
  "flushAll_loop [] n w l = (Inr w, l)"
| "flushAll_loop (ek # es) n w l =
     (let n = n + 1 in
      if n = 10000
      then (case wb_Commit w l of
              (Inl e, l) \<Rightarrow> (Inl e, l)
            | (Inr u, l) \<Rightarrow> flushAll_loop es 0 (wb_Delete ek w) l)
      else flushAll_loop es n (wb_Delete ek w) l)"

definition flushAll :: "'a Ledis_scheme \<Rightarrow> unit res \<times> 'a Ledis_scheme" where
  "flushAll l =
     (case flushAll_loop (map fst (ldb l)) 0 [] l of
        (Inl e, l) \<Rightarrow> (Inl e, l)
      | (Inr w, l) \<Rightarrow>
          (case wb_Commit w l of
             (Inl e, l) \<Rightarrow> (Inl e, l)
           | (Inr u, l) \<Rightarrow>
               (case rpl l of
                  None \<Rightarrow> (Inr (), l)
                | Some r \<Rightarrow> (case r_Clear r of (x, r) \<Rightarrow> (x, l\<lparr>rpl := Some r\<rparr>)))))"

end
