(* ===== verification/Ledis_Flush_Laws.thy ===== *)
theory Ledis_Flush_Laws
  imports Ledis_Flush
begin

text \<open>
  A data type offers a function that deletes a datum and a key that tells whether there is one
  (the locale \<open>datum_type\<close>, which the five data types satisfy). Whatever relies on them only,
  the flush of a type and the check of times to live, is proved once in the locale.
\<close>

section \<open>The entries of a datum\<close>

fun is_exp :: "lkey \<Rightarrow> bool" where
  "is_exp (ExpMetaKey dt k) = True"
| "is_exp (ExpTimeKey dt k w) = True"
| "is_exp _ = False"

definition data_keys :: "bytes \<Rightarrow> byte \<Rightarrow> bytes \<Rightarrow> bytes set" where
  "data_keys p dt k = {lkey_encode p lk | lk. lkey_ok lk \<and> lk_owner lk = (dt, k) \<and> \<not> is_exp lk}"

lemma data_keys_own: "data_keys p dt k \<subseteq> own p dt {k}"
  by (auto simp: data_keys_def own_def)

lemma data_keys_other:
  "ek \<in> data_keys p dt k \<Longrightarrow> dt \<noteq> dt' \<or> k \<notin> K \<Longrightarrow> ek \<notin> own p dt' K"
  using data_keys_own [of p dt k] own_disjoint [of dt dt' "{k}" K p] by blast

lemma data_keys_not_exp [simp]:
  "expEncodeMetaKey p dt' k' \<notin> data_keys p dt k" "expEncodeTimeKey p dt' k' w \<notin> data_keys p dt k"
proof -
  have "lkey_encode p (ExpMetaKey dt' k') \<notin> data_keys p dt k"
    "lkey_encode p (ExpTimeKey dt' k' w) \<notin> data_keys p dt k"
    by (auto simp: data_keys_def lkey_encode_inj simp del: lkey_encode.simps)
  then show "expEncodeMetaKey p dt' k' \<notin> data_keys p dt k" "expEncodeTimeKey p dt' k' w \<notin> data_keys p dt k"
    by simp_all
qed

lemma data_keys_I:
  "lkey_ok lk \<Longrightarrow> lk_owner lk = (dt, k) \<Longrightarrow> \<not> is_exp lk \<Longrightarrow> lkey_encode p lk \<in> data_keys p dt k"
  by (auto simp: data_keys_def)

lemma data_keys_simps [simp]:
  "encodeKVKey p k \<in> data_keys p KVType k"
  "lEncodeMetaKey p k \<in> data_keys p ListType k"
  "key16 k \<Longrightarrow> lEncodeListKey p k s \<in> data_keys p ListType k"
  "hEncodeSizeKey p k \<in> data_keys p HashType k"
  "key16 k \<Longrightarrow> hEncodeHashKey p k f \<in> data_keys p HashType k"
  "sEncodeSizeKey p k \<in> data_keys p SetType k"
  "key16 k \<Longrightarrow> sEncodeSetKey p k f \<in> data_keys p SetType k"
  "zEncodeSizeKey p k \<in> data_keys p ZSetType k"
  "key16 k \<Longrightarrow> zEncodeSetKey p k f \<in> data_keys p ZSetType k"
  "key16 k \<Longrightarrow> zEncodeScoreKey p k f sc \<in> data_keys p ZSetType k"
  using data_keys_I [of "KVKey k"] data_keys_I [of "LMetaKey k"] data_keys_I [of "ListKey k s"]
    data_keys_I [of "HSizeKey k"] data_keys_I [of "HashKey k f"] data_keys_I [of "SSizeKey k"]
    data_keys_I [of "SetKey k f"] data_keys_I [of "ZSizeKey k"] data_keys_I [of "ZSetKey k f"]
    data_keys_I [of "ZScoreKey k f sc"]
  by simp_all

lemma data_keys_cases:
  "ek \<in> data_keys p KVType k \<Longrightarrow> ek = encodeKVKey p k"
  "ek \<in> data_keys p ListType k \<Longrightarrow> ek = lEncodeMetaKey p k \<or> (\<exists>s. ek = lEncodeListKey p k s)"
  "ek \<in> data_keys p HashType k \<Longrightarrow> ek = hEncodeSizeKey p k \<or> (\<exists>f. ek = hEncodeHashKey p k f)"
  "ek \<in> data_keys p SetType k \<Longrightarrow> ek = sEncodeSizeKey p k \<or> (\<exists>f. ek = sEncodeSetKey p k f)"
  "ek \<in> data_keys p ZSetType k \<Longrightarrow> ek = zEncodeSizeKey p k \<or> (\<exists>f. ek = zEncodeSetKey p k f) \<or>
     (\<exists>f sc. ek = zEncodeScoreKey p k f sc)"
proof -
  have "\<exists>lk. ek = lkey_encode p lk \<and> lk_owner lk = (dt, k) \<and> \<not> is_exp lk" if "ek \<in> data_keys p dt k" for dt
    using that by (auto simp: data_keys_def)
  moreover have "\<not> is_exp lk \<Longrightarrow> lk_owner lk = (KVType, k) \<Longrightarrow> lk = KVKey k"
    "\<not> is_exp lk \<Longrightarrow> lk_owner lk = (ListType, k) \<Longrightarrow> lk = LMetaKey k \<or> (\<exists>s. lk = ListKey k s)"
    "\<not> is_exp lk \<Longrightarrow> lk_owner lk = (HashType, k) \<Longrightarrow> lk = HSizeKey k \<or> (\<exists>f. lk = HashKey k f)"
    "\<not> is_exp lk \<Longrightarrow> lk_owner lk = (SetType, k) \<Longrightarrow> lk = SSizeKey k \<or> (\<exists>f. lk = SetKey k f)"
    "\<not> is_exp lk \<Longrightarrow> lk_owner lk = (ZSetType, k) \<Longrightarrow> lk = ZSizeKey k \<or> (\<exists>f. lk = ZSetKey k f) \<or>
      (\<exists>f sc. lk = ZScoreKey k f sc)" for lk
    by (cases lk; simp add: type_defs)+
  ultimately show "ek \<in> data_keys p KVType k \<Longrightarrow> ek = encodeKVKey p k"
    "ek \<in> data_keys p ListType k \<Longrightarrow> ek = lEncodeMetaKey p k \<or> (\<exists>s. ek = lEncodeListKey p k s)"
    "ek \<in> data_keys p HashType k \<Longrightarrow> ek = hEncodeSizeKey p k \<or> (\<exists>f. ek = hEncodeHashKey p k f)"
    "ek \<in> data_keys p SetType k \<Longrightarrow> ek = sEncodeSizeKey p k \<or> (\<exists>f. ek = sEncodeSetKey p k f)"
    "ek \<in> data_keys p ZSetType k \<Longrightarrow> ek = zEncodeSizeKey p k \<or> (\<exists>f. ek = zEncodeSetKey p k f) \<or>
      (\<exists>f sc. ek = zEncodeScoreKey p k f sc)"
    by (metis lkey_encode.simps)+
qed

section \<open>The contract of a data type\<close>

text \<open>
  \<open>del\<close> deletes a datum: on a well-formed one it adds deletions only, of keys of this datum, and
  of all its entries. A datum is there if and only if its entry of type \<open>meta\<close> is.
\<close>

definition data_wf :: "byte \<Rightarrow> (DB \<Rightarrow> bytes \<Rightarrow> bool) \<Rightarrow> DB \<Rightarrow> bool" where
  "data_wf dt good db \<longleftrightarrow>
     (\<forall>k ek. ek \<in> data_keys (indexVarBuf db) dt k \<and> contents db ek \<noteq> None \<longrightarrow> good db k)"

definition no_data :: "byte \<Rightarrow> DB \<Rightarrow> bool" where
  "no_data dt db \<longleftrightarrow> (\<forall>k. \<forall>ek \<in> data_keys (indexVarBuf db) dt k. contents db ek = None)"

lemma committed_deletes:
  "writable db \<Longrightarrow> contents (committed (map WDel ks) db) = (\<lambda>ek. if ek \<in> set ks then None else contents db ek)"
  using Commit_writable [of db "map WDel ks"] by (simp add: kv_get_write wb_effect_deletes)

lemma own_batch_deletes [simp]: "own_batch p dt K (map WDel ks) \<longleftrightarrow> set ks \<subseteq> own p dt K"
  by (simp add: own_batch_def image_image)

lemma rm_ops_deletes:
  obtains ks where "rm_ops db dt k = map WDel ks" "set ks \<subseteq> own (indexVarBuf db) dt {k}"
proof -
  have "\<exists>ks. rm_ops db dt k = map WDel ks"
    by (auto simp: rm_ops_def rmExpire_def Let_def split: option.split sum.split
        intro: exI [of _ "[]"] exI [of _ "[_, _]"])
  then show ?thesis
    using that rm_ops_own [of k "{k}" db dt] by (metis own_batch_deletes singletonI)
qed

locale datum_type =
  fixes dt meta :: byte and del :: onExpired and good :: "DB \<Rightarrow> bytes \<Rightarrow> bool"
  assumes meta: "meta \<in> scan_types"
    and meta_data: "p @ meta # k \<in> data_keys p dt k"
    and del_ok: "db_ok db \<Longrightarrow> good db k \<Longrightarrow> \<exists>ks. (\<forall>t. del db t k = Inr (t @ map WDel ks)) \<and>
      set ks \<subseteq> own (indexVarBuf db) dt {k} \<and>
      (\<forall>ek \<in> data_keys (indexVarBuf db) dt k. contents db ek \<noteq> None \<longrightarrow> ek \<in> set ks)"
    and good_frame: "good db k \<Longrightarrow> indexVarBuf db' = indexVarBuf db \<Longrightarrow>
      \<forall>ek \<in> data_keys (indexVarBuf db) dt k. contents db' ek = contents db ek \<Longrightarrow> good db' k"
    and good_meta: "good db k \<Longrightarrow> contents db (indexVarBuf db @ meta # k) = None \<Longrightarrow>
      ek \<in> data_keys (indexVarBuf db) dt k \<Longrightarrow> contents db ek = None"
begin

lemma flush_keys_ok:
  assumes "db_ok db" "\<forall>k \<in> set ks. good db k"
  shows "\<exists>us. flush_keys del dt db ks t = Inr (t @ map WDel us) \<and>
    set us \<subseteq> own (indexVarBuf db) dt (set ks) \<and>
    (\<forall>k \<in> set ks. \<forall>ek \<in> data_keys (indexVarBuf db) dt k. contents db ek \<noteq> None \<longrightarrow> ek \<in> set us)"
  using assms(2)
proof (induction ks arbitrary: t)
  case (Cons k ks)
  have g: "good db k" "\<forall>k \<in> set ks. good db k"
    using Cons.prems by simp_all
  obtain us where us: "\<forall>t. del db t k = Inr (t @ map WDel us)" "set us \<subseteq> own (indexVarBuf db) dt {k}"
      "\<forall>ek \<in> data_keys (indexVarBuf db) dt k. contents db ek \<noteq> None \<longrightarrow> ek \<in> set us"
    using del_ok [OF assms(1) g(1)] by blast
  obtain rs where rs: "rm_ops db dt k = map WDel rs" "set rs \<subseteq> own (indexVarBuf db) dt {k}"
    by (rule rm_ops_deletes)
  obtain vs where vs: "flush_keys del dt db ks (t @ map WDel (us @ rs)) = Inr (t @ map WDel (us @ rs @ vs))"
      "set vs \<subseteq> own (indexVarBuf db) dt (set ks)"
      "\<forall>k \<in> set ks. \<forall>ek \<in> data_keys (indexVarBuf db) dt k. contents db ek \<noteq> None \<longrightarrow> ek \<in> set vs"
    using Cons.IH [OF g(2), of "t @ map WDel (us @ rs)"] by (metis append.assoc map_append)
  have "flush_keys del dt db (k # ks) t = Inr (t @ map WDel (us @ rs @ vs))"
    using us(1) rs(1) vs(1) by (simp add: rmExpire_ops)
  moreover have "set (us @ rs @ vs) \<subseteq> own (indexVarBuf db) dt (set (k # ks))"
    using us(2) rs(2) vs(2) own_mono [of "{k}" "set (k # ks)" "indexVarBuf db" dt]
      own_mono [of "set ks" "set (k # ks)" "indexVarBuf db" dt] by auto
  moreover have "\<forall>k \<in> set (k # ks). \<forall>ek \<in> data_keys (indexVarBuf db) dt k. contents db ek \<noteq> None \<longrightarrow>
      ek \<in> set (us @ rs @ vs)"
    using us(3) vs(3) by (simp del: not_None_eq)
  ultimately show ?case by blast
qed simp

text \<open>One round: the names that were scanned are gone, the rest is as it was.\<close>

lemma flush_round:
  assumes "db_ok db" "standalone db" "data_wf dt good db" "set ks \<subseteq> names_of db meta"
    and "set old \<subseteq> own (indexVarBuf db) dt D" "D \<inter> names_of db meta = {}"
  shows "\<exists>us db'. flush_keys del dt db ks (map WDel old) = Inr (map WDel (old @ us)) \<and>
    Commit (map WDel (old @ us)) db = (Inr (), db') \<and> acts dt UNIV db db' \<and>
    set (old @ us) \<subseteq> own (indexVarBuf db) dt (D \<union> set ks) \<and> data_wf dt good db' \<and>
    names_of db' meta = names_of db meta - set ks"
proof -
  let ?p = "indexVarBuf db"
  have good: "good db k" if "k \<in> names_of db meta" for k
    using assms(3) meta_data [of ?p k] that unfolding data_wf_def names_of_def family_def by blast
  obtain us where us: "flush_keys del dt db ks (map WDel old) = Inr (map WDel old @ map WDel us)"
      "set us \<subseteq> own ?p dt (set ks)"
      "\<forall>k \<in> set ks. \<forall>ek \<in> data_keys ?p dt k. contents db ek \<noteq> None \<longrightarrow> ek \<in> set us"
    using flush_keys_ok [OF assms(1), of ks "map WDel old"] good assms(4) by blast
  let ?db = "committed (map WDel (old @ us)) db"
  have c: "Commit (map WDel (old @ us)) db = (Inr (), ?db)"
    using Commit_writable [OF standalone_writable [OF assms(2)]] by blast
  have o: "set (old @ us) \<subseteq> own ?p dt (D \<union> set ks)"
    using assms(5) us(2) own_mono [of D "D \<union> set ks" ?p dt] own_mono [of "set ks" "D \<union> set ks" ?p dt] by auto
  then have a: "acts dt UNIV db ?db"
    using acts_Commit [of db dt UNIV "map WDel (old @ us)"] own_mono [of "D \<union> set ks" UNIV ?p dt] c
    by (metis (mono_tags, lifting) own_batch_deletes snd_conv subset_UNIV subset_trans)
  have e: "contents ?db ek = (if ek \<in> set (old @ us) then None else contents db ek)" for ek
    using committed_deletes [OF standalone_writable [OF assms(2)], of "old @ us"] by (metis (no_types))
  have keep: "contents ?db ek = contents db ek" if "ek \<in> data_keys ?p dt k" "k \<notin> D \<union> set ks" for ek k
    using data_keys_other [OF that(1), of dt "D \<union> set ks"] that(2) o e by auto
  have gone: "contents ?db ek = None" if "ek \<in> data_keys ?p dt k" "k \<in> D \<union> set ks" for ek k
  proof (cases "k \<in> set ks")
    case True
    then show ?thesis
      using us(3) that(1) e [of ek] by (cases "contents db ek") auto
  next
    case False
    then have "k \<notin> names_of db meta"
      using that(2) assms(6) by auto
    then have m: "contents db (?p @ meta # k) = None"
      by (simp add: names_of_def family_def)
    then have "contents db ek = None"
      using good_meta [OF _ m that(1)] assms(3) that(1) unfolding data_wf_def by blast
    then show ?thesis
      unfolding e by simp
  qed
  have "data_wf dt good ?db"
    unfolding data_wf_def
  proof (intro allI impI)
    fix k ek
    assume ek: "ek \<in> data_keys (indexVarBuf ?db) dt k \<and> contents ?db ek \<noteq> None"
    then have k: "k \<notin> D \<union> set ks"
      using gone [of ek k] by auto
    then have "good db k"
      using ek keep assms(3) unfolding data_wf_def by force
    then show "good ?db k"
      using keep [OF _ k] by (intro good_frame [of db k ?db]) auto
  qed
  moreover have "names_of ?db meta = names_of db meta - set ks"
  proof -
    have "contents ?db (?p @ meta # k) \<noteq> None \<longleftrightarrow> contents db (?p @ meta # k) \<noteq> None \<and> k \<notin> set ks" for k
      using keep [OF meta_data, of k] gone [OF meta_data, of k] assms(6)
      by (cases "k \<in> D \<union> set ks") (auto simp: names_of_def family_def simp del: map_append)
    then show ?thesis
      by (auto simp: names_of_def family_def simp del: map_append not_None_eq)
  qed
  ultimately show ?thesis
    using us(1) c a o by (metis map_append)
qed

lemma finite_names: "finite (names_of db meta)"
  unfolding names_of_def by (rule scan_range.finite_family [OF names_scan_range [OF meta]])

lemma flush_scan_names:
  assumes "db_ok db" "[] \<notin> names_of db meta"
  shows "flush_scan compile meta db = Inr (take 1024 (sorted_list_of_set (names_of db meta)))"
proof -
  have "past_cursor [] False False x" if "x \<in> names_of db meta" for x
    using that assms(2) by (cases x) (auto simp: past_cursor_def)
  then have "filter (past_cursor [] False False) (sorted_list_of_set (names_of db meta)) =
      sorted_list_of_set (names_of db meta)"
    using finite_names [of db] by (simp add: filter_id_conv)
  then show ?thesis
    using scanGeneric_page [OF assms(1) meta, of compile "[]" None "[]" 1024 False False]
    by (simp add: flush_scan_def buildMatchRegexp_def page_def scan_names_def checkScanCount_def
        regexp_rejects_def)
qed

lemma flushType_loop_step:
  "keys \<noteq> [] \<Longrightarrow> flush_keys del dt db keys t = Inr t' \<Longrightarrow> Commit t' db = (Inr (), db') \<Longrightarrow>
     flushType_loop (Suc fuel) compile del dt meta t (Inr keys) n db =
     flushType_loop fuel compile del dt meta t' (flush_scan compile meta db') (n + int (length keys)) db'"
  by simp

text \<open>The loop ends within as many rounds as there are names, one more to see that none is left.\<close>

lemma flushType_loop_ok:
  assumes "db_ok db" "standalone db" "data_wf dt good db" "[] \<notin> names_of db meta"
    and "set old \<subseteq> own (indexVarBuf db) dt D" "D \<inter> names_of db meta = {}" "card (names_of db meta) < fuel"
  shows "\<exists>db'. flushType_loop fuel compile del dt meta (map WDel old) (flush_scan compile meta db) n db =
      Some (Inr (n + int (card (names_of db meta))), db') \<and>
    db_ok db' \<and> standalone db' \<and> no_data dt db' \<and> indexVarBuf db' = indexVarBuf db \<and>
    (\<forall>ek. ek \<notin> own (indexVarBuf db) dt UNIV \<longrightarrow> contents db' ek = contents db ek)"
  using assms
proof (induction fuel arbitrary: db old D n)
  case (Suc fuel)
  let ?S = "sorted_list_of_set (names_of db meta)"
  note scan = flush_scan_names [OF Suc.prems(1,4), of compile]
  show ?case
  proof (cases "names_of db meta = {}")
    case True
    then have "contents db ek = None" if "ek \<in> data_keys (indexVarBuf db) dt k" for k ek
      using that good_meta [of db k ek] Suc.prems(3) unfolding data_wf_def names_of_def family_def by blast
    then show ?thesis
      using True scan Suc.prems(1,2) by (auto simp: no_data_def)
  next
    case False
    let ?ks = "take 1024 ?S"
    have S: "set ?S = names_of db meta" "distinct ?S" "?ks \<noteq> []"
      using False finite_names [of db] by auto
    have sub: "set ?ks \<subseteq> names_of db meta"
      using set_take_subset [of 1024 ?S] S(1) by simp
    obtain us db' where r: "flush_keys del dt db ?ks (map WDel old) = Inr (map WDel (old @ us))"
        "Commit (map WDel (old @ us)) db = (Inr (), db')" "acts dt UNIV db db'"
        "set (old @ us) \<subseteq> own (indexVarBuf db) dt (D \<union> set ?ks)" "data_wf dt good db'"
        "names_of db' meta = names_of db meta - set ?ks"
      using flush_round [OF Suc.prems(1-3) sub Suc.prems(5,6)] by blast
    have c: "card (names_of db' meta) + length ?ks = card (names_of db meta)"
      using r(6) sub finite_names [of db] distinct_card [OF distinct_take [OF S(2)], of 1024]
      by (metis List.finite_set card_Diff_subset card_mono le_add_diff_inverse2)
    note db' = acts_db_ok [OF r(3) Suc.prems(1)] standalone_acts [OF r(3) Suc.prems(2)] acts_index [OF r(3)]
    have "card (names_of db' meta) < fuel"
      using c S(3) Suc.prems(7) by (cases ?ks) simp_all
    moreover have "[] \<notin> names_of db' meta" "(D \<union> set ?ks) \<inter> names_of db' meta = {}"
      "set (old @ us) \<subseteq> own (indexVarBuf db') dt (D \<union> set ?ks)"
      using Suc.prems(4,6) r(4) db'(3) unfolding r(6) by auto
    ultimately obtain db2 where db2: "flushType_loop fuel compile del dt meta (map WDel (old @ us))
          (flush_scan compile meta db') (n + int (length ?ks)) db' =
        Some (Inr (n + int (length ?ks) + int (card (names_of db' meta))), db2)"
        "db_ok db2" "standalone db2" "no_data dt db2" "indexVarBuf db2 = indexVarBuf db'"
        "\<forall>ek. ek \<notin> own (indexVarBuf db') dt UNIV \<longrightarrow> contents db2 ek = contents db' ek"
      using Suc.IH [OF db'(1,2) r(5), of "old @ us" "D \<union> set ?ks" "n + int (length ?ks)"] by blast
    have "flushType_loop (Suc fuel) compile del dt meta (map WDel old) (flush_scan compile meta db) n db =
        Some (Inr (n + int (card (names_of db meta))), db2)"
      unfolding scan flushType_loop_step [OF S(3) r(1,2)] db2(1) c [symmetric] by simp
    moreover have "\<forall>ek. ek \<notin> own (indexVarBuf db) dt UNIV \<longrightarrow> contents db2 ek = contents db ek"
      using db2(6) db'(3) acts_frame [OF r(3)] by simp
    ultimately show ?thesis
      using db2(2-5) db'(3) by metis
  qed
next
  case 0
  then show ?case by blast
qed

end

section \<open>The five data types\<close>

definition kv_good :: "DB \<Rightarrow> bytes \<Rightarrow> bool" where
  "kv_good db k \<longleftrightarrow> k \<noteq> []"

definition list_good :: "DB \<Rightarrow> bytes \<Rightarrow> bool" where
  "list_good db k \<longleftrightarrow> key_size_ok k \<and> (\<exists>h xs. list_at db k h xs)"

definition hash_good :: "DB \<Rightarrow> bytes \<Rightarrow> bool" where
  "hash_good db k \<longleftrightarrow> key_size_ok k \<and> (\<exists>m. hash_at db k m)"

definition set_good :: "DB \<Rightarrow> bytes \<Rightarrow> bool" where
  "set_good db k \<longleftrightarrow> key_size_ok k \<and> (\<exists>m. sets_at db k m)"

definition zset_good :: "DB \<Rightarrow> bytes \<Rightarrow> bool" where
  "zset_good db k \<longleftrightarrow> key_size_ok k \<and> (\<exists>m. zset_at db k m)"

lemmas good_defs = kv_good_def list_good_def hash_good_def set_good_def zset_good_def

lemma meta_keys:
  "p @ KVType # k = encodeKVKey p k" "p @ LMetaType # k = lEncodeMetaKey p k"
  "p @ HSizeType # k = hEncodeSizeKey p k" "p @ SSizeType # k = sEncodeSizeKey p k"
  "p @ ZSizeType # k = zEncodeSizeKey p k"
  by (simp_all add: encoder_defs)

text \<open>Deleting a hash or a set removes what lies in the range of its items.\<close>

context sized_collection
begin

definition range_dels :: "DB \<Rightarrow> bytes \<Rightarrow> bytes list" where
  "range_dels db k = map fst (range_entries \<lparr>rMin = Some (start (indexVarBuf db) k),
     rMax = Some (stop (indexVarBuf db) k), rType = RangeROpen\<rparr> (ldb db)) @ [sk (indexVarBuf db) k]"

lemma range_dels_own:
  assumes "key16 k"
  shows "set (range_dels db k) \<subseteq> own (indexVarBuf db) dt {k}"
proof -
  have "fst e \<in> own (indexVarBuf db) dt {k}"
    if "start (indexVarBuf db) k \<le> fst e" "fst e < stop (indexVarBuf db) k" for e :: "bytes \<times> bytes"
    using that ik_range [of "indexVarBuf db" k "fst e"] ik_own [OF assms] by auto
  then show ?thesis
    using sk_own by (auto simp: range_dels_def range_filter)
qed

lemma range_dels_cover:
  assumes "kv_ok (ldb db)" "contents db (ik (indexVarBuf db) k f) \<noteq> None"
  shows "ik (indexVarBuf db) k f \<in> set (range_dels db k)"
proof -
  obtain v where "(ik (indexVarBuf db) k f, v) \<in> set (ldb db)"
    using assms kv_get_iff_mem by blast
  moreover have "start (indexVarBuf db) k \<le> ik (indexVarBuf db) k f \<and> ik (indexVarBuf db) k f < stop (indexVarBuf db) k"
    using ik_range by blast
  ultimately show ?thesis
    by (force simp: range_dels_def range_filter)
qed

lemma coll_at_data:
  "coll_at sk ik db k m \<Longrightarrow> contents db (sk (indexVarBuf db) k) = None \<Longrightarrow> contents db (ik (indexVarBuf db) k f) = None"
  by (auto simp: coll_at_def size_entry_def split: if_splits)

lemma coll_at_cong:
  "coll_at sk ik db k m \<Longrightarrow> indexVarBuf db' = indexVarBuf db \<Longrightarrow>
     contents db' (sk (indexVarBuf db) k) = contents db (sk (indexVarBuf db) k) \<Longrightarrow>
     \<forall>f. contents db' (ik (indexVarBuf db) k f) = contents db (ik (indexVarBuf db) k f) \<Longrightarrow> coll_at sk ik db' k m"
  by (simp add: coll_at_def)

end

interpretation kv_type: datum_type KVType KVType "\<lambda>db t key. Inr (snd (db_delete db t key))" kv_good
proof
  show "\<exists>ks. (\<forall>t. Inr (snd (db_delete db t k)) = Inr (t @ map WDel ks)) \<and>
      set ks \<subseteq> own (indexVarBuf db) KVType {k} \<and>
      (\<forall>ek \<in> data_keys (indexVarBuf db) KVType k. contents db ek \<noteq> None \<longrightarrow> ek \<in> set ks)" for db k
    by (intro exI [of _ "[encodeKVKey (indexVarBuf db) k]"]) (auto simp: db_delete_def dest: data_keys_cases)
qed (auto simp: scan_types_def meta_keys kv_good_def dest: data_keys_cases)

interpretation hash_type: datum_type HashType HSizeType "\<lambda>db t key. Inr (snd (hDelete db t key))" hash_good
proof
  show "\<exists>ks. (\<forall>t. Inr (snd (hDelete db t k)) = Inr (t @ map WDel ks)) \<and>
      set ks \<subseteq> own (indexVarBuf db) HashType {k} \<and>
      (\<forall>ek \<in> data_keys (indexVarBuf db) HashType k. contents db ek \<noteq> None \<longrightarrow> ek \<in> set ks)"
    if "db_ok db" "hash_good db k" for db k
    using that hash.range_dels_own [of k db] hash.range_dels_cover [of db k]
    by (intro exI [of _ "hash.range_dels db k"])
       (auto simp: hDelete_def Let_def fold_wb_Delete hash.range_dels_def hash_good_def dest!: data_keys_cases)
  show "hash_good db' k" if "hash_good db k" "indexVarBuf db' = indexVarBuf db"
    "\<forall>ek \<in> data_keys (indexVarBuf db) HashType k. contents db' ek = contents db ek" for db db' k
    using that hash.coll_at_cong [of db k _ db'] by (auto simp: hash_good_def)
  show "contents db ek = None" if "hash_good db k" "contents db (indexVarBuf db @ HSizeType # k) = None"
    "ek \<in> data_keys (indexVarBuf db) HashType k" for db k ek
    using that hash.coll_at_data [of db k] by (auto simp: hash_good_def meta_keys dest!: data_keys_cases)
qed (auto simp: scan_types_def meta_keys)

interpretation set_type: datum_type SetType SSizeType "\<lambda>db t key. Inr (snd (sDelete db t key))" set_good
proof
  show "\<exists>ks. (\<forall>t. Inr (snd (sDelete db t k)) = Inr (t @ map WDel ks)) \<and>
      set ks \<subseteq> own (indexVarBuf db) SetType {k} \<and>
      (\<forall>ek \<in> data_keys (indexVarBuf db) SetType k. contents db ek \<noteq> None \<longrightarrow> ek \<in> set ks)"
    if "db_ok db" "set_good db k" for db k
    using that sets.range_dels_own [of k db] sets.range_dels_cover [of db k]
    by (intro exI [of _ "sets.range_dels db k"])
       (auto simp: sDelete_def Let_def fold_wb_Delete sets.range_dels_def set_good_def dest!: data_keys_cases)
  show "set_good db' k" if "set_good db k" "indexVarBuf db' = indexVarBuf db"
    "\<forall>ek \<in> data_keys (indexVarBuf db) SetType k. contents db' ek = contents db ek" for db db' k
    using that sets.coll_at_cong [of db k _ db'] by (auto simp: set_good_def)
  show "contents db ek = None" if "set_good db k" "contents db (indexVarBuf db @ SSizeType # k) = None"
    "ek \<in> data_keys (indexVarBuf db) SetType k" for db k ek
    using that sets.coll_at_data [of db k] by (auto simp: set_good_def meta_keys dest!: data_keys_cases)
qed (auto simp: scan_types_def meta_keys)

lemma lDelete_cb_ok:
  assumes "db_ok db" "key_size_ok k" "list_at db k h xs"
  shows "\<exists>ks. (\<forall>t. lDelete_cb db t k = Inr (t @ map WDel ks)) \<and>
      set ks \<subseteq> own (indexVarBuf db) ListType {k} \<and>
      (\<forall>ek \<in> data_keys (indexVarBuf db) ListType k. contents db ek \<noteq> None \<longrightarrow> ek \<in> set ks)"
proof -
  let ?ks = "map fst (item_entries db k h xs 0) @ [lmeta db k]"
  have "lDelete_cb db t k = Inr (t @ map WDel ?ks)" for t
    using lDelete_at [OF assms, of t] by (simp add: lDelete_cb_def comp_def)
  moreover have "set ?ks \<subseteq> own (indexVarBuf db) ListType {k}"
    using assms(2) by (auto simp: item_entries_def)
  moreover have "litem db k s \<in> set ?ks" if "contents db (litem db k s) \<noteq> None" for s
    using clear_effect [OF assms(3), of s] that by (auto simp: wb_effect_WDel_map split: if_splits)
  ultimately show ?thesis
    by (intro exI [of _ ?ks]) (auto dest!: data_keys_cases)
qed

interpretation list_type: datum_type ListType LMetaType lDelete_cb list_good
proof
  show "\<exists>ks. (\<forall>t. lDelete_cb db t k = Inr (t @ map WDel ks)) \<and>
      set ks \<subseteq> own (indexVarBuf db) ListType {k} \<and>
      (\<forall>ek \<in> data_keys (indexVarBuf db) ListType k. contents db ek \<noteq> None \<longrightarrow> ek \<in> set ks)"
    if "db_ok db" "list_good db k" for db k
    using that lDelete_cb_ok unfolding list_good_def by blast
  show "list_good db' k" if "list_good db k" "indexVarBuf db' = indexVarBuf db"
    "\<forall>ek \<in> data_keys (indexVarBuf db) ListType k. contents db' ek = contents db ek" for db db' k
    using that list_at_cong [of db' db k] by (auto simp: list_good_def)
  show "contents db ek = None" if "list_good db k" "contents db (indexVarBuf db @ LMetaType # k) = None"
    "ek \<in> data_keys (indexVarBuf db) ListType k" for db k ek
    using that by (auto simp: list_good_def meta_keys list_at_def dest!: data_keys_cases split: if_splits)
qed (auto simp: scan_types_def meta_keys)

lemma zDelete_ok:
  assumes "db_ok db" "key_size_ok k" "zset_at db k m"
  shows "\<exists>ks. (\<forall>t. zDelete db t k = t @ map WDel ks) \<and> set ks \<subseteq> own (indexVarBuf db) ZSetType {k} \<and>
      (\<forall>ek \<in> data_keys (indexVarBuf db) ZSetType k. contents db ek \<noteq> None \<longrightarrow> ek \<in> set ks)"
proof -
  note fin = zset_at_finite [OF assms(3)]
  obtain rs where rs: "rm_ops db ZSetType k = map WDel rs" "set rs \<subseteq> own (indexVarBuf db) ZSetType {k}"
    by (rule rm_ops_deletes)
  let ?is = "concat (map (\<lambda>x. [zitem db k (snd x), zscore db k (snd x) (fst x)]) (zlist m))"
  let ?ks = "?is @ zsize db k # rs"
  have k: "\<not> MaxKeySize < length k" "key16 k"
    using assms(2) by (simp_all add: key_size_ok_def)
  have "\<forall>x \<in> set (zlist m). m (snd x) = Some (fst x)"
    using set_zlist [OF fin(1)] by auto
  moreover have "concat (map (zdel2 db k) (zlist m)) = map WDel ?is"
    by (simp add: zdel2_def [abs_def] map_concat comp_def)
  ultimately have "zDelete db t k = t @ map WDel ?ks" for t
    using k zRemRange_loop_ok [OF assms(3) k(2), of "zlist m" 0 t] assms(3) rs(1)
      zIterator_run [OF assms(1) zset_at_scores [OF assms(3)] k(2), of MinScore MaxScore 0 "-1" False]
    by (simp add: zDelete_def zRemRange_def score_in_all [OF assms(3)] zIncrSize_def zset_at_def coll_at_def
        rmExpire_ops Let_def)
  moreover have "set ?ks \<subseteq> own (indexVarBuf db) ZSetType {k}"
    using k(2) rs(2) by auto
  moreover have zi: "zitem db k f \<in> set ?ks" if c: "contents db (zitem db k f) \<noteq> None" for f
  proof -
    obtain sc where "(sc, f) \<in> set (zlist m)"
      using c zset_at_get [OF assms(3), of f] set_zlist [OF fin(1)] by (cases "m f") (auto simp: score_map_def)
    then show ?thesis by force
  qed
  moreover have zs: "zscore db k f sc \<in> set ?ks" if "contents db (zscore db k f sc) \<noteq> None" for f sc
  proof -
    have "(sc, f) \<in> set (zlist m)"
      using that assms(3) set_zlist [OF fin(1)] by (auto simp: zset_at_def split: if_splits)
    then show ?thesis by force
  qed
  moreover have "zsize db k \<in> set ?ks" by simp
  ultimately show ?thesis
    using data_keys_cases(5) by (intro exI [of _ ?ks] conjI allI) blast+
qed

interpretation zset_type: datum_type ZSetType ZSizeType "\<lambda>db t key. Inr (zDelete db t key)" zset_good
proof
  show "\<exists>ks. (\<forall>t. Inr (zDelete db t k) = Inr (t @ map WDel ks)) \<and>
      set ks \<subseteq> own (indexVarBuf db) ZSetType {k} \<and>
      (\<forall>ek \<in> data_keys (indexVarBuf db) ZSetType k. contents db ek \<noteq> None \<longrightarrow> ek \<in> set ks)"
    if "db_ok db" "zset_good db k" for db k
    using that zDelete_ok unfolding zset_good_def by (metis (no_types))
  show "zset_good db' k" if "zset_good db k" "indexVarBuf db' = indexVarBuf db"
    "\<forall>ek \<in> data_keys (indexVarBuf db) ZSetType k. contents db' ek = contents db ek" for db db' k
    using that by (auto simp: zset_good_def zset_at_def coll_at_def)
  show "contents db ek = None" if "zset_good db k" "contents db (indexVarBuf db @ ZSizeType # k) = None"
    "ek \<in> data_keys (indexVarBuf db) ZSetType k" for db k ek
    using that by (auto simp: zset_good_def meta_keys zset_at_def coll_at_def size_entry_def
        dest!: data_keys_cases split: if_splits)
qed (auto simp: scan_types_def meta_keys)

section \<open>Flushing a database\<close>

definition flushed :: "byte \<Rightarrow> DB \<Rightarrow> DB \<Rightarrow> bool" where
  "flushed dt db db' \<longleftrightarrow> db_ok db' \<and> standalone db' \<and> no_data dt db' \<and> indexVarBuf db' = indexVarBuf db \<and>
     (\<forall>ek. ek \<notin> own (indexVarBuf db) dt UNIV \<longrightarrow> contents db' ek = contents db ek)"

lemma flushed_data:
  "flushed dt db db' \<Longrightarrow> dt \<noteq> dt' \<Longrightarrow> ek \<in> data_keys (indexVarBuf db) dt' k \<Longrightarrow> contents db' ek = contents db ek"
  using data_keys_other [of ek "indexVarBuf db" dt' k dt UNIV] by (auto simp: flushed_def)

lemma flushed_index: "flushed dt db db' \<Longrightarrow> indexVarBuf db' = indexVarBuf db"
  by (simp add: flushed_def)

lemma flushed_no_data: "flushed dt db db' \<Longrightarrow> no_data dt' db \<or> dt' = dt \<Longrightarrow> no_data dt' db'"
proof (cases "dt = dt'")
  case False
  assume f: "flushed dt db db'" and "no_data dt' db \<or> dt' = dt"
  with False have "no_data dt' db" by simp
  then show ?thesis
    using flushed_data [OF f False] unfolding no_data_def flushed_index [OF f] by metis
qed (simp add: flushed_def)

text \<open>The data of a type are well formed and as they were in \<open>db\<close>.\<close>

definition untouched :: "byte \<Rightarrow> byte \<Rightarrow> (DB \<Rightarrow> bytes \<Rightarrow> bool) \<Rightarrow> DB \<Rightarrow> DB \<Rightarrow> bool" where
  "untouched dt meta good db d \<longleftrightarrow> data_wf dt good d \<and> names_of d meta = names_of db meta"

context datum_type
begin

lemma untouched_flushed:
  assumes "untouched dt meta good db d" "flushed dt' d d'" "dt' \<noteq> dt"
  shows "untouched dt meta good db d'"
proof -
  note i = flushed_index [OF assms(2)]
  have "names_of d' meta = names_of d meta"
    using flushed_data [OF assms(2,3) meta_data] i by (simp add: names_of_def family_def)
  moreover have "data_wf dt good d'"
    using assms(1) flushed_data [OF assms(2,3)] good_frame [OF _ i] unfolding data_wf_def untouched_def i by metis
  ultimately show ?thesis
    using assms(1) by (simp add: untouched_def)
qed

lemma flushType_ok:
  assumes "db_ok d \<and> standalone d" "untouched dt meta good db d" "card (names_of db meta) < fuel"
    and "deleteFunc dt = Some (del, meta)" "\<not> good d []"
  shows "\<exists>d'. flushType fuel compile dt d = Some (Inr (int (card (names_of db meta))), d') \<and> flushed dt d d' \<and>
    db_ok d' \<and> standalone d'"
proof -
  have u: "data_wf dt good d" "names_of d meta = names_of db meta"
    using assms(2) by (simp_all add: untouched_def)
  then have "[] \<notin> names_of d meta"
    using assms(5) meta_data [of "indexVarBuf d" "[]"] unfolding data_wf_def names_of_def family_def by blast
  then show ?thesis
    using flushType_loop_ok [of d "[]" "{}" fuel compile 0] u assms(1,3,4)
    by (simp add: flushType_def flushed_def) blast
qed

end

definition data_good :: "DB \<Rightarrow> bool" where
  "data_good db \<longleftrightarrow> data_wf KVType kv_good db \<and> data_wf ListType list_good db \<and> data_wf HashType hash_good db \<and>
     data_wf ZSetType zset_good db \<and> data_wf SetType set_good db"

definition data_count :: "DB \<Rightarrow> nat" where
  "data_count db = card (names_of db KVType) + card (names_of db LMetaType) + card (names_of db HSizeType) +
     card (names_of db ZSizeType) + card (names_of db SSizeType)"

lemma empty_key_bad [simp]:
  "\<not> kv_good db []" "\<not> list_good db []" "\<not> hash_good db []" "\<not> set_good db []" "\<not> zset_good db []"
  by (simp_all add: good_defs key_size_ok_def)

lemma deleteFunc_simps [simp]:
  "deleteFunc KVType = Some (\<lambda>db t key. Inr (snd (db_delete db t key)), KVType)"
  "deleteFunc ListType = Some (lDelete_cb, LMetaType)"
  "deleteFunc HashType = Some (\<lambda>db t key. Inr (snd (hDelete db t key)), HSizeType)"
  "deleteFunc ZSetType = Some (\<lambda>db t key. Inr (zDelete db t key), ZSizeType)"
  "deleteFunc SetType = Some (\<lambda>db t key. Inr (snd (sDelete db t key)), SSizeType)"
  by (simp_all add: deleteFunc_def type_defs)

text \<open>
  C9: \<open>FLUSHDB\<close> ends and empties the database: if the data are well formed, the loops of the five
  flushes, each bounded by the number of data, run out of names to scan; the answer is the number
  of data, and no entry of a datum is left.
\<close>

theorem flush_all_empties:
  assumes "db_ok db" "standalone db" "data_good db" "data_count db < fuel"
  shows "\<exists>db'. FlushAll fuel compile db = Some (Inr (int (data_count db)), db') \<and> db_ok db' \<and>
    (\<forall>dt \<in> {KVType, ListType, HashType, ZSetType, SetType}. no_data dt db')"
proof -
  have u: "untouched KVType KVType kv_good db db" "untouched ListType LMetaType list_good db db"
    "untouched HashType HSizeType hash_good db db" "untouched ZSetType ZSizeType zset_good db db"
    "untouched SetType SSizeType set_good db db"
    using assms(3) by (simp_all add: data_good_def untouched_def)
  have ne: "KVType \<noteq> ListType" "KVType \<noteq> HashType" "KVType \<noteq> ZSetType" "KVType \<noteq> SetType"
    "ListType \<noteq> HashType" "ListType \<noteq> ZSetType" "ListType \<noteq> SetType" "HashType \<noteq> ZSetType"
    "HashType \<noteq> SetType" "ZSetType \<noteq> SetType"
    by (simp_all add: type_defs)
  have c: "card (names_of db KVType) < fuel" "card (names_of db LMetaType) < fuel"
    "card (names_of db HSizeType) < fuel" "card (names_of db ZSizeType) < fuel" "card (names_of db SSizeType) < fuel"
    using assms(4) by (simp_all add: data_count_def)
  obtain d1 where d1: "flushType fuel compile KVType db = Some (Inr (int (card (names_of db KVType))), d1)"
      "flushed KVType db d1" "db_ok d1 \<and> standalone d1"
    using kv_type.flushType_ok [OF _ u(1) c(1)] assms(1,2) by auto
  obtain d2 where d2: "flushType fuel compile ListType d1 = Some (Inr (int (card (names_of db LMetaType))), d2)"
      "flushed ListType d1 d2" "db_ok d2 \<and> standalone d2"
    using list_type.flushType_ok [OF d1(3) list_type.untouched_flushed [OF u(2) d1(2) ne(1)] c(2)] by auto
  obtain d3 where d3: "flushType fuel compile HashType d2 = Some (Inr (int (card (names_of db HSizeType))), d3)"
      "flushed HashType d2 d3" "db_ok d3 \<and> standalone d3"
    using hash_type.flushType_ok [OF d2(3) hash_type.untouched_flushed [OF hash_type.untouched_flushed
        [OF u(3) d1(2) ne(2)] d2(2) ne(5)] c(3)] by auto
  have "untouched ZSetType ZSizeType zset_good db d3"
    by (rule zset_type.untouched_flushed [OF zset_type.untouched_flushed [OF zset_type.untouched_flushed
        [OF u(4) d1(2) ne(3)] d2(2) ne(6)] d3(2) ne(8)])
  then obtain d4 where d4: "flushType fuel compile ZSetType d3 = Some (Inr (int (card (names_of db ZSizeType))), d4)"
      "flushed ZSetType d3 d4" "db_ok d4 \<and> standalone d4"
    using zset_type.flushType_ok [OF d3(3) _ c(4)] by auto
  have "untouched SetType SSizeType set_good db d4"
    by (rule set_type.untouched_flushed [OF set_type.untouched_flushed [OF set_type.untouched_flushed
        [OF set_type.untouched_flushed [OF u(5) d1(2) ne(4)] d2(2) ne(7)] d3(2) ne(9)] d4(2) ne(10)])
  then obtain d5 where d5: "flushType fuel compile SetType d4 = Some (Inr (int (card (names_of db SSizeType))), d5)"
      "flushed SetType d4 d5" "db_ok d5 \<and> standalone d5"
    using set_type.flushType_ok [OF d4(3) _ c(5)] by auto
  have "FlushAll fuel compile db = Some (Inr (int (data_count db)), d5)"
    using d1(1) d2(1) d3(1) d4(1) d5(1)
    by (simp add: FlushAll_def flush_def lFlush_def hFlush_def zFlush_def sFlush_def data_count_def)
  moreover have "\<forall>dt \<in> {KVType, ListType, HashType, ZSetType, SetType}. no_data dt d5"
    using flushed_no_data [OF d1(2)] flushed_no_data [OF d2(2)] flushed_no_data [OF d3(2)]
      flushed_no_data [OF d4(2)] flushed_no_data [OF d5(2)] by simp
  ultimately show ?thesis
    using d5(3) by blast
qed

text \<open>A value is stored and dropped.\<close>

theorem flush_all_empties_witness:
  "\<exists>db db'. Set [1] [5] demo_db = (Inr (), db) \<and> FlushAll 2 (\<lambda>_. Inl ErrEOF) db = Some (Inr 1, db') \<and>
    no_data KVType db'"
proof -
  obtain db where db: "Set [1] [5] demo_db = (Inr (), db)" "contents db = (contents demo_db)(encodeKVKey [0] [1] \<mapsto> [5])"
      "indexVarBuf db = [0]"
    using Set_ok [of demo_db "[1]" "[5]"] by (auto simp: MaxValueSize_def)
  have a: "acts KVType {[1]} demo_db db"
    using Set_acts [of "[1]" demo_db "[5]"] db(1) by simp
  have c: "contents db ek = (if ek = [0, 1, 1] then Some [5] else None)" for ek
    by (simp add: db(2) encodeKVKey_def KVType_def)
  have n: "names_of db KVType = {[1]}" "names_of db LMetaType = {}" "names_of db HSizeType = {}"
    "names_of db ZSizeType = {}" "names_of db SSizeType = {}"
    by (auto simp: names_of_def family_def db(3) c type_defs)
  have "data_wf KVType kv_good db"
    by (auto simp: data_wf_def db(3) c kv_good_def encodeKVKey_def dest!: data_keys_cases split: if_splits)
  moreover have "data_wf dt good db" if "dt \<noteq> KVType" for dt and good :: "DB \<Rightarrow> bytes \<Rightarrow> bool"
    using that data_keys_other [of "[0, 1, 1]" "[0]" dt _ KVType UNIV] own_simps(1) [of "[1]" UNIV "[0]"]
    by (auto simp: data_wf_def db(3) c encodeKVKey_def KVType_def split: if_splits)
  ultimately have "data_good db"
    by (simp add: data_good_def type_defs)
  then show ?thesis
    using flush_all_empties [of db 2 "\<lambda>_. Inl ErrEOF"] acts_db_ok [OF a] standalone_acts [OF a] db(1) n
    by (auto simp: data_count_def)
qed

section \<open>A flush that does not end\<close>

text \<open>
  A sorted set whose number of members is too large: deleting it by the entries of its scores
  leaves a positive number behind, the next scan finds it again, and so on. \<open>stuck\<close> is the state
  a round starts from and ends in.
\<close>

definition stuck :: "bytes \<Rightarrow> i64 \<Rightarrow> wop list \<Rightarrow> DB \<Rightarrow> bool" where
  "stuck k n t db \<longleftrightarrow> db_ok db \<and> standalone db \<and> own_batch (indexVarBuf db) ZSetType UNIV t \<and>
     wb_effect t (contents db) = contents db \<and> names_of db ZSizeType = {k} \<and> key_size_ok k \<and> 0 < sint n \<and>
     contents db (zsize db k) = Some (PutInt64 n) \<and> zscore_at db k Map.empty \<and>
     contents db (metakey db ZSetType k) = None"

lemma stuck_contents:
  assumes "stuck k n t db" "acts ZSetType UNIV db db'" "contents db' = contents db"
    and "wb_effect u (contents db) = contents db" "own_batch (indexVarBuf db) ZSetType UNIV u"
  shows "stuck k n u db'"
proof -
  have "indexVarBuf db' = indexVarBuf db"
    using assms(2) by simp
  then show ?thesis
    using assms acts_db_ok [OF assms(2)] standalone_acts [OF assms(2)]
    by (simp add: stuck_def names_of_def family_def zscore_at_def)
qed

lemma stuck_keys:
  assumes "stuck k n t db"
  shows "flush_keys (\<lambda>db t key. Inr (zDelete db t key)) ZSetType db [k] t = Inr (t @ [WPut (zsize db k) (PutInt64 n)])"
    "flush_scan compile ZSizeType db = Inr [k]"
proof -
  have s: "db_ok db" "zscore_at db k Map.empty" "key16 k" "\<not> MaxKeySize < length k" "k \<noteq> []"
      "names_of db ZSizeType = {k}" "contents db (zsize db k) = Some (PutInt64 n)" "0 < sint n"
      "contents db (metakey db ZSetType k) = None"
    using assms by (simp_all add: stuck_def key_size_ok_def)
  have "rli_run (zIterator k MinScore MaxScore 0 (-1) False db) = []"
    using zIterator_run [OF s(1-3), of MinScore MaxScore 0 "-1" False] by (simp add: zlist_def)
  then have "zDelete db t k = t @ [WPut (zsize db k) (PutInt64 n)]"
    using s(4,7,8) by (simp add: zDelete_def zRemRange_def zIncrSize_def Let_def)
  then show "flush_keys (\<lambda>db t key. Inr (zDelete db t key)) ZSetType db [k] t = Inr (t @ [WPut (zsize db k) (PutInt64 n)])"
    using s(9) by (simp add: rmExpire_def)
  show "flush_scan compile ZSizeType db = Inr [k]"
    using zset_type.flush_scan_names [OF s(1)] s(5,6) by simp
qed

lemma flush_never_ends:
  assumes "stuck k n t db"
  shows "flushType_loop fuel compile (\<lambda>db t key. Inr (zDelete db t key)) ZSetType ZSizeType t (Inr [k]) m db = None"
  using assms
proof (induction fuel arbitrary: t m db)
  case (Suc fuel)
  let ?t = "t @ [WPut (zsize db k) (PutInt64 n)]"
  have s: "standalone db" "wb_effect t (contents db) = contents db" "contents db (zsize db k) = Some (PutInt64 n)"
      "own_batch (indexVarBuf db) ZSetType UNIV t"
    using Suc.prems by (simp_all add: stuck_def)
  obtain db' where db': "Commit ?t db = (Inr (), db')" "ldb db' = wb_write ?t (ldb db)"
    using Commit_writable [OF standalone_writable [OF s(1)]] by blast
  have o: "own_batch (indexVarBuf db) ZSetType UNIV ?t"
    using s(4) by simp
  have e: "wb_effect ?t (contents db) = contents db"
    using s(2,3) by (auto simp: fun_upd_idem)
  have "acts ZSetType UNIV db db'"
    using acts_Commit [OF o] db'(1) by simp
  moreover have "contents db' = contents db"
    using e db'(2) by (simp add: kv_get_write)
  ultimately have st: "stuck k n ?t db'"
    using stuck_contents [OF Suc.prems] e o by blast
  show ?case
    using zset_type.flushType_loop_step [OF _ stuck_keys(1) [OF Suc.prems] db'(1), of fuel compile m]
      Suc.IH [OF st] stuck_keys(2) [OF st, of compile] by simp
qed simp

text \<open>
  A member that \<open>ZADD\<close> is given twice is counted twice. Flushing the sorted sets then never ends.
\<close>

definition dup_db :: DB where
  "dup_db = snd (ZAdd [7] [(1, [5]), (1, [5])] demo_db)"

definition dup_batch :: "wop list" where
  "dup_batch = [WDel [0, 6, 0, 1, 7, 58, 5], WDel [0, 8, 0, 1, 7, 61, 0, 0, 0, 0, 0, 0, 0, 1, 58, 5],
     WPut [0, 7, 7] [1, 0, 0, 0, 0, 0, 0, 0]]"

lemma dup_add: "fst (ZAdd [7] [(1, [5]), (1, [5])] demo_db) = Inr 2"
  by code_simp

lemma dup_ldb: "ldb dup_db = [([0, 6, 0, 1, 7, 58, 5], [1, 0, 0, 0, 0, 0, 0, 0]), ([0, 7, 7], [2, 0, 0, 0, 0, 0, 0, 0]),
    ([0, 8, 0, 1, 7, 61, 0, 0, 0, 0, 0, 0, 0, 1, 58, 5], [])]"
  by code_simp

lemma dup_loop: "zRemRange_loop dup_db [7] [([0, 8, 0, 1, 7, 61, 0, 0, 0, 0, 0, 0, 0, 1, 58, 5], [])] 0 [] =
    (Inr 1, [WDel [0, 6, 0, 1, 7, 58, 5], WDel [0, 8, 0, 1, 7, 61, 0, 0, 0, 0, 0, 0, 0, 1, 58, 5]])"
  by code_simp

lemma dup_incr: "zIncrSize dup_db [WDel [0, 6, 0, 1, 7, 58, 5], WDel [0, 8, 0, 1, 7, 61, 0, 0, 0, 0, 0, 0, 0, 1, 58, 5]]
    [7] (-1) = Inr (1, dup_batch)"
  by code_simp

lemma dup_facts:
  "acts ZSetType {[7]} demo_db dup_db" "indexVarBuf dup_db = [0]" "db_ok dup_db" "standalone dup_db"
  "names_of dup_db ZSizeType = {[7]}"
proof -
  show a: "acts ZSetType {[7]} demo_db dup_db"
    using ZAdd_acts by (simp add: dup_db_def)
  then show i: "indexVarBuf dup_db = [0]" "db_ok dup_db" "standalone dup_db"
    using acts_index [OF a] acts_db_ok [OF a] standalone_acts [OF a] by simp_all
  show "names_of dup_db ZSizeType = {[7]}"
    by (auto simp: names_of_def family_def i(1) dup_ldb kv_get_def ZSizeType_def split: if_splits)
qed

lemma dup_encoded:
  "zEncodeSetKey [0] [7] [5] = [0, 6, 0, 1, 7, 58, 5]" "zEncodeSizeKey [0] [7] = [0, 7, 7]"
  "zEncodeScoreKey [0] [7] [5] 1 = [0, 8, 0, 1, 7, 61, 0, 0, 0, 0, 0, 0, 0, 1, 58, 5]"
  "PutInt64 1 = [1, 0, 0, 0, 0, 0, 0, 0]" "expEncodeMetaKey [0] ZSetType [7] = [0, 102, 6, 7]"
  by code_simp+

lemma dup_keys:
  "flush_keys (\<lambda>db t key. Inr (zDelete db t key)) ZSetType dup_db [[7]] [] = Inr dup_batch"
proof -
  let ?k = "[0, 8, 0, 1, 7, 61, 0, 0, 0, 0, 0, 0, 0, 1, 58, 5] :: bytes"
  have "?k = zEncodeScoreKey [0] [7] f s \<longleftrightarrow> f = [5] \<and> s = 1" for f s
    unfolding dup_encoded(3) [symmetric] using lkey_encode_inj [of "ZScoreKey [7] [5] 1" "ZScoreKey [7] f s" "[0]"]
    by (auto simp: key16_def)
  moreover have "[0, 6, 0, 1, 7, 58, 5] \<noteq> zEncodeScoreKey [0] [7] f s" "[0, 7, 7] \<noteq> zEncodeScoreKey [0] [7] f s" for f s
    by (simp_all add: zEncodeScoreKey_def ZScoreType_def)
  ultimately have "zscore_at dup_db [7] [[5] \<mapsto> 1]"
    by (auto simp: zscore_at_def dup_facts(2) dup_ldb kv_get_def eq_commute [of "zEncodeScoreKey [0] [7] _ _"])
  moreover have "zlist [[5] \<mapsto> 1] = [(1, [5])]"
    by (simp add: zlist_def)
  moreover have "zscore dup_db [7] [5] 1 = ?k"
    by (simp add: dup_facts(2)) code_simp
  moreover have "filter (score_in MinScore MaxScore) [(1, [5])] = [(1, [5])]"
    by code_simp
  ultimately have "rli_run (zIterator [7] MinScore MaxScore 0 (-1) False dup_db) = [(?k, [])]"
    using zIterator_run [OF dup_facts(3), of "[7]" "[[5] \<mapsto> 1]" MinScore MaxScore 0 "-1" False] by (simp add: key16_def)
  then have "zDelete dup_db [] [7] = dup_batch"
    using dup_loop dup_incr by (simp add: zDelete_def zRemRange_def MaxKeySize_def)
  moreover have "contents dup_db (metakey dup_db ZSetType [7]) = None"
    by (simp add: dup_facts(2) dup_ldb) code_simp
  ultimately show ?thesis
    by (simp add: rmExpire_def)
qed

theorem zset_flush_diverges:
  "\<exists>db. ZAdd [7] [(1, [5]), (1, [5])] demo_db = (Inr 2, db) \<and> (\<forall>fuel. zFlush fuel compile db = None)"
proof -
  obtain db' where db': "Commit dup_batch dup_db = (Inr (), db')" "ldb db' = wb_write dup_batch (ldb dup_db)"
    using Commit_writable [OF standalone_writable [OF dup_facts(4)]] by blast
  have b: "dup_batch = [WDel (zitem dup_db [7] [5]), WDel (zscore dup_db [7] [5] 1), WPut (zsize dup_db [7]) (PutInt64 1)]"
    by (simp add: dup_batch_def dup_facts(2) dup_encoded)
  have o: "own_batch (indexVarBuf dup_db) ZSetType UNIV dup_batch"
    unfolding b by (simp add: key16_def)
  have a: "acts ZSetType UNIV dup_db db'"
    using acts_Commit [OF o] db'(1) by simp
  have l: "ldb db' = [([0, 7, 7], [1, 0, 0, 0, 0, 0, 0, 0])]" "indexVarBuf db' = [0]"
    using db'(2) acts_index [OF a] by (simp_all add: dup_ldb dup_batch_def wb_write_def kv_delete_def kv_put_def dup_facts(2))
  then have "zscore_at db' [7] Map.empty" "names_of db' ZSizeType = {[7]}"
    by (auto simp: zscore_at_def kv_get_def zEncodeScoreKey_def type_defs names_of_def family_def split: if_splits)
  moreover have "wb_effect dup_batch (contents db') = contents db'"
    by (auto simp: dup_batch_def l kv_get_def)
  ultimately have "stuck [7] 1 dup_batch db'"
    using acts_db_ok [OF a] standalone_acts [OF a] dup_facts(2-4) o l
    by (simp add: stuck_def kv_get_def dup_encoded key_size_ok_def MaxKeySize_def)
  then have "flushType_loop (Suc fuel) compile (\<lambda>db t key. Inr (zDelete db t key)) ZSetType ZSizeType [] (Inr [[7]]) 0 dup_db = None" for fuel
    using zset_type.flushType_loop_step [OF _ dup_keys db'(1), of fuel compile 0] flush_never_ends stuck_keys(2)
    by simp
  moreover have "flush_scan compile ZSizeType dup_db = Inr [[7]]"
    using zset_type.flush_scan_names [OF dup_facts(3)] dup_facts(5) by simp
  ultimately have "zFlush fuel compile dup_db = None" for fuel
    by (cases fuel) (simp_all add: zFlush_def flushType_def)
  then show ?thesis
    using dup_add by (intro exI [of _ dup_db]) (simp add: dup_db_def prod_eq_iff)
qed

section \<open>Clearing the store\<close>

lemma wb_write_deletes: "wb_write (map WDel ks) s = filter (\<lambda>e. fst e \<notin> set ks) s"
  unfolding wb_write_def by (induction ks arbitrary: s) (auto simp: kv_delete_def intro: filter_cong)

lemma flushAll_loop_ok:
  "ldb_err l = None \<Longrightarrow>
     \<exists>s. flushAll_loop es n (map WDel ds) l = (Inr (map WDel (ds @ es)), l\<lparr>ldb := s\<rparr>) \<and> set s \<subseteq> set (ldb l)"
proof (induction es arbitrary: n ds l)
  case Nil
  then show ?case by (auto intro: exI [of _ "ldb l"])
next
  case (Cons ek es)
  let ?l = "l\<lparr>ldb := filter (\<lambda>e. fst e \<notin> set ds) (ldb l)\<rparr>"
  have a: "\<exists>s. flushAll_loop es m (map WDel (ds @ [ek])) l = (Inr (map WDel (ds @ ek # es)), l\<lparr>ldb := s\<rparr>) \<and>
      set s \<subseteq> set (ldb l)" for m
    using Cons.IH [OF Cons.prems, of m "ds @ [ek]"] by simp
  obtain s where "flushAll_loop es 0 (map WDel (ds @ [ek])) ?l = (Inr (map WDel (ds @ ek # es)), ?l\<lparr>ldb := s\<rparr>)"
      "set s \<subseteq> set (ldb ?l)"
    using Cons.IH [of ?l 0 "ds @ [ek]"] Cons.prems by auto
  then have b: "\<exists>s. flushAll_loop es 0 (map WDel (ds @ [ek])) ?l = (Inr (map WDel (ds @ ek # es)), l\<lparr>ldb := s\<rparr>) \<and>
      set s \<subseteq> set (ldb l)"
    by auto
  show ?case
    using a [of "Suc n"] b Cons.prems by (auto simp: Let_def wb_Commit_def wb_write_deletes)
qed

text \<open>Clearing the store leaves no entry of any database, and clears the log if there is one.\<close>

lemma flushAll_clears:
  assumes "ldb_err l = None"
  shows "flushAll l = (case rpl l of None \<Rightarrow> (Inr (), l\<lparr>ldb := []\<rparr>)
    | Some r \<Rightarrow> (fst (r_Clear r), l\<lparr>ldb := [], rpl := Some (snd (r_Clear r))\<rparr>))"
proof -
  obtain s where s: "flushAll_loop (map fst (ldb l)) 0 [] l = (Inr (map WDel (map fst (ldb l))), l\<lparr>ldb := s\<rparr>)"
      "set s \<subseteq> set (ldb l)"
    using flushAll_loop_ok [OF assms, of "map fst (ldb l)" 0 "[]"] by auto
  have "wb_write (map WDel (map fst (ldb l))) s = []"
    unfolding wb_write_deletes using s(2) by (auto simp: filter_empty_conv)
  then show ?thesis
    using s(1) assms by (auto simp: flushAll_def wb_Commit_def split: option.split prod.split)
qed

end
