(* ===== verification/Ledis_TTL_Laws.thy ===== *)
theory Ledis_TTL_Laws
  imports Ledis_Flush_Laws
begin

text \<open>
  The check of times to live: what it removes, what it keeps, and when it runs next.
  \<open>ttl_step\<close> is what the check does to the database for one time entry that is due, and
  \<open>check\<close> is the sequence of these steps over the due entries.
\<close>

section \<open>Removing a datum that is due\<close>

definition removed :: "byte \<Rightarrow> bytes \<Rightarrow> i64 \<Rightarrow> DB \<Rightarrow> DB \<Rightarrow> bool" where
  "removed dt k w db db' \<longleftrightarrow>
     (\<forall>ek \<in> data_keys (indexVarBuf db) dt k. contents db' ek = None) \<and>
     contents db' (timekey db dt k w) = None \<and> contents db' (metakey db dt k) = None"

definition shrinks :: "DB \<Rightarrow> DB \<Rightarrow> bool" where
  "shrinks db db' \<longleftrightarrow> (\<forall>ek. contents db' ek = None \<or> contents db' ek = contents db ek)"

text \<open>A data type whose callback is registered, and for which an absent datum is well formed.\<close>

locale expiring_type = datum_type +
  assumes registered: "cbs dt = Some del"
    and good_empty: "key_size_ok k \<Longrightarrow> \<forall>ek \<in> data_keys (indexVarBuf db) dt k. contents db ek = None \<Longrightarrow> good db k"
begin

lemma good_key: "data_wf dt good db \<Longrightarrow> key_size_ok k \<Longrightarrow> good db k"
  using good_empty [of k db] unfolding data_wf_def by blast

lemma expire_datum:
  assumes "db_ok db" "standalone db" "data_wf dt good db" "key_size_ok k"
  shows "\<exists>t. del db [] k = Inr t \<and>
    (\<forall>db'. db' = snd (Commit (t @ [WDel (timekey db dt k w), WDel (metakey db dt k)]) db) \<longrightarrow>
      acts dt {k} db db' \<and> data_wf dt good db' \<and> shrinks db db' \<and> removed dt k w db db')"
proof -
  let ?p = "indexVarBuf db"
  obtain us where us: "del db [] k = Inr (map WDel us)" "set us \<subseteq> own ?p dt {k}"
      "\<forall>ek \<in> data_keys ?p dt k. contents db ek \<noteq> None \<longrightarrow> ek \<in> set us"
    using del_ok [OF assms(1) good_key [OF assms(3,4)]] by (metis append_Nil)
  let ?us = "us @ [timekey db dt k w, metakey db dt k]"
  let ?db = "snd (Commit (map WDel ?us) db)"
  have o: "set ?us \<subseteq> own ?p dt {k}"
    using us(2) by simp
  then have a: "acts dt {k} db ?db"
    unfolding own_batch_deletes [symmetric] by (rule acts_Commit)
  have e: "contents ?db ek = (if ek \<in> set ?us then None else contents db ek)" for ek
    unfolding committed_deletes [OF standalone_writable [OF assms(2)], unfolded committed_def] ..
  have gone: "contents ?db ek = None" if "ek \<in> data_keys ?p dt k" for ek
    using us(3) that unfolding e by auto
  have keep: "contents ?db ek = contents db ek" if "ek \<in> data_keys ?p dt k'" "k' \<noteq> k" for ek k'
    using acts_frame [OF a data_keys_other [OF that(1)]] that(2) by blast
  have "data_wf dt good ?db"
    unfolding data_wf_def
  proof (intro allI impI)
    fix k' ek
    assume ek: "ek \<in> data_keys (indexVarBuf ?db) dt k' \<and> contents ?db ek \<noteq> None"
    then have "k' \<noteq> k"
      using gone [of ek] acts_index [OF a] by auto
    moreover from this have "good db k'"
      using ek keep acts_index [OF a] assms(3) unfolding data_wf_def by metis
    ultimately show "good ?db k'"
      using keep acts_index [OF a] by (intro good_frame [of db k' ?db]) auto
  qed
  moreover have "contents ?db (timekey db dt k w) = None" "contents ?db (metakey db dt k) = None"
    unfolding e by simp_all
  moreover have "contents ?db ek = None \<or> contents ?db ek = contents db ek" for ek
    unfolding e by simp
  moreover have "map WDel ?us = map WDel us @ [WDel (timekey db dt k w), WDel (metakey db dt k)]"
    by simp
  ultimately show ?thesis
    using us(1) a gone unfolding shrinks_def removed_def by (intro exI [of _ "map WDel us"]) metis
qed

lemma data_wf_acts:
  assumes "data_wf dt good db" "acts dt' K db db'" "dt' \<noteq> dt"
  shows "data_wf dt good db'"
  using assms(1) acts_frame [OF assms(2)] data_keys_other [of _ "indexVarBuf db" dt _ dt' K] assms(3)
    good_frame [OF _ acts_index [OF assms(2)]] unfolding data_wf_def acts_index [OF assms(2)] by metis

end

lemma cbs_simps [simp]:
  "cbs KVType = Some (\<lambda>db t key. Inr (snd (db_delete db t key)))" "cbs ListType = Some lDelete_cb"
  "cbs HashType = Some (\<lambda>db t key. Inr (snd (hDelete db t key)))"
  "cbs ZSetType = Some (\<lambda>db t key. Inr (zDelete db t key))"
  "cbs SetType = Some (\<lambda>db t key. Inr (snd (sDelete db t key)))"
  by (simp_all add: cbs_def type_defs)

lemma cbs_cases: "cbs dt = Some cb \<Longrightarrow> dt \<in> {KVType, ListType, HashType, ZSetType, SetType}"
  by (auto simp: cbs_def split: if_splits)

interpretation kv_exp: expiring_type KVType KVType "\<lambda>db t key. Inr (snd (db_delete db t key))" kv_good
  by unfold_locales (auto simp: kv_good_def key_size_ok_def)

interpretation list_exp: expiring_type ListType LMetaType lDelete_cb list_good
  by unfold_locales (auto simp: list_good_def list_at_def intro!: exI [of _ "[]"])

interpretation hash_exp: expiring_type HashType HSizeType "\<lambda>db t key. Inr (snd (hDelete db t key))" hash_good
  by unfold_locales (auto simp: hash_good_def coll_at_def size_entry_def intro!: exI [of _ Map.empty])

interpretation set_exp: expiring_type SetType SSizeType "\<lambda>db t key. Inr (snd (sDelete db t key))" set_good
  by unfold_locales (auto simp: set_good_def coll_at_def size_entry_def intro!: exI [of _ Map.empty])

interpretation zset_exp: expiring_type ZSetType ZSizeType "\<lambda>db t key. Inr (zDelete db t key)" zset_good
  by unfold_locales (auto simp: zset_good_def zset_at_def zscores_ok_def coll_at_def size_entry_def score_map_def
      intro!: exI [of _ Map.empty])

section \<open>One step of the check\<close>

definition exp_time :: "DB \<Rightarrow> byte \<Rightarrow> bytes \<Rightarrow> i64" where
  "exp_time db dt k = (case exp_when db dt k of None \<Rightarrow> 0 | Some w \<Rightarrow> w)"

definition ttl_step :: "DB \<Rightarrow> byte \<times> bytes \<times> i64 \<Rightarrow> DB" where
  "ttl_step db = (\<lambda>(dt, k, w).
     case cbs dt of
       None \<Rightarrow> db
     | Some cb \<Rightarrow>
         if sint (exp_time db dt k) \<le> sint (now db)
         then (case cb db [] k of
                 Inl e \<Rightarrow> db
               | Inr t \<Rightarrow> snd (Commit (t @ [WDel (timekey db dt k w), WDel (metakey db dt k)]) db))
         else db)"

definition ttl_ok :: "DB \<Rightarrow> bool" where
  "ttl_ok db \<longleftrightarrow> db_ok db \<and> standalone db \<and> data_good db \<and> (\<forall>dt k. exp_wf db dt k)"

lemma Int64_exp_time: "exp_wf db dt k \<Longrightarrow> Int64 (Inr (contents db (metakey db dt k))) = Inr (exp_time db dt k)"
  by (cases "contents db (metakey db dt k)") (auto simp: exp_wf_def exp_time_def exp_when_def)

text \<open>A step on one type keeps the others well formed.\<close>

lemma data_good_acts:
  assumes "data_good db"
  shows "acts KVType K db db' \<Longrightarrow> data_wf KVType kv_good db' \<Longrightarrow> data_good db'"
    "acts ListType K db db' \<Longrightarrow> data_wf ListType list_good db' \<Longrightarrow> data_good db'"
    "acts HashType K db db' \<Longrightarrow> data_wf HashType hash_good db' \<Longrightarrow> data_good db'"
    "acts ZSetType K db db' \<Longrightarrow> data_wf ZSetType zset_good db' \<Longrightarrow> data_good db'"
    "acts SetType K db db' \<Longrightarrow> data_wf SetType set_good db' \<Longrightarrow> data_good db'"
proof -
  have ne: "KVType \<noteq> ListType" "KVType \<noteq> HashType" "KVType \<noteq> ZSetType" "KVType \<noteq> SetType"
    "ListType \<noteq> HashType" "ListType \<noteq> ZSetType" "ListType \<noteq> SetType" "HashType \<noteq> ZSetType"
    "HashType \<noteq> SetType" "ZSetType \<noteq> SetType"
    by (simp_all add: type_defs)
  show "data_good db'" if a: "acts KVType K db db'" "data_wf KVType kv_good db'"
    using assms ne a(2) list_exp.data_wf_acts [OF _ a(1)] hash_exp.data_wf_acts [OF _ a(1)]
      zset_exp.data_wf_acts [OF _ a(1)] set_exp.data_wf_acts [OF _ a(1)]
    unfolding data_good_def by metis
  show "data_good db'" if a: "acts ListType K db db'" "data_wf ListType list_good db'"
    using assms ne a(2) kv_exp.data_wf_acts [OF _ a(1)] hash_exp.data_wf_acts [OF _ a(1)]
      zset_exp.data_wf_acts [OF _ a(1)] set_exp.data_wf_acts [OF _ a(1)]
    unfolding data_good_def by metis
  show "data_good db'" if a: "acts HashType K db db'" "data_wf HashType hash_good db'"
    using assms ne a(2) kv_exp.data_wf_acts [OF _ a(1)] list_exp.data_wf_acts [OF _ a(1)]
      zset_exp.data_wf_acts [OF _ a(1)] set_exp.data_wf_acts [OF _ a(1)]
    unfolding data_good_def by metis
  show "data_good db'" if a: "acts ZSetType K db db'" "data_wf ZSetType zset_good db'"
    using assms ne a(2) kv_exp.data_wf_acts [OF _ a(1)] list_exp.data_wf_acts [OF _ a(1)]
      hash_exp.data_wf_acts [OF _ a(1)] set_exp.data_wf_acts [OF _ a(1)]
    unfolding data_good_def by metis
  show "data_good db'" if a: "acts SetType K db db'" "data_wf SetType set_good db'"
    using assms ne a(2) kv_exp.data_wf_acts [OF _ a(1)] list_exp.data_wf_acts [OF _ a(1)]
      hash_exp.data_wf_acts [OF _ a(1)] zset_exp.data_wf_acts [OF _ a(1)]
    unfolding data_good_def by metis
qed

lemma removal:
  assumes "ttl_ok db" "key_size_ok k" "cbs dt = Some cb"
  shows "\<exists>t. cb db [] k = Inr t \<and>
    (\<forall>db'. db' = snd (Commit (t @ [WDel (timekey db dt k w), WDel (metakey db dt k)]) db) \<longrightarrow>
      acts dt {k} db db' \<and> data_good db' \<and> shrinks db db' \<and> removed dt k w db db')"
proof -
  have ok: "db_ok db" "standalone db" and g: "data_good db" "data_wf KVType kv_good db" "data_wf ListType list_good db"
      "data_wf HashType hash_good db" "data_wf ZSetType zset_good db" "data_wf SetType set_good db"
    using assms(1) by (simp_all add: ttl_ok_def data_good_def)
  note r = kv_exp.expire_datum [OF ok g(2) assms(2), of w] list_exp.expire_datum [OF ok g(3) assms(2), of w]
    hash_exp.expire_datum [OF ok g(4) assms(2), of w] zset_exp.expire_datum [OF ok g(5) assms(2), of w]
    set_exp.expire_datum [OF ok g(6) assms(2), of w]
  consider "dt = KVType" | "dt = ListType" | "dt = HashType" | "dt = ZSetType" | "dt = SetType"
    using cbs_cases [OF assms(3)] by blast
  then show ?thesis
  proof cases
    case 1
    then show ?thesis
      using r(1) data_good_acts(1) [OF g(1)] assms(3) unfolding 1 cbs_simps option.inject by metis
  next
    case 2
    then show ?thesis
      using r(2) data_good_acts(2) [OF g(1)] assms(3) unfolding 2 cbs_simps option.inject by metis
  next
    case 3
    then show ?thesis
      using r(3) data_good_acts(3) [OF g(1)] assms(3) unfolding 3 cbs_simps option.inject by metis
  next
    case 4
    then show ?thesis
      using r(4) data_good_acts(4) [OF g(1)] assms(3) unfolding 4 cbs_simps option.inject by metis
  next
    case 5
    then show ?thesis
      using r(5) data_good_acts(5) [OF g(1)] assms(3) unfolding 5 cbs_simps option.inject by metis
  qed
qed

definition due :: "DB \<Rightarrow> byte \<Rightarrow> bytes \<Rightarrow> bool" where
  "due db dt k \<longleftrightarrow> cbs dt \<noteq> None \<and> sint (exp_time db dt k) \<le> sint (now db)"

lemma acts_now [simp]: "acts dt K db db' \<Longrightarrow> now db' = now db"
  by (induction rule: acts.induct) auto

lemma exp_wf_shrinks: "shrinks db db' \<Longrightarrow> indexVarBuf db' = indexVarBuf db \<Longrightarrow> exp_wf db dt k \<Longrightarrow> exp_wf db' dt k"
  unfolding shrinks_def exp_wf_def by (metis option.distinct(1))

lemma ttl_step_ok:
  assumes "ttl_ok db" "key_size_ok k"
  shows "acts dt {k} db (ttl_step db (dt, k, w)) \<and> ttl_ok (ttl_step db (dt, k, w)) \<and>
    shrinks db (ttl_step db (dt, k, w)) \<and>
    (if due db dt k then removed dt k w db (ttl_step db (dt, k, w)) else ttl_step db (dt, k, w) = db)"
proof (cases "due db dt k")
  case True
  then obtain cb where cb: "cbs dt = Some cb" "sint (exp_time db dt k) \<le> sint (now db)"
    by (auto simp: due_def)
  obtain t where t: "cb db [] k = Inr t" "\<forall>db'. db' = snd (Commit (t @ [WDel (timekey db dt k w), WDel (metakey db dt k)]) db) \<longrightarrow>
      acts dt {k} db db' \<and> data_good db' \<and> shrinks db db' \<and> removed dt k w db db'"
    using removal [OF assms cb(1), of w] by blast
  let ?db = "ttl_step db (dt, k, w)"
  have e: "acts dt {k} db ?db" "data_good ?db" "shrinks db ?db" "removed dt k w db ?db"
    using t cb by (simp_all add: ttl_step_def)
  then have "ttl_ok ?db"
    using assms(1) acts_db_ok [OF e(1)] standalone_acts [OF e(1)] exp_wf_shrinks [OF e(3) acts_index [OF e(1)]]
    by (simp add: ttl_ok_def)
  with e True show ?thesis by simp
next
  case False
  then have "ttl_step db (dt, k, w) = db"
    by (auto simp: due_def ttl_step_def split: option.split)
  then show ?thesis
    using False assms(1) by (simp add: acts.none shrinks_def)
qed

lemma check_loop_step:
  assumes "ttl_ok db" "key_size_ok k" "sint w \<le> sint (now db)" "dt < maxDataType"
  shows "check_loop (now db) ((timekey db dt k w, metakey db dt k) # es) n db =
    check_loop (now db) es n (ttl_step db (dt, k, w))"
proof (cases "cbs dt")
  case (Some cb)
  have i: "Int64 (Inr (contents db (metakey db dt k))) = Inr (exp_time db dt k)"
    using assms(1) Int64_exp_time unfolding ttl_ok_def by blast
  obtain t where "cb db [] k = Inr t"
    using removal [OF assms(1,2) Some, of w] by (elim exE conjE)
  moreover have "\<not> sint (now db) < sint w" "\<not> maxDataType \<le> dt"
    using assms(3,4) by simp_all
  ultimately show ?thesis
    using i Some by (simp add: ttl_step_def del: not_less not_le)
next
  case None
  moreover have "\<not> sint (now db) < sint w" "\<not> maxDataType \<le> dt"
    using assms(3,4) by simp_all
  ultimately show ?thesis
    by (simp add: ttl_step_def del: not_less not_le)
qed

section \<open>The sequence of steps\<close>

definition ttl_run :: "DB \<Rightarrow> (byte \<times> bytes \<times> i64) list \<Rightarrow> DB" where
  "ttl_run = foldl ttl_step"

definition steps_ok :: "(byte \<times> bytes \<times> i64) list \<Rightarrow> bool" where
  "steps_ok xs \<longleftrightarrow> (\<forall>(dt, k, w) \<in> set xs. key_size_ok k \<and> dt < maxDataType)"

lemma shrinks_trans: "shrinks a b \<Longrightarrow> shrinks b c \<Longrightarrow> shrinks a c"
  unfolding shrinks_def by metis

lemma ttl_run_ok:
  assumes "ttl_ok db" "steps_ok xs"
  shows "ttl_ok (ttl_run db xs) \<and> shrinks db (ttl_run db xs) \<and> indexVarBuf (ttl_run db xs) = indexVarBuf db \<and>
    now (ttl_run db xs) = now db \<and>
    (\<forall>ek. (\<forall>(dt, k, w) \<in> set xs. ek \<notin> own (indexVarBuf db) dt {k}) \<longrightarrow> contents (ttl_run db xs) ek = contents db ek)"
  using assms
proof (induction xs arbitrary: db)
  case Nil
  then show ?case by (simp add: ttl_run_def shrinks_def)
next
  case (Cons x xs)
  obtain dt k w where x: "x = (dt, k, w)" by (cases x)
  let ?db = "ttl_step db x"
  have k: "key_size_ok k" "steps_ok xs"
    using Cons.prems(2) by (simp_all add: steps_ok_def x)
  have st: "acts dt {k} db ?db" "ttl_ok ?db" "shrinks db ?db"
    using ttl_step_ok [OF Cons.prems(1) k(1)] by (simp_all add: x)
  have r: "ttl_run db (x # xs) = ttl_run ?db xs"
    by (simp add: ttl_run_def)
  note ih = Cons.IH [OF st(2) k(2)]
  have "contents (ttl_run ?db xs) ek = contents db ek"
    if "\<forall>(dt, k, w) \<in> set (x # xs). ek \<notin> own (indexVarBuf db) dt {k}" for ek
    using ih that acts_frame [OF st(1), of ek] acts_index [OF st(1)] by (simp add: x)
  then show ?case
    unfolding r using ih st(1) shrinks_trans [OF st(3)] by simp
qed

text \<open>
  A datum that is not due is not touched; one that is due, and has a time entry among those seen,
  is removed.
\<close>

lemma ttl_run_keeps:
  assumes "ttl_ok db" "steps_ok xs" "\<not> due db dt k"
  shows "ek \<in> own (indexVarBuf db) dt {k} \<Longrightarrow> contents (ttl_run db xs) ek = contents db ek"
  using assms
proof (induction xs arbitrary: db)
  case (Cons x xs)
  obtain dt' k' w where x: "x = (dt', k', w)" by (cases x)
  let ?db = "ttl_step db x"
  have k: "key_size_ok k'" "steps_ok xs"
    using Cons.prems(3) by (simp_all add: steps_ok_def x)
  note st = ttl_step_ok [OF Cons.prems(2) k(1), of dt' w, folded x]
  have same: "contents ?db e = contents db e" if "e \<in> own (indexVarBuf db) dt {k}" for e
  proof (cases "dt' = dt \<and> k' = k")
    case True
    then show ?thesis using st Cons.prems(4) by simp
  next
    case False
    then show ?thesis
      using acts_frame [OF conjunct1 [OF st], of e] own_disjoint [of dt' dt "{k'}" "{k}" "indexVarBuf db"] that by auto
  qed
  have i: "indexVarBuf ?db = indexVarBuf db" "now ?db = now db"
    using conjunct1 [OF st] by simp_all
  have "exp_time ?db dt k = exp_time db dt k"
    using same [of "metakey db dt k"] i by (simp add: exp_time_def exp_when_def)
  then have "\<not> due ?db dt k"
    using Cons.prems(4) i by (simp add: due_def)
  then show ?case
    using Cons.IH [of ?db] Cons.prems(1) st k(2) i same by (simp add: ttl_run_def)
qed (simp add: ttl_run_def)

lemma shrinks_None: "shrinks d d' \<Longrightarrow> contents d ek = None \<Longrightarrow> contents d' ek = None"
  unfolding shrinks_def by (metis (no_types))

lemma removed_shrinks: "removed dt k w db d \<Longrightarrow> shrinks d d' \<Longrightarrow> removed dt k w db d'"
  unfolding removed_def using shrinks_None by blast

lemma due_shrinks:
  assumes "due db dt k" "shrinks db d" "indexVarBuf d = indexVarBuf db" "now d = now db" "0 \<le> sint (now db)"
  shows "due d dt k"
proof -
  have "exp_time d dt k = exp_time db dt k \<or> exp_time d dt k = 0"
    using assms(2) [unfolded shrinks_def, rule_format, of "metakey db dt k"] assms(3)
    by (auto simp: exp_time_def exp_when_def)
  then show ?thesis
    using assms(1,4,5) by (auto simp: due_def)
qed

lemma ttl_run_removes:
  assumes "ttl_ok db" "steps_ok xs" "0 \<le> sint (now db)" "due db dt k" "(dt, k, w) \<in> set xs"
  shows "removed dt k w db (ttl_run db xs)"
  using assms
proof (induction xs arbitrary: db)
  case (Cons x xs)
  obtain dt' k' w' where x: "x = (dt', k', w')" by (cases x)
  let ?db = "ttl_step db x"
  have k: "key_size_ok k'" "steps_ok xs"
    using Cons.prems(2) by (simp_all add: steps_ok_def x)
  note st = ttl_step_ok [OF Cons.prems(1) k(1), of dt' w', folded x]
  have i: "indexVarBuf ?db = indexVarBuf db" "now ?db = now db" "ttl_ok ?db"
    using acts_index [OF conjunct1 [OF st]] acts_now [OF conjunct1 [OF st]] st by simp_all
  have r: "ttl_run db (x # xs) = ttl_run ?db xs"
    by (simp add: ttl_run_def)
  show ?case
  proof (cases "(dt, k, w) \<in> set xs")
    case True
    have "due ?db dt k"
      using due_shrinks [OF Cons.prems(4) _ i(1,2) Cons.prems(3)] st by simp
    then have "removed dt k w ?db (ttl_run ?db xs)"
      using Cons.IH [OF i(3) k(2) _ _ True] Cons.prems(3) i(2) by simp
    then show ?thesis
      unfolding r removed_def i(1) .
  next
    case False
    then have "removed dt k w db ?db"
      using Cons.prems(4,5) st by (simp add: x)
    then show ?thesis
      unfolding r using ttl_run_ok [OF i(3) k(2)] removed_shrinks by blast
  qed
qed simp

section \<open>The time entries in order\<close>

definition time_entry :: "bytes \<Rightarrow> byte \<times> bytes \<times> i64 \<Rightarrow> bytes \<times> bytes" where
  "time_entry p = (\<lambda>(dt, k, w). (expEncodeTimeKey p dt k w, expEncodeMetaKey p dt k))"

definition entries_ok :: "DB \<Rightarrow> bool" where
  "entries_ok db \<longleftrightarrow> (\<forall>dt k w v. contents db (timekey db dt k w) = Some v \<longrightarrow>
     v = metakey db dt k \<and> key_size_ok k \<and> dt < maxDataType)"

lemma time_key_less:
  "expEncodeTimeKey p dt k w < expEncodeTimeKey p dt' k' w' \<longleftrightarrow> w < w' \<or> w = w' \<and> dt # k < dt' # k'"
  "expEncodeTimeKey p dt k w \<le> expEncodeTimeKey p dt' k' w' \<longleftrightarrow> w < w' \<or> w = w' \<and> dt # k \<le> dt' # k'"
  by (simp_all add: expEncodeTimeKey_def same_length_append_less_iff same_length_append_le_iff put_be64_less_iff)

lemma time_range_entry:
  assumes "db_ok db" "entries_ok db" "e \<in> set (ldb db)"
    and "expEncodeTimeKey (indexVarBuf db) NoneType [] 0 \<le> fst e" "fst e < expEncodeTimeKey (indexVarBuf db) maxDataType [] b"
  shows "\<exists>x. e = time_entry (indexVarBuf db) x"
proof -
  let ?p = "indexVarBuf db"
  obtain r where r: "fst e = (?p @ [ExpTimeType]) @ r"
    using between_prefix [of "?p @ [ExpTimeType]"] assms(4,5) less_imp_le unfolding expEncodeTimeKey_def
    by (metis append.assoc append_Cons append_Nil)
  then obtain lk where lk: "fst e = lkey_encode ?p lk"
    using db_entry(2) [OF assms(1,3)] unfolding key_ok_def by (metis append.assoc)
  then obtain dt k w where "fst e = expEncodeTimeKey ?p dt k w"
    using r by (cases lk) (auto simp: encoder_defs type_defs)
  then show ?thesis
    using assms(2) db_entry(1) [OF assms(1,3)] unfolding entries_ok_def
    by (intro exI [of _ "(dt, k, w)"]) (auto simp: time_entry_def prod_eq_iff)
qed

lemma sint64_uint:
  assumes "0 \<le> sint (w :: i64)"
  shows "sint w = uint w"
proof -
  have "uint (word_of_int (sint w) :: i64) = sint w mod 2 ^ 64"
    by (simp only: uint_word_of_int) simp
  also have "\<dots> = sint w"
    using assms sint64_bounds(2) [of w] by (intro mod_pos_pos_trivial) simp_all
  finally show ?thesis by simp
qed

lemma sint64_below:
  assumes "w \<le> b" "0 \<le> sint (b :: i64)"
  shows "sint w = uint w"
proof -
  have "uint w < 2 ^ 63"
    using assms sint64_uint [OF assms(2)] sint64_bounds(2) [of b] by (simp add: word_le_def)
  then show ?thesis
    using sint64_of_int [of "uint w"] uint_ge_0 [of w] by simp
qed

definition wtime :: "byte \<times> bytes \<times> i64 \<Rightarrow> i64" where
  "wtime = (\<lambda>(dt, k, w). w)"

lemma time_entry_less: "fst (time_entry p x) < fst (time_entry p y) \<Longrightarrow> wtime x \<le> wtime y"
  by (cases x; cases y) (auto simp: time_entry_def time_key_less wtime_def)

lemma time_entry_inj: "fst (time_entry p x) = fst (time_entry p y) \<Longrightarrow> x = y"
  by (cases x; cases y) (auto simp: time_entry_def dest: arg_cong [where f = "expDecodeTimeKey p"])

lemma time_entry_range:
  assumes "sint (b :: i64) = n + 3600" "0 \<le> n" "0 \<le> sint (wtime x)" "sint (wtime x) < n + 3600"
  shows "expEncodeTimeKey p NoneType [] 0 \<le> fst (time_entry p x)" "fst (time_entry p x) < expEncodeTimeKey p maxDataType [] b"
proof -
  obtain dt k w where x: "x = (dt, k, w)" by (cases x)
  have "uint w < uint b"
    using assms sint64_uint [of w] sint64_uint [of b] by (simp add: x wtime_def)
  then show "fst (time_entry p x) < expEncodeTimeKey p maxDataType [] b"
    by (simp add: x time_entry_def time_key_less word_less_def)
  have "0 < w \<or> w = 0"
    by (metis word_gt_0)
  moreover have "0 \<le> dt" by simp
  ultimately show "expEncodeTimeKey p NoneType [] 0 \<le> fst (time_entry p x)"
    by (cases k) (auto simp: x time_entry_def time_key_less NoneType_def le_less)
qed

lemma sorted_split:
  fixes f :: "'a \<Rightarrow> int"
  assumes "sorted_wrt (\<lambda>x y. f x \<le> f y) zs"
  shows "\<forall>x \<in> set (takeWhile (\<lambda>z. f z \<le> n) zs). f x \<le> n"
    "\<forall>y \<in> set (dropWhile (\<lambda>z. f z \<le> n) zs). n < f y"
    "sorted_wrt (\<lambda>x y. f x \<le> f y) (dropWhile (\<lambda>z. f z \<le> n) zs)"
  using assms by (induction zs) auto

definition check_range :: "DB \<Rightarrow> (bytes \<times> bytes) list" where
  "check_range db = filter (\<lambda>e. expEncodeTimeKey (indexVarBuf db) NoneType [] 0 \<le> fst e \<and>
     fst e < expEncodeTimeKey (indexVarBuf db) maxDataType [] (now db + 3600)) (ldb db)"

lemma check_range_entries:
  assumes "db_ok db" "entries_ok db" "0 \<le> sint (now db)" "sint (now db) + 3600 < 2 ^ 63"
  obtains zs where "check_range db = map (time_entry (indexVarBuf db)) zs"
    "\<forall>z \<in> set zs. sint (wtime z) \<le> sint (now db) + 3600"
    "sorted_wrt (\<lambda>x y. sint (wtime x) \<le> sint (wtime y)) zs"
proof -
  let ?p = "indexVarBuf db" and ?b = "now db + 3600"
  have b: "sint ?b = sint (now db) + 3600"
    using sint64_add [of "now db" 3600] assms(3,4) by simp
  have "\<forall>e \<in> set (check_range db). \<exists>x. e = time_entry ?p x"
    using time_range_entry [OF assms(1,2)] unfolding check_range_def by (simp only: set_filter mem_Collect_eq) blast
  then obtain zs where zs: "check_range db = map (time_entry ?p) zs"
    using ex_map_conv [of "check_range db" "time_entry ?p"] by auto
  have w: "wtime z \<le> ?b" if "z \<in> set zs" for z
  proof -
    have "time_entry ?p z \<in> set (check_range db)"
      using that unfolding zs by simp
    then show ?thesis
      by (cases z) (auto simp: check_range_def time_entry_def time_key_less wtime_def)
  qed
  then have u: "sint (wtime z) = uint (wtime z)" if "z \<in> set zs" for z
    using that b assms(3) by (intro sint64_below [of _ ?b]) simp_all
  have "kv_ok (check_range db)"
    unfolding check_range_def using assms(1) by (intro kv_ok_filter) simp
  then have "sorted_wrt (\<lambda>x y. fst (time_entry ?p x) < fst (time_entry ?p y)) zs"
    unfolding zs kv_ok_def by (simp add: sorted_wrt_map)
  moreover have "sint (wtime x) \<le> sint (wtime y)"
    if "x \<in> set zs" "y \<in> set zs" "fst (time_entry ?p x) < fst (time_entry ?p y)" for x y
    using time_entry_less [OF that(3)] unfolding u [OF that(1)] u [OF that(2)] word_le_def .
  ultimately have "sorted_wrt (\<lambda>x y. sint (wtime x) \<le> sint (wtime y)) zs"
    by (rule sorted_wrt_mono_rel [rotated])
  moreover have "sint (wtime z) \<le> sint (now db) + 3600" if "z \<in> set zs" for z
    using w [OF that] sint64_uint [of ?b] assms(3) unfolding u [OF that] word_le_def b by simp
  ultimately show thesis
    using that zs by blast
qed

lemma check_range_complete:
  assumes "db_ok db" "sint (now db) + 3600 < 2 ^ 63" "0 \<le> sint (now db)" "check_range db = map (time_entry (indexVarBuf db)) zs"
    and "contents db (fst (time_entry (indexVarBuf db) x)) \<noteq> None" "0 \<le> sint (wtime x)"
    and "sint (wtime x) < sint (now db) + 3600"
  shows "x \<in> set zs"
proof -
  let ?p = "indexVarBuf db" and ?b = "now db + 3600"
  have b: "sint ?b = sint (now db) + 3600"
    using sint64_add [of "now db" 3600] assms(2,3) by simp
  obtain v where "(fst (time_entry ?p x), v) \<in> set (ldb db)"
    using assms(5) kv_get_iff_mem [OF db_ok_kv_ok [OF assms(1)]] by blast
  then have "(fst (time_entry ?p x), v) \<in> set (check_range db)"
    using time_entry_range [OF b assms(3,6,7)] by (simp add: check_range_def)
  then obtain z where "z \<in> set zs" "fst (time_entry ?p z) = fst (time_entry ?p x)"
    unfolding assms(4) by (metis fst_conv imageE set_map)
  then show ?thesis
    using time_entry_inj [of ?p z x] by simp
qed

lemma check_loop_run:
  assumes "ttl_ok db" "steps_ok xs" "\<forall>x \<in> set xs. sint (wtime x) \<le> sint (now db)"
  shows "check_loop (now db) (map (time_entry (indexVarBuf db)) xs @ rest) n db =
    check_loop (now db) rest n (ttl_run db xs)"
  using assms
proof (induction xs arbitrary: db)
  case (Cons x xs)
  obtain dt k w where x: "x = (dt, k, w)" by (cases x)
  let ?db = "ttl_step db x"
  have k: "key_size_ok k" "dt < maxDataType" "sint w \<le> sint (now db)" "steps_ok xs"
    using Cons.prems(2,3) by (simp_all add: steps_ok_def x wtime_def)
  note st = ttl_step_ok [OF Cons.prems(1) k(1), of dt w, folded x]
  have i: "indexVarBuf ?db = indexVarBuf db" "now ?db = now db" "ttl_ok ?db"
    using acts_index [OF conjunct1 [OF st]] acts_now [OF conjunct1 [OF st]] st by simp_all
  have "check_loop (now db) (map (time_entry (indexVarBuf db)) (x # xs) @ rest) n db =
      check_loop (now db) (map (time_entry (indexVarBuf db)) xs @ rest) n ?db"
    using check_loop_step [OF Cons.prems(1) k(1,3,2)] by (simp only: x list.map append_Cons time_entry_def prod.case)
  then show ?case
    using Cons.IH [OF i(3) k(4)] Cons.prems(3) i(1,2) by (simp add: ttl_run_def)
qed (simp add: ttl_run_def)

text \<open>
  What the check does, when it does not return at once: it processes the time entries up to now,
  and its next time is that of the first later entry, an hour from now at the latest.
\<close>

lemma check_run:
  assumes "ttl_ok db" "entries_ok db" "0 \<le> sint (now db)" "sint (now db) + 3600 < 2 ^ 63" "sint (nc db) \<le> sint (now db)"
  obtains xs n where "check db = (Inr (), (ttl_run db xs)\<lparr>nc := n\<rparr>)" "steps_ok xs"
    "\<forall>x \<in> set xs. sint (wtime x) \<le> sint (now db) \<and> contents db (fst (time_entry (indexVarBuf db) x)) \<noteq> None"
    "\<And>x. contents db (fst (time_entry (indexVarBuf db) x)) \<noteq> None \<Longrightarrow> 0 \<le> sint (wtime x) \<Longrightarrow>
      sint (wtime x) \<le> sint (now db) \<Longrightarrow> x \<in> set xs"
    "sint (now db) < sint n" "sint n \<le> sint (now db) + 3600"
    "\<And>x. contents db (fst (time_entry (indexVarBuf db) x)) \<noteq> None \<Longrightarrow> sint (now db) < sint (wtime x) \<Longrightarrow>
      sint n \<le> sint (wtime x)"
proof -
  let ?p = "indexVarBuf db" and ?P = "\<lambda>z. sint (wtime z) \<le> sint (now db)"
  have ok: "db_ok db"
    using assms(1) by (simp add: ttl_ok_def)
  obtain zs where zs: "check_range db = map (time_entry ?p) zs" "\<forall>z \<in> set zs. sint (wtime z) \<le> sint (now db) + 3600"
      "sorted_wrt (\<lambda>x y. sint (wtime x) \<le> sint (wtime y)) zs"
    using check_range_entries [OF ok assms(2-4)] by metis
  note complete = check_range_complete [OF ok assms(4,3) zs(1)]
  define xs ys n where "xs = takeWhile ?P zs" and "ys = dropWhile ?P zs"
    and "n = (case ys of [] \<Rightarrow> now db + 3600 | y # _ \<Rightarrow> wtime y)"
  have split: "zs = xs @ ys" "\<forall>x \<in> set xs. ?P x" "\<forall>y \<in> set ys. sint (now db) < sint (wtime y)"
      "sorted_wrt (\<lambda>x y. sint (wtime x) \<le> sint (wtime y)) ys"
    using sorted_split [OF zs(3), of "sint (now db)"] by (simp_all add: xs_def ys_def)
  have b: "sint (now db + 3600) = sint (now db) + 3600"
    using sint64_add [of "now db" 3600] assms(3,4) by simp
  have present: "contents db (fst (time_entry ?p x)) \<noteq> None" if "x \<in> set zs" for x
  proof -
    have "time_entry ?p x \<in> set (ldb db)"
      using that arg_cong [OF zs(1), of set] by (auto simp: check_range_def)
    then show ?thesis
      using db_entry(1) [OF ok] by simp
  qed
  have st: "steps_ok xs"
    using present assms(2) unfolding steps_ok_def entries_ok_def split(1)
    by (force simp: time_entry_def)
  have i: "indexVarBuf (ttl_run db xs) = ?p"
    using ttl_run_ok [OF assms(1) st] by simp
  have "check_loop (now db) (map (time_entry ?p) ys) (now db + 3600) (ttl_run db xs) = (Inr n, ttl_run db xs)"
    using split(3) i by (cases ys) (auto simp: n_def time_entry_def wtime_def)
  then have l: "check_loop (now db) (check_range db) (now db + 3600) db = (Inr n, ttl_run db xs)"
    using check_loop_run [OF assms(1) st split(2)] by (simp add: zs(1) split(1))
  have "check db = (Inr (), (ttl_run db xs)\<lparr>nc := n\<rparr>)"
    using l assms(5) ok by (simp add: check_def range_filter check_range_def [symmetric] setNextCheckTime_def Let_def)
  moreover have "sint (now db) < sint n" "sint n \<le> sint (now db) + 3600"
    using split(1,3) zs(2) b by (cases ys; simp add: n_def)+
  moreover have "x \<in> set xs" if "contents db (fst (time_entry ?p x)) \<noteq> None" "0 \<le> sint (wtime x)" "?P x" for x
  proof -
    have "x \<in> set xs \<union> set ys"
      using complete [OF that(1,2)] that(3) unfolding split(1) set_append by linarith
    then show ?thesis
      using split(3) that(3) by (meson UnE not_less)
  qed
  moreover have "sint n \<le> sint (wtime x)" if x: "contents db (fst (time_entry ?p x)) \<noteq> None" "sint (now db) < sint (wtime x)" for x
  proof (cases "sint (wtime x) < sint (now db) + 3600")
    case True
    then have "x \<in> set xs \<union> set ys"
      using complete [OF x(1)] x(2) assms(3) unfolding split(1) set_append by linarith
    then have "x \<in> set ys"
      using split(2) x(2) by (meson UnE not_less)
    then show ?thesis
      using split(4) by (cases ys) (auto simp: n_def)
  qed (use \<open>sint n \<le> sint (now db) + 3600\<close> in simp)
  ultimately show thesis
    using that st split(1,2) present by (metis Un_iff set_append)
qed

section \<open>The check as a whole\<close>

text \<open>
  \<open>sched_ok\<close>: a datum with an expiry time has the time entry for it, and the next check is not
  later than this time. \<open>live\<close>: a datum that has not expired, and that no old time entry points to if
  it is persistent.
\<close>

definition sched_ok :: "DB \<Rightarrow> bool" where
  "sched_ok db \<longleftrightarrow> (\<forall>dt k w. cbs dt \<noteq> None \<and> exp_when db dt k = Some w \<longrightarrow>
     0 \<le> sint w \<and> contents db (timekey db dt k w) \<noteq> None \<and> sint (nc db) \<le> sint w)"

definition ttl_inv :: "DB \<Rightarrow> bool" where
  "ttl_inv db \<longleftrightarrow> ttl_ok db \<and> entries_ok db \<and> sched_ok db"

definition live :: "DB \<Rightarrow> byte \<Rightarrow> bytes \<Rightarrow> bool" where
  "live db dt k \<longleftrightarrow> (case exp_when db dt k of
     Some w \<Rightarrow> sint (now db) < sint w
   | None \<Rightarrow> (\<forall>w. sint w \<le> sint (now db) \<longrightarrow> contents db (timekey db dt k w) = None))"

lemma ttl_ok_nc [simp]: "ttl_ok (db\<lparr>nc := n\<rparr>) = ttl_ok db"
  by (simp add: ttl_ok_def db_ok_def standalone_def data_good_def data_wf_def good_defs list_at_def coll_at_def
      zset_at_def exp_wf_def)

lemma exp_when_shrinks:
  "shrinks db d \<Longrightarrow> indexVarBuf d = indexVarBuf db \<Longrightarrow> exp_when d dt k = Some w \<Longrightarrow> exp_when db dt k = Some w"
  unfolding shrinks_def exp_when_def by (metis option.case(1) option.distinct(1))

lemma entries_ok_shrinks: "shrinks db d \<Longrightarrow> indexVarBuf d = indexVarBuf db \<Longrightarrow> entries_ok db \<Longrightarrow> entries_ok d"
  unfolding shrinks_def entries_ok_def by (metis option.distinct(1))

lemma exp_time_Some: "exp_when db dt k = Some w \<Longrightarrow> exp_time db dt k = w"
  by (simp add: exp_time_def)

end
