(* ===== verification/Ledis_TTL_Props.thy ===== *)
theory Ledis_TTL_Props
  imports Ledis_TTL_Laws
begin

text \<open>
  The check of times to live as a whole: data that have expired go, data that live stay, and the
  next check comes in time; a datum made persistent again is lost if an old time entry is left.
\<close>

lemma run_expired:
  assumes "ttl_inv db" "0 \<le> sint (now db)" "steps_ok xs" "cbs dt \<noteq> None" "exp_when db dt k = Some w" "sint w \<le> sint (now db)"
    and complete: "\<And>x. contents db (fst (time_entry (indexVarBuf db) x)) \<noteq> None \<Longrightarrow> 0 \<le> sint (wtime x) \<Longrightarrow>
      sint (wtime x) \<le> sint (now db) \<Longrightarrow> x \<in> set xs"
  shows "removed dt k w db (ttl_run db xs)"
proof (rule ttl_run_removes [OF _ assms(3,2)])
  have s: "0 \<le> sint w" "contents db (timekey db dt k w) \<noteq> None"
    using assms(1,4,5) unfolding ttl_inv_def sched_ok_def by blast+
  show "(dt, k, w) \<in> set xs"
    using complete [of "(dt, k, w)"] s assms(6) by (simp add: time_entry_def wtime_def)
  show "due db dt k"
    using assms(4,6) exp_time_Some [OF assms(5)] by (simp add: due_def)
qed (use assms(1) in \<open>simp add: ttl_inv_def\<close>)

lemma run_live:
  assumes "ttl_inv db" "steps_ok xs" "live db dt k" "ek \<in> own (indexVarBuf db) dt {k}"
    and seen: "\<forall>x \<in> set xs. sint (wtime x) \<le> sint (now db) \<and> contents db (fst (time_entry (indexVarBuf db) x)) \<noteq> None"
  shows "contents (ttl_run db xs) ek = contents db ek"
proof (cases "exp_when db dt k")
  case (Some w)
  then have "\<not> due db dt k"
    using assms(3) exp_time_Some [OF Some] by (simp add: live_def due_def)
  then show ?thesis
    using ttl_run_keeps [OF _ assms(2) _ assms(4)] assms(1) by (simp add: ttl_inv_def)
next
  case None
  have "case x of (dt', k', w) \<Rightarrow> ek \<notin> own (indexVarBuf db) dt' {k'}" if x: "x \<in> set xs" for x
  proof -
    obtain dt' k' w where that: "x = (dt', k', w)" by (cases x)
    have "sint w \<le> sint (now db)" "contents db (timekey db dt' k' w) \<noteq> None"
      using seen x by (auto simp: that wtime_def time_entry_def)
    then have "dt' \<noteq> dt \<or> k' \<noteq> k"
      using assms(3) None by (auto simp: live_def)
    then show ?thesis
      using own_disjoint [of dt dt' "{k}" "{k'}" "indexVarBuf db"] assms(4) by (auto simp: that)
  qed
  then show ?thesis
    using ttl_run_ok [OF _ assms(2), of db] assms(1) unfolding ttl_inv_def by blast
qed

lemma run_sched:
  assumes "ttl_inv db" "steps_ok xs"
    and gone: "\<And>dt k w. cbs dt \<noteq> None \<Longrightarrow> exp_when db dt k = Some w \<Longrightarrow> sint w \<le> sint (now db) \<Longrightarrow>
      removed dt k w db (ttl_run db xs)"
    and keep: "\<And>dt k ek. live db dt k \<Longrightarrow> ek \<in> own (indexVarBuf db) dt {k} \<Longrightarrow> contents (ttl_run db xs) ek = contents db ek"
    and n: "\<And>x. contents db (fst (time_entry (indexVarBuf db) x)) \<noteq> None \<Longrightarrow> sint (now db) < sint (wtime x) \<Longrightarrow>
      sint n \<le> sint (wtime x)"
  shows "ttl_inv ((ttl_run db xs)\<lparr>nc := n\<rparr>)"
proof -
  let ?d = "ttl_run db xs"
  have ok: "ttl_ok db" "entries_ok db" "sched_ok db"
    using assms(1) by (simp_all add: ttl_inv_def)
  note run = ttl_run_ok [OF ok(1) assms(2)]
  have sch: "0 \<le> sint w \<and> contents ?d (timekey db dt k w) \<noteq> None \<and> sint n \<le> sint w"
    if e: "cbs dt \<noteq> None" "exp_when ?d dt k = Some w" for dt k w
  proof -
    have w: "exp_when db dt k = Some w"
      using exp_when_shrinks [OF _ _ e(2)] run by blast
    have late: "sint (now db) < sint w"
    proof (rule ccontr)
      assume "\<not> sint (now db) < sint w"
      then have "contents ?d (metakey db dt k) = None"
        using gone [OF e(1) w] by (simp add: removed_def)
      then show False
        using e(2) run by (simp add: exp_when_def)
    qed
    then have "contents ?d (timekey db dt k w) = contents db (timekey db dt k w)"
      using w by (intro keep [of dt k]) (simp_all add: live_def)
    moreover have s: "0 \<le> sint w" "contents db (timekey db dt k w) \<noteq> None"
      using ok(3) e(1) w unfolding sched_ok_def by blast+
    moreover have "sint n \<le> sint w"
      using n [of "(dt, k, w)"] s(2) late by (simp add: wtime_def time_entry_def)
    ultimately show ?thesis by simp
  qed
  have i: "indexVarBuf ?d = indexVarBuf db"
    using run by blast
  have "entries_ok ?d"
    using entries_ok_shrinks [OF _ i ok(2)] run by blast
  then have "entries_ok (?d\<lparr>nc := n\<rparr>)"
    by (simp add: entries_ok_def)
  moreover have "sched_ok (?d\<lparr>nc := n\<rparr>)"
    unfolding sched_ok_def
  proof (intro allI impI, elim conjE)
    fix dt k w
    assume "cbs dt \<noteq> None" "exp_when (?d\<lparr>nc := n\<rparr>) dt k = Some w"
    then show "0 \<le> sint w \<and> contents (?d\<lparr>nc := n\<rparr>) (timekey (?d\<lparr>nc := n\<rparr>) dt k w) \<noteq> None \<and>
        sint (nc (?d\<lparr>nc := n\<rparr>)) \<le> sint w"
      using sch [of dt k w] i by (simp add: exp_when_def)
  qed
  ultimately show "ttl_inv (?d\<lparr>nc := n\<rparr>)"
    using run by (simp add: ttl_inv_def)
qed

text \<open>
  C10: Expiry. Once the time of a datum has come, the next check removes all its entries and its
  expiry; a datum that lives is left as it is; and the check keeps the schedule: every expiry time
  left has its time entry, and the next check is not later than any of them, so that none is missed.
  A datum lives if its expiry is still to come, or if it has no expiry and no overdue time entry
  of an earlier one is left.
\<close>

theorem ttl_check_expires:
  assumes "ttl_inv db" "0 \<le> sint (now db)" "sint (now db) + 3600 < 2 ^ 63"
  shows "\<exists>db'. check db = (Inr (), db') \<and> ttl_inv db' \<and> indexVarBuf db' = indexVarBuf db \<and>
    (\<forall>dt k w. cbs dt \<noteq> None \<and> exp_when db dt k = Some w \<and> sint w \<le> sint (now db) \<longrightarrow>
      (\<forall>ek \<in> data_keys (indexVarBuf db) dt k. contents db' ek = None) \<and> exp_when db' dt k = None) \<and>
    (\<forall>dt k. live db dt k \<longrightarrow> (\<forall>ek \<in> own (indexVarBuf db) dt {k}. contents db' ek = contents db ek))"
proof (cases "sint (now db) < sint (nc db)")
  case True
  have "\<not> sint w \<le> sint (now db)" if "cbs dt \<noteq> None" "exp_when db dt k = Some w" for dt k w
    using assms(1) True that unfolding ttl_inv_def sched_ok_def by fastforce
  then show ?thesis
    using True assms(1) by (intro exI [of _ db]) (auto simp: check_def)
next
  case False
  have ok: "ttl_ok db" "entries_ok db" "sched_ok db"
    using assms(1) by (simp_all add: ttl_inv_def)
  obtain xs n where r: "check db = (Inr (), (ttl_run db xs)\<lparr>nc := n\<rparr>)" "steps_ok xs"
    and seen: "\<forall>x \<in> set xs. sint (wtime x) \<le> sint (now db) \<and> contents db (fst (time_entry (indexVarBuf db) x)) \<noteq> None"
    and complete: "\<And>x. contents db (fst (time_entry (indexVarBuf db) x)) \<noteq> None \<Longrightarrow> 0 \<le> sint (wtime x) \<Longrightarrow>
      sint (wtime x) \<le> sint (now db) \<Longrightarrow> x \<in> set xs"
    and n: "\<And>x. contents db (fst (time_entry (indexVarBuf db) x)) \<noteq> None \<Longrightarrow> sint (now db) < sint (wtime x) \<Longrightarrow>
      sint n \<le> sint (wtime x)"
    using check_run [OF ok(1,2) assms(2,3)] False by (metis not_less)
  let ?d = "ttl_run db xs"
  note run = ttl_run_ok [OF ok(1) r(2)]
  have gone: "removed dt k w db ?d" if "cbs dt \<noteq> None" "exp_when db dt k = Some w" "sint w \<le> sint (now db)" for dt k w
    using run_expired [OF assms(1,2) r(2) that complete] .
  have keep: "contents ?d ek = contents db ek" if "live db dt k" "ek \<in> own (indexVarBuf db) dt {k}" for dt k ek
    using run_live [OF assms(1) r(2) that seen] .
  have "(\<forall>ek \<in> data_keys (indexVarBuf db) dt k. contents ?d ek = None) \<and> exp_when (?d\<lparr>nc := n\<rparr>) dt k = None"
    if "cbs dt \<noteq> None" "exp_when db dt k = Some w" "sint w \<le> sint (now db)" for dt k w
    using gone [OF that] run by (simp add: removed_def exp_when_def)
  moreover have "ttl_inv (?d\<lparr>nc := n\<rparr>)"
    using run_sched [OF assms(1) r(2) gone keep n] .
  ultimately show ?thesis
    using r(1) keep run by (intro exI [of _ "?d\<lparr>nc := n\<rparr>"]) (simp del: not_None_eq, blast)
qed

lemma clock_simps [simp]:
  "db_ok (db\<lparr>now := n\<rparr>) = db_ok db" "standalone (db\<lparr>now := n\<rparr>) = standalone db"
  by (simp_all add: db_ok_def standalone_def)

lemma kv_get_empty: "kv_get [] = Map.empty"
  by (simp add: kv_get_def fun_eq_iff)

text \<open>A database with one value that expires.\<close>

definition expiring_db :: "bytes \<Rightarrow> bytes \<Rightarrow> i64 \<Rightarrow> DB \<Rightarrow> bool" where
  "expiring_db key v w db \<longleftrightarrow> db_ok db \<and> standalone db \<and> key_size_ok key \<and>
     contents db = [kvkey db key \<mapsto> v, timekey db KVType key w \<mapsto> metakey db KVType key,
       metakey db KVType key \<mapsto> PutInt64 w]"

lemma exp_keys_eq [simp]:
  "expEncodeMetaKey p dt k = expEncodeMetaKey p dt' k' \<longleftrightarrow> dt = dt' \<and> k = k'"
  "expEncodeTimeKey p dt k w = expEncodeTimeKey p dt' k' w' \<longleftrightarrow> dt = dt' \<and> k = k' \<and> w = w'"
  "expEncodeMetaKey p dt k \<noteq> expEncodeTimeKey p dt' k' w'" "expEncodeTimeKey p dt' k' w' \<noteq> expEncodeMetaKey p dt k"
  by (auto simp: expEncodeMetaKey_def expEncodeTimeKey_def type_defs)

lemma expiring_db_inv:
  assumes "expiring_db key v w db" "0 \<le> sint w" "sint (nc db) \<le> sint w"
  shows "ttl_inv db" "exp_when db KVType key = Some w"
proof -
  note e = assms(1) [unfolded expiring_db_def]
  have c: "contents db ek \<noteq> None \<longleftrightarrow> ek \<in> {kvkey db key, timekey db KVType key w, metakey db KVType key}" for ek
    using e by simp
  have only: "dt = KVType \<and> k = key" if "ek \<in> data_keys (indexVarBuf db) dt k" "contents db ek \<noteq> None" for dt k ek
  proof -
    have "ek = kvkey db key"
      using that c [of ek] by auto
    then show ?thesis
      using data_keys_other [OF that(1), of KVType "{key}"] own_simps(1) [of key "{key}" "indexVarBuf db"] by auto
  qed
  have "key \<noteq> []"
    using e by (auto simp: key_size_ok_def)
  then have "data_wf KVType kv_good db"
    using only unfolding data_wf_def kv_good_def by blast
  moreover have "data_wf dt good db" if "dt \<noteq> KVType" for dt and good :: "DB \<Rightarrow> bytes \<Rightarrow> bool"
    using only that unfolding data_wf_def by blast
  ultimately have "data_good db"
    by (simp add: data_good_def type_defs)
  moreover have "exp_wf db dt k" for dt k
    using e by (auto simp: exp_wf_def)
  ultimately have "ttl_ok db"
    using e by (simp add: ttl_ok_def)
  moreover have "entries_ok db"
    using e by (auto simp: entries_ok_def type_defs)
  moreover show wh: "exp_when db KVType key = Some w"
    using e by (simp add: exp_when_def)
  moreover have "exp_when db dt k = None" if "dt \<noteq> KVType \<or> k \<noteq> key" for dt k
    using e that by (auto simp: exp_when_def)
  then have "sched_ok db"
    using wh assms(2,3) e unfolding sched_ok_def by (metis (no_types, lifting) c insert_iff option.inject option.distinct(1))
  ultimately show "ttl_inv db"
    by (simp add: ttl_inv_def)
qed

text \<open>The value is there until its time has come, and is gone after the next check.\<close>

theorem ttl_check_expires_witness:
  "\<exists>db db' d. Set [1] [5] demo_db = (Inr (), db) \<and> Expire [1] 10 db = (Inr 1, db') \<and>
     Get [1] db' = Inr (Some [5]) \<and> check (db'\<lparr>now := 1010\<rparr>) = (Inr (), d) \<and> Get [1] d = Inr None"
proof -
  obtain db where db: "Set [1] [5] demo_db = (Inr (), db)" "contents db = (contents demo_db)(kvkey demo_db [1] \<mapsto> [5])"
      "indexVarBuf db = [0]"
    using Set_ok [of demo_db "[1]" "[5]"] by (auto simp: MaxValueSize_def)
  have a: "acts KVType {[1]} demo_db db"
    using Set_acts [of "[1]" demo_db "[5]"] db(1) by simp
  then have n: "now db = 1000" "standalone db" "db_ok db"
    using acts_db_ok [OF a] standalone_acts [OF a] by simp_all
  obtain db' where db': "setExpireAt [1] 1010 db = (Inr 1, db')" "contents db' = (contents db)(timekey db KVType [1] 1010 \<mapsto>
        metakey db KVType [1], metakey db KVType [1] \<mapsto> PutInt64 1010)"
      "nc db' = (if sint (1010 :: i64) < sint (nc db) then 1010 else nc db)" "indexVarBuf db' = indexVarBuf db"
    using setExpireAt_ok [OF standalone_writable [OF n(2)], of "[1]" 1010] db(2,3) by (auto simp del: fun_upd_apply simp add: fun_upd_same)
  then have e: "Expire [1] 10 db = (Inr 1, db')"
    by (simp add: Expire_def n(1))
  have a': "acts KVType {[1]} db db'"
    using Expire_acts [of "[1]" db 10] e by simp
  let ?d = "db'\<lparr>now := 1010\<rparr>"
  have "contents db' = [kvkey db' [1] \<mapsto> [5], timekey db' KVType [1] 1010 \<mapsto> metakey db' KVType [1],
      metakey db' KVType [1] \<mapsto> PutInt64 1010]"
    unfolding db'(2) db(2) db'(4) by (simp add: db(3) kv_get_empty)
  then have "expiring_db [1] [5] 1010 ?d"
    using acts_db_ok [OF a' n(3)] standalone_acts [OF a' n(2)]
    by (simp add: expiring_db_def key_size_ok_def MaxKeySize_def)
  then have "ttl_inv ?d" "exp_when ?d KVType [1] = Some 1010"
    using expiring_db_inv [of "[1]" "[5]" 1010 ?d] db'(3) by (simp_all split: if_splits)
  moreover have "0 \<le> sint (now ?d)" "sint (now ?d) + 3600 < 2 ^ 63" "sint (1010 :: i64) \<le> sint (now ?d)"
    by simp_all
  ultimately obtain d where d: "check ?d = (Inr (), d)" "indexVarBuf d = indexVarBuf ?d"
      "\<forall>ek \<in> data_keys (indexVarBuf ?d) KVType [1]. contents d ek = None"
    using ttl_check_expires [of ?d] cbs_simps(1) by blast
  then have "Get [1] d = Inr None"
    using db(3) db'(4) by (simp add: Get_def)
  moreover have "Get [1] db' = Inr (Some [5])"
    using db(2,3) db'(2,4) by (simp add: Get_def)
  ultimately show ?thesis
    using db(1) e d(1) by blast
qed

section \<open>A stale time entry\<close>

text \<open>What is well formed stays so when only expiry entries change.\<close>

context datum_type
begin

lemma data_wf_frame:
  assumes "data_wf dt good db" "indexVarBuf db' = indexVarBuf db"
    and "\<And>k ek. ek \<in> data_keys (indexVarBuf db) dt k \<Longrightarrow> contents db' ek = contents db ek"
  shows "data_wf dt good db'"
  unfolding data_wf_def assms(2)
proof (intro allI impI, elim conjE)
  fix k ek
  assume ek: "ek \<in> data_keys (indexVarBuf db) dt k" "contents db' ek \<noteq> None"
  then have "good db k"
    using assms(1,3) unfolding data_wf_def by metis
  then show "good db' k"
    using good_frame [OF _ assms(2)] assms(3) by blast
qed

end

lemma data_good_frame:
  assumes "data_good db" "indexVarBuf db' = indexVarBuf db"
    and "\<And>dt k ek. ek \<in> data_keys (indexVarBuf db) dt k \<Longrightarrow> contents db' ek = contents db ek"
  shows "data_good db'"
  using assms(1) kv_type.data_wf_frame [OF _ assms(2,3)] list_type.data_wf_frame [OF _ assms(2,3)]
    hash_type.data_wf_frame [OF _ assms(2,3)] zset_type.data_wf_frame [OF _ assms(2,3)]
    set_type.data_wf_frame [OF _ assms(2,3)]
  by (simp add: data_good_def)

lemma ttl_ok_frame:
  assumes "ttl_ok db" "acts KVType K db db'"
    and "\<And>dt k ek. ek \<in> data_keys (indexVarBuf db) dt k \<Longrightarrow> contents db' ek = contents db ek"
    and "\<And>dt k. exp_wf db' dt k"
  shows "ttl_ok db'"
  using assms acts_db_ok [OF assms(2)] standalone_acts [OF assms(2)]
    data_good_frame [OF _ acts_index [OF assms(2)] assms(3)]
  by (simp add: ttl_ok_def)

lemma data_key_not_exp:
  "ek \<in> data_keys p dt k \<Longrightarrow> ek \<noteq> expEncodeMetaKey p dt' k'" "ek \<in> data_keys p dt k \<Longrightarrow> ek \<noteq> expEncodeTimeKey p dt' k' w"
  using data_keys_not_exp by metis+

text \<open>Setting an expiry time, or removing it, keeps the well-formedness the check needs.\<close>

lemma Expire_ttl:
  assumes "ttl_ok db" "entries_ok db" "key_size_ok key" "contents db (kvkey db key) \<noteq> None" "0 < sint d"
  shows "\<exists>db'. Expire key d db = (Inr 1, db') \<and> ttl_ok db' \<and> entries_ok db' \<and>
    contents db' = (contents db)(timekey db KVType key (now db + d) \<mapsto> metakey db KVType key,
       metakey db KVType key \<mapsto> PutInt64 (now db + d)) \<and>
    indexVarBuf db' = indexVarBuf db \<and> now db' = now db \<and> sint (nc db') \<le> sint (now db + d) \<and> sint (nc db') \<le> sint (nc db)"
proof -
  have w: "writable db"
    using assms(1) by (simp add: ttl_ok_def)
  obtain db' where db': "setExpireAt key (now db + d) db = (Inr 1, db')"
      "contents db' = (contents db)(timekey db KVType key (now db + d) \<mapsto> metakey db KVType key,
       metakey db KVType key \<mapsto> PutInt64 (now db + d))"
      "nc db' = (if sint (now db + d) < sint (nc db) then now db + d else nc db)" "indexVarBuf db' = indexVarBuf db"
      "now db' = now db"
    using setExpireAt_ok [OF w assms(3,4), of "now db + d"] by blast
  have "ttl_ok db'"
  proof (rule ttl_ok_frame [OF assms(1)])
    show "acts KVType {key} db db'"
      using setExpireAt_acts [of key db "now db + d"] db'(1) by simp
    show "contents db' ek = contents db ek" if "ek \<in> data_keys (indexVarBuf db) dt k" for dt k ek
      unfolding db'(2) using data_key_not_exp [OF that] by simp
    show "exp_wf db' dt k" for dt k
      using assms(1) unfolding exp_wf_def db'(2,4) ttl_ok_def by auto
  qed
  moreover have "entries_ok db'"
    using assms(2,3) unfolding entries_ok_def db'(2,4) by (auto simp: type_defs)
  ultimately show ?thesis
    using db' assms(5) by (auto simp: Expire_def)
qed

lemma Persist_ttl:
  assumes "ttl_ok db" "entries_ok db" "key_size_ok key"
  shows "\<exists>db'. Persist key db = (Inr (if exp_when db KVType key = None then 0 else 1), db') \<and> ttl_ok db' \<and> entries_ok db' \<and>
    contents db' = (case exp_when db KVType key of
        None \<Rightarrow> contents db
      | Some w \<Rightarrow> (contents db)(metakey db KVType key := None, timekey db KVType key w := None)) \<and>
    indexVarBuf db' = indexVarBuf db \<and> now db' = now db \<and> nc db' = nc db"
proof -
  have w: "writable db" "exp_wf db KVType key"
    using assms(1) by (simp_all add: ttl_ok_def)
  obtain db' where db': "Persist key db = (Inr (if exp_when db KVType key = None then 0 else 1), db')"
      "contents db' = (case exp_when db KVType key of
        None \<Rightarrow> contents db
      | Some w \<Rightarrow> (contents db)(metakey db KVType key := None, timekey db KVType key w := None))"
      "indexVarBuf db' = indexVarBuf db"
    using Persist_ok [OF w(1) assms(3) w(2)] by blast
  have a: "acts KVType {key} db db'"
    using Persist_acts [of key db] db'(1) by simp
  have "nc (snd (Persist key db)) = nc db"
    using w(2) assms(3) by (auto simp: Persist_def rmExpire_effect commit_ret_def split: option.split prod.split sum.split
        dest: arg_cong [where f = "\<lambda>x. nc (snd x)"])
  then have n: "nc db' = nc db"
    by (simp add: db'(1))
  have "ttl_ok db'"
  proof (rule ttl_ok_frame [OF assms(1) a])
    show "contents db' ek = contents db ek" if "ek \<in> data_keys (indexVarBuf db) dt k" for dt k ek
      unfolding db'(2) using data_key_not_exp [OF that] by (simp split: option.split)
    show "exp_wf db' dt k" for dt k
      using assms(1) unfolding exp_wf_def db'(2,3) ttl_ok_def by (auto split: option.splits if_splits)
  qed
  moreover have "entries_ok db'"
    using assms(2) unfolding entries_ok_def db'(2,3) by (auto split: option.splits if_splits)
  ultimately show ?thesis
    using db' n acts_now [OF a] by blast
qed

lemma exp_when_upd:
  assumes "contents db' = (contents db)(timekey db dt' k' w' := x, metakey db dt' k' := y)" "indexVarBuf db' = indexVarBuf db"
    and "dt \<noteq> dt' \<or> k \<noteq> k'"
  shows "exp_when db' dt k = exp_when db dt k" "contents db' (timekey db dt k w) = contents db (timekey db dt k w)"
  using assms(3) by (auto simp: exp_when_def assms(1,2))

lemma sched_ok_upd:
  assumes "sched_ok db" "indexVarBuf db' = indexVarBuf db" "sint (nc db') \<le> sint (nc db)"
    and "contents db' = (contents db)(timekey db dt' k' w' := x, metakey db dt' k' := y)"
    and "\<And>w. exp_when db' dt' k' = Some w \<Longrightarrow>
      0 \<le> sint w \<and> contents db' (timekey db dt' k' w) \<noteq> None \<and> sint (nc db') \<le> sint w"
  shows "sched_ok db'"
  unfolding sched_ok_def assms(2)
proof (intro allI impI, elim conjE)
  fix dt k w
  assume e: "cbs dt \<noteq> None" "exp_when db' dt k = Some w"
  show "0 \<le> sint w \<and> contents db' (timekey db dt k w) \<noteq> None \<and> sint (nc db') \<le> sint w"
  proof (cases "dt = dt' \<and> k = k'")
    case True
    then show ?thesis
      using assms(5) e by blast
  next
    case False
    then have "dt \<noteq> dt' \<or> k \<noteq> k'" by blast
    note u = exp_when_upd [OF assms(4,2) this]
    have "0 \<le> sint w \<and> contents db (timekey db dt k w) \<noteq> None \<and> sint (nc db) \<le> sint w"
      using assms(1) e unfolding u(1) sched_ok_def by blast
    then show ?thesis
      using assms(3) unfolding u(2) by linarith
  qed
qed

text \<open>
  C11: The invariant the check relies on (well-formed data, well-formed time entries, a schedule
  that misses no expiry) is kept by \<open>Expire\<close> and \<open>Persist\<close> of a key-value pair.
\<close>

theorem ttl_invariant_kept:
  assumes "ttl_inv db" "key_size_ok key" "0 \<le> sint (now db)" "sint (now db) + sint d < 2 ^ 63"
  shows "ttl_inv (snd (Expire key d db)) \<and> ttl_inv (snd (Persist key db))"
proof
  have ok: "ttl_ok db" "entries_ok db" "sched_ok db"
    using assms(1) by (simp_all add: ttl_inv_def)
  show "ttl_inv (snd (Expire key d db))"
  proof (cases "0 < sint d \<and> contents db (kvkey db key) \<noteq> None")
    case True
    then obtain db' where db': "Expire key d db = (Inr 1, db')" "ttl_ok db'" "entries_ok db'"
        "contents db' = (contents db)(timekey db KVType key (now db + d) \<mapsto> metakey db KVType key,
          metakey db KVType key \<mapsto> PutInt64 (now db + d))"
        "indexVarBuf db' = indexVarBuf db" "sint (nc db') \<le> sint (now db + d)" "sint (nc db') \<le> sint (nc db)"
      using Expire_ttl [OF ok(1,2) assms(2)] by blast
    have e: "exp_when db' KVType key = Some (now db + d)"
      by (simp add: exp_when_def db'(4,5))
    have "0 \<le> sint (now db + d)"
      using sint64_add [of "now db" d] assms(3,4) True by simp
    then have "sched_ok db'"
      using e db'(6) by (intro sched_ok_upd [OF ok(3) db'(5,7,4)]) (simp add: db'(4))
    then show ?thesis
      using db'(1-3) by (simp add: ttl_inv_def)
  next
    case False
    then show ?thesis
      using assms(1,2) by (auto simp: Expire_def setExpireAt_missing)
  qed
  obtain db' where db': "Persist key db = (Inr (if exp_when db KVType key = None then 0 else 1), db')" "ttl_ok db'" "entries_ok db'"
      "contents db' = (case exp_when db KVType key of None \<Rightarrow> contents db
        | Some w \<Rightarrow> (contents db)(metakey db KVType key := None, timekey db KVType key w := None))"
      "indexVarBuf db' = indexVarBuf db" "nc db' = nc db"
    using Persist_ttl [OF ok(1,2) assms(2)] by blast
  have "sched_ok db'"
  proof (cases "exp_when db KVType key")
    case None
    then show ?thesis
      using ok(3) db'(4-6) by (simp add: sched_ok_def exp_when_def)
  next
    case (Some w)
    have c: "contents db' = (contents db)(timekey db KVType key w := None, metakey db KVType key := None)"
      using db'(4) Some by (simp add: fun_upd_twist)
    then have "exp_when db' KVType key = None"
      by (simp add: exp_when_def db'(5))
    then show ?thesis
      using db'(6) by (intro sched_ok_upd [OF ok(3) db'(5) _ c]) simp_all
  qed
  then show "ttl_inv (snd (Persist key db))"
    using db'(1-3) by (simp add: ttl_inv_def)
qed

lemma value_db:
  obtains db where "Set [1] [5] demo_db = (Inr (), db)" "ttl_inv db" "contents db = [kvkey db [1] \<mapsto> [5]]"
    "indexVarBuf db = [0]" "now db = 1000"
proof -
  obtain db where db: "Set [1] [5] demo_db = (Inr (), db)" "contents db = (contents demo_db)(kvkey demo_db [1] \<mapsto> [5])"
      "indexVarBuf db = [0]"
    using Set_ok [of demo_db "[1]" "[5]"] by (auto simp: MaxValueSize_def)
  have a: "acts KVType {[1]} demo_db db"
    using Set_acts [of "[1]" demo_db "[5]"] db(1) by simp
  have c: "contents db = [kvkey db [1] \<mapsto> [5]]"
    by (simp add: db(2,3) kv_get_empty)
  have only: "dt = KVType \<and> k = [1]" if "ek \<in> data_keys (indexVarBuf db) dt k" "contents db ek \<noteq> None" for dt k ek
    using data_keys_other [OF that(1), of KVType "{[1]}"] own_simps(1) [of "[1]" "{[1]}" "indexVarBuf db"] that(2)
    by (auto simp: c split: if_splits)
  then have "data_wf KVType kv_good db"
    unfolding data_wf_def kv_good_def by blast
  moreover have "data_wf dt good db" if "dt \<noteq> KVType" for dt and good :: "DB \<Rightarrow> bytes \<Rightarrow> bool"
    using only that unfolding data_wf_def by blast
  ultimately have "data_good db"
    by (simp add: data_good_def type_defs)
  moreover have "exp_when db dt k = None" "exp_wf db dt k" for dt k
    by (simp_all add: exp_when_def exp_wf_def c)
  ultimately have "ttl_inv db"
    using acts_db_ok [OF a] standalone_acts [OF a] by (simp add: ttl_inv_def ttl_ok_def sched_ok_def entries_ok_def c)
  then show thesis
    using that db(1,3) c acts_now [OF a] by simp
qed

text \<open>Setting the expiry time of a value that is there.\<close>

theorem ttl_invariant_kept_witness:
  "\<exists>db db'. Set [1] [5] demo_db = (Inr (), db) \<and> Expire [1] 10 db = (Inr 1, db') \<and> ttl_inv db'"
proof -
  obtain db where db: "Set [1] [5] demo_db = (Inr (), db)" "ttl_inv db" "contents db = [kvkey db [1] \<mapsto> [5]]" "now db = 1000"
    by (rule value_db)
  obtain db' where "Expire [1] 10 db = (Inr 1, db')"
    using Expire_ttl [of db "[1]" 10] db(2,3) by (auto simp: ttl_inv_def key_size_ok_def MaxKeySize_def)
  moreover from this have "ttl_inv db'"
    using ttl_invariant_kept [of db "[1]" 10] db(2,4) by (simp add: key_size_ok_def MaxKeySize_def)
  ultimately show ?thesis
    using db(1) by blast
qed

lemma check_stale:
  assumes "ttl_ok d" "entries_ok d" "0 \<le> sint (now d)" "sint (now d) + 3600 < 2 ^ 63" "sint (nc d) \<le> sint (now d)"
    and "exp_when d KVType key = None" "contents d (timekey d KVType key (now d)) \<noteq> None"
  shows "\<exists>d'. check d = (Inr (), d') \<and> contents d' (kvkey d key) = None \<and> indexVarBuf d' = indexVarBuf d"
proof -
  obtain xs n where r: "check d = (Inr (), (ttl_run d xs)\<lparr>nc := n\<rparr>)" "steps_ok xs"
    and complete: "\<And>x. contents d (fst (time_entry (indexVarBuf d) x)) \<noteq> None \<Longrightarrow> 0 \<le> sint (wtime x) \<Longrightarrow>
      sint (wtime x) \<le> sint (now d) \<Longrightarrow> x \<in> set xs"
    using check_run [OF assms(1-5)] by metis
  have "due d KVType key"
    using assms(3,6) by (simp add: due_def exp_time_def)
  moreover have "(KVType, key, now d) \<in> set xs"
    using complete [of "(KVType, key, now d)"] assms(3,7) by (simp add: wtime_def time_entry_def)
  ultimately have "removed KVType key (now d) d (ttl_run d xs)"
    using ttl_run_removes [OF assms(1) r(2) assms(3)] by blast
  then show ?thesis
    using r(1) ttl_run_ok [OF assms(1) r(2)] by (simp add: removed_def)
qed

lemma ttl_clock [simp]: "ttl_ok (db\<lparr>now := n\<rparr>) = ttl_ok db" "entries_ok (db\<lparr>now := n\<rparr>) = entries_ok db"
  "exp_when (db\<lparr>now := n\<rparr>) dt k = exp_when db dt k"
  by (simp_all add: ttl_ok_def data_good_def data_wf_def good_defs list_at_def coll_at_def zset_at_def exp_wf_def
      entries_ok_def exp_when_def)

text \<open>
  C33: A value whose expiry time is set twice, the second time later, and then removed is reported as
  persistent, but the time entry of the first expiry is still there: the check at this time takes
  the missing expiry for time 0 and deletes the value.
\<close>

theorem ttl_stale_entry_deletes:
  assumes "ttl_ok db" "entries_ok db" "key_size_ok key" "Get key db = Inr (Some v)"
    and "0 < sint d1" "sint d1 < sint d2" "0 \<le> sint (now db)" "sint (now db) + sint d2 + 3600 < 2 ^ 63"
  shows "\<exists>db1 db2 db3 db4. Expire key d1 db = (Inr 1, db1) \<and> Expire key d2 db1 = (Inr 1, db2) \<and>
    Persist key db2 = (Inr 1, db3) \<and> TTL key db3 = Inr (-1) \<and> Get key db3 = Inr (Some v) \<and>
    check (db3\<lparr>now := now db + d1\<rparr>) = (Inr (), db4) \<and> Get key db4 = Inr None"
proof -
  let ?w1 = "now db + d1" and ?w2 = "now db + d2"
  have w: "sint ?w1 = sint (now db) + sint d1" "sint ?w2 = sint (now db) + sint d2"
    using sint64_add [of "now db" d1] sint64_add [of "now db" d2] assms(5-8) by simp_all
  then have ne: "?w1 \<noteq> ?w2"
    using assms(6) by auto
  have v: "contents db (kvkey db key) = Some v"
    using assms(3,4) by (simp add: Get_ok)
  obtain db1 where 1: "Expire key d1 db = (Inr 1, db1)" "ttl_ok db1" "entries_ok db1"
      "contents db1 = (contents db)(timekey db KVType key ?w1 \<mapsto> metakey db KVType key, metakey db KVType key \<mapsto> PutInt64 ?w1)"
      "indexVarBuf db1 = indexVarBuf db" "now db1 = now db" "sint (nc db1) \<le> sint ?w1"
    using Expire_ttl [OF assms(1-3) _ assms(5)] v by (metis option.distinct(1))
  have "contents db1 (kvkey db1 key) \<noteq> None" "0 < sint d2"
    using v assms(5,6) by (simp_all add: 1(4,5))
  then obtain db2 where 2: "Expire key d2 db1 = (Inr 1, db2)" "ttl_ok db2" "entries_ok db2"
      "contents db2 = (contents db1)(timekey db KVType key ?w2 \<mapsto> metakey db KVType key, metakey db KVType key \<mapsto> PutInt64 ?w2)"
      "indexVarBuf db2 = indexVarBuf db" "sint (nc db2) \<le> sint (nc db1)"
    using Expire_ttl [OF 1(2,3) assms(3), of d2] unfolding 1(5,6) by blast
  have e: "exp_when db2 KVType key = Some ?w2"
    by (simp add: exp_when_def 2(4,5))
  obtain db3 where 3: "Persist key db2 = (Inr 1, db3)" "ttl_ok db3" "entries_ok db3"
      "contents db3 = (contents db2)(metakey db KVType key := None, timekey db KVType key ?w2 := None)"
      "indexVarBuf db3 = indexVarBuf db" "nc db3 = nc db2"
    using Persist_ttl [OF 2(2,3) assms(3)] unfolding e 2(5) by (auto simp del: fun_upd_apply)
  have x: "exp_when db3 KVType key = None" "exp_wf db3 KVType key" "contents db3 (kvkey db3 key) = Some v"
      "contents db3 (timekey db3 KVType key ?w1) \<noteq> None"
    using v ne by (simp_all add: exp_when_def exp_wf_def 1(4) 2(4) 3(4,5))
  obtain d' where d': "check (db3\<lparr>now := ?w1\<rparr>) = (Inr (), d')" "contents d' (kvkey db3 key) = None"
      "indexVarBuf d' = indexVarBuf db3"
    using check_stale [of "db3\<lparr>now := ?w1\<rparr>" key] x 3(2,3,6) 1(7) 2(6) w assms(5-8) by auto
  have "TTL key db3 = Inr (-1)" "Get key db3 = Inr (Some v)" "Get key d' = Inr None"
    using x assms(3) d'(2,3) by (simp_all add: TTL_def ttl_when Get_ok)
  then show ?thesis
    using 1(1) 2(1) 3(1) d'(1) by blast
qed

text \<open>A value that is to expire in 10, then in 20 seconds, then never, is deleted after 10 seconds.\<close>

theorem ttl_stale_entry_deletes_witness:
  "\<exists>db db1 db2 db3 db4. Set [1] [5] demo_db = (Inr (), db) \<and> Expire [1] 10 db = (Inr 1, db1) \<and>
    Expire [1] 20 db1 = (Inr 1, db2) \<and> Persist [1] db2 = (Inr 1, db3) \<and> TTL [1] db3 = Inr (-1) \<and>
    check (db3\<lparr>now := 1010\<rparr>) = (Inr (), db4) \<and> Get [1] db4 = Inr None"
proof -
  obtain db where db: "Set [1] [5] demo_db = (Inr (), db)" "ttl_inv db" "contents db = [kvkey db [1] \<mapsto> [5]]"
      "now db = 1000"
    by (rule value_db)
  have k: "key_size_ok [1]" "Get [1] db = Inr (Some [5])"
    by (simp_all add: key_size_ok_def MaxKeySize_def Get_def checkKeySize_def db(3))
  have "\<exists>db1 db2 db3 db4. Expire [1] 10 db = (Inr 1, db1) \<and> Expire [1] 20 db1 = (Inr 1, db2) \<and>
    Persist [1] db2 = (Inr 1, db3) \<and> TTL [1] db3 = Inr (-1) \<and> Get [1] db3 = Inr (Some [5]) \<and>
    check (db3\<lparr>now := now db + 10\<rparr>) = (Inr (), db4) \<and> Get [1] db4 = Inr None"
    using db(2,4) k by (intro ttl_stale_entry_deletes) (simp_all add: ttl_inv_def)
  then show ?thesis
    using db(1,4) by (simp add: eq_commute [of "1000 + 10"]) blast
qed

end
