(* ===== verification/Ledis_Replication.thy ===== *)
theory Ledis_Replication
  imports Ledis_DB
begin

text \<open>
  Replication of a database (\<open>ledis/replication.go\<close>): a replica stores the logs it is sent and
  replays the ones that are not committed yet; a master hands out the logs from an id on.

  The goroutine \<open>onReplication\<close> runs \<open>handleReplication\<close> whenever it is notified. A writer is
  a \<open>bytes.Buffer\<close>, as in the callers, which accepts everything.
\<close>

section \<open>Replaying logs\<close>

definition ReplicationUsed :: "'a Ledis_scheme \<Rightarrow> bool" where
  "ReplicationUsed l \<longleftrightarrow> rpl l \<noteq> None"

text \<open>
  One turn of the loop of \<open>handleReplication\<close>, from the roll back of the batch on. An error of
  \<open>Replay\<close> is assigned to the \<open>err\<close> of the inner scope and logged: the records before the one
  that is corrupted are committed, and the log counts as committed.
\<close>

definition replayLog :: "Log \<Rightarrow> Replication \<Rightarrow> 'a Ledis_scheme \<Rightarrow> unit res \<times> 'a Ledis_scheme" where
  "replayLog rl rp l =
     (case (if Compression rl = 1 then snappy_Decode rp (Data rl) else Inr (Data rl)) of
        Inl e \<Rightarrow> (Inl e, l)
      | Inr d \<Rightarrow>
          (case NewBatchData d of
             Inl e \<Rightarrow> (Inl e, l)
           | Inr bd \<Rightarrow>
               (case BatchData_Replay wb_Put wb_Delete bd [] of
                  (t, e) \<Rightarrow>
                    if e = Some GoPanic then (Inl GoPanic, l)
                    else
                      (case wb_Commit t l of
                         (Inl e, l) \<Rightarrow> (Inl e, l)
                       | (Inr u, l) \<Rightarrow>
                           (case r_UpdateCommitID (ID rl) rp of (x, rp) \<Rightarrow> (x, l\<lparr>rpl := Some rp\<rparr>))))))"

text \<open>The loop ends when no log is behind; a run that does not end would be \<open>None\<close>.\<close>

partial_function (option) handleReplication :: "'a Ledis_scheme \<Rightarrow> (unit res \<times> 'a Ledis_scheme) option" where
  "handleReplication l =
     (case rpl l of
        None \<Rightarrow> Some (Inl GoPanic, l)
      | Some rp \<Rightarrow>
          (case r_NextNeedCommitLog rp of
             (Inl e, rp) \<Rightarrow> Some (if e = ErrNoBehindLog then Inr () else Inl e, l\<lparr>rpl := Some rp\<rparr>)
           | (Inr rl, rp) \<Rightarrow>
               (case replayLog rl rp (l\<lparr>rpl := Some rp\<rparr>) of
                  (Inl e, l) \<Rightarrow> Some (Inl e, l)
                | (Inr u, l) \<Rightarrow> handleReplication l)))"

text \<open>
  \<open>WaitReplication\<close>: at most a hundred times the goroutine is notified, runs, and it is looked
  whether logs are still behind. The notification and the signal that the run is done are one
  synchronous run here. \<open>quit n\<close> says whether, with \<open>n\<close> more rounds to go, the \<open>select\<close> takes the
  channel that is closed when the database is closed.
\<close>

fun WaitReplication_loop ::
  "(nat \<Rightarrow> bool) \<Rightarrow> nat \<Rightarrow> 'a Ledis_scheme \<Rightarrow> (unit res \<times> 'a Ledis_scheme) option" where
  "WaitReplication_loop quit 0 l = Some (Inl (ErrOther ''wait replication too many times''), l)"
| "WaitReplication_loop quit (Suc n) l =
     (if quit n then Some (Inr (), l)
      else
     (case handleReplication l of
        None \<Rightarrow> None
      | Some (x, l) \<Rightarrow>
          (case rpl l of
             None \<Rightarrow> Some (Inl GoPanic, l)
           | Some rp \<Rightarrow>
               (case r_CommitIDBehind rp of
                  (Inl e, rp) \<Rightarrow> Some (Inl e, l\<lparr>rpl := Some rp\<rparr>)
                | (Inr b, rp) \<Rightarrow>
                    if \<not> b then Some (Inr (), l\<lparr>rpl := Some rp\<rparr>)
                    else WaitReplication_loop quit n (l\<lparr>rpl := Some rp\<rparr>)))))"

definition WaitReplication :: "(nat \<Rightarrow> bool) \<Rightarrow> 'a Ledis_scheme \<Rightarrow> (unit res \<times> 'a Ledis_scheme) option" where
  "WaitReplication quit l =
     (if \<not> ReplicationUsed l then Some (Inl ErrRplNotSupport, l) else WaitReplication_loop quit 100 l)"

section \<open>Storing the logs of a master\<close>

lemma Decode_shorter: "Decode r = Inr (l, r') \<Longrightarrow> length r' < length r"
  by (auto simp: Decode_def DecodeHead_def ReadFull_def LogHeadSize_def split: sum.splits if_splits prod.splits)

function storeLogs :: "bytes \<Rightarrow> Replication \<Rightarrow> unit res \<times> Replication" where
  "storeLogs rb rp =
     (case Decode rb of
        Inl e \<Rightarrow> if e = ErrEOF then (Inr (), rp) else (Inl e, rp)
      | Inr (l, rb') \<Rightarrow>
          (case r_StoreLog l rp of
             (Inl e, rp) \<Rightarrow> (Inl e, rp)
           | (Inr u, rp) \<Rightarrow> storeLogs rb' rp))"
  by pat_completeness auto
termination
  by (relation "measure (\<lambda>(rb, rp). length rb)") (auto dest: Decode_shorter)

declare storeLogs.simps [simp del]

definition StoreLogsFromReader :: "bytes \<Rightarrow> 'a Ledis_scheme \<Rightarrow> unit res \<times> 'a Ledis_scheme" where
  "StoreLogsFromReader rb l =
     (case rpl l of
        None \<Rightarrow> (Inl ErrRplNotSupport, l)
      | Some rp \<Rightarrow>
          if \<not> readonly l then (Inl ErrRplInRDWR, l)
          else (case storeLogs rb rp of (x, rp) \<Rightarrow> (x, l\<lparr>rpl := Some rp\<rparr>)))"

definition StoreLogsFromData :: "bytes \<Rightarrow> 'a Ledis_scheme \<Rightarrow> unit res \<times> 'a Ledis_scheme" where
  "StoreLogsFromData data l = StoreLogsFromReader data l"

section \<open>Handing out logs\<close>

definition maxReplLogSize :: nat where "maxReplLogSize = 1 * 1024 * 1024"

text \<open>The results are the size read, the next id, the error and what has been written.\<close>

record readLogs =
  rl_n :: nat
  rl_next :: u64
  rl_err :: "err option"
  rl_w :: bytes

function ReadLogsTo_loop :: "Replication \<Rightarrow> u64 \<Rightarrow> u64 \<Rightarrow> nat \<Rightarrow> u64 \<Rightarrow> bytes \<Rightarrow> readLogs" where
  "ReadLogsTo_loop rp lastID i n next w =
     (if i \<le> lastID
      then
        (case r_GetLog i rp of
           Inl e \<Rightarrow> \<lparr>rl_n = n, rl_next = next, rl_err = Some e, rl_w = w\<rparr>
         | Inr l \<Rightarrow>
             let w = w @ Encode l; next = i + 1; n' = n + Log_Size l in
             if maxReplLogSize < n' then \<lparr>rl_n = n', rl_next = next, rl_err = None, rl_w = w\<rparr>
             else ReadLogsTo_loop rp lastID (i + 1) n' next w)
      else \<lparr>rl_n = n, rl_next = next, rl_err = None, rl_w = w\<rparr>)"
  by pat_completeness auto
termination
  by (relation "measure (\<lambda>(rp, lastID, i, n, next, w). Suc maxReplLogSize - n)")
     (auto simp: Log_Size_def LogHeadSize_def)

declare ReadLogsTo_loop.simps [simp del]

definition ReadLogsTo :: "u64 \<Rightarrow> 'a Ledis_scheme \<Rightarrow> readLogs \<times> 'a Ledis_scheme" where
  "ReadLogsTo start l =
     (let fail = (\<lambda>e. \<lparr>rl_n = 0, rl_next = 0, rl_err = Some e, rl_w = []\<rparr>) in
      case rpl l of
        None \<Rightarrow> (fail ErrRplNotSupport, l)
      | Some rp \<Rightarrow>
          (case r_FirstLogID rp of
             (Inl e, rp) \<Rightarrow> (fail e, l\<lparr>rpl := Some rp\<rparr>)
           | (Inr firstID, rp) \<Rightarrow>
               if start < firstID then (fail ErrLogMissed, l\<lparr>rpl := Some rp\<rparr>)
               else
                 (case r_LastLogID rp of
                    (Inl e, rp) \<Rightarrow> (fail e, l\<lparr>rpl := Some rp\<rparr>)
                  | (Inr lastID, rp) \<Rightarrow>
                      (ReadLogsTo_loop rp lastID start 0 start [], l\<lparr>rpl := Some rp\<rparr>))))"

text \<open>
  \<open>ReadLogsToTimeout\<close>: while it waits, other commits go on. \<open>wake\<close> is what they do until the
  wait ends by a new log or the timeout, \<open>None\<close> if it ends by the quit channel.
\<close>

definition ReadLogsToTimeout ::
  "u64 \<Rightarrow> ('a Ledis_scheme \<Rightarrow> 'a Ledis_scheme) option \<Rightarrow> 'a Ledis_scheme \<Rightarrow> readLogs \<times> 'a Ledis_scheme" where
  "ReadLogsToTimeout start wake l =
     (case ReadLogsTo start l of
        (r, l) \<Rightarrow>
          if rl_err r \<noteq> None \<or> rl_n r \<noteq> 0 then (r, l)
          else case wake of None \<Rightarrow> (r, l) | Some f \<Rightarrow> ReadLogsTo start (f l))"

definition ReplicationStat :: "'a Ledis_scheme \<Rightarrow> rplStat res \<times> 'a Ledis_scheme" where
  "ReplicationStat l =
     (case rpl l of
        None \<Rightarrow> (Inl ErrRplNotSupport, l)
      | Some rp \<Rightarrow> (case r_Stat rp of (x, rp) \<Rightarrow> (x, l\<lparr>rpl := Some rp\<rparr>)))"

end
