(* ===== verification/Ledis_Replication_Laws.thy ===== *)
theory Ledis_Replication_Laws
  imports Ledis_Replication
begin

text \<open>
  What replication promises: the replay of pending logs ends and has the effect of the batches
  they carry; logs are stored in order; and a replica that is sent the logs of a master goes
  through the states the master went through.
\<close>

section \<open>Replaying\<close>

text \<open>\<open>carries dec l t\<close>: the data of the log, decompressed, is the serialised batch \<open>t\<close>.\<close>

definition carries :: "(bytes \<Rightarrow> bytes res) \<Rightarrow> Log \<Rightarrow> wop list \<Rightarrow> bool" where
  "carries dec l t \<longleftrightarrow> dumpable t \<and>
     (if Compression l = 1 then dec (Data l) else Inr (Data l)) = Inr (Dump t)"

definition commit_file_ok :: "Replication \<Rightarrow> bool" where
  "commit_file_ok rp \<longleftrightarrow> (cfgSyncLog rp = 2 \<longrightarrow> commitLog_err rp = None)"

lemma Replay_batch: "Replay wb_Put wb_Delete t s = s @ t"
proof (induction t arbitrary: s)
  case (Cons w t)
  then show ?case by (cases w) (simp_all add: wb_Put_def wb_Delete_def)
qed simp

lemma replayLog_carries:
  assumes "carries (snappy_Decode rp) rl t" and "ldb_err l = None" and "commit_file_ok rp"
  shows "\<exists>f. replayLog rl rp l =
    (Inr (), l\<lparr>ldb := wb_write t (ldb l), rpl := Some (rp\<lparr>commitID := ID rl, commitLog := f\<rparr>)\<rparr>)"
proof -
  obtain f where "r_UpdateCommitID (ID rl) rp = (Inr (), rp\<lparr>commitID := ID rl, commitLog := f\<rparr>)"
    using r_UpdateCommitID_ready assms(3) unfolding commit_file_ok_def by blast
  moreover have "dumpable t" "(if Compression rl = 1 then snappy_Decode rp (Data rl) else Inr (Data rl)) = Inr (Dump t)"
    using assms(1) by (simp_all add: carries_def)
  ultimately show ?thesis
    using assms(2)
    by (intro exI [of _ f])
       (simp add: replayLog_def NewBatchData_Dump BatchData_Replay_Dump Replay_batch wb_Commit_def)
qed

lemma replayLog_progress:
  "replayLog rl rp l = (x, l') \<Longrightarrow> rpl l = Some rp \<Longrightarrow>
     \<exists>rp'. rpl l' = Some rp' \<and> rs rp' = rs rp \<and> (\<forall>u. x = Inr u \<longrightarrow> commitID rp' = ID rl)"
  by (auto simp: replayLog_def r_UpdateCommitID_def r_updateCommitID_def wb_Commit_def
      split: sum.splits prod.splits if_splits option.splits)

lemma word_plus1_nz:
  fixes c n :: "'a :: len word"
  assumes "c < n"
  shows "c + 1 \<noteq> 0" and "unat (c + 1) = Suc (unat c)"
proof -
  show nz: "c + 1 \<noteq> 0"
  proof
    assume "c + 1 = 0"
    then have "c = - 1" by (simp add: eq_neg_iff_add_eq_0)
    with assms word_order.extremum [of n] show False by simp
  qed
  then show "unat (c + 1) = Suc (unat c)"
    using unatSuc [of c] by (simp add: add.commute)
qed

lemma r_NextNeedCommitLog_ok:
  assumes "ls_inv (rs rp)"
  shows "\<exists>s. r_NextNeedCommitLog rp =
      (if lastLogID (ls_logs (rs rp)) \<le> commitID rp then Inl ErrNoBehindLog
       else case findLog (commitID rp + 1) (ls_logs (rs rp)) of None \<Rightarrow> Inl ErrLogNotFound | Some l \<Rightarrow> Inr l,
       rp\<lparr>rs := s\<rparr>) \<and> ls_inv s \<and> ls_logs s = ls_logs (rs rp) \<and> ls_healthy s = ls_healthy (rs rp) \<and>
    ls_may_store s = ls_may_store (rs rp)"
proof -
  obtain s where s: "ls_LastID (rs rp) = (Inr (lastLogID (ls_logs (rs rp))), s)" "ls_inv s"
      "ls_logs s = ls_logs (rs rp)" "ls_healthy s = ls_healthy (rs rp)"
      "ls_may_store s = ls_may_store (rs rp)"
    using ls.LastID_ok [OF assms] by blast
  have "commitID rp + 1 \<noteq> InvalidLogID" if "\<not> lastLogID (ls_logs (rs rp)) \<le> commitID rp"
    using that word_plus1_nz(1) [of "commitID rp"] unfolding InvalidLogID_def by (simp add: not_le)
  then show ?thesis
    using s ls.GetLog_ok [OF s(2)]
    by (intro exI [of _ s]) (simp add: r_NextNeedCommitLog_def r_LastLogID_def r_GetLog_def)
qed

text \<open>The loop over the pending logs ends, whatever is in them.\<close>

lemma handleReplication_ends:
  "rpl l = Some rp \<Longrightarrow> ls_inv (rs rp) \<Longrightarrow>
     \<exists>x l' rp'. handleReplication l = Some (x, l') \<and> rpl l' = Some rp' \<and> ls_inv (rs rp')"
proof (induction "unat (lastLogID (ls_logs (rs rp))) - unat (commitID rp)" arbitrary: l rp rule: less_induct)
  case less
  obtain s where s: "r_NextNeedCommitLog rp =
      (if lastLogID (ls_logs (rs rp)) \<le> commitID rp then Inl ErrNoBehindLog
       else case findLog (commitID rp + 1) (ls_logs (rs rp)) of None \<Rightarrow> Inl ErrLogNotFound | Some l \<Rightarrow> Inr l,
       rp\<lparr>rs := s\<rparr>)" "ls_inv s" "ls_logs s = ls_logs (rs rp)"
    using r_NextNeedCommitLog_ok [OF less(3)] by blast
  show ?case
  proof (cases "\<exists>rl. \<not> lastLogID (ls_logs (rs rp)) \<le> commitID rp \<and>
      findLog (commitID rp + 1) (ls_logs (rs rp)) = Some rl")
    case False
    with s(1,2) less(2) show ?thesis
      by (subst handleReplication.simps) (auto split: option.split)
  next
    case True
    then obtain rl where rl: "\<not> lastLogID (ls_logs (rs rp)) \<le> commitID rp"
        "findLog (commitID rp + 1) (ls_logs (rs rp)) = Some rl"
      by blast
    obtain x l' where r: "replayLog rl (rp\<lparr>rs := s\<rparr>) (l\<lparr>rpl := Some (rp\<lparr>rs := s\<rparr>)\<rparr>) = (x, l')"
      by fastforce
    obtain rp' where q: "rpl l' = Some rp'" "rs rp' = s" "\<forall>u. x = Inr u \<longrightarrow> commitID rp' = commitID rp + 1"
      using replayLog_progress [OF r] findLog_Some [OF rl(2)] by auto
    show ?thesis
    proof (cases x)
      case (Inl e)
      with s(1,2) rl r q less(2) show ?thesis
        by (subst handleReplication.simps) simp
    next
      case (Inr u)
      then have p: "rpl l' = Some rp'" "rs rp' = s" "commitID rp' = commitID rp + 1"
        using q by simp_all
      have "unat (lastLogID (ls_logs (rs rp'))) - unat (commitID rp') <
          unat (lastLogID (ls_logs (rs rp))) - unat (commitID rp)"
        using word_plus1_nz(2) [of "commitID rp"] rl(1) p s(3) by (simp add: not_le word_less_nat_alt)
      from less(1) [OF this p(1)] p(2) s(2) s(1) rl r Inr less(2) show ?thesis
        by (subst handleReplication.simps) simp
    qed
  qed
qed

lemma WaitReplication_ends:
  "rpl l = Some rp \<Longrightarrow> ls_inv (rs rp) \<Longrightarrow> \<exists>y l'. WaitReplication_loop quit n l = Some (y, l')"
proof (induction n arbitrary: l rp)
  case (Suc n)
  obtain x l' rp' where h: "handleReplication l = Some (x, l')" "rpl l' = Some rp'" "ls_inv (rs rp')"
    using handleReplication_ends [OF Suc.prems] by blast
  obtain s where s: "ls_LastID (rs rp') = (Inr (lastLogID (ls_logs (rs rp'))), s)" "ls_inv s"
    using ls.LastID_ok [OF h(3)] by blast
  from Suc.IH [of "l'\<lparr>rpl := Some (rp'\<lparr>rs := s\<rparr>)\<rparr>" "rp'\<lparr>rs := s\<rparr>"] s h show ?case
    by (auto simp: r_CommitIDBehind_def r_LastLogID_def)
qed simp

text \<open>
  The state before a run: the logs \<open>ls\<close> at the end of the store are pending, the first of
  them being the one after the commit id.
\<close>

definition pending :: "Replication \<Rightarrow> Log list \<Rightarrow> bool" where
  "pending rp ls \<longleftrightarrow> (\<exists>ds. ls_logs (rs rp) = ds @ ls) \<and>
     (if ls = [] then lastLogID (ls_logs (rs rp)) \<le> commitID rp else ID (hd ls) = commitID rp + 1)"

lemma pending_Cons:
  assumes "pending rp (l # ls)" and "consecutive (ls_logs (rs rp))"
  shows "\<not> lastLogID (ls_logs (rs rp)) \<le> commitID rp"
    and "findLog (commitID rp + 1) (ls_logs (rs rp)) = Some l"
    and "rs rp' = s \<Longrightarrow> ls_logs s = ls_logs (rs rp) \<Longrightarrow> commitID rp' = ID l \<Longrightarrow> pending rp' ls"
proof -
  obtain ds where d: "ls_logs (rs rp) = ds @ l # ls" and i: "ID l = commitID rp + 1"
    using assms(1) by (auto simp: pending_def)
  show f: "findLog (commitID rp + 1) (ls_logs (rs rp)) = Some l"
    using findLog_mem [OF assms(2), of l] i d by simp
  have "ID l \<noteq> 0"
    using consecutive_nonzero [OF assms(2), of l] d by (simp add: InvalidLogID_def)
  then have "commitID rp < ID l"
    using i word_add_1_cases [of "commitID rp"] by simp
  moreover have "ID l \<le> lastLogID (ls_logs (rs rp))"
    using consecutive_last_max [OF assms(2), of l] d by simp
  ultimately show "\<not> lastLogID (ls_logs (rs rp)) \<le> commitID rp"
    by simp
  have "consecutive (l # ls)"
    using assms(2) d consecutive_append2 by metis
  then show "pending rp' ls" if "rs rp' = s" "ls_logs s = ls_logs (rs rp)" "commitID rp' = ID l"
    using that d by (cases ls) (auto simp: pending_def lastLogID_def)
qed

lemma handleReplication_replays:
  assumes "rpl l = Some rp" and "ls_inv (rs rp)" and "pending rp ls"
    and "list_all2 (carries (snappy_Decode rp)) ls ts" and "ldb_err l = None" and "commit_file_ok rp"
  shows "\<exists>s f. handleReplication l =
      Some (Inr (), l\<lparr>ldb := fold wb_write ts (ldb l),
        rpl := Some (rp\<lparr>rs := s, commitID := (if ls = [] then commitID rp else ID (last ls)), commitLog := f\<rparr>)\<rparr>) \<and>
    ls_inv s \<and> ls_logs s = ls_logs (rs rp) \<and> ls_healthy s = ls_healthy (rs rp) \<and>
    ls_may_store s = ls_may_store (rs rp)"
  using assms
proof (induction ls arbitrary: l rp ts)
  case Nil
  obtain s where "r_NextNeedCommitLog rp = (Inl ErrNoBehindLog, rp\<lparr>rs := s\<rparr>)" "ls_inv s"
      "ls_logs s = ls_logs (rs rp)" "ls_healthy s = ls_healthy (rs rp)"
      "ls_may_store s = ls_may_store (rs rp)"
    using r_NextNeedCommitLog_ok [OF Nil(2)] Nil(3) by (auto simp: pending_def)
  with Nil show ?case
    by (intro exI [of _ s] exI [of _ "commitLog rp"], subst handleReplication.simps) simp
next
  case (Cons rl ls)
  obtain t us where ts: "ts = t # us" "carries (snappy_Decode rp) rl t"
      "list_all2 (carries (snappy_Decode rp)) ls us"
    using Cons.prems(4) by (auto simp: list_all2_Cons1)
  note p = pending_Cons [OF Cons.prems(3) ls.inv_consecutive [OF Cons.prems(2)]]
  obtain s where s: "r_NextNeedCommitLog rp = (Inr rl, rp\<lparr>rs := s\<rparr>)" "ls_inv s"
      "ls_logs s = ls_logs (rs rp)" "ls_healthy s = ls_healthy (rs rp)"
      "ls_may_store s = ls_may_store (rs rp)"
    using r_NextNeedCommitLog_ok [OF Cons.prems(2)] p(1,2) by auto
  let ?l = "l\<lparr>rpl := Some (rp\<lparr>rs := s\<rparr>)\<rparr>"
  obtain f where f: "replayLog rl (rp\<lparr>rs := s\<rparr>) ?l =
      (Inr (), ?l\<lparr>ldb := wb_write t (ldb l), rpl := Some (rp\<lparr>rs := s, commitID := ID rl, commitLog := f\<rparr>)\<rparr>)"
    using replayLog_carries [of "rp\<lparr>rs := s\<rparr>" rl t ?l] ts(2) Cons.prems(5,6) by (auto simp: commit_file_ok_def)
  let ?rp = "rp\<lparr>rs := s, commitID := ID rl, commitLog := f\<rparr>"
  let ?l2 = "l\<lparr>ldb := wb_write t (ldb l), rpl := Some ?rp\<rparr>"
  have "pending ?rp ls"
    using p(3) [of ?rp s] s(3) by simp
  then obtain s' f' where "handleReplication ?l2 = Some (Inr (), ?l2\<lparr>ldb := fold wb_write us (ldb ?l2),
        rpl := Some (?rp\<lparr>rs := s', commitID := (if ls = [] then commitID ?rp else ID (last ls)), commitLog := f'\<rparr>)\<rparr>)"
      "ls_inv s'" "ls_logs s' = ls_logs (rs rp)" "ls_healthy s' = ls_healthy (rs rp)"
      "ls_may_store s' = ls_may_store (rs rp)"
    using Cons.IH [of ?l2 ?rp us] s Cons.prems(5,6) ts(3) by (auto simp: commit_file_ok_def)
  with Cons.prems(1) s(1) f ts(1) show ?case
    by (intro exI [of _ s'] exI [of _ f'], subst handleReplication.simps) simp
qed

section \<open>Storing\<close>

lemma storeLogs_appends:
  assumes "ls_inv (rs rp)" and "ls_healthy (rs rp)" and "consecutive ls" and "list_all Log_ok ls"
    and "ls \<noteq> [] \<Longrightarrow> ls_may_store (rs rp) (ID (hd ls))"
  shows "\<exists>s. storeLogs (concat (map Encode ls)) rp = (Inr (), rp\<lparr>rs := s\<rparr>) \<and>
    ls_inv s \<and> ls_healthy s \<and> ls_logs s = ls_logs (rs rp) @ ls"
  using assms
proof (induction ls arbitrary: rp)
  case Nil
  have "Decode [] = Inl ErrEOF"
    by (simp add: Decode_def DecodeHead_def ReadFull_def LogHeadSize_def)
  with Nil show ?case
    by (intro exI [of _ "rs rp"]) (simp add: storeLogs.simps)
next
  case (Cons l ls)
  have l: "Log_ok l" "ID l \<noteq> InvalidLogID"
    using Cons.prems(3,4) consecutive_nonzero by auto
  obtain s where s: "ls_StoreLog l (rs rp) = (Inr (), s)" "ls_inv s" "ls_logs s = ls_logs (rs rp) @ [l]"
      "ls_healthy s"
    using ls.StoreLog_ok [OF Cons.prems(1,2) l(1) _ l(2)] Cons.prems(5) by auto
  have "ls_may_store s (ID (hd ls))" if "ls \<noteq> []"
    using that ls.may_store_next [OF s(2)] s(3) Cons.prems(3) by (cases ls) (auto simp: lastLogID_def)
  then obtain s' where "storeLogs (concat (map Encode ls)) (rp\<lparr>rs := s\<rparr>) = (Inr (), rp\<lparr>rs := s'\<rparr>)"
      "ls_inv s'" "ls_healthy s'" "ls_logs s' = ls_logs (rs rp) @ l # ls"
    using Cons.IH [of "rp\<lparr>rs := s\<rparr>"] s Cons.prems(3,4) consecutive_tl by fastforce
  then show ?case
    using s(1) Decode_Encode [OF l(1)]
    by (intro exI [of _ s'], subst storeLogs.simps) (simp add: r_StoreLog_def)
qed

section \<open>Reading\<close>

lemma ReadLogsTo_loop_reads:
  assumes "ls_inv (rs rp)" and "ls_logs (rs rp) = ds @ ls" and "lastID = lastLogID (ls_logs (rs rp))"
    and "lastID + 1 \<noteq> 0" and "i = (if ls = [] then lastID + 1 else ID (hd ls))" and "n \<le> maxReplLogSize"
  shows "\<exists>k r. ReadLogsTo_loop rp lastID i n i w = r \<and> k \<le> length ls \<and> (ls \<noteq> [] \<longrightarrow> 0 < k) \<and>
    rl_w r = w @ concat (map Encode (take k ls)) \<and> rl_n r = n + sum_list (map Log_Size (take k ls)) \<and>
    rl_err r = None \<and> rl_next r = i + word_of_nat k \<and> (k = length ls \<or> maxReplLogSize < rl_n r)"
  using assms
proof (induction ls arbitrary: ds i n w)
  case Nil
  have "\<not> i \<le> lastID"
    using Nil(4,5) word_add_1_cases [of lastID] by auto
  then show ?case
    by (simp add: ReadLogsTo_loop.simps)
next
  case (Cons l ls)
  note c = ls.inv_consecutive [OF Cons.prems(1)]
  have i: "i = ID l" "l \<in> set (ls_logs (rs rp))"
    using Cons.prems(2,5) by simp_all
  have le: "i \<le> lastID"
    using consecutive_last_max [OF c i(2)] i(1) Cons.prems(3) by simp
  have g: "r_GetLog i rp = Inr l"
    using ls.GetLog_ok [OF Cons.prems(1), of i] findLog_mem [OF c i(2)] consecutive_nonzero [OF c i(2)] i(1)
    by (simp add: r_GetLog_def)
  let ?n = "n + Log_Size l"
  show ?case
  proof (cases "maxReplLogSize < ?n")
    case True
    with le g show ?thesis
      by (intro exI [of _ 1]) (simp add: ReadLogsTo_loop.simps [of rp lastID i])
  next
    case False
    have "i + 1 = (if ls = [] then lastID + 1 else ID (hd ls))"
    proof (cases ls)
      case Nil
      then show ?thesis using Cons.prems(2,3) i(1) by (simp add: lastLogID_def)
    next
      case (Cons m ms)
      have "consecutive (l # ls)"
        using consecutive_append2 c unfolding Cons.prems(2) .
      with Cons i(1) show ?thesis by simp
    qed
    from Cons.IH [of "ds @ [l]", OF Cons.prems(1) _ Cons.prems(3,4) this, of ?n "w @ Encode l"] False Cons.prems(2)
    obtain k r where k: "ReadLogsTo_loop rp lastID (i + 1) ?n (i + 1) (w @ Encode l) = r" "k \<le> length ls"
        "rl_w r = (w @ Encode l) @ concat (map Encode (take k ls))"
        "rl_n r = ?n + sum_list (map Log_Size (take k ls))" "rl_err r = None"
        "rl_next r = i + 1 + word_of_nat k" "k = length ls \<or> maxReplLogSize < rl_n r"
      by auto
    then have "ReadLogsTo_loop rp lastID i n i w = r"
      using le g False by (simp add: ReadLogsTo_loop.simps [of rp lastID i])
    with k show ?thesis
      by (intro exI [of _ "Suc k"] exI [of _ r]) (simp add: algebra_simps)
  qed
qed

lemma ReadLogsTo_reads:
  assumes "rpl l = Some rp" and "ls_inv (rs rp)" and "ls_logs (rs rp) = ds @ ls"
    and "lastLogID (ls_logs (rs rp)) + 1 \<noteq> 0"
    and "start = (if ls = [] then lastLogID (ls_logs (rs rp)) + 1 else ID (hd ls))"
  shows "\<exists>k r s. ReadLogsTo start l = (r, l\<lparr>rpl := Some (rp\<lparr>rs := s\<rparr>)\<rparr>) \<and> k \<le> length ls \<and> (ls \<noteq> [] \<longrightarrow> 0 < k) \<and>
    rl_w r = concat (map Encode (take k ls)) \<and> rl_n r = sum_list (map Log_Size (take k ls)) \<and>
    rl_err r = None \<and> rl_next r = start + word_of_nat k \<and> (k = length ls \<or> maxReplLogSize < rl_n r) \<and>
    ls_inv s \<and> ls_logs s = ls_logs (rs rp) \<and> ls_healthy s = ls_healthy (rs rp) \<and>
    ls_may_store s = ls_may_store (rs rp)"
proof -
  obtain s1 where s1: "ls_FirstID (rs rp) = (Inr (firstLogID (ls_logs (rs rp))), s1)" "ls_inv s1"
      "ls_logs s1 = ls_logs (rs rp)" "ls_healthy s1 = ls_healthy (rs rp)"
      "ls_may_store s1 = ls_may_store (rs rp)"
    using ls.FirstID_ok [OF assms(2)] by blast
  obtain s2 where s2: "ls_LastID s1 = (Inr (lastLogID (ls_logs (rs rp))), s2)" "ls_inv s2"
      "ls_logs s2 = ls_logs (rs rp)" "ls_healthy s2 = ls_healthy (rs rp)"
      "ls_may_store s2 = ls_may_store (rs rp)"
    using ls.LastID_ok [OF s1(2)] s1(3-5) by auto
  have c: "sorted_wrt (<) (map ID (ds @ ls))"
    using consecutive_sorted [OF ls.inv_consecutive [OF assms(2)]] assms(3) by simp
  have "firstLogID (ls_logs (rs rp)) \<le> start"
  proof (cases "ls_logs (rs rp) = []")
    case False
    have "ID (hd (ls_logs (rs rp))) \<le> lastLogID (ls_logs (rs rp))"
      using consecutive_last_max [OF ls.inv_consecutive [OF assms(2)]] hd_in_set [OF False] by blast
    with c assms(3-5) False word_add_1_cases [of "lastLogID (ls_logs (rs rp))"] show ?thesis
      by (cases ds; cases ls) (auto simp: firstLogID_def intro: less_imp_le)
  qed (simp add: firstLogID_def InvalidLogID_def)
  then have "ReadLogsTo start l =
      (ReadLogsTo_loop (rp\<lparr>rs := s2\<rparr>) (lastLogID (ls_logs (rs rp))) start 0 start [], l\<lparr>rpl := Some (rp\<lparr>rs := s2\<rparr>)\<rparr>)"
    using assms(1) s1(1) s2(1) by (simp add: ReadLogsTo_def r_FirstLogID_def r_LastLogID_def)
  moreover have "\<exists>k r. ReadLogsTo_loop (rp\<lparr>rs := s2\<rparr>) (lastLogID (ls_logs (rs rp))) start 0 start [] = r \<and>
      k \<le> length ls \<and> (ls \<noteq> [] \<longrightarrow> 0 < k) \<and>
      rl_w r = [] @ concat (map Encode (take k ls)) \<and> rl_n r = 0 + sum_list (map Log_Size (take k ls)) \<and>
      rl_err r = None \<and> rl_next r = start + word_of_nat k \<and> (k = length ls \<or> maxReplLogSize < rl_n r)"
    using assms(3-5) s2(2,3) by (intro ReadLogsTo_loop_reads [of _ ds]) simp_all
  ultimately show ?thesis
    using s2(2-5) by auto
qed

end
