(* ===== verification/Ledis_Replication_Props.thy ===== *)
theory Ledis_Replication_Props
  imports Ledis_Replication_Laws
begin

text \<open>
  A master and a replica: the batches committed on the master are the ones its logs carry, and
  a replica that is sent the logs follows the master from one commit to a later one.
\<close>

section \<open>The logs of a master\<close>

text \<open>
  \<open>loggable\<close>: the batch can be serialised, and what the compression makes of it fits in a
  log and can be decompressed.
\<close>

definition loggable :: "Replication \<Rightarrow> wop list \<Rightarrow> bool" where
  "loggable rp t \<longleftrightarrow> dumpable t \<and>
     (case rpl_payload rp (Dump t) of
        Inl e \<Rightarrow> False
      | Inr d \<Rightarrow> length d < 2 ^ 32 \<and> (cfgCompression rp \<longrightarrow> snappy_Decode rp d = Inr (Dump t)))"

lemma Commit_logs:
  assumes "writable m" and "rpl m = Some rp" and "loggable rp t" and "commitID rp + 2 \<noteq> 0"
  shows "\<exists>l s f. committed t m = m\<lparr>ldb := wb_write t (ldb m), events := events m @ [l],
        rpl := Some (rp\<lparr>rs := s, commitID := commitID rp + 1, commitLog := f\<rparr>)\<rparr> \<and>
    ls_logs s = ls_logs (rs rp) @ [l] \<and> carries (snappy_Decode rp) l t \<and> Log_ok l \<and> ID l = commitID rp + 1 \<and>
    writable (committed t m)"
proof -
  obtain d where d: "rpl_payload rp (Dump t) = Inr d" "length d < 2 ^ 32" "dumpable t"
      "cfgCompression rp \<longrightarrow> snappy_Decode rp d = Inr (Dump t)"
    using assms(3) by (auto simp: loggable_def split: sum.splits)
  have w: "rpl_ready rp" "\<not> readonly m" "ldb_err m = None" "\<forall>d. \<exists>e. rpl_payload rp d = Inr e"
    using assms(1,2) by (auto simp: writable_def)
  let ?l = "rpl_log (now m) d rp"
  obtain s where s: "r_Log (now m) (Dump t) rp = (Inr ?l, rp\<lparr>rs := s\<rparr>)" "ls_inv s" "ls_healthy s"
      "ls_logs s = ls_logs (rs rp) @ [?l]"
    using r_Log_ready [OF w(1) d(1,2)] by blast
  have "cfgSyncLog (rp\<lparr>rs := s\<rparr>) = 2 \<longrightarrow> commitLog_err (rp\<lparr>rs := s\<rparr>) = None"
    using w(1) by (simp add: rpl_ready_def)
  then obtain f where f: "r_UpdateCommitID (ID ?l) (rp\<lparr>rs := s\<rparr>) =
      (Inr (), rp\<lparr>rs := s, commitID := ID ?l, commitLog := f\<rparr>)"
    using r_UpdateCommitID_ready by blast
  have i: "ID ?l = commitID rp + 1"
    by (simp add: rpl_log_def)
  let ?rp = "rp\<lparr>rs := s, commitID := commitID rp + 1, commitLog := f\<rparr>"
  have m: "committed t m = m\<lparr>ldb := wb_write t (ldb m), events := events m @ [?l], rpl := Some ?rp\<rparr>"
    using w(2,3) assms(2) s(1) f i
    by (simp add: committed_def Commit_def handleCommit_def propagate_def wb_Commit_def)
  have "rpl_payload ?rp = rpl_payload rp"
    by (rule ext) (simp add: rpl_payload_def)
  moreover have "rpl_ready ?rp"
    using s(2-4) w(1) i assms(4) by (simp add: rpl_ready_def lastLogID_def InvalidLogID_def add.assoc)
  ultimately have "writable (committed t m)"
    using m w(2-4) by (simp add: writable_def)
  moreover have "carries (snappy_Decode rp) ?l t"
    using d(1,3,4) by (auto simp: carries_def rpl_log_def rpl_payload_def)
  ultimately show ?thesis
    using m s(4) i d(2) by (intro exI [of _ ?l] exI [of _ s] exI [of _ f]) (simp add: rpl_log_def Log_ok_def)
qed

lemma commits_log:
  assumes "writable m" and "rpl m = Some rp" and "list_all (loggable rp) ts"
    and "unat (commitID rp) + length ts + 1 < 2 ^ 64"
  shows "\<exists>ls rp'. rpl (fold committed ts m) = Some rp' \<and> ldb (fold committed ts m) = fold wb_write ts (ldb m) \<and>
    ls_logs (rs rp') = ls_logs (rs rp) @ ls \<and> list_all2 (carries (snappy_Decode rp)) ls ts \<and> list_all Log_ok ls \<and>
    (ls \<noteq> [] \<longrightarrow> ID (hd ls) = commitID rp + 1) \<and>
    commitID rp' = commitID rp + word_of_nat (length ts) \<and> snappy_Decode rp' = snappy_Decode rp \<and>
    writable (fold committed ts m)"
  using assms
proof (induction ts arbitrary: m rp)
  case Nil
  then show ?case by simp
next
  case (Cons t ts)
  have lt: "loggable rp t"
    using Cons.prems(3) by simp
  have nz: "commitID rp + 2 \<noteq> 0"
  proof
    assume "commitID rp + 2 = 0"
    then have "commitID rp = - 2"
      by (simp add: eq_neg_iff_add_eq_0)
    with Cons.prems(4) show False by simp
  qed
  obtain l s f where c: "committed t m = m\<lparr>ldb := wb_write t (ldb m), events := events m @ [l],
        rpl := Some (rp\<lparr>rs := s, commitID := commitID rp + 1, commitLog := f\<rparr>)\<rparr>"
      "ls_logs s = ls_logs (rs rp) @ [l]" "carries (snappy_Decode rp) l t" "Log_ok l" "writable (committed t m)"
      "ID l = commitID rp + 1"
    using Commit_logs [OF Cons.prems(1,2) lt nz] by blast
  let ?rp = "rp\<lparr>rs := s, commitID := commitID rp + 1, commitLog := f\<rparr>"
  have "rpl_payload ?rp = rpl_payload rp"
    by (rule ext) (simp add: rpl_payload_def)
  then have "loggable ?rp = loggable rp"
    by (intro ext) (simp add: loggable_def split: sum.split)
  then have "list_all (loggable ?rp) ts"
    using Cons.prems(3) by simp
  moreover have "unat (commitID rp + 1) = Suc (unat (commitID rp))"
    using Cons.prems(4) by (intro word_plus1_nz(2) [of _ "- 1"]) (simp add: word_less_nat_alt unsigned_minus_1_eq_mask mask_eq_exp_minus_1)
  ultimately obtain ls rp' where "rpl (fold committed ts (committed t m)) = Some rp'"
      "ldb (fold committed ts (committed t m)) = fold wb_write ts (ldb (committed t m))"
      "ls_logs (rs rp') = ls_logs s @ ls" "list_all2 (carries (snappy_Decode rp)) ls ts" "list_all Log_ok ls"
      "commitID rp' = commitID rp + 1 + word_of_nat (length ts)" "snappy_Decode rp' = snappy_Decode rp"
      "writable (fold committed ts (committed t m))"
    using Cons.IH [OF c(5), of ?rp] Cons.prems(4) c(1) by auto
  with c(1-4,6) show ?case
    by (intro exI [of _ "l # ls"] exI [of _ rp']) (simp add: add.assoc add.commute)
qed

section \<open>Following\<close>

text \<open>
  \<open>follows m s\<close>: the replica \<open>s\<close> has the data of the master \<open>m\<close>, is at its commit id, and
  its log store is ready for the next log.
\<close>

definition follows :: "'a Ledis_scheme \<Rightarrow> 'b Ledis_scheme \<Rightarrow> bool" where
  "follows m s \<longleftrightarrow>
     (case (rpl m, rpl s) of
        (Some rp, Some sp) \<Rightarrow>
          readonly s \<and> ldb_err s = None \<and> commit_file_ok sp \<and> ls_inv (rs sp) \<and> ls_healthy (rs sp) \<and>
          ldb s = ldb m \<and> commitID sp = commitID rp \<and> snappy_Decode sp = snappy_Decode rp \<and>
          lastLogID (ls_logs (rs sp)) \<le> commitID sp \<and> ls_may_store (rs sp) (commitID sp + 1)
      | _ \<Rightarrow> False)"

definition replica :: "'a Ledis_scheme \<Rightarrow> Replication \<Rightarrow> bool" where
  "replica s sp \<longleftrightarrow> rpl s = Some sp \<and> readonly s \<and> ldb_err s = None \<and> commit_file_ok sp \<and>
     ls_inv (rs sp) \<and> ls_healthy (rs sp) \<and> lastLogID (ls_logs (rs sp)) \<le> commitID sp \<and>
     ls_may_store (rs sp) (commitID sp + 1)"

lemma follows_replica:
  "follows m s \<longleftrightarrow> (\<exists>rp sp. rpl m = Some rp \<and> replica s sp \<and> ldb s = ldb m \<and> commitID sp = commitID rp \<and>
     snappy_Decode sp = snappy_Decode rp)"
  by (auto simp: follows_def replica_def split: option.splits)

lemma consecutive_range:
  "consecutive ls \<Longrightarrow> ls \<noteq> [] \<Longrightarrow> ID (last ls) + 1 = ID (hd ls) + word_of_nat (length ls)"
  by (induction ls rule: consecutive.induct) (simp_all add: algebra_simps)

text \<open>What a replica does with the next logs.\<close>

lemma replica_applies:
  assumes r: "replica s sp" and "consecutive ls" and "list_all Log_ok ls"
    and i: "ls \<noteq> [] \<longrightarrow> ID (hd ls) = commitID sp + 1" and c: "list_all2 (carries (snappy_Decode sp)) ls ts"
  shows "\<exists>s' s'' sp'. StoreLogsFromData (concat (map Encode ls)) s = (Inr (), s') \<and>
    handleReplication s' = Some (Inr (), s'') \<and> replica s'' sp' \<and> ldb s'' = fold wb_write ts (ldb s) \<and>
    commitID sp' = commitID sp + word_of_nat (length ls) \<and> snappy_Decode sp' = snappy_Decode sp"
proof -
  have p: "rpl s = Some sp" "readonly s" "ldb_err s = None" "commit_file_ok sp" "ls_inv (rs sp)"
      "ls_healthy (rs sp)" "lastLogID (ls_logs (rs sp)) \<le> commitID sp" "ls_may_store (rs sp) (commitID sp + 1)"
    using r by (simp_all add: replica_def)
  obtain t where t: "storeLogs (concat (map Encode ls)) sp = (Inr (), sp\<lparr>rs := t\<rparr>)" "ls_inv t" "ls_healthy t"
      "ls_logs t = ls_logs (rs sp) @ ls"
    using storeLogs_appends [OF p(5,6) assms(2,3)] i p(8) by auto
  have same: "t = rs sp" if "ls = []"
  proof -
    have "Decode [] = Inl ErrEOF"
      by (simp add: Decode_def DecodeHead_def ReadFull_def LogHeadSize_def)
    then have "storeLogs [] sp = (Inr (), sp)"
      by (simp add: storeLogs.simps)
    with t(1) that show ?thesis
      by (metis Pair_inject Replication.select_convs(1) Replication.surjective Replication.update_convs(1)
          concat.simps(1) list.simps(8))
  qed
  let ?s = "s\<lparr>rpl := Some (sp\<lparr>rs := t\<rparr>)\<rparr>" and ?c = "if ls = [] then commitID (sp\<lparr>rs := t\<rparr>) else ID (last ls)"
  have "pending (sp\<lparr>rs := t\<rparr>) ls"
    using t(4) p(7) i by (auto simp: pending_def)
  then obtain t' f where h: "handleReplication ?s = Some (Inr (), ?s\<lparr>ldb := fold wb_write ts (ldb s),
        rpl := Some (sp\<lparr>rs := t', commitID := ?c, commitLog := f\<rparr>)\<rparr>)"
      "ls_inv t'" "ls_logs t' = ls_logs t" "ls_healthy t'" "ls_may_store t' = ls_may_store t"
    using handleReplication_replays [of ?s "sp\<lparr>rs := t\<rparr>" ls ts] t(2,3) c p(3,4) by (auto simp: commit_file_ok_def)
  let ?sp = "sp\<lparr>rs := t', commitID := ?c, commitLog := f\<rparr>"
  let ?t = "?s\<lparr>ldb := fold wb_write ts (ldb s), rpl := Some ?sp\<rparr>"
  have id: "?c = commitID sp + word_of_nat (length ls)"
    using i consecutive_range [OF assms(2)] by (cases ls) (simp_all add: add.assoc)
  have "replica ?t ?sp"
  proof (cases "ls = []")
    case True
    with same p h t(4) show ?thesis by (auto simp: replica_def commit_file_ok_def)
  next
    case False
    then have "lastLogID (ls_logs t') = ID (last ls)"
      using h(3) t(4) by (simp add: lastLogID_def)
    with False p h(2-4) ls.may_store_next [OF h(2)] show ?thesis by (simp add: replica_def commit_file_ok_def)
  qed
  moreover have "StoreLogsFromData (concat (map Encode ls)) s = (Inr (), ?s)"
    using p(1,2) t(1) by (simp add: StoreLogsFromData_def StoreLogsFromReader_def)
  ultimately show ?thesis
    using h(1) id by (intro exI [of _ ?s] exI [of _ ?t] exI [of _ ?sp]) simp
qed

text \<open>
  C1: replication. A replica that is level with a master receives what the master hands out after
  it has committed some more batches: the replica stores it, its replay ends without an error,
  and it is then level with the master as it was after the first \<open>k\<close> of these batches; \<open>k\<close> is
  not \<open>0\<close> if there is a batch at all, and all of them are there unless the limit on the size of
  an answer was reached.
\<close>

theorem replica_follows:
  assumes "writable m" and "rpl m = Some rp" and "list_all (loggable rp) ts"
    and "unat (commitID rp) + length ts + 1 < 2 ^ 64" and "follows m s"
  shows "\<exists>k m' r s' s''. ReadLogsTo (commitID rp + 1) (fold committed ts m) = (r, m') \<and> rl_err r = None \<and>
    StoreLogsFromData (rl_w r) s = (Inr (), s') \<and> handleReplication s' = Some (Inr (), s'') \<and>
    follows (fold committed (take k ts) m) s'' \<and> (ts \<noteq> [] \<longrightarrow> 0 < k) \<and>
    (k < length ts \<longrightarrow> maxReplLogSize < rl_n r)"
proof -
  obtain sp where sp: "replica s sp" "ldb s = ldb m" "commitID sp = commitID rp" "snappy_Decode sp = snappy_Decode rp"
    using assms(2,5) by (auto simp: follows_replica)
  obtain ls rp' where m: "rpl (fold committed ts m) = Some rp'" "ls_logs (rs rp') = ls_logs (rs rp) @ ls"
      "list_all2 (carries (snappy_Decode rp)) ls ts" "list_all Log_ok ls"
      "ls \<noteq> [] \<longrightarrow> ID (hd ls) = commitID rp + 1" "writable (fold committed ts m)"
    using commits_log [OF assms(1-4)] by blast
  have y: "rpl_ready rp" "rpl_ready rp'"
    using assms(1,2) m(1,6) by (simp_all add: writable_def)
  have inv: "ls_inv (rs rp')" "lastLogID (ls_logs (rs rp')) + 1 \<noteq> 0" "commitID rp = lastLogID (ls_logs (rs rp))"
    using y unfolding rpl_ready_def InvalidLogID_def by metis+
  have "commitID rp + 1 = (if ls = [] then lastLogID (ls_logs (rs rp')) + 1 else ID (hd ls))"
    using m(2,5) inv(3) by simp
  then obtain k r t where k: "ReadLogsTo (commitID rp + 1) (fold committed ts m) =
        (r, (fold committed ts m)\<lparr>rpl := Some (rp'\<lparr>rs := t\<rparr>)\<rparr>)" "k \<le> length ls" "ls \<noteq> [] \<longrightarrow> 0 < k"
      "rl_w r = concat (map Encode (take k ls))" "rl_err r = None" "k = length ls \<or> maxReplLogSize < rl_n r"
    using ReadLogsTo_reads [OF m(1) inv(1) m(2) inv(2)] by auto
  have len: "length ls = length ts"
    using m(3) by (rule list_all2_lengthD)
  have "consecutive ls"
    using ls.inv_consecutive [OF inv(1)] m(2) consecutive_append2 by metis
  then have "consecutive (take k ls)"
    using consecutive_append1 [of "take k ls" "drop k ls"] by simp
  moreover have "list_all Log_ok (take k ls)" "list_all2 (carries (snappy_Decode sp)) (take k ls) (take k ts)"
    using m(3,4) sp(4) by (auto simp: list_all_iff dest: in_set_takeD intro: list_all2_takeI)
  moreover have "take k ls \<noteq> [] \<longrightarrow> ID (hd (take k ls)) = commitID sp + 1"
    using m(5) sp(3) by (cases ls; cases k) simp_all
  ultimately obtain s' s'' sp' where s: "StoreLogsFromData (rl_w r) s = (Inr (), s')"
      "handleReplication s' = Some (Inr (), s'')" "replica s'' sp'" "ldb s'' = fold wb_write (take k ts) (ldb s)"
      "commitID sp' = commitID sp + word_of_nat (length (take k ls))" "snappy_Decode sp' = snappy_Decode sp"
    using replica_applies [OF sp(1), of "take k ls" "take k ts"] unfolding k(4) by blast
  have below: "unat (commitID rp) + length (take k ts) + 1 < 2 ^ 64"
    using assms(4) by simp
  have "list_all (loggable rp) (take k ts)"
    using assms(3) by (auto simp: list_all_iff dest: in_set_takeD)
  then obtain rk where "rpl (fold committed (take k ts) m) = Some rk"
      "ldb (fold committed (take k ts) m) = fold wb_write (take k ts) (ldb m)"
      "commitID rk = commitID rp + word_of_nat (length (take k ts))" "snappy_Decode rk = snappy_Decode rp"
    using commits_log [OF assms(1,2), of "take k ts"] below by blast
  then have "follows (fold committed (take k ts) m) s''"
    using s(3-6) sp(2-4) len unfolding follows_replica by auto
  with k s(1,2) len show ?thesis by fastforce
qed

text \<open>A master on a goleveldb log store, and a replica of it on files.\<close>

definition demo_rpl :: "LogStore \<Rightarrow> Replication" where
  "demo_rpl st = \<lparr>rs = st, commitID = 0, commitLog = [], commitLog_err = None, cfgCompression = False,
     cfgSyncLog = 0, snappy_Encode = Inr, snappy_Decode = Inr\<rparr>"

definition demo_ledis :: "bool \<Rightarrow> LogStore \<Rightarrow> Ledis" where
  "demo_ledis ro st = \<lparr>readonly = ro, ldb = [], ldb_err = None, rpl = Some (demo_rpl st), now = 0, events = []\<rparr>"

definition demo_gs :: LogStore where
  "demo_gs = LS_GoLevelDB \<lparr>gs_db = [], gs_err = None, gs_first = 0, gs_last = 0\<rparr>"

lemma demo_gs_ok: "ls_inv demo_gs" "ls_healthy demo_gs" "ls_logs demo_gs = []"
  by (simp_all add: demo_gs_def ls_defs gs_inv_def gs_logs_def gs_healthy_def InvalidLogID_def)

lemma demo_master: "writable (demo_ledis False demo_gs)"
  using demo_gs_ok by (simp add: writable_def demo_ledis_def demo_rpl_def rpl_ready_def rpl_payload_def
      lastLogID_def InvalidLogID_def)

lemma demo_follows: "follows (demo_ledis False demo_gs) (demo_ledis True (LS_File empty_file_store))"
  by (simp add: follows_def demo_ledis_def demo_rpl_def commit_file_ok_def ls_defs lastLogID_def InvalidLogID_def
      fst_may_store_def)

theorem replica_follows_witness:
  "\<exists>m' r s' s''. ReadLogsTo 1 (committed [WPut [1] [2]] (demo_ledis False demo_gs)) = (r, m') \<and>
     StoreLogsFromData (rl_w r) (demo_ledis True (LS_File empty_file_store)) = (Inr (), s') \<and>
     handleReplication s' = Some (Inr (), s'') \<and> ldb s'' = [([1], [2])]"
proof -
  let ?m = "demo_ledis False demo_gs" and ?t = "[WPut [1] [2]]"
  have r: "rpl ?m = Some (demo_rpl demo_gs)" "commitID (demo_rpl demo_gs) = 0"
    by (simp_all add: demo_ledis_def demo_rpl_def)
  have "length (Dump ?t) = 17"
    by (simp add: Dump_def appendRec_def put_uvarint.simps)
  then have l: "list_all (loggable (demo_rpl demo_gs)) [?t]"
    by (simp add: loggable_def dumpable_def rpl_payload_def demo_rpl_def)
  have "unat (commitID (demo_rpl demo_gs)) + length [?t] + 1 < 2 ^ 64"
    using r(2) by simp
  from replica_follows [OF demo_master r(1) l this demo_follows] r(2)
  obtain k m' rl s' s'' where k: "ReadLogsTo 1 (committed ?t ?m) = (rl, m')"
      "StoreLogsFromData (rl_w rl) (demo_ledis True (LS_File empty_file_store)) = (Inr (), s')"
      "handleReplication s' = Some (Inr (), s'')" "follows (fold committed (take k [?t]) ?m) s''" "0 < k"
    by auto
  have "ldb s'' = ldb (committed ?t ?m)"
    using k(4,5) by (cases k) (auto simp: follows_replica)
  also have "\<dots> = [([1], [2])]"
    using Commit_writable [OF demo_master, of ?t] by (simp add: demo_ledis_def wb_write_def kv_put_def)
  finally show ?thesis
    using k(1-3) by blast
qed

text \<open>
  A log whose data is corrupted behind its first records: these are written, the error is only
  logged, and the log counts as committed.
\<close>

theorem replay_error_ignored:
  assumes "Compression rl = 0" and "NewBatchData (Data rl) = Inr bd"
    and "decodeRec (rLen bd) (bdata bd) batchHdrLen = (t, Some e)" and "e \<noteq> GoPanic"
    and "ldb_err l = None" and "commit_file_ok rp"
  shows "\<exists>f. replayLog rl rp l =
    (Inr (), l\<lparr>ldb := wb_write t (ldb l), rpl := Some (rp\<lparr>commitID := ID rl, commitLog := f\<rparr>)\<rparr>)"
proof -
  obtain f where "r_UpdateCommitID (ID rl) rp = (Inr (), rp\<lparr>commitID := ID rl, commitLog := f\<rparr>)"
    using r_UpdateCommitID_ready assms(6) unfolding commit_file_ok_def by blast
  with assms(1-5) show ?thesis
    by (intro exI [of _ f]) (simp add: replayLog_def BatchData_Replay_def Replay_batch wb_Commit_def)
qed

text \<open>
  C35: the replay of the pending logs ends, whatever the logs contain, and so does the wait for it,
  whether or not the database is closed in the meantime.
\<close>

theorem replication_ends:
  assumes "rpl l = Some rp" and "ls_inv (rs rp)"
  shows "(\<exists>x l'. handleReplication l = Some (x, l')) \<and> (\<exists>y l'. WaitReplication quit l = Some (y, l'))"
  using handleReplication_ends [OF assms] WaitReplication_ends [OF assms, of quit 100] assms(1)
  by (auto simp: WaitReplication_def)

theorem replication_ends_witness:
  "\<exists>y l'. WaitReplication (\<lambda>n. False) (demo_ledis True (LS_File demo_file_store)) = Some (y, l')"
  using replication_ends [of "demo_ledis True (LS_File demo_file_store)" "demo_rpl (LS_File demo_file_store)" "\<lambda>n. False"]
    demo_file_store_inv
  by (simp add: demo_ledis_def demo_rpl_def ls_defs)

end
