(* ===== verification/Ledis_Dump_Load.thy ===== *)
theory Ledis_Dump_Load
  imports Ledis_Flush_Laws Ledis_Replication_Props
begin

text \<open>
  Dumps of the whole store (\<open>ledis/dump.go\<close>): the commit id, then every entry of a snapshot
  with its key and value compressed. A full synchronisation loads the dump of a master into a
  replica, which follows the master from there on.

  \<open>enc\<close> and \<open>dec\<close> are the two functions of the snappy library. The writer accepts everything,
  and a snapshot can always be taken.
\<close>

section \<open>Dumping and loading\<close>

definition DumpHead_Write :: "u64 \<Rightarrow> bytes" where
  "DumpHead_Write c = put_be64 c"

definition DumpHead_Read :: "bytes \<Rightarrow> (u64 \<times> bytes) res" where
  "DumpHead_Read r = (case ReadFull 8 r of Inl e \<Rightarrow> Inl e | Inr (b, r) \<Rightarrow> Inr (get_be64 b, r))"

fun Dump_loop :: "(bytes \<Rightarrow> bytes res) \<Rightarrow> kvstore \<Rightarrow> bytes res" where
  "Dump_loop enc [] = Inr []"
| "Dump_loop enc ((key, value) # es) =
     (case enc key of
        Inl e \<Rightarrow> Inl e
      | Inr k \<Rightarrow>
          (case enc value of
             Inl e \<Rightarrow> Inl e
           | Inr v \<Rightarrow>
               (case Dump_loop enc es of
                  Inl e \<Rightarrow> Inl e
                | Inr w \<Rightarrow> Inr (put_be16 (word_of_nat (length k)) @ k @
                    put_be32 (word_of_nat (length v)) @ v @ w))))"

definition Ledis_Dump :: "(bytes \<Rightarrow> bytes res) \<Rightarrow> 'a Ledis_scheme \<Rightarrow> bytes res" where
  "Ledis_Dump enc l =
     (case (case rpl l of None \<Rightarrow> Inr 0 | Some rp \<Rightarrow> r_LastCommitID rp) of
        Inl e \<Rightarrow> Inl e
      | Inr c \<Rightarrow>
          (case Dump_loop enc (ldb l) of Inl e \<Rightarrow> Inl e | Inr w \<Rightarrow> Inr (DumpHead_Write c @ w)))"

text \<open>\<open>io.CopyN\<close> into a buffer.\<close>

definition CopyN :: "nat \<Rightarrow> bytes \<Rightarrow> (bytes \<times> bytes) res" where
  "CopyN n r = (if n \<le> length r then Inr (take n r, drop n r) else Inl ErrEOF)"

text \<open>The next entry and the bytes behind it; \<open>None\<close> at the end of the dump.\<close>

definition LoadDump_entry :: "(bytes \<Rightarrow> bytes res) \<Rightarrow> bytes \<Rightarrow> ((bytes \<times> bytes) \<times> bytes) option res" where
  "LoadDump_entry dec rb =
     (case ReadFull 2 rb of
        Inl e \<Rightarrow> if e \<noteq> ErrEOF then Inl e else Inr None
      | Inr (b, rb) \<Rightarrow>
          (case CopyN (get_be16 b) rb of
             Inl e \<Rightarrow> Inl e
           | Inr (keyBuf, rb) \<Rightarrow>
               (case dec keyBuf of
                  Inl e \<Rightarrow> Inl e
                | Inr key \<Rightarrow>
                    (case ReadFull 4 rb of
                       Inl e \<Rightarrow> Inl e
                     | Inr (b, rb) \<Rightarrow>
                         (case CopyN (unat (get_be32 b)) rb of
                            Inl e \<Rightarrow> Inl e
                          | Inr (valueBuf, rb) \<Rightarrow>
                              (case dec valueBuf of
                                 Inl e \<Rightarrow> Inl e
                               | Inr v \<Rightarrow> Inr (Some ((key, v), rb))))))))"

lemma LoadDump_entry_shorter: "LoadDump_entry dec rb = Inr (Some (e, rb')) \<Longrightarrow> length rb' < length rb"
  by (auto simp: LoadDump_entry_def ReadFull_def CopyN_def split: sum.splits if_splits prod.splits)

text \<open>
  The batch is committed after every 1024th entry and is not reset, so that each commit
  writes all the entries again.
\<close>

function LoadDump_loop ::
  "(bytes \<Rightarrow> bytes res) \<Rightarrow> bytes \<Rightarrow> nat \<Rightarrow> wop list \<Rightarrow> 'a Ledis_scheme \<Rightarrow> wop list res \<times> 'a Ledis_scheme" where
  "LoadDump_loop dec rb n wb l =
     (case LoadDump_entry dec rb of
        Inl e \<Rightarrow> (Inl e, l)
      | Inr None \<Rightarrow> (Inr wb, l)
      | Inr (Some ((key, v), rb)) \<Rightarrow>
          let wb = wb_Put key v wb; n = n + 1 in
          if n mod 1024 = 0
          then (case wb_Commit wb l of
                  (Inl e, l) \<Rightarrow> (Inl e, l)
                | (Inr u, l) \<Rightarrow> LoadDump_loop dec rb n wb l)
          else LoadDump_loop dec rb n wb l)"
  by pat_completeness auto
termination
  by (relation "measure (\<lambda>(dec, rb, n, wb, l). length rb)") (auto dest: LoadDump_entry_shorter)

declare LoadDump_loop.simps [simp del]

definition LoadDump :: "(bytes \<Rightarrow> bytes res) \<Rightarrow> bytes \<Rightarrow> 'a Ledis_scheme \<Rightarrow> u64 res \<times> 'a Ledis_scheme" where
  "LoadDump dec r l =
     (case flushAll l of
        (Inl e, l) \<Rightarrow> (Inl e, l)
      | (Inr u, l) \<Rightarrow>
          (case DumpHead_Read r of
             Inl e \<Rightarrow> (Inl e, l)
           | Inr (h, rb) \<Rightarrow>
               (case LoadDump_loop dec rb 0 [] l of
                  (Inl e, l) \<Rightarrow> (Inl e, l)
                | (Inr wb, l) \<Rightarrow>
                    (case wb_Commit wb l of
                       (Inl e, l) \<Rightarrow> (Inl e, l)
                     | (Inr u, l) \<Rightarrow>
                         (case rpl l of
                            None \<Rightarrow> (Inr h, l)
                          | Some rp \<Rightarrow>
                              (case r_UpdateCommitID h rp of
                                 (Inl e, rp) \<Rightarrow> (Inl e, l\<lparr>rpl := Some rp\<rparr>)
                               | (Inr u, rp) \<Rightarrow> (Inr h, l\<lparr>rpl := Some rp\<rparr>)))))))"

section \<open>What is dumped is what is loaded\<close>

text \<open>\<open>packs\<close>: the compressed form of a string fits its length field and can be decompressed.\<close>

definition packs :: "(bytes \<Rightarrow> bytes res) \<Rightarrow> (bytes \<Rightarrow> bytes res) \<Rightarrow> nat \<Rightarrow> bytes \<Rightarrow> bool" where
  "packs enc dec lim x = (case enc x of Inl e \<Rightarrow> False | Inr y \<Rightarrow> length y < lim \<and> dec y = Inr x)"

definition packable :: "(bytes \<Rightarrow> bytes res) \<Rightarrow> (bytes \<Rightarrow> bytes res) \<Rightarrow> kvstore \<Rightarrow> bool" where
  "packable enc dec es \<longleftrightarrow> list_all (\<lambda>(k, v). packs enc dec (2 ^ 16) k \<and> packs enc dec (2 ^ 32) v) es"

definition puts :: "kvstore \<Rightarrow> wop list" where
  "puts es = map (\<lambda>(k, v). WPut k v) es"

lemma ReadFull_take: "length xs = n \<Longrightarrow> ReadFull n (xs @ ys) = Inr (xs, ys)"
  by (simp add: ReadFull_def)

lemma CopyN_append: "length xs = n \<Longrightarrow> CopyN n (xs @ ys) = Inr (xs, ys)"
  by (simp add: CopyN_def)

lemma LoadDump_entry_Cons:
  assumes "dec k = Inr key" and "dec v = Inr val" and "length k < 2 ^ 16" and "length v < 2 ^ 32"
  shows "LoadDump_entry dec (put_be16 (word_of_nat (length k)) @ k @ put_be32 (word_of_nat (length v)) @ v @ w) =
    Inr (Some ((key, val), w))"
proof -
  have "get_be16 (put_be16 (word_of_nat (length k))) = length k"
    using get_put_be16 [of _ "[]"] assms(3) by (simp add: unsigned_of_nat take_bit_nat_eq_self)
  moreover have "unat (get_be32 (put_be32 (word_of_nat (length v)))) = length v"
    using get_put_be32 [of _ "[]"] assms(4) by (simp add: unsigned_of_nat take_bit_nat_eq_self)
  ultimately show ?thesis
    using assms(1,2) by (simp add: LoadDump_entry_def ReadFull_take CopyN_append)
qed

lemma LoadDump_entry_Nil: "LoadDump_entry dec [] = Inr None"
  by (simp add: LoadDump_entry_def ReadFull_def)

lemma wb_effect_load: "wb_effect (puts es) m = m ++ map_of (rev es)"
  by (induction es arbitrary: m) (auto simp: puts_def)

text \<open>
  The entries written so far are some of those of the dump, so that writing all of them gives
  the dump whatever has been committed on the way.
\<close>

lemma write_puts:
  assumes "kv_ok es" and "kv_ok s" and "kv_get s \<subseteq>\<^sub>m kv_get es"
  shows "wb_write (puts es) s = es"
proof (rule kv_ok_ext)
  have "map_of (rev es) = map_of es"
    using kv_ok_distinct [OF assms(1)] by (rule map_of_rev_distinct)
  then show "kv_get (wb_write (puts es) s) = kv_get es"
    using assms(3) unfolding kv_get_write wb_effect_load kv_get_def by (simp add: map_add_subsumed1)
qed (use assms kv_ok_write in auto)

lemma write_some_puts:
  assumes "kv_ok (es @ fs)" and "kv_ok s" and "kv_get s \<subseteq>\<^sub>m kv_get (es @ fs)"
  shows "kv_ok (wb_write (puts es) s)" and "kv_get (wb_write (puts es) s) \<subseteq>\<^sub>m kv_get (es @ fs)"
proof -
  have d: "distinct (map fst (es @ fs))"
    using assms(1) by (rule kv_ok_distinct)
  then have "map_of (rev es) = map_of es"
    by (intro map_of_rev_distinct) simp
  then show "kv_get (wb_write (puts es) s) \<subseteq>\<^sub>m kv_get (es @ fs)"
    using assms(3) unfolding kv_get_write wb_effect_load kv_get_def map_of_append
    by (simp add: map_add_le_mapI)
qed (use assms kv_ok_write in auto)

lemma LoadDump_loop_loads:
  fixes l :: "'a Ledis_scheme"
  assumes "packable enc dec es" and "Dump_loop enc es = Inr w" and "kv_ok (ds @ es)" and "ldb_err l = None"
    and "kv_ok (ldb l)" and "kv_get (ldb l) \<subseteq>\<^sub>m kv_get (ds @ es)"
  shows "\<exists>s. LoadDump_loop dec w n (puts ds) l = (Inr (puts (ds @ es)), l\<lparr>ldb := s\<rparr>) \<and>
    kv_ok s \<and> kv_get s \<subseteq>\<^sub>m kv_get (ds @ es)"
  using assms
proof (induction es arbitrary: w ds n l)
  case Nil
  then show ?case
    by (intro exI [of _ "ldb l"]) (simp add: LoadDump_loop.simps LoadDump_entry_Nil)
next
  case (Cons e es)
  obtain key val where e: "e = (key, val)" by fastforce
  obtain k v w' where d: "enc key = Inr k" "enc val = Inr v" "Dump_loop enc es = Inr w'"
      "w = put_be16 (word_of_nat (length k)) @ k @ put_be32 (word_of_nat (length v)) @ v @ w'"
    using Cons.prems(2) e by (auto split: sum.splits)
  have p: "dec k = Inr key" "dec v = Inr val" "length k < 2 ^ 16" "length v < 2 ^ 32" "packable enc dec es"
    using Cons.prems(1) d(1,2) e by (simp_all add: packable_def packs_def)
  have en: "LoadDump_entry dec w = Inr (Some ((key, val), w'))"
    unfolding d(4) using p(1-4) by (rule LoadDump_entry_Cons)
  have wb: "wb_Put key val (puts ds) = puts (ds @ [e])"
    by (simp add: wb_Put_def puts_def e)
  have ok: "kv_ok ((ds @ [e]) @ es)" and sub: "kv_get (ldb l) \<subseteq>\<^sub>m kv_get ((ds @ [e]) @ es)"
    using Cons.prems(3,6) by simp_all
  have IH: "\<exists>s. LoadDump_loop dec w' m (puts (ds @ [e])) l' = (Inr (puts ((ds @ [e]) @ es)), l'\<lparr>ldb := s\<rparr>) \<and>
      kv_ok s \<and> kv_get s \<subseteq>\<^sub>m kv_get ((ds @ [e]) @ es)"
    if "ldb_err l' = None" "kv_ok (ldb l')" "kv_get (ldb l') \<subseteq>\<^sub>m kv_get ((ds @ [e]) @ es)"
    for m and l' :: "'a Ledis_scheme"
    using Cons.IH [OF p(5) d(3) ok that] .
  show ?case
  proof (cases "Suc n mod 1024 = 0")
    case False
    with IH [OF Cons.prems(4,5) sub, of "Suc n"] en wb show ?thesis
      by (simp add: LoadDump_loop.simps [of dec w])
  next
    case True
    let ?l = "l\<lparr>ldb := wb_write (puts (ds @ [e])) (ldb l)\<rparr>"
    have "wb_Commit (puts (ds @ [e])) l = (Inr (), ?l)"
      using Cons.prems(4) by (simp add: wb_Commit_def)
    with True IH [of ?l "Suc n"] write_some_puts [OF ok Cons.prems(5) sub] Cons.prems(4) en wb show ?thesis
      by (simp add: LoadDump_loop.simps [of dec w] Let_def)
  qed
qed

lemma Dump_loop_packable: "packable enc dec es \<Longrightarrow> \<exists>w. Dump_loop enc es = Inr w"
proof (induction es)
  case (Cons e es)
  then show ?case
    by (cases e) (auto simp: packable_def packs_def split: sum.splits)
qed simp

definition dump_id :: "'a Ledis_scheme \<Rightarrow> u64" where
  "dump_id m = (case rpl m of None \<Rightarrow> 0 | Some rp \<Rightarrow> commitID rp)"

definition replica_store_ok :: "Replication \<Rightarrow> bool" where
  "replica_store_ok sp \<longleftrightarrow> ls_inv (rs sp) \<and> ls_healthy (rs sp) \<and> commitLog_err sp = None"

text \<open>Into a store without replication, and into one with it, whose log is cleared.\<close>

lemma LoadDump_Dump:
  fixes m :: "'m Ledis_scheme" and s :: "'a Ledis_scheme"
  assumes "packable enc dec (ldb m)" and "kv_ok (ldb m)" and "ldb_err s = None"
    and "\<forall>sp. rpl s = Some sp \<longrightarrow> replica_store_ok sp"
  shows "\<exists>d s'. Ledis_Dump enc m = Inr d \<and> LoadDump dec d s = (Inr (dump_id m), s') \<and>
    (case rpl s of
       None \<Rightarrow> s' = s\<lparr>ldb := ldb m\<rparr>
     | Some sp \<Rightarrow> \<exists>t f. ls_Clear (rs sp) = (Inr (), t) \<and>
         s' = s\<lparr>ldb := ldb m, rpl := Some (sp\<lparr>rs := t, commitID := dump_id m, commitLog := f\<rparr>)\<rparr>)"
proof -
  obtain w where w: "Dump_loop enc (ldb m) = Inr w"
    using Dump_loop_packable [OF assms(1)] by blast
  then have d: "Ledis_Dump enc m = Inr (DumpHead_Write (dump_id m) @ w)"
    by (simp add: Ledis_Dump_def dump_id_def r_LastCommitID_def split: option.split)
  have h: "DumpHead_Read (DumpHead_Write (dump_id m) @ w) = Inr (dump_id m, w)"
    using get_put_be64 [of _ "[]"] by (simp add: DumpHead_Read_def DumpHead_Write_def ReadFull_take)
  have l: "\<exists>t. LoadDump_loop dec w 0 [] l = (Inr (puts (ldb m)), l\<lparr>ldb := t\<rparr>) \<and> wb_write (puts (ldb m)) t = ldb m"
    if e: "ldb_err l = None" "ldb l = []" for l :: "'a Ledis_scheme"
  proof -
    have "puts [] = []" "kv_get [] = Map.empty"
      by (simp_all add: puts_def kv_get_def fun_eq_iff)
    then obtain t where t: "LoadDump_loop dec w 0 [] l = (Inr (puts (ldb m)), l\<lparr>ldb := t\<rparr>)" "kv_ok t"
        "kv_get t \<subseteq>\<^sub>m kv_get (ldb m)"
      using LoadDump_loop_loads [OF assms(1) w, of "[]" l 0] e assms(2) by auto
    with write_puts [OF assms(2) t(2,3)] show ?thesis by blast
  qed
  show ?thesis
  proof (cases "rpl s")
    case None
    have "flushAll s = (Inr (), s\<lparr>ldb := []\<rparr>)"
      using flushAll_clears [OF assms(3)] None by simp
    with l [of "s\<lparr>ldb := []\<rparr>"] d h None assms(3) show ?thesis
      by (auto simp: LoadDump_def wb_Commit_def)
  next
    case (Some sp)
    then have sp: "ls_inv (rs sp)" "ls_healthy (rs sp)" "commitLog_err sp = None"
      using assms(4) by (simp_all add: replica_store_ok_def)
    obtain t where t: "ls_Clear (rs sp) = (Inr (), t)"
      using ls_Clear_ok [OF sp(1,2)] by blast
    let ?sp = "sp\<lparr>rs := t, commitID := 0, commitLog := put_be64 0 @ drop 8 (commitLog sp)\<rparr>"
    have c: "r_Clear sp = (Inr (), ?sp)"
      using t sp(3) by (simp add: r_Clear_def r_ClearWithCommitID_def r_updateCommitID_def)
    let ?s = "s\<lparr>ldb := [], rpl := Some ?sp\<rparr>"
    have "flushAll s = (Inr (), ?s)"
      using flushAll_clears [OF assms(3)] Some c by simp
    moreover obtain g where "r_UpdateCommitID (dump_id m) ?sp =
        (Inr (), ?sp\<lparr>commitID := dump_id m, commitLog := g\<rparr>)"
      using r_UpdateCommitID_ready [of ?sp] sp(3) by auto
    moreover obtain u where "LoadDump_loop dec w 0 [] ?s = (Inr (puts (ldb m)), ?s\<lparr>ldb := u\<rparr>)"
        "wb_write (puts (ldb m)) u = ldb m"
      using l [of ?s] assms(3) by auto
    ultimately show ?thesis
      using d h t Some assms(3)
      by (intro exI [of _ "DumpHead_Write (dump_id m) @ w"]) (auto simp: LoadDump_def wb_Commit_def)
  qed
qed

section \<open>Properties\<close>

text \<open>
  C7: full synchronisation. Loading the dump of a master into a replica on the file log store
  succeeds and gives back the commit id of the master; whatever the replica and its log held
  before, it is then level with the master and can go on with the logs that follow. (The
  compressed keys and values fit their length fields and can be decompressed.)
\<close>

theorem full_sync:
  assumes "packable enc dec (ldb m)" and "kv_ok (ldb m)" and "rpl m = Some rp"
    and "ldb_err s = None" and "readonly s" and "rpl s = Some sp" and "rs sp = LS_File f"
    and "replica_store_ok sp" and "snappy_Decode sp = snappy_Decode rp"
  shows "\<exists>d s'. Ledis_Dump enc m = Inr d \<and> LoadDump dec d s = (Inr (commitID rp), s') \<and> follows m s'"
proof -
  have "\<forall>sp. rpl s = Some sp \<longrightarrow> replica_store_ok sp"
    using assms(6,8) by simp
  from LoadDump_Dump [OF assms(1,2,4) this]
  obtain d t g where d: "Ledis_Dump enc m = Inr d" "ls_Clear (rs sp) = (Inr (), t)"
      "LoadDump dec d s = (Inr (commitID rp),
         s\<lparr>ldb := ldb m, rpl := Some (sp\<lparr>rs := t, commitID := commitID rp, commitLog := g\<rparr>)\<rparr>)"
    using assms(3,6) by (auto simp: dump_id_def)
  have t: "ls_inv t" "ls_healthy t" "ls_logs t = []"
    using ls_Clear_ok [of "rs sp"] assms(8) d(2) by (auto simp: replica_store_ok_def)
  moreover have "ls_may_store t i" for i
    using t(3) assms(7) d(2) by (cases t; cases "fst_Clear f") (auto simp: ls_may_store_def fst_may_store_def ls_logs_def ls_Clear_def)
  ultimately show ?thesis
    using d(1,3) assms
    by (auto simp: follows_replica replica_def replica_store_ok_def commit_file_ok_def lastLogID_def InvalidLogID_def)
qed

text \<open>
  C34: full synchronisation on the goleveldb log store. The same load leaves a log store that is
  empty and accepts nothing but the log with id \<open>1\<close>: unless the master was at commit \<open>0\<close>, the
  replica refuses the next log of the master, and every later one.
\<close>

theorem full_sync_goleveldb_stuck:
  assumes "packable enc dec (ldb m)" and "kv_ok (ldb m)" and "rpl m = Some rp" and "commitID rp \<noteq> 0"
    and "ldb_err s = None" and "readonly s" and "rpl s = Some sp" and "rs sp = LS_GoLevelDB g"
    and "replica_store_ok sp" and "Log_ok l" and "commitID rp < ID l"
  shows "\<exists>d s' s''. Ledis_Dump enc m = Inr d \<and> LoadDump dec d s = (Inr (commitID rp), s') \<and>
    ldb s' = ldb m \<and> StoreLogsFromData (Encode l @ rest) s' = (Inl ErrStoreLogID, s'') \<and> ldb s'' = ldb m"
proof -
  have "\<forall>sp. rpl s = Some sp \<longrightarrow> replica_store_ok sp"
    using assms(7,9) by simp
  from LoadDump_Dump [OF assms(1,2,5) this]
  obtain d t f where d: "Ledis_Dump enc m = Inr d" "ls_Clear (rs sp) = (Inr (), t)"
      "LoadDump dec d s = (Inr (commitID rp),
         s\<lparr>ldb := ldb m, rpl := Some (sp\<lparr>rs := t, commitID := commitID rp, commitLog := f\<rparr>)\<rparr>)"
    using assms(3,7) by (auto simp: dump_id_def)
  let ?sp = "sp\<lparr>rs := t, commitID := commitID rp, commitLog := f\<rparr>"
  obtain h where h: "t = LS_GoLevelDB h" "gs_inv h" "gs_logs h = []"
    using ls_Clear_ok [of "rs sp"] assms(8,9) d(2)
    by (cases t; cases "gs_Clear g") (auto simp: replica_store_ok_def ls_inv_def ls_logs_def ls_Clear_def)
  have "1 \<le> commitID rp"
    using assms(4) by (simp add: word_le_nat_alt unat_gt_0 Suc_leI)
  then have "ID l \<noteq> lastLogID (gs_logs h) + 1"
    using assms(11) h(3) by (auto simp: lastLogID_def InvalidLogID_def)
  then obtain h' where "gs_StoreLog l h = (Inl ErrStoreLogID, h')"
    using gs_StoreLog_reject [OF h(2)] by blast
  then have "storeLogs (Encode l @ rest) ?sp = (Inl ErrStoreLogID, ?sp\<lparr>rs := LS_GoLevelDB h'\<rparr>)"
    using h(1) Decode_Encode [OF assms(10)]
    by (subst storeLogs.simps) (simp add: r_StoreLog_def ls_StoreLog_def)
  with d(1,3) assms(6) show ?thesis
    by (simp add: StoreLogsFromData_def StoreLogsFromReader_def)
qed

text \<open>Witnesses: a master at commit \<open>3\<close> with one entry, and a compression that changes nothing.\<close>

definition dump_master :: Ledis where
  "dump_master = (demo_ledis False demo_gs)\<lparr>ldb := [([0, 4, 9], [7])],
     rpl := Some ((demo_rpl demo_gs)\<lparr>commitID := 3\<rparr>)\<rparr>"

lemma dump_master_simps:
  "ldb dump_master = [([0, 4, 9], [7])]" "rpl dump_master = Some ((demo_rpl demo_gs)\<lparr>commitID := 3\<rparr>)"
  "packable Inr Inr (ldb dump_master)" "kv_ok (ldb dump_master)"
  by (simp_all add: dump_master_def demo_ledis_def packable_def packs_def kv_ok_def)

theorem full_sync_witness:
  "\<exists>d s'. Ledis_Dump Inr dump_master = Inr d \<and>
     LoadDump Inr d (demo_ledis True (LS_File demo_file_store)) = (Inr 3, s') \<and> follows dump_master s'"
proof -
  let ?sp = "demo_rpl (LS_File demo_file_store)"
  have "replica_store_ok ?sp"
    using demo_file_store_inv by (simp add: replica_store_ok_def demo_rpl_def ls_defs)
  then have "\<exists>d s'. Ledis_Dump Inr dump_master = Inr d \<and>
      LoadDump Inr d (demo_ledis True (LS_File demo_file_store)) =
        (Inr (commitID ((demo_rpl demo_gs)\<lparr>commitID := 3\<rparr>)), s') \<and> follows dump_master s'"
    by (intro full_sync [OF dump_master_simps(3,4,2), where sp = ?sp and f = demo_file_store])
       (simp_all add: demo_ledis_def demo_rpl_def)
  then show ?thesis by simp
qed

theorem full_sync_goleveldb_stuck_witness:
  "\<exists>d s' s''. Ledis_Dump Inr dump_master = Inr d \<and>
     LoadDump Inr d (demo_ledis True demo_gs) = (Inr 3, s') \<and> ldb s' = ldb dump_master \<and>
     StoreLogsFromData (Encode (flog 4)) s' = (Inl ErrStoreLogID, s'')"
proof -
  let ?sp = "demo_rpl demo_gs"
  have "replica_store_ok ?sp"
    using demo_gs_ok by (simp add: replica_store_ok_def demo_rpl_def)
  then have "\<exists>d s' s''. Ledis_Dump Inr dump_master = Inr d \<and> LoadDump Inr d (demo_ledis True demo_gs) =
        (Inr (commitID (?sp\<lparr>commitID := 3\<rparr>)), s') \<and> ldb s' = ldb dump_master \<and>
      StoreLogsFromData (Encode (flog 4) @ []) s' = (Inl ErrStoreLogID, s'') \<and> ldb s'' = ldb dump_master"
    by (intro full_sync_goleveldb_stuck [OF dump_master_simps(3,4,2), where sp = ?sp])
       (simp_all add: demo_ledis_def demo_rpl_def demo_gs_def flog_def Log_ok_def)
  then show ?thesis by auto
qed

end
