(* ===== verification/Spec2Isabelle.thy ===== *)
theory Spec2Isabelle
  imports Ledis_BitCount_Laws Ledis_TTL_Props Ledis_Dump_Load
begin

text \<open>
  LedisDB is a server for Redis-like data types on top of an ordered key-value store. This
  development models its library, the packages \<open>store\<close>, \<open>ledis\<close> and \<open>rpl\<close> under \<open>src/\<close>, and
  proves what the operations do, what they keep invariant and where they go wrong.

  \<^bold>\<open>The parts and how they interact.\<close> All data of all databases live in one ordered map from byte
  strings to byte strings. The codec lays out the data types in this key space; an operation of
  a data type reads the map, builds a batch of puts and deletes and commits it. With
  replication, a commit first appends the serialised batch as a log to a log store, then writes
  the batch, then moves the commit id. A replica is sent these logs, stores them and replays
  them; a replica that is too far behind loads a dump of the whole store first. Data with a time
  to live are removed by a check that runs in the background.

  \<^bold>\<open>Conventions.\<close> A Go \<open>[]byte\<close> is a list of 8-bit words. A result with an error is a value of
  \<open>err + 'a\<close>; a run-time panic is the error \<open>GoPanic\<close>. Operations take the state as the last
  argument and return it next to their result. Sequence numbers, scores, counters, times and log
  ids are words of the width the code has, so that they wrap around as there. Code that is not
  read here is an argument: the snappy compression (\<open>snappy_Encode\<close>, \<open>snappy_Decode\<close>, \<open>enc\<close>,
  \<open>dec\<close>), the compilation of regular expressions (\<open>compile\<close>), and the order in which Go iterates
  over a map (\<open>ord\<close>). What is assumed of them is a hypothesis of the theorem that needs it:
  what was compressed is decompressed again (\<open>loggable\<close>, \<open>packable\<close>), and an iteration order is a
  permutation. The time is a field of the state.

  \<^bold>\<open>Storage.\<close> \<open>Ledis_Prelude\<close> has bytes, errors, the binary and decimal formats of Go's standard
  library and generic lemmas. \<open>Ledis_Store\<close> models \<open>store/db.go\<close>, \<open>store/writebatch.go\<close>,
  \<open>store/iterator.go\<close> and the goleveldb driver: the database is its list of entries in key order.
  It shows that the range-limit iterators visit exactly the entries of their range; the locales
  \<open>batch_replay\<close> and \<open>kv_driver\<close> are the contract of a batch receiver and of a database.
  \<open>Store_BatchData\<close> models the serialised batch and shows that it is read back.

  \<^bold>\<open>Log stores and replication.\<close> \<open>Rpl_Log\<close> models the log record (\<open>rpl/log.go\<close>) with its round trip,
  and the locale \<open>log_store\<close> is the interface of \<open>rpl/store.go\<close>: logs with consecutive ids, found by
  their id, appended at the end. \<open>Rpl_GoLevelDBStore\<close> models the store on goleveldb
  (\<open>rpl/goleveldb_store.go\<close>). \<open>Rpl_FileIO\<close>, \<open>Rpl_FileTable\<close> and \<open>Rpl_FileStore\<close> model the store on
  files (\<open>rpl/file_io.go\<close>, \<open>rpl/file_table.go\<close>, \<open>rpl/file_store.go\<close>) down to the bytes of the files,
  memory mapped or not; \<open>Rpl_FileTable_Laws\<close>, \<open>Rpl_FileRepair\<close>, \<open>Rpl_FileStore_Laws\<close> and
  \<open>Rpl_FileStore_Props\<close> show that it keeps the contract and is recovered after a crash.
  \<open>Rpl_Replication\<close> is the object of \<open>rpl/rpl.go\<close> on either store. \<open>Ledis_Replication\<close> models
  \<open>ledis/replication.go\<close>; its laws and properties show that the replay ends and that a replica
  goes through the states of the master. \<open>Ledis_Dump_Load\<close> models \<open>ledis/dump.go\<close> and shows that a
  full synchronisation makes a replica level with its master on the file store, and leaves it
  stuck on the goleveldb store.

  \<^bold>\<open>Layout and commits.\<close> \<open>Ledis_Codec\<close> and \<open>Ledis_Codec_Laws\<close> are the encoders and decoders of keys
  (\<open>ledis/const.go\<close>, \<open>ledis/util.go\<close> and those of the data types): different data never share a
  key, and the keys of a collection fill a range in the order of its items. \<open>Ledis_DB\<close> has the state
  (\<open>Ledis\<close>, \<open>DB\<close>), the commit (\<open>ledis/batch.go\<close>) and the setting of times to live. \<open>Ledis_Own\<close> says
  which entries belong to which datum: every operation acts on the data it names and keeps the
  database well formed (\<open>db_ok\<close>); its locale \<open>step_refinement\<close> lifts the refinement of single
  operations to sequences of them.

  \<^bold>\<open>Data types.\<close> \<open>Ledis_KV\<close>, \<open>Ledis_KV_Bits\<close> (\<open>ledis/t_kv.go\<close>), \<open>Ledis_List\<close> (\<open>ledis/t_list.go\<close>),
  \<open>Ledis_Hash\<close> (\<open>ledis/t_hash.go\<close>), \<open>Ledis_Set\<close> (\<open>ledis/t_set.go\<close>) and \<open>Ledis_ZSet\<close>
  (\<open>ledis/t_zset.go\<close>) hold the operations. The theories with \<open>_Laws\<close> describe each operation by its
  answer and the change of the represented value, those with \<open>_Props\<close> sequences of them (on one
  key of a database without replication, for the operations and under the side conditions their
  text blocks name): a list is a double-ended queue, a hash a finite map, a set a finite set and a sorted set a map from
  members to scores listed by score. \<open>Ledis_Collection\<close> has the locale \<open>sized_collection\<close> that
  hashes, sets and sorted sets share, \<open>Ledis_ZSet_Write\<close> and \<open>Ledis_ZSet_Combine\<close> the writes and the
  stored unions and intersections of sorted sets, \<open>Ledis_KV_Acts\<close> that the operations on values
  act on the values they name, \<open>Ledis_BitCount_Laws\<close> the bit counts.

  \<^bold>\<open>Across the types.\<close> \<open>Ledis_Scan\<close> models \<open>ledis/scan.go\<close>; the locale \<open>scan_range\<close> of its laws gives the answer
  of every scan. \<open>Ledis_Flush\<close> models the flushes of \<open>ledis/ledis_db.go\<close> and \<open>ledis/ledis.go\<close> and the
  check of \<open>ledis/t_ttl.go\<close>; the locales \<open>datum_type\<close> and \<open>expiring_type\<close> are what the flush and the
  check rely on, and the five types satisfy them. \<open>Ledis_Flush_Laws\<close>, \<open>Ledis_TTL_Laws\<close> and
  \<open>Ledis_TTL_Props\<close> show that a flush empties a database and that the check misses no expiry.

  \<^bold>\<open>Limits and loops.\<close> A list may be pushed \<open>2 ^ 30 - 1001\<close> elements, which is how many always fit
  between the initial and the outermost sequence numbers; collections have fewer than \<open>2 ^ 63\<close> items, the range of their
  size entry. Loops are recursive functions with a termination proof. Two may run on: the flush
  of a type, which has a bound on its rounds (the number of data and one more is enough when the
  data are well formed, and no number is when a sorted set has lost count of its members,
  \<open>zset_flush_diverges\<close>), and \<open>handleReplication\<close>, a partial function that is shown to return.

  \<^bold>\<open>What the code does wrong\<close> is stated as theorems too: a command that names a field twice
  miscounts, an increment by \<open>0\<close> loses the score key of a member, \<open>ZRemRangeByLex\<close> leaves the score keys, a
  stale time entry deletes a persistent value, an empty result of a stored union leaves an empty
  collection, a torn log record is taken for complete, and others.

  \<^bold>\<open>Not modelled.\<close> The server (\<open>server/\<close>: network, command dispatch, replies, Lua scripts), the
  configuration, the command line tools and the bindings to other backends are I/O or glue around the
  library. Sorting (\<open>ledis/sort.go\<close>) compares parsed floating point numbers with an unstable
  sort; key migration (\<open>ledis/migrate.go\<close>) uses a library for the RDB format; \<open>ledis/event.go\<close>
  formats logs for display. The blocking pops of lists wait for other clients. Locks, handles,
  statistics, syncing to disk and log messages have no counterpart: an operation is one step.
\<close>

end
